(* ===== verification/Prelude.thy ===== *)
theory Prelude
  imports Main "HOL-Library.Word"
begin

text \<open>
  Shared vocabulary of the development: the machine integer types of
  \<^verbatim>\<open>duk_config.h\<close>, the error values thrown by the engine, generic facts on words
  read as natural numbers, and the contract of a self-delimiting byte codec
  (locale \<open>stream_codec\<close>), interpreted wherever the engine has such an encoding.
\<close>

unbundle bit_operations_syntax

type_synonym u8 = "8 word"
type_synonym u16 = "16 word"
type_synonym u32 = "32 word"
type_synonym u64 = "64 word"

text \<open>
  Errors are values.  The constructors are the \<^verbatim>\<open>DUK_ERROR_xxx\<close> macros the modelled
  functions use; the argument is the message constant of the source.
\<close>

datatype duk_error =
    InternalError
  | AllocFailed
  | RangeError string
  | TypeError string
  | SyntaxError string
  | URIError string

type_synonym 'a result = "duk_error + 'a"

named_theorems word_nat "words read as natural numbers"

lemma unat_and_mask [word_nat]: "unat (x AND mask n) = unat x mod 2 ^ n"
  by (simp add: take_bit_eq_mask [symmetric] unsigned_take_bit_eq take_bit_nat_def)

lemma unat_drop_bit [word_nat]: "unat (drop_bit n x) = unat x div 2 ^ n"
  by (simp add: unat_drop_bit_eq drop_bit_nat_def)

lemma mask_numerals:
  "(0x3 :: 'a::len word) = mask 2"
  "(0x7 :: 'a::len word) = mask 3" "(0xf :: 'a::len word) = mask 4"
  "(0x1f :: 'a::len word) = mask 5" "(0x3f :: 'a::len word) = mask 6"
  "(0x7f :: 'a::len word) = mask 7" "(0xff :: 'a::len word) = mask 8"
  by (simp_all add: mask_eq_exp_minus_1)

lemma unat_and_num [word_nat]:
  fixes x :: "'a::len word"
  shows "unat (x AND 0x3) = unat x mod 4"
    "unat (x AND 0x7) = unat x mod 8" "unat (x AND 0xf) = unat x mod 16"
    "unat (x AND 0x1f) = unat x mod 32" "unat (x AND 0x3f) = unat x mod 64"
    "unat (x AND 0x7f) = unat x mod 128" "unat (x AND 0xff) = unat x mod 256"
  by (simp_all only: mask_numerals unat_and_mask) simp_all

lemma unat_and_1 [word_nat]: "unat (x AND 0x1) = unat x mod 2"
  using unat_and_mask [of x 1] by simp

lemma unat_and_ffff [word_nat]:
  fixes x :: "'a::len word"
  shows "unat (x AND 0xffff) = unat x mod 65536" "unat (x AND 0xffffffff) = unat x mod 4294967296"
  using unat_and_mask [of x 16] unat_and_mask [of x 32] by (simp_all add: mask_eq_exp_minus_1)

lemma wrap_once: "(s :: nat) < 2 * m \<Longrightarrow> s mod m = (if s < m then s else s - m)"
  by (auto simp: not_less le_mod_geq)

lemma unat_ucast_mod [word_nat]:
  "unat (ucast x :: 'b::len word) = unat (x :: 'a::len word) mod 2 ^ LENGTH('b)"
  by (simp add: unsigned_ucast_eq take_bit_nat_def)

lemma unat_add_mod [word_nat]:
  "unat (a + b :: 'a::len word) = (unat a + unat b) mod 2 ^ LENGTH('a)"
  by (rule unat_word_ariths)

lemma unat_mult_mod [word_nat]:
  "unat (a * b :: 'a::len word) = (unat a * unat b) mod 2 ^ LENGTH('a)"
  by (rule unat_word_ariths)

lemma unat_push_bit_mod [word_nat]:
  "unat (push_bit n x :: 'a::len word) = (unat x * 2 ^ n) mod 2 ^ LENGTH('a)"
  by (simp add: push_bit_eq_mult unat_mult_mod) (metis mod_mult_right_eq unat_of_nat of_nat_power of_nat_numeral)

lemma unat_width_less:
  "unat (a :: u8) < 256" "unat (b :: u16) < 65536" "unat (c :: u32) < 4294967296"
  "unat (d :: u64) < 18446744073709551616"
proof -
  show "unat a < 256" using unsigned_less [of a] by simp
  show "unat b < 65536" using unsigned_less [of b] by simp
  show "unat c < 4294967296" using unsigned_less [of c] by simp
  show "unat d < 18446744073709551616" using unsigned_less [of d] by simp
qed

lemma bit_nat_small: "n < 2 ^ j \<Longrightarrow> j \<le> k \<Longrightarrow> \<not> bit (n :: nat) k"
proof -
  assume "n < 2 ^ j" "j \<le> k"
  from this(2) have "(2 :: nat) ^ j \<le> 2 ^ k" by (intro power_increasing) simp_all
  with \<open>n < 2 ^ j\<close> have "n < 2 ^ k" by (rule less_le_trans)
  then have "n div 2 ^ k = 0" by simp
  then show ?thesis by (simp only: bit_iff_odd) simp
qed

lemma bit_word_int_small: "n < 2 ^ j \<Longrightarrow> j \<le> k \<Longrightarrow> \<not> bit (word_of_int (int n) :: 'a::len word) k"
  using bit_nat_small [of n j k] by (simp only: bit_word_of_int_iff bit_of_nat_iff_bit) simp

text \<open>A 32-bit word read as a signed integer.\<close>

lemma sint_u32: "sint (x :: u32) = (if unat x < 2 ^ 31 then int (unat x) else int (unat x) - 2 ^ 32)"
proof -
  have i: "int (unat x) = uint x" and u: "0 \<le> uint x" "uint x < 2 ^ 32" using unsigned_less [of x] by simp_all
  have "(uint x + 2 ^ 31) mod 2 ^ 32 = (if uint x < 2 ^ 31 then uint x + 2 ^ 31 else uint x - 2 ^ 31)"
  proof (cases "uint x < 2 ^ 31")
    case True
    then have "(uint x + 2 ^ 31) mod 2 ^ 32 = uint x + 2 ^ 31" using u by (intro mod_pos_pos_trivial) simp_all
    with True show ?thesis by simp
  next
    case False
    then have "(uint x - 2 ^ 31) mod 2 ^ 32 = uint x - 2 ^ 31"
      using u by (intro mod_pos_pos_trivial) simp_all
    moreover have "(uint x + 2 ^ 31) mod 2 ^ 32 = (uint x - 2 ^ 31) mod 2 ^ 32"
      using minus_mod_self2 [of "uint x + 2 ^ 31" "2 ^ 32"] by simp
    ultimately show ?thesis using False by simp
  qed
  moreover have "sint x = (uint x + 2 ^ 31) mod 2 ^ 32 - 2 ^ 31"
    by (simp add: sint_uint signed_take_bit_eq_take_bit_shift take_bit_eq_mod)
  moreover have "unat x < 2 ^ 31 \<longleftrightarrow> uint x < 2 ^ 31"
    using of_nat_less_iff [of "unat x" "2 ^ 31", where 'a = int] unfolding i by simp
  ultimately show ?thesis by (simp add: i)
qed

lemma sint_u32_small: "unat (x :: u32) < 2 ^ 31 \<Longrightarrow> sint x = int (unat x)"
  by (simp add: sint_u32)

text \<open>Four bytes in memory read as one little-endian 32-bit word.\<close>

definition le32 :: "u8 \<Rightarrow> u8 \<Rightarrow> u8 \<Rightarrow> u8 \<Rightarrow> u32" where
  "le32 a b c d = ucast a OR push_bit 8 (ucast b) OR push_bit 16 (ucast c) OR push_bit 24 (ucast d)"

lemma bit_le32:
  "bit (le32 a b c d) n \<longleftrightarrow> (if n < 8 then bit a n else if n < 16 then bit b (n - 8)
     else if n < 24 then bit c (n - 16) else bit d (n - 24))"
  by (auto simp: le32_def bit_or_iff bit_push_bit_iff bit_ucast_iff not_less
      intro: bit_imp_le_length dest: bit_imp_le_length)

lemma upt8: "[0..<8] = [0, 1, 2, 3, 4, 5, 6, 7]"
  by (simp add: upt_conv_Cons numeral_eq_Suc)

lemma upt32: "[0..<32] = [0, 1, 2, 3, 4, 5, 6, 7, 8, 9, 10, 11, 12, 13, 14, 15, 16, 17, 18, 19,
   20, 21, 22, 23, 24, 25, 26, 27, 28, 29, 30, 31]"
  by (simp add: upt_conv_Cons numeral_eq_Suc)

lemma word32_eq_iff: "(x :: u32) = y \<longleftrightarrow> (\<forall>n \<in> set [0..<32]. bit x n = bit y n)"
  by (auto intro: bit_word_eqI)

lemma word8_eq_iff: "(x :: u8) = y \<longleftrightarrow> (\<forall>n \<in> set [0..<8]. bit x n = bit y n)"
  by (auto intro: bit_word_eqI)

lemma bit_word_unat: "bit (b :: 'a::len word) n \<longleftrightarrow> odd (unat b div 2 ^ n)"
proof -
  have "bit (unat b) n = bit b n"
    by (auto simp: bit_unsigned_iff intro: bit_imp_le_length)
  then show ?thesis by (simp add: bit_iff_odd)
qed

lemma u8_high_bit: "(b :: u8) < 0x80 \<longleftrightarrow> \<not> bit b 7"
proof -
  have "unat b < 256" using unsigned_less [of b] by simp
  then have "unat b div 128 = (if unat b < 128 then 0 else 1)" by auto
  then show ?thesis by (simp add: word_less_nat_alt bit_word_unat)
qed

text \<open>Detecting the carry by comparing the wrapped sum with an addend.\<close>

lemma carry_add:
  fixes s e :: u32
  shows "unat (s + e) + 4294967296 * (if s + e < s then 1 else 0) = unat s + unat e"
proof -
  have l: "unat s < 4294967296" "unat e < 4294967296" by (rule unat_width_less)+
  then have "unat s + unat e < 2 * 4294967296" by simp
  with l show ?thesis by (auto simp: word_less_nat_alt unat_add_mod wrap_once)
qed

text \<open>Bytes copied into an array (\<^verbatim>\<open>memcpy\<close> inside its bounds).\<close>

definition blit :: "'a list \<Rightarrow> nat \<Rightarrow> 'a list \<Rightarrow> 'a list" where
  "blit buf off bytes = take off buf @ bytes @ drop (off + length bytes) buf"

lemma length_blit [simp]: "off + length bytes \<le> length buf \<Longrightarrow> length (blit buf off bytes) = length buf"
  by (simp add: blit_def)

lemma nth_blit:
  "off + length bytes \<le> length buf \<Longrightarrow> i < length buf \<Longrightarrow>
    blit buf off bytes ! i = (if off \<le> i \<and> i < off + length bytes then bytes ! (i - off) else buf ! i)"
  by (auto simp: blit_def nth_append)

lemma take_blit: "off \<le> length buf \<Longrightarrow> take (off + length bytes) (blit buf off bytes) = take off buf @ bytes"
  by (simp add: blit_def)

text \<open>
  A self-delimiting encoding: decoding what was encoded gives the value back and leaves
  what follows it untouched.  Everything a client of such an encoding needs follows: no
  encoding is a prefix of another one, and a stream of encodings has one reading.
\<close>

fun decode_n :: "('b list \<Rightarrow> ('a \<times> 'b list) option) \<Rightarrow> nat \<Rightarrow> 'b list \<Rightarrow> ('a list \<times> 'b list) option" where
  "decode_n dec 0 bs = Some ([], bs)"
| "decode_n dec (Suc n) bs = (case dec bs of None \<Rightarrow> None
     | Some (x, r) \<Rightarrow> (case decode_n dec n r of None \<Rightarrow> None | Some (xs, r') \<Rightarrow> Some (x # xs, r')))"

locale stream_codec =
  fixes enc :: "'a \<Rightarrow> 'b list" and dec :: "'b list \<Rightarrow> ('a \<times> 'b list) option"
    and valid :: "'a \<Rightarrow> bool"
  assumes dec_enc: "valid x \<Longrightarrow> dec (enc x @ r) = Some (x, r)"
begin

lemma enc_inj: "valid x \<Longrightarrow> valid y \<Longrightarrow> enc x = enc y \<Longrightarrow> x = y"
  using dec_enc [of x "[]"] dec_enc [of y "[]"] by simp

lemma prefix_free: "valid x \<Longrightarrow> valid y \<Longrightarrow> enc x @ r = enc y @ s \<Longrightarrow> x = y \<and> r = s"
  by (metis dec_enc option.inject prod.inject)

lemma decode_n_concat:
  "list_all valid xs \<Longrightarrow> decode_n dec (length xs) (concat (map enc xs) @ r) = Some (xs, r)"
  by (induction xs) (simp_all add: dec_enc)

lemma stream_inj:
  assumes "list_all valid xs" "list_all valid ys" "length xs = length ys"
    and "concat (map enc xs) = concat (map enc ys)"
  shows "xs = ys"
  using decode_n_concat [OF assms(1), of "[]"] decode_n_concat [OF assms(2), of "[]"] assms(3,4)
  by simp

end

end
