(* ===== verification/Unicode.thy ===== *)
theory Unicode
  imports Prelude
begin

text \<open>
  \<^verbatim>\<open>duk_unicode_support.c\<close> of \<^verbatim>\<open>duktape/duktape.c\<close>: the extended UTF-8
  (XUTF-8) and CESU-8 encoders, the XUTF-8 decoder, the code point counters, the UTF-8
  validity check and the character class predicates that need no table.  A buffer is a
  list of bytes and a pointer into it an offset; \<open>ptr_end\<close> is the list's length.
\<close>

subsection \<open>Encoders\<close>

definition duk_unicode_get_xutf8_length :: "u32 \<Rightarrow> nat" where
  "duk_unicode_get_xutf8_length x =
     (if x < 0x80 then 1 else if x < 0x800 then 2 else if x < 0x10000 then 3
      else if x < 0x200000 then 4 else if x < 0x4000000 then 5
      else if x < 0x80000000 then 6 else 7)"

definition duk_unicode_get_cesu8_length :: "u32 \<Rightarrow> nat" where
  "duk_unicode_get_cesu8_length x =
     (if x < 0x80 then 1 else if x < 0x800 then 2 else if x < 0x10000 then 3 else 3 + 3)"

definition duk_unicode_xutf8_markers :: "u8 list" where
  "duk_unicode_xutf8_markers = [0x00, 0xc0, 0xe0, 0xf0, 0xf8, 0xfc, 0xfe]"

text \<open>The do-while loop of the encoder, from the last byte down to the marker byte.\<close>

fun xutf8_fill :: "nat \<Rightarrow> u32 \<Rightarrow> u8 \<Rightarrow> u8 list \<Rightarrow> u8 list" where
  "xutf8_fill 0 x marker out = (marker + ucast x) # out"
| "xutf8_fill (Suc i) x marker out =
     xutf8_fill i (drop_bit 6 x) marker (ucast (0x80 + (x AND 0x3f)) # out)"

definition duk_unicode_encode_xutf8 :: "u32 \<Rightarrow> nat \<times> u8 list" where
  "duk_unicode_encode_xutf8 cp =
     (let len = duk_unicode_get_xutf8_length cp;
          marker = duk_unicode_xutf8_markers ! (len - 1)
      in (len, xutf8_fill (len - 1) cp marker []))"

definition duk_unicode_encode_cesu8 :: "u32 \<Rightarrow> nat \<times> u8 list" where
  "duk_unicode_encode_cesu8 x =
     (if x < 0x80 then (1, [ucast x])
      else if x < 0x800 then
        (2, [ucast (0xc0 + (drop_bit 6 x AND 0x1f)), ucast (0x80 + (x AND 0x3f))])
      else if x < 0x10000 then
        (3, [ucast (0xe0 + (drop_bit 12 x AND 0x0f)),
             ucast (0x80 + (drop_bit 6 x AND 0x3f)), ucast (0x80 + (x AND 0x3f))])
      else let x = x - 0x10000 in
        (6, [0xed, ucast (0xa0 + (drop_bit 16 x AND 0x0f)),
             ucast (0x80 + (drop_bit 10 x AND 0x3f)),
             0xed, ucast (0xb0 + (drop_bit 6 x AND 0x0f)), ucast (0x80 + (x AND 0x3f))]))"

subsection \<open>Decoder\<close>

text \<open>The continuation loop: no check that a byte is a continuation byte.\<close>

fun xutf8_cont :: "u8 list \<Rightarrow> nat \<Rightarrow> nat \<Rightarrow> u32 \<Rightarrow> u32 \<times> nat" where
  "xutf8_cont buf p 0 res = (res, p)"
| "xutf8_cont buf p (Suc n) res =
     xutf8_cont buf (p + 1) n (push_bit 6 res + ucast (buf ! p AND 0x3f))"

definition duk_unicode_decode_xutf8 :: "u8 list \<Rightarrow> nat \<Rightarrow> (u32 \<times> nat) option" where
  "duk_unicode_decode_xutf8 buf p =
     (if p \<ge> length buf then None
      else
        let ch = buf ! p; p = p + 1;
            start = (if ch < 0x80 then Some (ucast (ch AND 0x7f), 0)
              else if ch < 0xc0 then None
              else if ch < 0xe0 then Some (ucast (ch AND 0x1f), 1)
              else if ch < 0xf0 then Some (ucast (ch AND 0x0f), 2)
              else if ch < 0xf8 then Some (ucast (ch AND 0x07), 3)
              else if ch < 0xfc then Some (ucast (ch AND 0x03), 4)
              else if ch < 0xfe then Some (ucast (ch AND 0x01), 5)
              else if ch < 0xff then Some (0, 6)
              else None)
        in case start of None \<Rightarrow> None
           | Some (res, n) \<Rightarrow>
               (if p + n > length buf then None else Some (xutf8_cont buf p n res)))"

definition duk_unicode_decode_xutf8_checked :: "u8 list \<Rightarrow> nat \<Rightarrow> (u32 \<times> nat) result" where
  "duk_unicode_decode_xutf8_checked buf p =
     (case duk_unicode_decode_xutf8 buf p of Some r \<Rightarrow> Inr r | None \<Rightarrow> Inl InternalError)"

subsection \<open>Round trip of XUTF-8\<close>

text \<open>Filling and reading the continuation bytes, whatever the number of bytes.\<close>

lemma xutf8_fill_append: "xutf8_fill n x m out = xutf8_fill n x m [] @ out"
proof (induction n arbitrary: x out)
  case (Suc n)
  show ?case
    by (simp add: Suc.IH [of _ "_ # _"] Suc.IH [of _ "[_]"])
qed simp

lemma length_xutf8_fill [simp]: "length (xutf8_fill n x m out) = Suc n + length out"
  by (induction n x m out rule: xutf8_fill.induct) auto

lemma hd_xutf8_fill: "xutf8_fill n x m out ! 0 = m + ucast (drop_bit (6 * n) x)"
  by (induction n x m out rule: xutf8_fill.induct) (simp_all add: drop_bit_drop_bit algebra_simps)

lemma cont_byte [simp]:
  "ucast ((ucast (0x80 + (x AND 0x3f)) :: u8) AND 0x3f) = (x AND 0x3f :: u32)"
proof -
  have "(128 + unat x mod 64) mod 64 = unat x mod 64"
    using mod_mult_self1 [of "unat x mod 64" 2 64] by (simp add: add.commute)
  then show ?thesis
    by (intro word_unat_eq_iff [THEN iffD2]) (simp add: word_nat)
qed

lemma xutf8_fill_Suc:
  "xutf8_fill (Suc n) x m [] =
   xutf8_fill n (drop_bit 6 x) m [] @ [ucast (0x80 + (x AND 0x3f))]"
  by (simp add: xutf8_fill_append [of n "drop_bit 6 x" m "[_]"])

lemma xutf8_cont_snoc:
  "xutf8_cont buf p (Suc n) res =
   (push_bit 6 (fst (xutf8_cont buf p n res)) + ucast (buf ! (p + n) AND 0x3f), p + Suc n)"
  by (induction n arbitrary: p res) simp_all

lemma cont_step:
  "push_bit 6 (push_bit k r + take_bit k (drop_bit 6 x)) + (x AND 0x3f)
   = push_bit (k + 6) r + take_bit (k + 6) (x :: u32)"
proof -
  have "take_bit (k + 6) x = push_bit 6 (take_bit k (drop_bit 6 x)) + take_bit 6 x"
    using bits_ident [of 6 "take_bit (k + 6) x"] by (simp add: drop_bit_take_bit)
  then show ?thesis
    by (simp add: push_bit_add add.commute mask_numerals(5) flip: take_bit_eq_mask)
qed

lemma xutf8_cont_fill:
  assumes "\<forall>i<n. buf ! (p + i) = xutf8_fill n x m [] ! Suc i"
  shows "xutf8_cont buf p n res = (push_bit (6 * n) res + take_bit (6 * n) x, p + n)"
  using assms
proof (induction n arbitrary: x)
  case (Suc n)
  let ?f = "xutf8_fill n (drop_bit 6 x) m []"
  have "\<forall>i<n. buf ! (p + i) = ?f ! Suc i"
    using Suc.prems by (auto simp: xutf8_fill_Suc nth_append simp del: xutf8_fill.simps)
  moreover have "buf ! (p + n) = ucast (0x80 + (x AND 0x3f))"
    using Suc.prems [rule_format, of n] by (simp add: xutf8_fill_Suc nth_append del: xutf8_fill.simps)
  ultimately show ?case
    using cont_step [of "6 * n" res x] by (simp only: xutf8_cont_snoc Suc.IH cont_byte fst_conv)
      (simp add: add.commute)
qed simp

text \<open>The first byte: marker and top bits do not overlap, so the length class can be read off it.\<close>

lemma first_byte:
  assumes "unat x div 64 ^ n + unat m < 256"
  shows "unat (m + ucast (drop_bit (6 * n) x) :: u8) = unat m + unat x div 64 ^ n"
proof -
  have "(2 :: nat) ^ (6 * n) = 64 ^ n" by (simp add: power_mult)
  with assms show ?thesis by (simp add: word_nat)
qed

lemma decode_by_class:
  assumes len: "length buf \<ge> p + Suc n"
    and fill: "\<forall>i<Suc n. buf ! (p + i) = xutf8_fill n x m [] ! i"
    and start: "(if buf ! p < 0x80 then Some (ucast (buf ! p AND 0x7f), 0)
              else if buf ! p < 0xc0 then None
              else if buf ! p < 0xe0 then Some (ucast (buf ! p AND 0x1f), 1)
              else if buf ! p < 0xf0 then Some (ucast (buf ! p AND 0x0f), 2)
              else if buf ! p < 0xf8 then Some (ucast (buf ! p AND 0x07), 3)
              else if buf ! p < 0xfc then Some (ucast (buf ! p AND 0x03), 4)
              else if buf ! p < 0xfe then Some (ucast (buf ! p AND 0x01), 5)
              else if buf ! p < 0xff then Some (0, 6)
              else None) = Some (drop_bit (6 * n) x, n)"
  shows "duk_unicode_decode_xutf8 buf p = Some (x, p + Suc n)"
proof -
  have "\<forall>i<n. buf ! (p + 1 + i) = xutf8_fill n x m [] ! Suc i"
    using fill by auto
  then have "xutf8_cont buf (p + 1) n (drop_bit (6 * n) x) = (x, p + 1 + n)"
    by (subst xutf8_cont_fill [where m = m and x = x]) (simp_all add: bits_ident)
  then show ?thesis
    using len unfolding duk_unicode_decode_xutf8_def Let_def start by simp
qed

lemma top_bits:
  assumes "unat ch = k + unat x div 64 ^ n" "unat x div 64 ^ n < 2 ^ j" "2 ^ j dvd k"
  shows "(ucast ((ch :: u8) AND mask j) :: u32) = drop_bit (6 * n) x"
proof -
  have "(2 :: nat) ^ (6 * n) = 64 ^ n" by (simp add: power_mult)
  moreover have "(k + unat x div 64 ^ n) mod 2 ^ j = unat x div 64 ^ n"
    using assms(2,3) by (metis mod_less mod_add_left_eq dvd_imp_mod_0 add_0)
  moreover have "unat x div 64 ^ n < 2 ^ 32"
    using unsigned_less [of x] le_less_trans [OF div_le_dividend, of "unat x" "2 ^ 32" "64 ^ n"]
    by simp
  ultimately show ?thesis
    by (intro word_unat_eq_iff [THEN iffD2]) (simp add: word_nat assms(1))
qed

text \<open>
  The seven length classes: number of continuation bytes, marker, and the range of the bits
  \<open>y\<close> the first byte carries.
\<close>

definition xutf8_class :: "nat \<Rightarrow> nat \<Rightarrow> nat \<Rightarrow> bool" where
  "xutf8_class n m y \<longleftrightarrow>
     (n = 0 \<and> m = 0 \<and> y < 128) \<or> (n = 1 \<and> m = 0xc0 \<and> y < 32) \<or> (n = 2 \<and> m = 0xe0 \<and> y < 16)
     \<or> (n = 3 \<and> m = 0xf0 \<and> y < 8) \<or> (n = 4 \<and> m = 0xf8 \<and> y < 4) \<or> (n = 5 \<and> m = 0xfc \<and> y < 2)
     \<or> (n = 6 \<and> m = 0xfe \<and> y = 0)"

lemma xutf8_class_of:
  "xutf8_class (duk_unicode_get_xutf8_length x - 1)
     (unat (duk_unicode_xutf8_markers ! (duk_unicode_get_xutf8_length x - 1)))
     (unat x div 64 ^ (duk_unicode_get_xutf8_length x - 1))"
proof -
  have "unat x < 4294967296" using unsigned_less [of x] by simp
  then consider "unat x < 0x80" | "0x80 \<le> unat x" "unat x < 0x800"
    | "0x800 \<le> unat x" "unat x < 0x10000" | "0x10000 \<le> unat x" "unat x < 0x200000"
    | "0x200000 \<le> unat x" "unat x < 0x4000000" | "0x4000000 \<le> unat x" "unat x < 0x80000000"
    | "0x80000000 \<le> unat x" "unat x < 0x100000000"
    by linarith
  then show ?thesis
    by cases (simp_all add: xutf8_class_def duk_unicode_get_xutf8_length_def word_less_nat_alt
        duk_unicode_xutf8_markers_def less_mult_imp_div_less)
qed

lemma start_of_class:
  fixes ch :: u8 and x :: u32
  assumes cls: "xutf8_class n m (unat x div 64 ^ n)" and ch: "unat ch = m + unat x div 64 ^ n"
  shows "(if ch < 0x80 then Some (ucast (ch AND 0x7f) :: u32, 0)
              else if ch < 0xc0 then None
              else if ch < 0xe0 then Some (ucast (ch AND 0x1f), 1)
              else if ch < 0xf0 then Some (ucast (ch AND 0x0f), 2)
              else if ch < 0xf8 then Some (ucast (ch AND 0x07), 3)
              else if ch < 0xfc then Some (ucast (ch AND 0x03), 4)
              else if ch < 0xfe then Some (ucast (ch AND 0x01), 5)
              else if ch < 0xff then Some (0, 6)
              else None) = Some (drop_bit (6 * n) x, n)"
proof -
  note tb = top_bits [OF ch]
  consider "n = 0" "m = 0" "unat x div 64 ^ n < 128" | "n = 1" "m = 0xc0" "unat x div 64 ^ n < 32"
    | "n = 2" "m = 0xe0" "unat x div 64 ^ n < 16" | "n = 3" "m = 0xf0" "unat x div 64 ^ n < 8"
    | "n = 4" "m = 0xf8" "unat x div 64 ^ n < 4" | "n = 5" "m = 0xfc" "unat x div 64 ^ n < 2"
    | "n = 6" "m = 0xfe" "unat x div 64 ^ n = 0"
    using cls unfolding xutf8_class_def by metis
  then show ?thesis
  proof cases
    case 1 then show ?thesis using ch tb [of 7] by (simp add: word_less_nat_alt mask_numerals)
  next
    case 2 then show ?thesis using ch tb [of 5] by (simp add: word_less_nat_alt mask_numerals)
  next
    case 3 then show ?thesis using ch tb [of 4] by (simp add: word_less_nat_alt mask_numerals)
  next
    case 4 then show ?thesis using ch tb [of 3] by (simp add: word_less_nat_alt mask_numerals)
  next
    case 5 then show ?thesis using ch tb [of 2] by (simp add: word_less_nat_alt mask_numerals)
  next
    case 6 then show ?thesis using ch tb [of 1] by (simp add: word_less_nat_alt)
  next
    case 7
    have "unat (drop_bit (6 * n) x) = 0" using 7(3) by (simp only: unat_drop_bit power_mult) simp
    then have "drop_bit (6 * n) x = 0" by (simp only: word_unat_eq_iff unsigned_0)
    moreover have "unat ch = 254" using ch 7(2,3) by simp
    ultimately show ?thesis using 7(1) by (simp add: word_less_nat_alt)
  qed
qed

lemma xutf8_roundtrip_at:
  assumes "take (fst (duk_unicode_encode_xutf8 x)) (drop p buf) = snd (duk_unicode_encode_xutf8 x)"
  shows "duk_unicode_decode_xutf8 buf p = Some (x, p + fst (duk_unicode_encode_xutf8 x))"
proof -
  define len where "len = duk_unicode_get_xutf8_length x"
  define n where "n = len - 1"
  define m where "m = duk_unicode_xutf8_markers ! n"
  have len: "len = Suc n" by (simp add: n_def len_def duk_unicode_get_xutf8_length_def)
  have enc: "duk_unicode_encode_xutf8 x = (Suc n, xutf8_fill n x m [])"
    unfolding duk_unicode_encode_xutf8_def Let_def len_def [symmetric] n_def [symmetric]
      m_def [symmetric] by (simp only: len)
  have l: "p + Suc n \<le> length buf"
  proof -
    have "length (take (Suc n) (drop p buf)) = Suc n"
      using assms by (simp only: enc fst_conv snd_conv length_xutf8_fill) simp
    then show ?thesis by (simp only: length_take length_drop)
  qed
  have f: "\<forall>i<Suc n. buf ! (p + i) = xutf8_fill n x m [] ! i"
  proof (intro allI impI)
    fix i assume i: "i < Suc n"
    with assms have "xutf8_fill n x m [] ! i = take (Suc n) (drop p buf) ! i" by (simp add: enc)
    with i l show "buf ! (p + i) = xutf8_fill n x m [] ! i" by simp
  qed
  define y where "y = unat x div 64 ^ n"
  have x: "unat x < 4294967296" using unsigned_less [of x] by simp
  have cls: "xutf8_class n (unat m) (unat x div 64 ^ n)"
    using xutf8_class_of [of x] by (simp only: n_def m_def len_def)
  then have "unat x div 64 ^ n + unat m < 256"
    by (auto simp: xutf8_class_def)
  then have "unat (buf ! p) = unat m + unat x div 64 ^ n"
    using f [rule_format, of 0] first_byte [of x n m] by (simp add: hd_xutf8_fill)
  then show ?thesis
    unfolding enc fst_conv by (intro decode_by_class [OF l f] start_of_class [OF cls])
qed

lemma xutf8_roundtrip:
  "duk_unicode_decode_xutf8 (pre @ snd (duk_unicode_encode_xutf8 x) @ r) (length pre)
     = Some (x, length pre + fst (duk_unicode_encode_xutf8 x))"
proof (rule xutf8_roundtrip_at)
  show "take (fst (duk_unicode_encode_xutf8 x))
      (drop (length pre) (pre @ snd (duk_unicode_encode_xutf8 x) @ r)) = snd (duk_unicode_encode_xutf8 x)"
    by (simp add: duk_unicode_encode_xutf8_def Let_def duk_unicode_get_xutf8_length_def)
qed

text \<open>The encoder and decoder as a self-delimiting code of all 32-bit code points.\<close>

definition xutf8_bytes :: "u32 \<Rightarrow> u8 list" where
  "xutf8_bytes cp = snd (duk_unicode_encode_xutf8 cp)"

definition xutf8_take :: "u8 list \<Rightarrow> (u32 \<times> u8 list) option" where
  "xutf8_take bs = map_option (\<lambda>(cp, p). (cp, drop p bs)) (duk_unicode_decode_xutf8 bs 0)"

lemma length_xutf8_bytes: "length (xutf8_bytes cp) = fst (duk_unicode_encode_xutf8 cp)"
  by (simp add: xutf8_bytes_def duk_unicode_encode_xutf8_def Let_def duk_unicode_get_xutf8_length_def)

interpretation xutf8: stream_codec xutf8_bytes xutf8_take "\<lambda>_. True"
proof
  show "xutf8_take (xutf8_bytes x @ r) = Some (x, r)" for x r
    using xutf8_roundtrip [of "[]" x r]
    by (simp add: xutf8_take_def length_xutf8_bytes [symmetric] flip: xutf8_bytes_def)
qed

subsection \<open>CESU-8\<close>

text \<open>The surrogate pair of a code point above U+FFFF.\<close>

definition hi_surrogate :: "u32 \<Rightarrow> u32" where
  "hi_surrogate x = 0xd800 + drop_bit 10 (x - 0x10000)"

definition lo_surrogate :: "u32 \<Rightarrow> u32" where
  "lo_surrogate x = 0xdc00 + (x - 0x10000 AND mask 10)"

lemma xutf8_fill_numerals:
  "xutf8_fill 1 x m out = (m + ucast (drop_bit 6 x)) # ucast (0x80 + (x AND 0x3f)) # out"
  "xutf8_fill 2 x m out = (m + ucast (drop_bit 12 x)) # ucast (0x80 + (drop_bit 6 x AND 0x3f))
     # ucast (0x80 + (x AND 0x3f)) # out"
  "xutf8_fill 3 x m out = (m + ucast (drop_bit 18 x)) # ucast (0x80 + (drop_bit 12 x AND 0x3f))
     # ucast (0x80 + (drop_bit 6 x AND 0x3f)) # ucast (0x80 + (x AND 0x3f)) # out"
  by (simp_all add: numeral_2_eq_2 numeral_3_eq_3 drop_bit_drop_bit)

lemma encode_xutf8_3:
  assumes "0x800 \<le> x" "x < 0x10000"
  shows "xutf8_bytes x = [ucast (0xe0 + (drop_bit 12 x AND 0x0f)),
           ucast (0x80 + (drop_bit 6 x AND 0x3f)), ucast (0x80 + (x AND 0x3f))]"
proof -
  have x: "2048 \<le> unat x" "unat x < 65536" using assms by (simp_all add: word_less_nat_alt word_le_nat_alt)
  have "(0xe0 + ucast (drop_bit 12 x) :: u8) = ucast (0xe0 + (drop_bit 12 x AND 0x0f))"
    using x by (intro word_unat_eq_iff [THEN iffD2]) (simp add: word_nat)
  with x show ?thesis
    by (simp add: xutf8_bytes_def duk_unicode_encode_xutf8_def duk_unicode_get_xutf8_length_def
        word_less_nat_alt duk_unicode_xutf8_markers_def xutf8_fill_numerals)
qed

text \<open>
  CESU-8 is XUTF-8 on the Basic Multilingual Plane, and the two XUTF-8 encoded halves of
  the surrogate pair above it: what ECMAScript strings are made of.
\<close>

lemma encode_cesu8_bmp: "x < 0x10000 \<Longrightarrow> duk_unicode_encode_cesu8 x = duk_unicode_encode_xutf8 x"
proof -
  assume a: "x < 0x10000"
  then have x: "unat x < 65536" by (simp add: word_less_nat_alt)
  consider "unat x < 0x80" | "0x80 \<le> unat x" "unat x < 0x800" | "0x800 \<le> unat x" by linarith
  then show ?thesis
  proof cases
    case 2
    then have "(0xc0 + ucast (drop_bit 6 x) :: u8) = ucast (0xc0 + (drop_bit 6 x AND 0x1f))"
      by (intro word_unat_eq_iff [THEN iffD2]) (simp add: word_nat)
    with 2 show ?thesis
      by (simp add: duk_unicode_encode_cesu8_def duk_unicode_encode_xutf8_def word_less_nat_alt
        duk_unicode_get_xutf8_length_def duk_unicode_xutf8_markers_def xutf8_fill_numerals)
  next
    case 3
    with x have "0x800 \<le> x" by (simp add: word_le_nat_alt)
    from encode_xutf8_3 [OF this a] 3 x show ?thesis
      by (simp add: prod_eq_iff xutf8_bytes_def)
        (simp add: duk_unicode_encode_cesu8_def duk_unicode_encode_xutf8_def word_less_nat_alt
          duk_unicode_get_xutf8_length_def)
  qed (simp add: duk_unicode_encode_cesu8_def duk_unicode_encode_xutf8_def word_less_nat_alt
        duk_unicode_get_xutf8_length_def duk_unicode_xutf8_markers_def)
qed

lemma encode_cesu8_surrogates:
  assumes "0x10000 \<le> x" "x \<le> 0x10ffff"
  shows "duk_unicode_encode_cesu8 x
      = (6, xutf8_bytes (hi_surrogate x) @ xutf8_bytes (lo_surrogate x))"
proof -
  define y where "y = unat x - 65536"
  have x: "unat x = 65536 + y" "y < 1048576" using assms by (auto simp: word_le_nat_alt y_def)
  have y: "unat (x - 0x10000) = y" using x by (simp add: unat_sub_if_size)
  have hi: "unat (hi_surrogate x) = 55296 + y div 1024"
    and lo: "unat (lo_surrogate x) = 56320 + y mod 1024"
    using x(2) by (simp_all add: hi_surrogate_def lo_surrogate_def word_nat y)
  have b: "y div 1024 < 1024" "y mod 1024 < 1024" using x(2) by simp_all
  define q where "q = y div 1024"
  define r where "r = y mod 1024"
  have q: "q < 1024" "y div 65536 = q div 64"
    using b div_mult2_eq [of y 1024 64] by (simp_all add: q_def)
  have r: "r < 1024" "y mod 64 = r mod 64" "y div 64 mod 16 = r div 64"
    using b mod_mult2_eq [of y 64 16] by (simp_all add: r_def mod_mod_cancel)
  have qa: "(55296 + q) div 4096 = 13" "(55296 + q) div 64 = 864 + q div 64" "(55296 + q) mod 64 = q mod 64"
    using q(1) mod_mult_self3 [of 864 64 q] by simp_all
  have ra: "(56320 + r) div 4096 = 13" "(56320 + r) div 64 = 880 + r div 64" "(56320 + r) mod 64 = r mod 64"
    using r(1) mod_mult_self3 [of 880 64 r] by simp_all
  have s: "q div 64 < 16" "r div 64 < 16" using q r by simp_all
  have t: "(864 + q div 64) mod 64 = 32 + q div 64" "(880 + r div 64) mod 64 = 48 + r div 64"
    using s mod_mult_self3 [of 13 64 "32 + q div 64"] mod_mult_self3 [of 13 64 "48 + r div 64"]
    by simp_all
  have h: "xutf8_bytes (hi_surrogate x) = [0xed, ucast (0xa0 + (drop_bit 16 (x - 0x10000) AND 0x0f)),
             ucast (0x80 + (drop_bit 10 (x - 0x10000) AND 0x3f))]"
    using q s t by (subst encode_xutf8_3)
      (simp_all add: word_less_nat_alt word_le_nat_alt hi [folded q_def] word_unat_eq_iff word_nat y
        qa q(2) mod_add_eq flip: q_def)
  have l: "xutf8_bytes (lo_surrogate x) = [0xed, ucast (0xb0 + (drop_bit 6 (x - 0x10000) AND 0x0f)),
             ucast (0x80 + (x - 0x10000 AND 0x3f))]"
    using r s t by (subst encode_xutf8_3)
      (simp_all add: word_less_nat_alt word_le_nat_alt lo [folded r_def] word_unat_eq_iff word_nat y
        ra flip: r_def)
  show ?thesis
    using x by (simp add: h l duk_unicode_encode_cesu8_def word_less_nat_alt Let_def)
qed

subsection \<open>Code point count without validation\<close>

text \<open>The byte loop shared by both variants: \<open>ncont\<close> counts bytes in [0x80,0xbf].\<close>

fun utf8_ncont :: "u8 list \<Rightarrow> nat \<Rightarrow> nat" where
  "utf8_ncont [] ncont = ncont"
| "utf8_ncont (x # p) ncont = utf8_ncont p (if x \<ge> 0x80 \<and> x \<le> 0xbf then ncont + 1 else ncont)"

text \<open>The variant compiled under \<^verbatim>\<open>DUK_USE_PREFER_SIZE\<close>.\<close>

definition unvalidated_utf8_length_small :: "u8 list \<Rightarrow> nat" where
  "unvalidated_utf8_length_small data = length data - utf8_ncont data 0"

text \<open>
  The variant of the default configuration: bytes up to a 4-byte aligned address, then
  whole 32-bit words tested with masks, then the remaining bytes.  \<open>addr\<close> is the address of
  the data; a word is read in the host's (little endian) byte order.
\<close>

fun utf8_align :: "nat \<Rightarrow> u8 list \<Rightarrow> nat \<Rightarrow> u8 list \<times> nat" where
  "utf8_align addr [] ncont = ([], ncont)"
| "utf8_align addr (x # p) ncont =
     (if addr mod 4 \<noteq> 0
      then utf8_align (addr + 1) p (if x \<ge> 0x80 \<and> x \<le> 0xbf then ncont + 1 else ncont)
      else (x # p, ncont))"

definition utf8_word_ncont :: "u32 \<Rightarrow> nat \<Rightarrow> nat" where
  "utf8_word_ncont x ncont =
     (if x AND 0x80808080 = 0 then ncont
      else let x = x XOR 0x80808080;
               ncont = (if x AND 0xc0000000 = 0 then ncont + 1 else ncont);
               ncont = (if x AND 0x00c00000 = 0 then ncont + 1 else ncont);
               ncont = (if x AND 0x0000c000 = 0 then ncont + 1 else ncont)
           in (if x AND 0x000000c0 = 0 then ncont + 1 else ncont))"

fun utf8_words :: "u8 list \<Rightarrow> nat \<Rightarrow> u8 list \<times> nat" where
  "utf8_words (a # b # c # d # p) ncont = utf8_words p (utf8_word_ncont (le32 a b c d) ncont)"
| "utf8_words p ncont = (p, ncont)"

definition duk_unicode_unvalidated_utf8_length :: "nat \<Rightarrow> u8 list \<Rightarrow> nat" where
  "duk_unicode_unvalidated_utf8_length addr data =
     (let blen = length data;
          (p, ncont) = (if blen < 16 then (data, 0)
             else let (p, ncont) = utf8_align addr data 0 in utf8_words p ncont)
      in blen - utf8_ncont p ncont)"

abbreviation is_cont :: "u8 \<Rightarrow> bool" where
  "is_cont x \<equiv> x \<ge> 0x80 \<and> x \<le> 0xbf"

lemma is_cont_bits: "is_cont x \<longleftrightarrow> bit x 7 \<and> \<not> bit x 6"
proof -
  have "x \<le> 0xbf \<longleftrightarrow> \<not> (bit x 7 \<and> bit x 6)"
  proof -
    have "unat x < 256" using unsigned_less [of x] by simp
    then have "unat x div 128 = (if unat x < 128 then 0 else 1)"
      and "unat x div 64 = (if unat x < 64 then 0 else if unat x < 128 then 1
        else if unat x < 192 then 2 else 3)" by auto
    then show ?thesis by (auto simp: word_le_nat_alt bit_word_unat)
  qed
  then show ?thesis using u8_high_bit [of x] by (auto simp: not_less)
qed

lemma utf8_ncont_eq: "utf8_ncont p n = n + length (filter is_cont p)"
  by (induction p n rule: utf8_ncont.induct) auto

lemma utf8_word_ncont_eq:
  "utf8_word_ncont (le32 a b c d) n = n + length (filter is_cont [a, b, c, d])"
proof -
  have "le32 a b c d AND 0x80808080 = 0 \<longleftrightarrow> \<not> bit a 7 \<and> \<not> bit b 7 \<and> \<not> bit c 7 \<and> \<not> bit d 7"
    by (simp add: word32_eq_iff bit_and_iff bit_le32 upt32)
  moreover have "(le32 a b c d XOR 0x80808080) AND 0xc0000000 = 0 \<longleftrightarrow> bit d 7 \<and> \<not> bit d 6"
    "(le32 a b c d XOR 0x80808080) AND 0x00c00000 = 0 \<longleftrightarrow> bit c 7 \<and> \<not> bit c 6"
    "(le32 a b c d XOR 0x80808080) AND 0x0000c000 = 0 \<longleftrightarrow> bit b 7 \<and> \<not> bit b 6"
    "(le32 a b c d XOR 0x80808080) AND 0x000000c0 = 0 \<longleftrightarrow> bit a 7 \<and> \<not> bit a 6"
    by (simp_all add: word32_eq_iff bit_and_iff bit_xor_iff bit_le32 upt32) auto
  ultimately show ?thesis
    unfolding utf8_word_ncont_def Let_def by (simp add: is_cont_bits del: One_nat_def)
qed

lemma utf8_align_eq:
  "utf8_align addr p n = (q, m) \<Longrightarrow> m + length (filter is_cont q) = n + length (filter is_cont p)"
  by (induction addr p n rule: utf8_align.induct) (auto split: if_splits)

lemma utf8_words_eq:
  "utf8_words p n = (q, m) \<Longrightarrow> m + length (filter is_cont q) = n + length (filter is_cont p)"
  by (induction p n rule: utf8_words.induct) (auto simp: utf8_word_ncont_eq)

lemma unvalidated_utf8_length_eq:
  "duk_unicode_unvalidated_utf8_length addr data = length data - length (filter is_cont data)"
  by (auto simp: duk_unicode_unvalidated_utf8_length_def utf8_ncont_eq Let_def
      split: prod.splits dest!: utf8_words_eq utf8_align_eq)

subsection \<open>Properties\<close>

text \<open>
  C26: decoding at any offset what the XUTF-8 encoder wrote there gives the code point back
  and advances by the encoded length, for all 32-bit code points and whatever surrounds it.
\<close>

theorem decode_encode_xutf8:
  "duk_unicode_decode_xutf8 (pre @ snd (duk_unicode_encode_xutf8 x) @ r) (length pre)
     = Some (x, length pre + fst (duk_unicode_encode_xutf8 x))"
  by (rule xutf8_roundtrip)

text \<open>
  CESU-8 writes a code point above the Basic Multilingual Plane as the XUTF-8 encodings
  of its two surrogates, so that internal strings hold 16-bit code units.
\<close>

lemma cesu8_is_surrogate_pair:
  assumes "0x10000 \<le> x" "x \<le> 0x10ffff"
  shows "duk_unicode_encode_cesu8 x = (6, snd (duk_unicode_encode_xutf8 (0xd800 + drop_bit 10 (x - 0x10000)))
     @ snd (duk_unicode_encode_xutf8 (0xdc00 + (x - 0x10000 AND mask 10))))"
  using encode_cesu8_surrogates [OF assms] by (simp only: xutf8_bytes_def hi_surrogate_def lo_surrogate_def)

lemma cesu8_is_surrogate_pair_witness:
  "duk_unicode_encode_cesu8 0x1f600 = (6, snd (duk_unicode_encode_xutf8 (0xd800 + drop_bit 10 (0x1f600 - 0x10000)))
     @ snd (duk_unicode_encode_xutf8 (0xdc00 + (0x1f600 - 0x10000 AND mask 10))))"
  by (rule cesu8_is_surrogate_pair) simp_all

text \<open>
  the length count of the default configuration (alignment loop, 32-bit words tested
  with masks, tail loop) equals the byte-wise count, for every address and every input.
\<close>

lemma utf8_length_variants_agree:
  "duk_unicode_unvalidated_utf8_length addr data = unvalidated_utf8_length_small data"
  by (simp add: unvalidated_utf8_length_eq unvalidated_utf8_length_small_def utf8_ncont_eq)

end
