(* ===== verification/Utf8.thy ===== *)
theory Utf8
  imports Unicode
begin

text \<open>
  Strict UTF-8: the validity check \<^verbatim>\<open>duk_unicode_is_utf8_compatible\<close> and the
  \<^verbatim>\<open>TextEncoder\<close>/\<^verbatim>\<open>TextDecoder\<close> built-ins of \<^verbatim>\<open>duk_bi_encoding.c\<close>
  (a resumable decoder state machine with BOM and error handling, and an encoder that
  recombines surrogate pairs), with the output buffer bounds both rely on.
\<close>

subsection \<open>Scalar values and their encoding as numbers\<close>

definition is_scalar :: "u32 \<Rightarrow> bool" where
  "is_scalar x \<longleftrightarrow> x \<le> 0x10ffff \<and> \<not> (0xd800 \<le> x \<and> x \<le> 0xdfff)"

definition utf8_nat :: "nat \<Rightarrow> nat list" where
  "utf8_nat x =
     (if x < 0x80 then [x]
      else if x < 0x800 then [192 + x div 64, 128 + x mod 64]
      else if x < 0x10000 then [224 + x div 4096, 128 + x div 64 mod 64, 128 + x mod 64]
      else [240 + x div 262144, 128 + x div 4096 mod 64, 128 + x div 64 mod 64, 128 + x mod 64])"

lemma of_nat_u8_eqI: "unat (a :: u8) = n mod 256 \<Longrightarrow> a = of_nat n"
  by (rule word_unat_eq_iff [THEN iffD2]) (simp add: unat_of_nat)

lemma ucast_cont: "(ucast (0x80 + (w AND 0x3f :: u32)) :: u8) = 128 + of_nat (unat w mod 64)"
  using of_nat_u8_eqI [of "ucast (0x80 + (w AND 0x3f))" "128 + unat w mod 64"]
  by (simp add: word_nat)

lemma xutf8_bytes_nat:
  assumes "x < 0x200000"
  shows "xutf8_bytes x = map of_nat (utf8_nat (unat x))"
proof -
  have x: "unat x < 2097152" using assms by (simp add: word_less_nat_alt)
  consider "unat x < 0x80" | "0x80 \<le> unat x" "unat x < 0x800"
    | "0x800 \<le> unat x" "unat x < 0x10000" | "0x10000 \<le> unat x" by linarith
  then show ?thesis
    by cases (use x in \<open>simp_all add: xutf8_bytes_def duk_unicode_encode_xutf8_def utf8_nat_def
        duk_unicode_get_xutf8_length_def word_less_nat_alt duk_unicode_xutf8_markers_def
        xutf8_fill_numerals ucast_cont of_nat_u8_eqI word_nat\<close>)
qed

subsection \<open>Validity check\<close>

text \<open>
  The ASCII fast path over whole groups of four bytes; the index \<open>i\<close> is the start of the
  remaining input.
\<close>

fun ascii_skip4 :: "u8 list \<Rightarrow> u8 list" where
  "ascii_skip4 (a # b # c # d # r) =
     (if (a OR b OR c OR d) AND 0x80 \<noteq> 0 then a # b # c # d # r else ascii_skip4 r)"
| "ascii_skip4 r = r"

definition utf8_lead :: "u8 \<Rightarrow> (nat \<times> u32 \<times> u32) option" where
  "utf8_lead t =
     (if t \<le> 0xdf then (if t \<le> 0xbf then None else Some (1, 0x80, ucast (t AND 0x1f)))
      else if t \<le> 0xef then Some (2, 0x800, ucast (t AND 0x0f))
      else if t \<le> 0xf7 then Some (3, 0x10000, ucast (t AND 0x07))
      else None)"

fun utf8_conts :: "u8 list \<Rightarrow> nat \<Rightarrow> u32 \<Rightarrow> (u32 \<times> u8 list) option" where
  "utf8_conts r 0 cp = Some (cp, r)"
| "utf8_conts (t # r) (Suc n) cp =
     (if t AND 0xc0 \<noteq> 0x80 then None else utf8_conts r n (push_bit 6 cp + ucast (t AND 0x3f)))"
| "utf8_conts [] (Suc n) cp = None"

lemma utf8_conts_length: "utf8_conts r n cp = Some (cp', r') \<Longrightarrow> length r = n + length r'"
  by (induction r n cp rule: utf8_conts.induct) (auto split: if_splits)

function utf8_check :: "u8 list \<Rightarrow> bool" where
  "utf8_check [] = True"
| "utf8_check (t # r) =
     (if t AND 0x80 = 0 then utf8_check r
      else case utf8_lead t of
        None \<Rightarrow> False
      | Some (ncont, mincp, cp) \<Rightarrow>
          (if length r < ncont then False
           else case utf8_conts r ncont cp of
             None \<Rightarrow> False
           | Some (cp, r') \<Rightarrow>
               (if cp < mincp \<or> cp > 0x10ffff \<or> (cp \<ge> 0xd800 \<and> cp \<le> 0xdfff) then False
                else utf8_check r')))"
  by pat_completeness auto
termination
  by (relation "measure length") (auto dest!: utf8_conts_length)

definition duk_unicode_is_utf8_compatible :: "u8 list \<Rightarrow> bool" where
  "duk_unicode_is_utf8_compatible buf = utf8_check (ascii_skip4 buf)"

lemma u8_and_80: "(t :: u8) AND 0x80 = 0 \<longleftrightarrow> t < 0x80"
  by (simp add: u8_high_bit word8_eq_iff bit_and_iff upt8)

lemma u8_is_cont: "(t :: u8) AND 0xc0 = 0x80 \<longleftrightarrow> is_cont t"
  by (auto simp add: is_cont_bits word8_eq_iff bit_and_iff upt8)

lemma ascii_skip4_check: "utf8_check (ascii_skip4 buf) = utf8_check buf"
proof (induction buf rule: ascii_skip4.induct)
  case (1 a b c d r)
  have "(a OR b OR c OR d) AND 0x80 = 0 \<longleftrightarrow> a < 0x80 \<and> b < 0x80 \<and> c < 0x80 \<and> d < 0x80"
    by (simp add: u8_high_bit word8_eq_iff bit_and_iff bit_or_iff upt8)
  with 1 show ?case by (simp add: u8_and_80)
qed simp_all

text \<open>What the continuation loop reads, and that it accepts nothing else.\<close>

definition cont_val :: "nat \<Rightarrow> u8 list \<Rightarrow> nat" where
  "cont_val = foldl (\<lambda>a c. a * 64 + unat c mod 64)"

lemma utf8_conts_iff:
  assumes "(unat cp + 1) * 64 ^ n \<le> 2 ^ 21"
  shows "utf8_conts r n cp = Some (cp', r') \<longleftrightarrow>
    (\<exists>cs. length cs = n \<and> r = cs @ r' \<and> list_all is_cont cs \<and> unat cp' = cont_val (unat cp) cs)"
  using assms
proof (induction r n cp rule: utf8_conts.induct)
  case (1 r cp)
  then show ?case by (auto simp: cont_val_def word_unat_eq_iff)
next
  case (2 t r n cp)
  have b: "(unat cp * 64 + unat t mod 64 + 1) * 64 ^ n \<le> (unat cp + 1) * 64 ^ Suc n"
    by (simp add: algebra_simps)
  have "unat cp * 64 + unat t mod 64 < 2 ^ 32"
  proof -
    have "unat cp * 64 + unat t mod 64 + 1 \<le> (unat cp + 1) * 64" by simp
    also have "\<dots> \<le> (unat cp + 1) * 64 ^ Suc n" by (rule mult_le_mono2) simp
    finally show ?thesis using "2.prems" by simp
  qed
  then have u: "unat (push_bit 6 cp + ucast (t AND 0x3f) :: u32) = unat cp * 64 + unat t mod 64"
    by (simp add: word_nat)
  have "(unat (push_bit 6 cp + ucast (t AND 0x3f) :: u32) + 1) * 64 ^ n \<le> 2 ^ 21"
    using b "2.prems" by (simp only: u)
  note IH = "2.IH" [OF _ this, unfolded u]
  show ?case
  proof (cases "is_cont t")
    case True
    then have "utf8_conts (t # r) (Suc n) cp = utf8_conts r n (push_bit 6 cp + ucast (t AND 0x3f))"
      by (simp add: u8_is_cont)
    also have "\<dots> = Some (cp', r') \<longleftrightarrow> (\<exists>cs. length cs = n \<and> r = cs @ r' \<and> list_all is_cont cs
        \<and> unat cp' = cont_val (unat cp * 64 + unat t mod 64) cs)"
      using IH True by (simp add: u8_is_cont)
    also have "\<dots> \<longleftrightarrow> (\<exists>cs. length cs = Suc n \<and> t # r = cs @ r' \<and> list_all is_cont cs
        \<and> unat cp' = cont_val (unat cp) cs)"
      using True by (fastforce simp: length_Suc_conv cont_val_def)
    finally show ?thesis .
  next
    case False
    then show ?thesis by (auto simp: u8_is_cont length_Suc_conv)
  qed
next
  case (3 n cp)
  then show ?case by auto
qed

text \<open>
  The specification: valid UTF-8 is a sequence of encodings of Unicode scalar values.
\<close>

definition utf8_encode :: "u32 list \<Rightarrow> u8 list" where
  "utf8_encode cps = concat (map xutf8_bytes cps)"

definition valid_utf8 :: "u8 list \<Rightarrow> bool" where
  "valid_utf8 bs \<longleftrightarrow> (\<exists>cps. list_all is_scalar cps \<and> bs = utf8_encode cps)"

text \<open>One multi-byte sequence, as the check accepts it.\<close>

definition utf8_seq :: "u8 \<Rightarrow> u8 list \<Rightarrow> u32 \<Rightarrow> u8 list \<Rightarrow> bool" where
  "utf8_seq t r cp r' \<longleftrightarrow> (\<exists>n mincp cp0. utf8_lead t = Some (n, mincp, cp0)
     \<and> utf8_conts r n cp0 = Some (cp, r') \<and> mincp \<le> cp \<and> is_scalar cp)"

lemma utf8_lead_cases:
  assumes "utf8_lead t = Some (n, mincp, cp0)"
  shows "(n = 1 \<and> mincp = 0x80 \<and> unat t = 192 + unat cp0 \<and> unat cp0 < 32) \<or>
    (n = 2 \<and> mincp = 0x800 \<and> unat t = 224 + unat cp0 \<and> unat cp0 < 16) \<or>
    (n = 3 \<and> mincp = 0x10000 \<and> unat t = 240 + unat cp0 \<and> unat cp0 < 8)"
proof -
  have m: "k \<le> t' \<Longrightarrow> t' < k + j \<Longrightarrow> j dvd k \<Longrightarrow> t' = k + t' mod j" for k j t' :: nat
    by (auto simp: dvd_def le_iff_add)
  consider "0xbf < t" "t \<le> 0xdf" | "0xdf < t" "t \<le> 0xef" | "0xef < t" "t \<le> 0xf7"
    using assms unfolding utf8_lead_def by (auto split: if_splits simp: not_le)
  then show ?thesis
  proof cases
    case 1 with m [of 192 "unat t" 32] assms show ?thesis
      by (auto simp: utf8_lead_def word_nat word_less_nat_alt word_le_nat_alt)
  next
    case 2 with m [of 224 "unat t" 16] assms show ?thesis
      by (auto simp: utf8_lead_def word_nat word_less_nat_alt word_le_nat_alt)
  next
    case 3 with m [of 240 "unat t" 8] assms show ?thesis
      by (auto simp: utf8_lead_def word_nat word_less_nat_alt word_le_nat_alt)
  qed
qed

lemma utf8_lead_ascii: "utf8_lead t \<noteq> None \<Longrightarrow> \<not> t < 0x80"
  by (auto simp: utf8_lead_def word_less_nat_alt word_le_nat_alt split: if_splits)

lemma utf8_check_seq:
  "\<not> t < 0x80 \<Longrightarrow> utf8_check (t # r) \<longleftrightarrow> (\<exists>cp r'. utf8_seq t r cp r' \<and> utf8_check r')"
  by (auto simp: u8_and_80 utf8_seq_def is_scalar_def not_less not_le
      split: option.splits prod.splits if_splits dest: utf8_conts_length)

lemma is_cont_obtain:
  assumes "is_cont c"
  obtains d where "d < 64" "unat c = 128 + d" "unat c mod 64 = d"
proof (rule that)
  show "unat c - 128 < 64" "unat c = 128 + (unat c - 128)" "unat c mod 64 = unat c - 128"
    using conjunct1 [OF assms] conjunct2 [OF assms] mod_mult_self3 [of 2 64 "unat c - 128"]
    by (simp_all add: word_le_nat_alt)
qed

lemma map_unat_u8: "map unat (xs :: u8 list) = ys \<Longrightarrow> xs = map of_nat ys"
  by (auto simp: comp_def)

lemma digits64:
  fixes a b c d :: nat
  assumes "b < 64" "c < 64" "d < 64"
  shows "(4096 * a + b * 64 + c) div 4096 = a" "(4096 * a + b * 64 + c) div 64 = 64 * a + b"
    "(4096 * a + b * 64 + c) mod 64 = c"
    "(262144 * a + 4096 * b + c * 64 + d) div 262144 = a"
    "(262144 * a + 4096 * b + c * 64 + d) div 4096 = 64 * a + b"
    "(262144 * a + 4096 * b + c * 64 + d) div 64 = 4096 * a + 64 * b + c"
    "(262144 * a + 4096 * b + c * 64 + d) mod 64 = d"
    "(64 * a + b) mod 64 = b" "(4096 * a + 64 * b + c) mod 64 = c"
proof -
  show "(4096 * a + b * 64 + c) mod 64 = c"
    using mod_mult_self3 [of "64 * a + b" 64 c] assms by (simp add: algebra_simps)
  show "(4096 * a + 64 * b + c) mod 64 = c"
    using mod_mult_self3 [of "64 * a + b" 64 c] assms by (simp add: algebra_simps)
  show "(262144 * a + 4096 * b + c * 64 + d) mod 64 = d"
    using mod_mult_self3 [of "4096 * a + 64 * b + c" 64 d] assms by (simp add: algebra_simps)
qed (use assms in \<open>auto intro!: div_nat_eqI\<close>)

lemma utf8_seq_sound:
  assumes "utf8_seq t r cp r'"
  shows "t # r = xutf8_bytes cp @ r' \<and> is_scalar cp"
proof -
  obtain n mincp cp0 where lead: "utf8_lead t = Some (n, mincp, cp0)"
    and conts: "utf8_conts r n cp0 = Some (cp, r')" and mincp: "mincp \<le> cp" and sc: "is_scalar cp"
    using assms by (auto simp: utf8_seq_def)
  note cs = utf8_lead_cases [OF lead]
  have cp: "cp < 0x200000"
    using sc by (auto simp: is_scalar_def word_le_nat_alt word_less_nat_alt)
  have "(unat cp0 + 1) * 64 ^ n \<le> 2 ^ 21" using cs by auto
  from conts [unfolded utf8_conts_iff [OF this]] obtain cs where
    c: "length cs = n" "r = cs @ r'" "list_all is_cont cs" "unat cp = cont_val (unat cp0) cs"
    by auto
  have "map unat (t # cs) = utf8_nat (unat cp)"
    using cs
  proof (elim disjE conjE)
    assume n: "n = 1" and a: "mincp = 0x80" "unat t = 192 + unat cp0" "unat cp0 < 32"
    then obtain c1 where cs: "cs = [c1]" using c(1) by (auto simp: length_Suc_conv)
    with c(3) have "is_cont c1" by simp
    then obtain d1 where "d1 < 64" "unat c1 = 128 + d1" "unat c1 mod 64 = d1"
      by (rule is_cont_obtain)
    with a c(4) mincp cs show ?thesis
      by (simp add: utf8_nat_def cont_val_def word_le_nat_alt)
  next
    assume n: "n = 2" and a: "mincp = 0x800" "unat t = 224 + unat cp0" "unat cp0 < 16"
    then obtain c1 c2 where cs: "cs = [c1, c2]"
      using c(1) by (auto simp: length_Suc_conv numeral_eq_Suc)
    with c(3) have d: "is_cont c1" "is_cont c2" by simp_all
    from d(1) obtain d1 where "d1 < 64" "unat c1 = 128 + d1" "unat c1 mod 64 = d1"
      by (rule is_cont_obtain)
    moreover from d(2) obtain d2 where "d2 < 64" "unat c2 = 128 + d2" "unat c2 mod 64 = d2"
      by (rule is_cont_obtain)
    ultimately show ?thesis using a c(4) mincp cs
      by (simp add: utf8_nat_def cont_val_def word_le_nat_alt digits64)
  next
    assume n: "n = 3" and a: "mincp = 0x10000" "unat t = 240 + unat cp0" "unat cp0 < 8"
    then obtain c1 c2 c3 where cs: "cs = [c1, c2, c3]"
      using c(1) by (auto simp: length_Suc_conv numeral_eq_Suc)
    with c(3) have d: "is_cont c1" "is_cont c2" "is_cont c3" by simp_all
    from d(1) obtain d1 where "d1 < 64" "unat c1 = 128 + d1" "unat c1 mod 64 = d1"
      by (rule is_cont_obtain)
    moreover from d(2) obtain d2 where "d2 < 64" "unat c2 = 128 + d2" "unat c2 mod 64 = d2"
      by (rule is_cont_obtain)
    moreover from d(3) obtain d3 where "d3 < 64" "unat c3 = 128 + d3" "unat c3 mod 64 = d3"
      by (rule is_cont_obtain)
    ultimately show ?thesis using a c(4) mincp cs
      by (simp add: utf8_nat_def cont_val_def word_le_nat_alt digits64)
  qed
  with c(2) sc show ?thesis by (simp add: xutf8_bytes_nat [OF cp] map_unat_u8 del: list.map)
qed

lemma utf8_check_sound: "utf8_check bs \<Longrightarrow> valid_utf8 bs"
proof (induction bs rule: length_induct)
  case (1 bs)
  show ?case
  proof (cases bs)
    case Nil
    then show ?thesis by (auto simp: valid_utf8_def utf8_encode_def intro: exI [of _ "[]"])
  next
    case (Cons t r)
    have step: "valid_utf8 r' \<Longrightarrow> is_scalar cp \<Longrightarrow> bs = xutf8_bytes cp @ r' \<Longrightarrow> valid_utf8 bs" for cp r'
      unfolding valid_utf8_def by (auto simp: utf8_encode_def intro: exI [of _ "cp # _"])
    show ?thesis
    proof (cases "t < 0x80")
      case True
      then have "utf8_check r" using "1.prems" Cons by (simp add: u8_and_80)
      with "1.IH" Cons have "valid_utf8 r" by simp
      moreover have "xutf8_bytes (ucast t) = [t]" "is_scalar (ucast t)"
        using True by (simp_all add: xutf8_bytes_nat word_less_nat_alt unat_ucast_mod utf8_nat_def
            is_scalar_def word_le_nat_alt)
      ultimately show ?thesis using Cons by (intro step [of r "ucast t"]) simp_all
    next
      case False
      then obtain cp r' where s: "utf8_seq t r cp r'" "utf8_check r'"
        using "1.prems" Cons utf8_check_seq [OF False] by blast
      have e: "bs = xutf8_bytes cp @ r'" "is_scalar cp"
        using utf8_seq_sound [OF s(1)] Cons by simp_all
      then have "length r' < length bs"
        by (simp add: xutf8_bytes_def duk_unicode_encode_xutf8_def Let_def)
      with s(2) "1.IH" have "valid_utf8 r'" by simp
      with e show ?thesis by (intro step)
    qed
  qed
qed

lemma is_cont_of_nat: "d < 64 \<Longrightarrow> is_cont (128 + of_nat d) \<and> unat (128 + of_nat d :: u8) mod 64 = d"
  using mod_mult_self3 [of 2 64 d]
  by (simp add: word_le_nat_alt unat_add_mod unat_of_nat)

lemma utf8_lead_of_nat:
  "2 \<le> a \<Longrightarrow> a < 32 \<Longrightarrow> utf8_lead (192 + of_nat a) = Some (1, 0x80, of_nat a)"
  "a < 16 \<Longrightarrow> utf8_lead (224 + of_nat a) = Some (2, 0x800, of_nat a)"
  "a < 8 \<Longrightarrow> utf8_lead (240 + of_nat a) = Some (3, 0x10000, of_nat a)"
  using mod_mult_self3 [of 6 32 a] mod_mult_self3 [of 14 16 a] mod_mult_self3 [of 30 8 a]
  by (simp_all add: utf8_lead_def word_le_nat_alt unat_add_mod unat_of_nat word_unat_eq_iff
      unat_ucast_mod unat_and_num)

lemma split64:
  "(x :: nat) div 64 * 64 + x mod 64 = x" "x div 4096 * 64 + x div 64 mod 64 = x div 64"
  "x div 262144 * 64 + x div 4096 mod 64 = x div 4096"
proof -
  show "x div 4096 * 64 + x div 64 mod 64 = x div 64"
    using div_mult_mod_eq [of "x div 64" 64] by (simp add: div_mult2_eq [symmetric])
  show "x div 262144 * 64 + x div 4096 mod 64 = x div 4096"
    using div_mult_mod_eq [of "x div 4096" 64] by (simp add: div_mult2_eq [symmetric])
qed simp

lemma utf8_conts_of_nat:
  assumes "list_all (\<lambda>d. d < 64) ds"
  shows "utf8_conts (map (\<lambda>d. 128 + of_nat d) ds @ r) (length ds) (of_nat a)
     = Some (of_nat (foldl (\<lambda>x d. x * 64 + d) a ds), r)"
  using assms
proof (induction ds arbitrary: a)
  case (Cons d ds)
  then have d: "d < 64" and ds: "list_all (\<lambda>d. d < 64) ds" by simp_all
  have "(ucast ((128 + of_nat d :: u8) AND 0x3f) :: u32) = of_nat d"
    using d is_cont_of_nat [OF d]
    by (intro word_unat_eq_iff [THEN iffD2]) (simp add: unat_ucast_mod unat_and_num(5) unat_of_nat)
  then have e: "push_bit 6 (of_nat a :: u32) + ucast ((128 + of_nat d :: u8) AND 0x3f)
      = of_nat (a * 64 + d)"
    by (simp add: push_bit_eq_mult)
  have "utf8_conts (map (\<lambda>d. 128 + of_nat d) (d # ds) @ r) (length (d # ds)) (of_nat a)
      = utf8_conts (map (\<lambda>d. 128 + of_nat d) ds @ r) (length ds) (of_nat (a * 64 + d))"
    by (simp only: list.map append_Cons list.size add_Suc_right add_0_right utf8_conts.simps e)
      (simp add: u8_is_cont is_cont_of_nat [OF d])
  then show ?case by (simp only: Cons.IH [OF ds] foldl_Cons)
qed simp

lemma utf8_seq_complete:
  assumes "is_scalar x" "\<not> x < 0x80"
  obtains t cs where "xutf8_bytes x = t # cs" "\<not> t < 0x80" "\<And>r. utf8_seq t (cs @ r) x r"
proof -
  let ?n = "unat x"
  have x: "x < 0x200000" "?n < 0x110000" "0x80 \<le> ?n"
    using assms by (auto simp: is_scalar_def word_le_nat_alt word_less_nat_alt)
  note goal = that
  have main: "thesis" if lead: "utf8_lead (of_nat m) = Some (length ds, mincp, of_nat a)"
    and ds: "list_all (\<lambda>d. d < 64) ds"
    and v: "foldl (\<lambda>x d. x * 64 + d) a ds = ?n" and min: "mincp \<le> x"
    and u: "utf8_nat ?n = m # map (\<lambda>d. 128 + d) ds" for m ds mincp a
  proof (rule goal)
    show "xutf8_bytes x = of_nat m # map (\<lambda>d. 128 + of_nat d) ds"
      by (simp add: xutf8_bytes_nat [OF x(1)] u comp_def)
    show "\<not> (of_nat m :: u8) < 0x80" by (rule utf8_lead_ascii) (use lead in simp)
    show "utf8_seq (of_nat m) (map (\<lambda>d. 128 + of_nat d) ds @ r) x r" for r
      using lead utf8_conts_of_nat [where r = r and a = a, OF ds] v min assms(1) by (auto simp: utf8_seq_def)
  qed
  consider "?n < 0x800" | "0x800 \<le> ?n" "?n < 0x10000" | "0x10000 \<le> ?n" by linarith
  then show thesis
  proof cases
    case 1
    then show ?thesis using x
      by (intro main [of "192 + ?n div 64" "[?n mod 64]" "0x80" "?n div 64"])
        (simp_all add: utf8_nat_def word_le_nat_alt utf8_lead_of_nat)
  next
    case 2
    then show ?thesis using x
      by (intro main [of "224 + ?n div 4096" "[?n div 64 mod 64, ?n mod 64]" "0x800" "?n div 4096"])
        (simp_all add: utf8_nat_def word_le_nat_alt utf8_lead_of_nat split64)
  next
    case 3
    then show ?thesis using x
      by (intro main [of "240 + ?n div 262144" "[?n div 4096 mod 64, ?n div 64 mod 64, ?n mod 64]"
          "0x10000" "?n div 262144"])
        (simp_all add: utf8_nat_def word_le_nat_alt utf8_lead_of_nat split64)
  qed
qed

lemma utf8_check_encode: "is_scalar x \<Longrightarrow> utf8_check r \<Longrightarrow> utf8_check (xutf8_bytes x @ r)"
proof (cases "x < 0x80")
  case True
  then have "xutf8_bytes x = [ucast x]"
    using xutf8_bytes_nat [of x] by (simp add: utf8_nat_def word_less_nat_alt of_nat_u8_eqI word_nat)
  moreover have "(ucast x :: u8) < 0x80" using True by (simp add: word_less_nat_alt unat_ucast_mod)
  ultimately show "utf8_check r \<Longrightarrow> ?thesis" by (simp add: u8_and_80)
next
  case False
  assume "is_scalar x" and r: "utf8_check r"
  from utf8_seq_complete [OF this(1) False] obtain t cs where
    s: "xutf8_bytes x = t # cs" "\<not> t < 0x80" "utf8_seq t (cs @ r) x r" by blast
  have "utf8_check (t # cs @ r)" using utf8_check_seq [OF s(2)] s(3) r by blast
  then show ?thesis by (simp only: s(1) append_Cons)
qed

lemma is_utf8_compatible_iff: "duk_unicode_is_utf8_compatible bs \<longleftrightarrow> valid_utf8 bs"
proof
  show "duk_unicode_is_utf8_compatible bs \<Longrightarrow> valid_utf8 bs"
    by (simp add: duk_unicode_is_utf8_compatible_def ascii_skip4_check utf8_check_sound)
  have "list_all is_scalar cps \<Longrightarrow> utf8_check (utf8_encode cps)" for cps
    by (induction cps) (simp_all add: utf8_encode_def utf8_check_encode)
  then show "valid_utf8 bs \<Longrightarrow> duk_unicode_is_utf8_compatible bs"
    by (auto simp: duk_unicode_is_utf8_compatible_def ascii_skip4_check valid_utf8_def)
qed

end
