(* ===== verification/Encoding.thy ===== *)
theory Encoding
  imports Utf8
begin

text \<open>
  \<^verbatim>\<open>duk_bi_encoding.c\<close>: the resumable UTF-8 decoder behind \<^verbatim>\<open>TextDecoder\<close>
  (\<^verbatim>\<open>duk__utf8_decode_next\<close>, \<^verbatim>\<open>duk__decode_helper\<close>) and the surrogate recombining
  encoder behind \<^verbatim>\<open>TextEncoder\<close> (\<^verbatim>\<open>duk__utf8_encode_char\<close>), with
  \<^verbatim>\<open>duk_decode_string\<close> which drives the latter.  Argument coercion and buffer objects are
  left out: the input is the byte sequence, the output the bytes written to the buffer.
\<close>

subsection \<open>Decoder\<close>

record decode_ctx =
  dc_codepoint :: u32
  dc_upper :: u8
  dc_lower :: u8
  dc_needed :: u8
  dc_bom_handled :: bool
  dc_fatal :: bool
  dc_ignore_bom :: bool

text \<open>The negative status codes of \<^verbatim>\<open>duk_codepoint_t\<close> as constructors.\<close>

datatype decode_ret = CpContinue | CpError | CpRetry | Cp u32

definition duk__utf8_decode_init :: "decode_ctx \<Rightarrow> decode_ctx" where
  "duk__utf8_decode_init ctx = ctx\<lparr>dc_codepoint := 0, dc_upper := 0xbf, dc_lower := 0x80,
     dc_needed := 0, dc_bom_handled := False\<rparr>"

definition duk__utf8_decode_next :: "decode_ctx \<Rightarrow> u8 \<Rightarrow> decode_ctx \<times> decode_ret" where
  "duk__utf8_decode_next ctx x =
     (if dc_needed ctx = 0 then
        (if x \<le> 0x7f then (ctx, Cp (ucast x))
         else if x \<ge> 0xc2 \<and> x \<le> 0xdf then
           (ctx\<lparr>dc_needed := 1, dc_codepoint := ucast (x AND 0x1f)\<rparr>, CpContinue)
         else if x \<ge> 0xe0 \<and> x \<le> 0xef then
           (let ctx = (if x = 0xe0 then ctx\<lparr>dc_lower := 0xa0\<rparr>
                       else if x = 0xed then ctx\<lparr>dc_upper := 0x9f\<rparr> else ctx)
            in (ctx\<lparr>dc_needed := 2, dc_codepoint := ucast (x AND 0x0f)\<rparr>, CpContinue))
         else if x \<ge> 0xf0 \<and> x \<le> 0xf4 then
           (let ctx = (if x = 0xf0 then ctx\<lparr>dc_lower := 0x90\<rparr>
                       else if x = 0xf4 then ctx\<lparr>dc_upper := 0x8f\<rparr> else ctx)
            in (ctx\<lparr>dc_needed := 3, dc_codepoint := ucast (x AND 0x07)\<rparr>, CpContinue))
         else (ctx, CpError))
      else if x \<ge> dc_lower ctx \<and> x \<le> dc_upper ctx then
        (let cp = push_bit 6 (dc_codepoint ctx) OR ucast (x AND 0x3f);
             needed = dc_needed ctx - 1;
             ctx = ctx\<lparr>dc_lower := 0x80, dc_upper := 0xbf, dc_codepoint := cp, dc_needed := needed\<rparr>
         in if needed > 0 then (ctx, CpContinue)
            else (ctx\<lparr>dc_codepoint := 0, dc_needed := 0\<rparr>, Cp cp))
      else (ctx\<lparr>dc_codepoint := 0, dc_needed := 0, dc_lower := 0x80, dc_upper := 0xbf\<rparr>, CpRetry))"

lemma decode_next_retry:
  "duk__utf8_decode_next ctx x = (ctx', CpRetry) \<Longrightarrow> dc_needed ctx \<noteq> 0 \<and> dc_needed ctx' = 0"
  by (auto simp: duk__utf8_decode_next_def Let_def split: if_splits)

text \<open>
  The rest of the loop body of \<^verbatim>\<open>duk__decode_helper\<close> once a code point is known: BOM
  handling and output.
\<close>

definition decode_emit :: "u32 \<Rightarrow> decode_ctx \<times> u8 list \<Rightarrow> decode_ctx \<times> u8 list" where
  "decode_emit cp = (\<lambda>(ctx, out).
     (if \<not> dc_bom_handled ctx then
        (let ctx' = ctx\<lparr>dc_bom_handled := True\<rparr>
         in if cp = 0xfeff \<and> \<not> dc_ignore_bom ctx then (ctx', out)
            else (ctx', out @ snd (duk_unicode_encode_cesu8 cp)))
      else (ctx, out @ snd (duk_unicode_encode_cesu8 cp))))"

lemma decode_emit_fields [simp]:
  "dc_needed (fst (decode_emit cp (ctx, out))) = dc_needed ctx"
  "dc_codepoint (fst (decode_emit cp (ctx, out))) = dc_codepoint ctx"
  "dc_lower (fst (decode_emit cp (ctx, out))) = dc_lower ctx"
  "dc_upper (fst (decode_emit cp (ctx, out))) = dc_upper ctx"
  "dc_fatal (fst (decode_emit cp (ctx, out))) = dc_fatal ctx"
  by (simp_all add: decode_emit_def Let_def)

definition utf8_decode_failed :: duk_error where
  "utf8_decode_failed = TypeError ''utf-8 decode failed''"

function decode_loop :: "u8 list \<Rightarrow> decode_ctx \<times> u8 list \<Rightarrow> (decode_ctx \<times> u8 list) result" where
  "decode_loop [] (ctx, out) = Inr (ctx, out)"
| "decode_loop (x # inp) (ctx, out) =
     (case duk__utf8_decode_next ctx x of
        (ctx', CpContinue) \<Rightarrow> decode_loop inp (ctx', out)
      | (ctx', CpError) \<Rightarrow>
          (if dc_fatal ctx' then Inl utf8_decode_failed
           else decode_loop inp (decode_emit 0xfffd (ctx', out)))
      | (ctx', CpRetry) \<Rightarrow>
          (if dc_fatal ctx' then Inl utf8_decode_failed
           else decode_loop (x # inp) (decode_emit 0xfffd (ctx', out)))
      | (ctx', Cp cp) \<Rightarrow> decode_loop inp (decode_emit cp (ctx', out)))"
  by pat_completeness auto
termination
  by (relation "measure (\<lambda>(inp, ctx, out). 2 * length inp + (if dc_needed ctx \<noteq> 0 then 1 else 0))")
    (auto split: if_splits prod.splits dest!: decode_next_retry [OF sym] simp: decode_emit_def Let_def)

definition DUK_HBUFFER_MAX_BYTELEN :: nat where
  "DUK_HBUFFER_MAX_BYTELEN = 0x7ffffffe"

definition duk__decode_helper :: "decode_ctx \<Rightarrow> u8 list \<Rightarrow> bool \<Rightarrow> (decode_ctx \<times> u8 list) result" where
  "duk__decode_helper ctx input stream =
     (if length input \<ge> DUK_HBUFFER_MAX_BYTELEN div 3 - 3
      then Inl (TypeError ''result too long'')
      else case decode_loop input (ctx, []) of
        Inl e \<Rightarrow> Inl e
      | Inr (ctx, out) \<Rightarrow>
          (if \<not> stream then
             (if dc_needed ctx \<noteq> 0 then
                (if dc_fatal ctx then Inl utf8_decode_failed
                 else Inr (duk__utf8_decode_init ctx, out @ snd (duk_unicode_encode_cesu8 0xfffd)))
              else Inr (duk__utf8_decode_init ctx, out))
           else Inr (ctx, out)))"

subsection \<open>Output bound of the decoder\<close>

definition pending_room :: "decode_ctx \<Rightarrow> nat" where
  "pending_room ctx = (if dc_needed ctx \<noteq> 0 then 3 else 0)"

lemma cesu8_length_le: "length (snd (duk_unicode_encode_cesu8 x)) \<le> 6"
  by (simp add: duk_unicode_encode_cesu8_def Let_def)

lemma cesu8_length_bmp: "x < 0x10000 \<Longrightarrow> length (snd (duk_unicode_encode_cesu8 x)) \<le> 3"
  by (simp add: duk_unicode_encode_cesu8_def Let_def)

lemma decode_emit_length:
  "length (snd (decode_emit cp (ctx, out))) \<le> length out + length (snd (duk_unicode_encode_cesu8 cp))"
  by (simp add: decode_emit_def Let_def)

text \<open>
  What one byte may cost: a completed sequence gives at most 6 bytes and frees the room
  kept since its first byte, an error gives 3.
\<close>

lemma decode_next_cost:
  assumes "duk__utf8_decode_next ctx x = (ctx', ret)"
  shows "case ret of CpContinue \<Rightarrow> pending_room ctx' \<le> 3 + pending_room ctx
      | CpError \<Rightarrow> pending_room ctx' = 0 | CpRetry \<Rightarrow> pending_room ctx' = 0 \<and> pending_room ctx = 3
      | Cp cp \<Rightarrow> length (snd (duk_unicode_encode_cesu8 cp)) + pending_room ctx' \<le> 3 + pending_room ctx"
proof -
  have "x \<le> 0x7f \<Longrightarrow> (ucast x :: u32) < 0x10000"
    by (simp add: word_less_nat_alt word_le_nat_alt unat_ucast_mod)
  then show ?thesis
    using assms cesu8_length_le cesu8_length_bmp
    by (auto simp: duk__utf8_decode_next_def Let_def pending_room_def split: if_splits)
qed

text \<open>
  One byte of input: the induction step every property of the loop goes through.
\<close>

lemma pending_room_emit [simp]: "pending_room (fst (decode_emit cp (ctx, out))) = pending_room ctx"
  by (simp add: pending_room_def)

lemma decode_loop_bound:
  "decode_loop inp s = Inr s'
    \<Longrightarrow> length (snd s') + pending_room (fst s') \<le> length (snd s) + 3 * length inp + pending_room (fst s)"
proof (induction inp s rule: decode_loop.induct)
  case (2 x inp ctx out)
  obtain ctx1 ret where n: "duk__utf8_decode_next ctx x = (ctx1, ret)" by force
  note cost = decode_next_cost [OF n]
  have e: "length (snd (decode_emit 0xfffd (ctx1, out))) \<le> length out + 3"
    using decode_emit_length [of "0xfffd" ctx1 out] cesu8_length_bmp [of "0xfffd"] by simp
  show ?case
  proof (cases ret)
    case CpContinue
    with "2.IH"(1) [OF n [symmetric]] "2.prems" n cost show ?thesis by simp
  next
    case CpError
    with "2.IH"(2) [OF n [symmetric]] "2.prems" n cost e show ?thesis
      by (simp split: if_splits)
  next
    case CpRetry
    with "2.prems" n have "\<not> dc_fatal ctx1"
      "decode_loop (x # inp) (decode_emit 0xfffd (ctx1, out)) = Inr s'"
      by (simp_all split: if_splits)
    with "2.IH"(3) [OF n [symmetric]] CpRetry cost e show ?thesis by simp
  next
    case (Cp cp)
    with "2.IH"(4) [OF n [symmetric]] "2.prems" n cost decode_emit_length [of cp ctx1 out]
    show ?thesis by simp
  qed
qed simp

lemma decode_helper_bound:
  "duk__decode_helper ctx input stream = Inr (ctx', out) \<Longrightarrow> length out \<le> 3 + 3 * length input"
  using decode_loop_bound [of input "(ctx, [])"] cesu8_length_bmp [of "0xfffd"]
  by (auto simp: duk__decode_helper_def pending_room_def split: if_splits sum.splits)

subsection \<open>Decoding one sequence\<close>

definition dec_ready :: "decode_ctx \<Rightarrow> bool" where
  "dec_ready ctx \<longleftrightarrow> dc_needed ctx = 0 \<and> dc_codepoint ctx = 0 \<and> dc_lower ctx = 0x80 \<and> dc_upper ctx = 0xbf"

text \<open>The context in the middle of a sequence, the first continuation byte's range included.\<close>

definition dec_mid :: "decode_ctx \<Rightarrow> nat \<Rightarrow> u8 \<Rightarrow> u8 \<Rightarrow> u32 \<Rightarrow> decode_ctx" where
  "dec_mid ctx n lo hi cp = ctx\<lparr>dc_needed := of_nat n, dc_lower := lo, dc_upper := hi, dc_codepoint := cp\<rparr>"

lemma dec_mid_fields [simp]:
  "dc_needed (dec_mid ctx n lo hi cp) = of_nat n" "dc_lower (dec_mid ctx n lo hi cp) = lo"
  "dc_upper (dec_mid ctx n lo hi cp) = hi" "dc_codepoint (dec_mid ctx n lo hi cp) = cp"
  "dc_fatal (dec_mid ctx n lo hi cp) = dc_fatal ctx"
  "dec_mid (dec_mid ctx n lo hi cp) n' lo' hi' cp' = dec_mid ctx n' lo' hi' cp'"
  by (simp_all add: dec_mid_def)

lemma dec_ready_mid: "dec_ready ctx \<Longrightarrow> dec_mid ctx 0 0x80 0xbf 0 = ctx"
  by (simp add: dec_ready_def dec_mid_def)

text \<open>The lead byte table: bytes needed and the range of the next byte.\<close>

definition lead_range :: "u8 \<Rightarrow> (nat \<times> u8 \<times> u8) option" where
  "lead_range x =
     (if x \<ge> 0xc2 \<and> x \<le> 0xdf then Some (1, 0x80, 0xbf)
      else if x \<ge> 0xe0 \<and> x \<le> 0xef then
        Some (2, if x = 0xe0 then 0xa0 else 0x80, if x = 0xed then 0x9f else 0xbf)
      else if x \<ge> 0xf0 \<and> x \<le> 0xf4 then
        Some (3, if x = 0xf0 then 0x90 else 0x80, if x = 0xf4 then 0x8f else 0xbf)
      else None)"

lemma or_is_plus: "push_bit 6 (a :: u32) OR ucast ((x :: u8) AND 0x3f) = push_bit 6 a + ucast (x AND 0x3f)"
proof (rule disjunctive_add [symmetric])
  show "\<not> bit (push_bit 6 a) n \<or> \<not> bit (ucast (x AND 0x3f) :: u32) n" for n
    by (cases "n < 6") (simp_all add: bit_push_bit_iff mask_numerals(5) bit_and_iff bit_mask_iff bit_ucast_iff)
qed

lemma decode_next_ready:
  assumes "dec_ready ctx"
  shows "duk__utf8_decode_next ctx x =
     (if x < 0x80 then (ctx, Cp (ucast x))
      else case lead_range x of None \<Rightarrow> (ctx, CpError)
        | Some (n, lo, hi) \<Rightarrow>
            (dec_mid ctx n lo hi (ucast (x AND (if n = 1 then 0x1f else if n = 2 then 0x0f else 0x07))), CpContinue))"
proof -
  have "x \<le> 0x7f \<longleftrightarrow> x < 0x80" by (auto simp: word_le_nat_alt word_less_nat_alt)
  then show ?thesis
    using assms by (simp add: duk__utf8_decode_next_def lead_range_def dec_ready_def dec_mid_def Let_def)
qed

lemma decode_next_mid:
  assumes "n \<le> 3"
  shows "duk__utf8_decode_next (dec_mid ctx (Suc n) lo hi cp) x =
     (if lo \<le> x \<and> x \<le> hi then
        (let cp' = push_bit 6 cp + ucast (x AND 0x3f)
         in if n = 0 then (dec_mid ctx 0 0x80 0xbf 0, Cp cp') else (dec_mid ctx n 0x80 0xbf cp', CpContinue))
      else (dec_mid ctx 0 0x80 0xbf 0, CpRetry))"
proof -
  have n: "n = 0 \<or> n = 1 \<or> n = 2 \<or> n = 3" using assms by auto
  then have "(of_nat (Suc n) :: u8) \<noteq> 0" "(of_nat n :: u8) > 0 \<longleftrightarrow> n \<noteq> 0"
    "(of_nat (Suc n) - 1 :: u8) = of_nat n" by auto
  then show ?thesis
    unfolding duk__utf8_decode_next_def dec_mid_fields Let_def or_is_plus
    by (simp del: of_nat_Suc) (auto simp add: dec_mid_def)
qed

lemma decode_loop_mid:
  assumes "n \<le> 3"
  shows "decode_loop (x # r) (dec_mid ctx (Suc n) lo hi cp, out) =
     (if lo \<le> x \<and> x \<le> hi then
        (let cp' = push_bit 6 cp + ucast (x AND 0x3f)
         in if n = 0 then decode_loop r (decode_emit cp' (dec_mid ctx 0 0x80 0xbf 0, out))
            else decode_loop r (dec_mid ctx n 0x80 0xbf cp', out))
      else if dc_fatal ctx then Inl utf8_decode_failed
      else decode_loop (x # r) (decode_emit 0xfffd (dec_mid ctx 0 0x80 0xbf 0, out)))"
  by (subst decode_loop.simps(2)) (simp add: decode_next_mid [OF assms] Let_def del: decode_loop.simps(2))

text \<open>Once the range is the default one, the decoder reads continuation bytes as the check does.\<close>

lemma decode_loop_conts:
  assumes "utf8_conts r n cp = Some (cp', r')" "0 < n" "n \<le> 4"
  shows "decode_loop r (dec_mid ctx n 0x80 0xbf cp, out)
     = decode_loop r' (decode_emit cp' (dec_mid ctx 0 0x80 0xbf 0, out))"
  using assms
proof (induction r n cp rule: utf8_conts.induct)
  case (2 t r n cp)
  then have "is_cont t" by (auto simp: u8_is_cont split: if_splits)
  with 2 show ?case
    by (cases "n = 0") (auto simp: decode_loop_mid u8_is_cont Let_def simp del: of_nat_Suc decode_loop.simps(2))
qed simp_all

text \<open>
  The range of the first continuation byte decides exactly whether the sequence is free of
  overlong forms, surrogates and values above U+10FFFF.
\<close>

lemma first_cont_range:
  assumes lead: "utf8_lead t = Some (n, mincp, cp0)" and c: "is_cont c"
    and v: "unat cp = (unat cp0 * 64 + unat c mod 64) * 64 ^ (n - 1) + low" "low < 64 ^ (n - 1)"
  shows "mincp \<le> cp \<and> is_scalar cp \<longleftrightarrow> (case lead_range t of None \<Rightarrow> False | Some (m, lo, hi) \<Rightarrow> lo \<le> c \<and> c \<le> hi)"
proof -
  obtain d where d: "d < 64" "unat c = 128 + d" "unat c mod 64 = d" using c by (rule is_cont_obtain)
  note defs = is_scalar_def lead_range_def word_le_nat_alt word_unat_eq_iff
  from utf8_lead_cases [OF lead] show ?thesis
  proof (elim disjE conjE)
    assume "n = 1" "mincp = 0x80" "unat t = 192 + unat cp0" "unat cp0 < 32"
    with v d show ?thesis by (auto simp: defs)
  next
    assume "n = 2" "mincp = 0x800" "unat t = 224 + unat cp0" "unat cp0 < 16"
    with v d show ?thesis by (auto simp: defs)
  next
    assume "n = 3" "mincp = 0x10000" "unat t = 240 + unat cp0" "unat cp0 < 8"
    with v d show ?thesis by (auto simp: defs)
  qed
qed

lemma lead_range_lead:
  assumes "lead_range t = Some (n, lo, hi)"
  shows "\<exists>mincp. utf8_lead t = Some (n, mincp, ucast (t AND (if n = 1 then 0x1f else if n = 2 then 0x0f else 0x07)))
    \<and> n \<in> {1, 2, 3} \<and> 0x80 \<le> lo \<and> hi \<le> 0xbf"
  using assms by (auto simp: lead_range_def utf8_lead_def word_le_nat_alt split: if_splits)

lemma cont_val_bound: "\<exists>low < 64 ^ length cs. cont_val a cs = a * 64 ^ length cs + low"
proof (induction cs arbitrary: a)
  case (Cons c cs)
  obtain low where l: "low < 64 ^ length cs"
    "cont_val (a * 64 + unat c mod 64) cs = (a * 64 + unat c mod 64) * 64 ^ length cs + low"
    using Cons.IH by blast
  have "unat c mod 64 < 64" by simp
  then have "unat c mod 64 * 64 ^ length cs \<le> 63 * 64 ^ length cs" by (intro mult_le_mono1) linarith
  moreover have "63 * 64 ^ length cs + 64 ^ length cs = (64 :: nat) ^ length (c # cs)" by simp
  ultimately have "unat c mod 64 * 64 ^ length cs + low < 64 ^ length (c # cs)" using l(1) by linarith
  then show ?case
    using l(2) by (intro exI [of _ "unat c mod 64 * 64 ^ length cs + low"])
      (simp add: cont_val_def algebra_simps)
qed (simp add: cont_val_def)

text \<open>A sequence the check accepts, in terms of the decoder's lead table.\<close>

lemma utf8_seq_iff:
  "utf8_seq t r cp r' \<longleftrightarrow> (\<exists>n lo hi c r1. lead_range t = Some (n, lo, hi) \<and> r = c # r1
     \<and> lo \<le> c \<and> c \<le> hi
     \<and> utf8_conts r n (ucast (t AND (if n = 1 then 0x1f else if n = 2 then 0x0f else 0x07))) = Some (cp, r'))"
  (is "_ \<longleftrightarrow> ?R")
proof -
  have key: "mincp \<le> cp \<and> is_scalar cp \<longleftrightarrow>
      (case lead_range t of None \<Rightarrow> False | Some (m, lo, hi) \<Rightarrow> lo \<le> hd r \<and> hd r \<le> hi) \<and> r \<noteq> []"
    if lead: "utf8_lead t = Some (n, mincp, cp0)" and conts: "utf8_conts r n cp0 = Some (cp, r')"
    for n mincp cp0
  proof -
    note l = utf8_lead_cases [OF lead]
    then have n: "n \<noteq> 0" and b: "(unat cp0 + 1) * 64 ^ n \<le> 2 ^ 21" by auto
    from conts [unfolded utf8_conts_iff [OF b]] obtain ccs where
      ccs: "length ccs = n" "r = ccs @ r'" "list_all is_cont ccs" "unat cp = cont_val (unat cp0) ccs" by auto
    with n obtain c cs where "ccs = c # cs" by (cases ccs) auto
    with ccs have cs: "length (c # cs) = n" "r = (c # cs) @ r'" "is_cont c"
      "unat cp = cont_val (unat cp0) (c # cs)" by simp_all
    obtain low where "low < 64 ^ (n - 1)" "unat cp = (unat cp0 * 64 + unat c mod 64) * 64 ^ (n - 1) + low"
      using cont_val_bound [of cs "unat cp0 * 64 + unat c mod 64"] cs by (auto simp: cont_val_def)
    from first_cont_range [OF lead cs(3) this(2,1)] show ?thesis unfolding cs(2) by (simp split: option.splits)
  qed
  show ?thesis
  proof
    assume "utf8_seq t r cp r'"
    then obtain n mincp cp0 where s: "utf8_lead t = Some (n, mincp, cp0)"
      "utf8_conts r n cp0 = Some (cp, r')" "mincp \<le> cp \<and> is_scalar cp"
      by (auto simp: utf8_seq_def)
    with key [OF s(1,2)] obtain m lo hi where "lead_range t = Some (m, lo, hi)" "lo \<le> hd r" "hd r \<le> hi" "r \<noteq> []"
      by (auto split: option.splits)
    moreover from lead_range_lead [OF this(1)] s(1) have "m = n"
      "cp0 = ucast (t AND (if n = 1 then 0x1f else if n = 2 then 0x0f else 0x07))" by auto
    ultimately show ?R using s(2) by (cases r) auto
  next
    assume ?R
    then obtain n lo hi c r1 where l: "lead_range t = Some (n, lo, hi)" "r = c # r1" "lo \<le> c" "c \<le> hi"
      "utf8_conts r n (ucast (t AND (if n = 1 then 0x1f else if n = 2 then 0x0f else 0x07))) = Some (cp, r')"
      by blast
    from lead_range_lead [OF l(1)] obtain mincp where
      "utf8_lead t = Some (n, mincp, ucast (t AND (if n = 1 then 0x1f else if n = 2 then 0x0f else 0x07)))"
      by blast
    with key [OF this l(5)] l show "utf8_seq t r cp r'" by (auto simp: utf8_seq_def)
  qed
qed

subsection \<open>Decoding valid UTF-8\<close>

lemma decode_loop_ascii:
  "dec_ready ctx \<Longrightarrow> t < 0x80 \<Longrightarrow>
    decode_loop (t # r) (ctx, out) = decode_loop r (decode_emit (ucast t) (ctx, out))"
  by (simp add: decode_next_ready)

lemma decode_loop_seq:
  assumes "dec_ready ctx" "\<not> t < 0x80" "utf8_seq t r cp r'"
  shows "decode_loop (t # r) (ctx, out) = decode_loop r' (decode_emit cp (ctx, out))"
proof -
  from assms(3) [unfolded utf8_seq_iff] obtain n lo hi c r1 where
    l: "lead_range t = Some (n, lo, hi)" and r: "r = c # r1" and c: "lo \<le> c" "c \<le> hi"
    and conts: "utf8_conts r n (ucast (t AND (if n = 1 then 0x1f else if n = 2 then 0x0f else 0x07))) = Some (cp, r')"
    by blast
  define cp0 :: u32 where "cp0 = ucast (t AND (if n = 1 then 0x1f else if n = 2 then 0x0f else 0x07))"
  note conts = conts [folded cp0_def]
  have n: "n \<in> {1, 2, 3}" and range: "0x80 \<le> lo" "hi \<le> 0xbf"
    using lead_range_lead [OF l] by blast+
  then have cc: "0x80 \<le> c" "c \<le> 0xbf" using c by auto
  from n obtain k where k: "n = Suc k" "k \<le> 3" by auto
  have "decode_loop (t # r) (ctx, out) = decode_loop (c # r1) (dec_mid ctx n lo hi cp0, out)"
    unfolding decode_loop.simps(2) decode_next_ready [OF assms(1)] l r cp0_def
    using assms(2) by (simp del: decode_loop.simps)
  also have "\<dots> = decode_loop (c # r1) (dec_mid ctx n 0x80 0xbf cp0, out)"
    using c cc unfolding k(1) decode_loop_mid [OF k(2)] by simp
  also have "\<dots> = decode_loop r' (decode_emit cp (dec_mid ctx 0 0x80 0xbf 0, out))"
    using conts k unfolding r by (intro decode_loop_conts) simp_all
  finally show ?thesis by (simp only: dec_ready_mid [OF assms(1)])
qed

lemma dec_ready_emit: "dec_ready ctx \<Longrightarrow> decode_emit cp (ctx, out) = (ctx', out') \<Longrightarrow> dec_ready ctx'"
  by (auto simp: decode_emit_def dec_ready_def Let_def split: if_splits)

lemma decode_loop_scalar:
  assumes "is_scalar x" "dec_ready ctx"
  shows "decode_loop (xutf8_bytes x @ r) (ctx, out) = decode_loop r (decode_emit x (ctx, out))"
proof (cases "x < 0x80")
  case True
  then have "xutf8_bytes x = [ucast x]" "(ucast x :: u8) < 0x80" "ucast (ucast x :: u8) = x"
    using xutf8_bytes_nat [of x] by (simp_all add: utf8_nat_def word_less_nat_alt of_nat_u8_eqI
        unat_ucast_mod word_unat_eq_iff)
  then show ?thesis using decode_loop_ascii [OF assms(2), of "ucast x"] by simp
next
  case False
  from utf8_seq_complete [OF assms(1) this] obtain t cs where
    s: "xutf8_bytes x = t # cs" "\<not> t < 0x80" "utf8_seq t (cs @ r) x r" by blast
  then show ?thesis using decode_loop_seq [OF assms(2) s(2,3)] by simp
qed

text \<open>The output of a run over whole code points.\<close>

definition decode_emits :: "u32 list \<Rightarrow> decode_ctx \<times> u8 list \<Rightarrow> decode_ctx \<times> u8 list" where
  "decode_emits cps s = foldl (\<lambda>s cp. decode_emit cp s) s cps"

lemma decode_loop_scalars:
  "list_all is_scalar cps \<Longrightarrow> dec_ready (fst s) \<Longrightarrow>
    decode_loop (utf8_encode cps @ r) s = decode_loop r (decode_emits cps s)"
proof (induction cps arbitrary: s)
  case (Cons x cps)
  obtain ctx out where s: "s = (ctx, out)" by force
  obtain ctx' out' where e: "decode_emit x s = (ctx', out')" by force
  have "dec_ready ctx" using Cons.prems s by simp
  moreover from dec_ready_emit [OF this, of x out] have "dec_ready ctx'" using e s by simp
  ultimately show ?case
    using Cons.IH [of "(ctx', out')"] Cons.prems decode_loop_scalar [of x ctx "utf8_encode cps @ r" out]
    by (simp add: utf8_encode_def decode_emits_def s [symmetric] e del: decode_loop.simps)
qed (simp add: utf8_encode_def decode_emits_def)

text \<open>In fatal mode anything else is rejected.\<close>

definition decode_ok :: "u8 list \<Rightarrow> decode_ctx \<times> u8 list \<Rightarrow> bool" where
  "decode_ok inp s = (case decode_loop inp s of Inl e \<Rightarrow> False | Inr (ctx, out) \<Rightarrow> dc_needed ctx = 0)"

lemma decode_ok_conts:
  assumes "decode_ok r (dec_mid ctx n 0x80 0xbf cp, out)" "0 < n" "n \<le> 4" "dc_fatal ctx"
  shows "\<exists>cp' r'. utf8_conts r n cp = Some (cp', r')"
  using assms
proof (induction r n cp rule: utf8_conts.induct)
  case (2 t r n cp)
  then have n: "n \<le> 3" by simp
  have t: "is_cont t" and step: "n \<noteq> 0 \<Longrightarrow> decode_ok r (dec_mid ctx n 0x80 0xbf (push_bit 6 cp + ucast (t AND 0x3f)), out)"
    using "2.prems" by (auto simp: decode_ok_def decode_loop_mid [OF n] Let_def
        simp del: decode_loop.simps of_nat_Suc split: if_splits)
  show ?case
  proof (cases "n = 0")
    case False
    with "2.IH" [OF _ step] t "2.prems" show ?thesis by (simp add: u8_is_cont)
  qed (use t in \<open>simp add: u8_is_cont\<close>)
next
  case (3 n cp)
  then have "n = 0 \<or> n = 1 \<or> n = 2 \<or> n = 3" by auto
  with 3 show ?case by (auto simp: decode_ok_def)
qed simp

lemma decode_ok_seq:
  assumes "decode_ok (t # r) (ctx, out)" "dec_ready ctx" "dc_fatal ctx" "\<not> t < 0x80"
  shows "\<exists>cp r'. utf8_seq t r cp r'"
proof -
  obtain n lo hi where l: "lead_range t = Some (n, lo, hi)"
    using assms by (cases "lead_range t") (auto simp: decode_ok_def decode_next_ready)
  define cp0 :: u32 where "cp0 = ucast (t AND (if n = 1 then 0x1f else if n = 2 then 0x0f else 0x07))"
  have n: "n \<in> {1, 2, 3}" and range: "0x80 \<le> lo" "hi \<le> 0xbf"
    using lead_range_lead [OF l] by blast+
  then obtain k where k: "n = Suc k" "k \<le> 3" by auto
  have step: "decode_loop (t # r) (ctx, out) = decode_loop r (dec_mid ctx n lo hi cp0, out)"
    unfolding decode_loop.simps(2) decode_next_ready [OF assms(2)] l cp0_def
    using assms(4) by (simp del: decode_loop.simps)
  have ok: "decode_ok r (dec_mid ctx n lo hi cp0, out)"
    using assms(1) by (simp only: decode_ok_def step)
  with n obtain c r1 where r: "r = c # r1" by (cases r) (auto simp: decode_ok_def)
  from ok have c: "lo \<le> c" "c \<le> hi"
    unfolding r k(1) decode_ok_def decode_loop_mid [OF k(2)] using assms(3) by (auto split: if_splits)
  then have cc: "0x80 \<le> c" "c \<le> 0xbf" using range by auto
  then have "decode_loop r (dec_mid ctx n lo hi cp0, out) = decode_loop r (dec_mid ctx n 0x80 0xbf cp0, out)"
    using c cc unfolding r k(1) decode_loop_mid [OF k(2)] by simp
  then have "decode_ok r (dec_mid ctx n 0x80 0xbf cp0, out)" using ok by (simp only: decode_ok_def)
  from decode_ok_conts [OF this] k assms(3) obtain cp' r' where "utf8_conts r n cp0 = Some (cp', r')"
    by auto
  then show ?thesis unfolding utf8_seq_iff r using l c unfolding cp0_def by blast
qed

lemma decode_ok_iff:
  "dec_ready ctx \<Longrightarrow> dc_fatal ctx \<Longrightarrow> decode_ok bs (ctx, out) \<longleftrightarrow> utf8_check bs"
proof (induction bs arbitrary: ctx out rule: length_induct)
  case (1 bs)
  show ?case
  proof (cases bs)
    case Nil with "1.prems" show ?thesis by (simp add: decode_ok_def dec_ready_def)
  next
    case (Cons t r)
    have emit: "decode_ok r' (decode_emit cp (ctx, out)) \<longleftrightarrow> utf8_check r'" if "length r' < length bs" for cp r'
    proof -
      obtain ctx' out' where e: "decode_emit cp (ctx, out) = (ctx', out')" by force
      have "dec_ready ctx'" "dc_fatal ctx'"
        using dec_ready_emit [OF "1.prems"(1) e] decode_emit_fields(5) [of cp ctx out] "1.prems"(2) e by simp_all
      with that "1.IH" show ?thesis by (simp add: e)
    qed
    show ?thesis
    proof (cases "t < 0x80")
      case True
      then show ?thesis using emit [of r] Cons
        by (simp add: decode_ok_def decode_loop_ascii [OF "1.prems"(1) True] u8_and_80 del: decode_loop.simps)
    next
      case False
      note seq = decode_loop_seq [OF "1.prems"(1) False]
      have len: "utf8_seq t r cp r' \<Longrightarrow> length r' < length bs" for cp r'
        using Cons utf8_conts_length by (fastforce simp: utf8_seq_def)
      have eq: "decode_ok (t # r) (ctx, out) \<longleftrightarrow> utf8_check r'" if "utf8_seq t r cp r'" for cp r'
        using emit [OF len [OF that]] seq [OF that] unfolding decode_ok_def by simp
      show ?thesis unfolding Cons utf8_check_seq [OF False]
        using decode_ok_seq [OF _ "1.prems" False] eq by blast
    qed
  qed
qed

text \<open>A freshly initialised context.\<close>

lemma dec_ready_init: "dec_ready (duk__utf8_decode_init ctx)"
  by (simp add: duk__utf8_decode_init_def dec_ready_def)

lemma decode_next_fatal: "duk__utf8_decode_next ctx x = (ctx', ret) \<Longrightarrow> dc_fatal ctx' = dc_fatal ctx"
  by (auto simp: duk__utf8_decode_next_def Let_def split: if_splits)

lemma decode_loop_fatal: "decode_loop inp s = Inr s' \<Longrightarrow> dc_fatal (fst s') = dc_fatal (fst s)"
proof (induction inp s rule: decode_loop.induct)
  case (2 x inp ctx out)
  obtain ctx1 ret where n: "duk__utf8_decode_next ctx x = (ctx1, ret)" by force
  note f = decode_next_fatal [OF n]
  show ?case
    using "2.IH" [OF n [symmetric]] "2.prems" n f
    by (cases ret) (auto simp del: decode_loop.simps(2)
        simp: decode_loop.simps(2) [of x inp ctx out] split: if_splits)
qed simp

lemma decode_helper_ok:
  "(\<exists>s. duk__decode_helper ctx bs False = Inr s) \<longleftrightarrow>
     length bs < DUK_HBUFFER_MAX_BYTELEN div 3 - 3 \<and> decode_ok bs (ctx, [])"
  if "dc_fatal ctx"
proof -
  have "decode_loop bs (ctx, []) = Inr (ctx', out) \<Longrightarrow> dc_fatal ctx'" for ctx' out
    using decode_loop_fatal [of bs "(ctx, [])"] that by simp
  then show ?thesis
  by (auto simp: duk__decode_helper_def decode_ok_def not_le split: sum.splits)
qed
text \<open>Chunked decoding: a run over two chunks is the run over the second from where the first stopped.\<close>

lemma decode_loop_append:
  "decode_loop (a @ b) s = (case decode_loop a s of Inl e \<Rightarrow> Inl e | Inr s' \<Rightarrow> decode_loop b s')"
proof (induction a s rule: decode_loop.induct)
  case (2 x inp ctx out)
  obtain ctx1 ret where n: "duk__utf8_decode_next ctx x = (ctx1, ret)" by force
  show ?case
    using "2.IH" [OF n [symmetric]] n
    by (cases ret) (simp_all del: decode_loop.simps(2)
        add: decode_loop.simps(2) [of x inp ctx out] decode_loop.simps(2) [of x "inp @ b" ctx out])
qed simp

subsection \<open>Encoder\<close>

record encode_ctx =
  ec_lead :: u32
  ec_out :: "u8 list"

definition duk__utf8_emit_repl :: "u8 list \<Rightarrow> u8 list" where
  "duk__utf8_emit_repl out = out @ [0xef, 0xbf, 0xbd]"

text \<open>\<^verbatim>\<open>duk_codepoint_t\<close> is a signed 32-bit integer: its comparisons are those of \<open>sint\<close>.\<close>

definition duk__utf8_encode_char :: "u32 \<Rightarrow> encode_ctx \<Rightarrow> encode_ctx" where
  "duk__utf8_encode_char cp ctx =
     (if sint cp \<le> 0x7f \<and> ec_lead ctx = 0 then ctx\<lparr>ec_out := ec_out ctx @ [ucast cp]\<rparr>
      else if sint cp > 0x10ffff then
        ctx\<lparr>ec_out := ec_out ctx @ snd (duk_unicode_encode_xutf8 0xfffd)\<rparr>
      else if sint cp \<ge> 0xd800 \<and> sint cp \<le> 0xdfff then
        (if sint cp \<le> 0xdbff then
           (let prev_lead = ec_lead ctx; ctx = ctx\<lparr>ec_lead := cp\<rparr>
            in if prev_lead = 0 then ctx
               else ctx\<lparr>ec_out := ec_out ctx @ snd (duk_unicode_encode_xutf8 0xfffd)\<rparr>)
         else if ec_lead ctx \<noteq> 0 then
           (let cp' = 0x10000 + push_bit 10 (ec_lead ctx - 0xd800) + (cp - 0xdc00)
            in ctx\<lparr>ec_lead := 0, ec_out := ec_out ctx @ snd (duk_unicode_encode_xutf8 cp')\<rparr>)
         else ctx\<lparr>ec_out := ec_out ctx @ snd (duk_unicode_encode_xutf8 0xfffd)\<rparr>)
      else
        (let ctx = (if ec_lead ctx \<noteq> 0
                    then ctx\<lparr>ec_lead := 0, ec_out := duk__utf8_emit_repl (ec_out ctx)\<rparr> else ctx)
         in ctx\<lparr>ec_out := ec_out ctx @ snd (duk_unicode_encode_xutf8 cp)\<rparr>))"

text \<open>\<^verbatim>\<open>duk_decode_string\<close>: the callback over the code points of an internal string.\<close>

lemma xutf8_cont_pos: "snd (xutf8_cont buf p n res) = p + n"
  by (induction buf p n res rule: xutf8_cont.induct) auto

lemma decode_xutf8_advances: "duk_unicode_decode_xutf8 buf p = Some (cp, p') \<Longrightarrow> p < p' \<and> p' \<le> length buf"
  by (auto simp: duk_unicode_decode_xutf8_def Let_def split: if_splits
      dest!: arg_cong [where f = snd] simp: xutf8_cont_pos)

function decode_string_from :: "(u32 \<Rightarrow> 's \<Rightarrow> 's) \<Rightarrow> u8 list \<Rightarrow> nat \<Rightarrow> 's \<Rightarrow> 's result" where
  "decode_string_from callback data p udata =
     (if p \<ge> length data then Inr udata
      else case duk_unicode_decode_xutf8_checked data p of
        Inl e \<Rightarrow> Inl e
      | Inr (cp, p') \<Rightarrow> decode_string_from callback data p' (callback cp udata))"
  by pat_completeness auto
termination
  by (relation "measure (\<lambda>(callback, data, p, udata). length data - p)")
    (auto simp: duk_unicode_decode_xutf8_checked_def split: option.splits dest!: decode_xutf8_advances)

declare decode_string_from.simps [simp del]

definition duk_decode_string :: "(u32 \<Rightarrow> 's \<Rightarrow> 's) \<Rightarrow> u8 list \<Rightarrow> 's \<Rightarrow> 's result" where
  "duk_decode_string callback data udata = decode_string_from callback data 0 udata"

text \<open>
  The encoder's result: the size allocated for the output buffer, and the bytes written
  from its start on.
\<close>

definition duk_bi_textencoder_prototype_encode :: "u8 list option \<Rightarrow> (nat \<times> u8 list) result" where
  "duk_bi_textencoder_prototype_encode inp =
     (let data = (case inp of None \<Rightarrow> [] | Some d \<Rightarrow> d);
          len = duk_unicode_unvalidated_utf8_length 0 data
      in if len \<ge> DUK_HBUFFER_MAX_BYTELEN div 3 then Inl (TypeError ''result too long'')
         else if len > 0 then
           (case duk_decode_string duk__utf8_encode_char data \<lparr>ec_lead = 0, ec_out = []\<rparr> of
              Inl e \<Rightarrow> Inl e
            | Inr ctx \<Rightarrow>
                Inr (3 * len, if ec_lead ctx \<noteq> 0 then duk__utf8_emit_repl (ec_out ctx) else ec_out ctx))
         else Inr (3 * len, []))"

lemma decode_string_from_cons:
  "decode_string_from callback (pre @ xutf8_bytes x @ r) (length pre) udata
    = decode_string_from callback ((pre @ xutf8_bytes x) @ r) (length (pre @ xutf8_bytes x)) (callback x udata)"
proof -
  have "xutf8_bytes x \<noteq> []" by (simp add: xutf8_bytes_def duk_unicode_encode_xutf8_def Let_def)
       (metis length_xutf8_fill list.size(3) add_is_0 nat.distinct(1))
  then show ?thesis
    using xutf8_roundtrip [of pre x r]
    by (subst decode_string_from.simps) (simp add: duk_unicode_decode_xutf8_checked_def
        length_xutf8_bytes [symmetric] flip: xutf8_bytes_def)
qed

lemma decode_string_encoded:
  "duk_decode_string callback (utf8_encode cps) udata = Inr (fold callback cps udata)"
proof -
  have "decode_string_from callback (pre @ utf8_encode cps) (length pre) udata = Inr (fold callback cps udata)" for pre
  proof (induction cps arbitrary: pre udata)
    case Nil then show ?case by (simp add: utf8_encode_def decode_string_from.simps)
  next
    case (Cons x cps)
    show ?case
      using Cons.IH [of "pre @ xutf8_bytes x"] decode_string_from_cons [of callback pre x "utf8_encode cps"]
      by (simp add: utf8_encode_def)
  qed
  from this [of "[]"] show ?thesis by (simp add: duk_decode_string_def)
qed

subsection \<open>Code units and the encoder's output\<close>

text \<open>The 16-bit code units of a code point, as ECMAScript strings hold them.\<close>

definition utf16 :: "u32 \<Rightarrow> u32 list" where
  "utf16 x = (if x < 0x10000 then [x] else [hi_surrogate x, lo_surrogate x])"

lemma cesu8_utf16: "x \<le> 0x10ffff \<Longrightarrow> snd (duk_unicode_encode_cesu8 x) = utf8_encode (utf16 x)"
  by (simp add: utf16_def utf8_encode_def encode_cesu8_bmp encode_cesu8_surrogates xutf8_bytes_def not_less)

text \<open>The encoder on one code unit, and on a surrogate pair.\<close>

lemma encode_char_bmp:
  assumes "x < 0x10000" "is_scalar x"
  shows "duk__utf8_encode_char x \<lparr>ec_lead = 0, ec_out = out\<rparr> = \<lparr>ec_lead = 0, ec_out = out @ xutf8_bytes x\<rparr>"
proof -
  obtain n where n: "unat x = n" by simp
  with assms(1) have "n < 65536" "sint x = int n"
    using sint_u32_small [of x, unfolded n] by (simp_all add: word_less_nat_alt)
  moreover note n
  moreover have "unat x < 128 \<Longrightarrow> xutf8_bytes x = [ucast x]"
    using xutf8_bytes_nat [of x] by (simp add: utf8_nat_def word_less_nat_alt of_nat_u8_eqI word_nat)
  ultimately show ?thesis using assms(2)
    by (auto simp: duk__utf8_encode_char_def is_scalar_def word_le_nat_alt xutf8_bytes_def)
qed

lemma surrogate_range:
  assumes "0x10000 \<le> x" "x \<le> 0x10ffff"
  shows "unat (hi_surrogate x) = 0xd800 + (unat x - 0x10000) div 1024"
    "unat (lo_surrogate x) = 0xdc00 + (unat x - 0x10000) mod 1024"
    "(unat x - 0x10000) div 1024 < 1024"
proof -
  have x: "65536 \<le> unat x" "unat x \<le> 1114111" using assms by (simp_all add: word_le_nat_alt)
  then have y: "unat (x - 0x10000) = unat x - 65536" by (simp add: unat_sub_if_size)
  show "unat (hi_surrogate x) = 0xd800 + (unat x - 0x10000) div 1024"
    "unat (lo_surrogate x) = 0xdc00 + (unat x - 0x10000) mod 1024"
    "(unat x - 0x10000) div 1024 < 1024"
    using x by (simp_all add: hi_surrogate_def lo_surrogate_def word_nat y)
qed

lemma encode_char_pair:
  assumes "0x10000 \<le> x" "x \<le> 0x10ffff"
  shows "duk__utf8_encode_char (lo_surrogate x) (duk__utf8_encode_char (hi_surrogate x) \<lparr>ec_lead = 0, ec_out = out\<rparr>)
    = \<lparr>ec_lead = 0, ec_out = out @ xutf8_bytes x\<rparr>"
proof -
  define q where "q = (unat x - 0x10000) div 1024"
  define r where "r = (unat x - 0x10000) mod 1024"
  note s = surrogate_range [OF assms, folded q_def r_def]
  have q: "q < 1024" and r: "r < 1024" and x: "unat x = 65536 + q * 1024 + r"
    using s(3) assms by (simp_all add: q_def r_def word_le_nat_alt)
  have i: "sint (hi_surrogate x) = 0xd800 + int q" "sint (lo_surrogate x) = 0xdc00 + int r"
    using q r sint_u32_small [of "hi_surrogate x", unfolded s] sint_u32_small [of "lo_surrogate x", unfolded s]
    by simp_all
  have "hi_surrogate x \<noteq> 0" using s(1) by (auto simp: word_unat_eq_iff)
  moreover have "0x10000 + push_bit 10 (hi_surrogate x - 0xd800) + (lo_surrogate x - 0xdc00) = x"
  proof -
    define h where "h = hi_surrogate x - 0xd800"
    define l where "l = lo_surrogate x - 0xdc00"
    have "unat h = q" "unat l = r" using q r by (simp_all add: h_def l_def unat_sub_if_size s word_le_nat_alt)
    then have "0x10000 + push_bit 10 h + l = x"
      using q r by (intro word_unat_eq_iff [THEN iffD2]) (simp add: unat_add_mod unat_push_bit_mod x)
    then show ?thesis by (simp only: h_def l_def)
  qed
  ultimately show ?thesis using q r
    by (simp add: duk__utf8_encode_char_def i Let_def xutf8_bytes_def)
qed

lemma encode_utf16:
  "is_scalar x \<Longrightarrow> fold duk__utf8_encode_char (utf16 x) \<lparr>ec_lead = 0, ec_out = out\<rparr>
    = \<lparr>ec_lead = 0, ec_out = out @ xutf8_bytes x\<rparr>"
  by (auto simp: utf16_def encode_char_bmp encode_char_pair not_less is_scalar_def)

lemma encode_utf16s:
  "list_all is_scalar cps \<Longrightarrow> fold duk__utf8_encode_char (concat (map utf16 cps)) \<lparr>ec_lead = 0, ec_out = out\<rparr>
    = \<lparr>ec_lead = 0, ec_out = out @ utf8_encode cps\<rparr>"
  by (induction cps arbitrary: out) (simp_all add: encode_utf16 utf8_encode_def)

text \<open>The character length of a string is its number of code points.\<close>

lemma xutf8_fill_conts: "list_all is_cont (tl (xutf8_fill n x m []))"
proof (induction n arbitrary: x)
  case (Suc n)
  have "xutf8_fill n (drop_bit 6 x) m [] \<noteq> []"
    by (metis length_xutf8_fill list.size(3) add_is_0 nat.distinct(1))
  then have "tl (xutf8_fill (Suc n) x m []) = tl (xutf8_fill n (drop_bit 6 x) m []) @ [ucast (0x80 + (x AND 0x3f))]"
    unfolding xutf8_fill_Suc by simp
  moreover have "is_cont (ucast (0x80 + (x AND 0x3f)))"
    by (simp add: ucast_cont is_cont_of_nat)
  ultimately show ?case using Suc.IH by simp
qed simp

lemma xutf8_bytes_conts:
  "length (filter is_cont (xutf8_bytes x)) = length (xutf8_bytes x) - 1 \<and> xutf8_bytes x \<noteq> []"
proof -
  define n where "n = duk_unicode_get_xutf8_length x - 1"
  define m where "m = duk_unicode_xutf8_markers ! n"
  have e: "xutf8_bytes x = xutf8_fill n x m []"
    by (simp add: xutf8_bytes_def duk_unicode_encode_xutf8_def Let_def n_def m_def)
  obtain h t where ht: "xutf8_fill n x m [] = h # t"
    by (cases "xutf8_fill n x m []") (metis length_xutf8_fill list.size(3) add_is_0 nat.distinct(1))
  have cls: "xutf8_class n (unat m) (unat x div 64 ^ n)"
    using xutf8_class_of [of x] by (simp only: n_def m_def)
  then have "unat x div 64 ^ n + unat m < 256" by (auto simp: xutf8_class_def)
  from first_byte [OF this] have "unat h = unat m + unat x div 64 ^ n"
    using hd_xutf8_fill [of n x m "[]"] by (simp add: ht)
  with cls have "\<not> is_cont h" by (auto simp: xutf8_class_def word_le_nat_alt)
  moreover have "list_all is_cont t" using xutf8_fill_conts [of n x m] by (simp add: ht)
  then have "filter is_cont t = t" by (simp add: list_all_iff filter_id_conv)
  ultimately show ?thesis by (simp add: e ht del: filter_id_conv)
qed

lemma charlen_encoded: "duk_unicode_unvalidated_utf8_length addr (utf8_encode cps) = length cps"
proof -
  have "length (utf8_encode cps) = length cps + length (filter is_cont (utf8_encode cps))"
  proof (induction cps)
    case (Cons x cps)
    with xutf8_bytes_conts [of x] show ?case
      by (cases "xutf8_bytes x") (simp_all add: utf8_encode_def split: if_splits)
  qed (simp add: utf8_encode_def)
  then show ?thesis by (simp add: unvalidated_utf8_length_eq)
qed

lemma textencoder_units:
  assumes "length cps < DUK_HBUFFER_MAX_BYTELEN div 3"
  shows "duk_bi_textencoder_prototype_encode (Some (utf8_encode cps)) =
    (let ctx = fold duk__utf8_encode_char cps \<lparr>ec_lead = 0, ec_out = []\<rparr>
     in Inr (3 * length cps, if ec_lead ctx \<noteq> 0 then duk__utf8_emit_repl (ec_out ctx) else ec_out ctx))"
  using assms by (simp add: duk_bi_textencoder_prototype_encode_def charlen_encoded decode_string_encoded Let_def)

text \<open>Output of the encoder for 16-bit code units: at most three bytes for each.\<close>

definition lead_room :: "encode_ctx \<Rightarrow> nat" where
  "lead_room ctx = (if ec_lead ctx \<noteq> 0 then 3 else 0)"

lemma xutf8_length_le:
  "x < 0x10000 \<Longrightarrow> length (xutf8_bytes x) \<le> 3" "x < 0x200000 \<Longrightarrow> length (xutf8_bytes x) \<le> 4"
  by (simp_all add: length_xutf8_bytes duk_unicode_encode_xutf8_def Let_def duk_unicode_get_xutf8_length_def)

definition lead_ok :: "encode_ctx \<Rightarrow> bool" where
  "lead_ok ctx \<longleftrightarrow> ec_lead ctx = 0 \<or> (0xd800 \<le> ec_lead ctx \<and> ec_lead ctx \<le> 0xdbff)"

lemma encode_char_room:
  assumes "x < 0x10000" "lead_ok ctx"
  shows "length (ec_out (duk__utf8_encode_char x ctx)) + lead_room (duk__utf8_encode_char x ctx)
      \<le> length (ec_out ctx) + lead_room ctx + 3 \<and> lead_ok (duk__utf8_encode_char x ctx)"
proof -
  obtain n where n: "unat x = n" by simp
  then have i: "n < 65536" "sint x = int n"
    using assms(1) sint_u32_small [of x, unfolded n] by (simp_all add: word_less_nat_alt)
  have x: "length (snd (duk_unicode_encode_xutf8 x)) \<le> 3" "length (snd (duk_unicode_encode_xutf8 0xfffd)) \<le> 3"
    using xutf8_length_le(1) [OF assms(1)] xutf8_length_le(1) [of "0xfffd"] by (simp_all add: xutf8_bytes_def)
  have pair: "length (snd (duk_unicode_encode_xutf8 (0x10000 + push_bit 10 (ec_lead ctx - 0xd800) + (x - 0xdc00)))) \<le> 4"
    if "0xdc00 \<le> n" "n \<le> 0xdfff" "ec_lead ctx \<noteq> 0"
  proof -
    define h where "h = ec_lead ctx - 0xd800"
    define l where "l = x - 0xdc00"
    have "unat h < 1024" "unat l < 1024"
      using assms(2) that n by (auto simp: h_def l_def lead_ok_def unat_sub_if_size word_le_nat_alt)
    then have "0x10000 + push_bit 10 h + l < 0x200000"
      by (simp add: word_less_nat_alt unat_add_mod unat_push_bit_mod)
    from xutf8_length_le(2) [OF this] show ?thesis by (simp add: xutf8_bytes_def h_def l_def)
  qed
  show ?thesis
    using assms(2) x pair n i
    by (auto simp: duk__utf8_encode_char_def Let_def lead_room_def lead_ok_def duk__utf8_emit_repl_def
        word_le_nat_alt)
qed

lemma encode_chars_room:
  "list_all (\<lambda>x. x < 0x10000) cps \<Longrightarrow> lead_ok ctx \<Longrightarrow>
    length (ec_out (fold duk__utf8_encode_char cps ctx)) + lead_room (fold duk__utf8_encode_char cps ctx)
      \<le> length (ec_out ctx) + lead_room ctx + 3 * length cps"
proof (induction cps arbitrary: ctx)
  case (Cons x cps)
  then have r: "length (ec_out (duk__utf8_encode_char x ctx)) + lead_room (duk__utf8_encode_char x ctx)
      \<le> length (ec_out ctx) + lead_room ctx + 3" "lead_ok (duk__utf8_encode_char x ctx)"
    using encode_char_room [of x ctx] by simp_all
  with Cons.IH [OF _ r(2)] Cons.prems show ?case by simp
qed simp

subsection \<open>Well-formed decoder output\<close>

text \<open>
  Whatever continuation bytes of the accepted range follow, the value assembled from a
  context in the middle of a sequence is a scalar value.
\<close>

definition completes :: "nat \<Rightarrow> u32 \<Rightarrow> bool" where
  "completes n cp \<longleftrightarrow> unat cp < 0x110000 \<and> (\<forall>low < 64 ^ n. (unat cp * 64 ^ n + low < 0xd800 \<or> 0xe000 \<le> unat cp * 64 ^ n + low)
     \<and> unat cp * 64 ^ n + low < 0x110000)"

definition dec_inv :: "decode_ctx \<Rightarrow> bool" where
  "dec_inv ctx \<longleftrightarrow> dec_ready ctx \<or> (\<exists>n \<in> {1, 2, 3}. dc_needed ctx = of_nat n
     \<and> 0x80 \<le> dc_lower ctx \<and> dc_upper ctx \<le> 0xbf
     \<and> (\<forall>c. dc_lower ctx \<le> c \<and> c \<le> dc_upper ctx \<longrightarrow>
          completes (n - 1) (push_bit 6 (dc_codepoint ctx) + ucast (c AND 0x3f))))"

lemma completes_0: "completes 0 cp \<longleftrightarrow> is_scalar cp"
  by (auto simp: completes_def is_scalar_def word_le_nat_alt)

lemma completes_step:
  assumes "completes (Suc n) cp"
  shows "completes n (push_bit 6 cp + ucast ((c :: u8) AND 0x3f))"
proof -
  define d where "d = unat c mod 64"
  have d: "d < 64" by (simp add: d_def)
  have v: "unat (push_bit 6 cp + ucast (c AND 0x3f) :: u32) = unat cp * 64 + d"
    using assms d by (simp add: completes_def word_nat flip: d_def)
  have low: "d * 64 ^ n + low < 64 ^ Suc n" if "low < 64 ^ n" for low :: nat
  proof -
    have "d * 64 ^ n \<le> 63 * 64 ^ n" using d by (intro mult_le_mono1) linarith
    moreover have "63 * 64 ^ n + 64 ^ n = (64 :: nat) ^ Suc n" by simp
    ultimately show ?thesis using that by linarith
  qed
  have e: "(unat cp * 64 + d) * 64 ^ n + low = unat cp * 64 ^ Suc n + (d * 64 ^ n + low)" for low
    by (simp add: algebra_simps)
  have all: "((unat cp * 64 + d) * 64 ^ n + low < 0xd800 \<or> 0xe000 \<le> (unat cp * 64 + d) * 64 ^ n + low)
     \<and> (unat cp * 64 + d) * 64 ^ n + low < 0x110000" if "low < 64 ^ n" for low
    using assms low [OF that] unfolding completes_def e by blast
  have "(unat cp * 64 + d) * 1 \<le> (unat cp * 64 + d) * 64 ^ n" by (rule mult_le_mono2) simp
  moreover from all [of 0] have "(unat cp * 64 + d) * 64 ^ n < 0x110000" by simp
  ultimately have "unat cp * 64 + d < 0x110000" by (simp only: mult_1_right)
  with all show ?thesis by (simp add: completes_def v)
qed

lemma dec_inv_start:
  assumes "lead_range t = Some (n, lo, hi)" "dec_ready ctx"
  shows "dec_inv (dec_mid ctx n lo hi (ucast (t AND (if n = 1 then 0x1f else if n = 2 then 0x0f else 0x07))))"
proof -
  define cp0 :: u32 where "cp0 = ucast (t AND (if n = 1 then 0x1f else if n = 2 then 0x0f else 0x07))"
  have n: "n \<in> {1, 2, 3}" and r: "0x80 \<le> lo" "hi \<le> 0xbf" using lead_range_lead [OF assms(1)] by blast+
  obtain mincp where lead: "utf8_lead t = Some (n, mincp, cp0)"
    using lead_range_lead [OF assms(1)] unfolding cp0_def by blast
  have "completes (n - 1) (push_bit 6 cp0 + ucast (c AND 0x3f))" if c: "lo \<le> c" "c \<le> hi" for c
  proof -
    have cc: "is_cont c" using c r by auto
    have "unat cp0 < 32" using utf8_lead_cases [OF lead] by auto
    moreover have "unat c mod 64 < 64" by simp
    ultimately have b: "unat cp0 * 64 + unat c mod 64 < 2048" "unat cp0 < 32" by linarith+
    then have u: "unat (push_bit 6 cp0 + ucast (c AND 0x3f) :: u32) = unat cp0 * 64 + unat c mod 64"
      by (simp add: word_nat)
    have "((unat cp0 * 64 + unat c mod 64) * 64 ^ (n - 1) + low < 0xd800 \<or> 0xe000 \<le> (unat cp0 * 64 + unat c mod 64) * 64 ^ (n - 1) + low)
       \<and> (unat cp0 * 64 + unat c mod 64) * 64 ^ (n - 1) + low < 0x110000" if low: "low < 64 ^ (n - 1)" for low
    proof -
      define v where "v = (unat cp0 * 64 + unat c mod 64) * 64 ^ (n - 1) + low"
      have "v < 2 ^ 32"
      proof -
        have "(64 :: nat) ^ (n - 1) \<le> 4096" using n by auto
        then have "(unat cp0 * 64 + unat c mod 64) * 64 ^ (n - 1) \<le> 2048 * 4096"
          using b by (intro mult_le_mono) simp_all
        then show ?thesis using low \<open>64 ^ (n - 1) \<le> 4096\<close> unfolding v_def by simp
      qed
      then have "unat (of_nat v :: u32) = v" by (simp add: unat_of_nat)
      then have "is_scalar (of_nat v)"
        using first_cont_range [OF lead cc, of "of_nat v" low] low assms(1) c by (simp add: v_def)
      with \<open>unat (of_nat v :: u32) = v\<close> show ?thesis
        unfolding v_def [symmetric] by (auto simp: is_scalar_def word_le_nat_alt)
    qed
    then show ?thesis using b by (simp add: completes_def u)
  qed
  then show ?thesis using n r unfolding dec_inv_def cp0_def by auto
qed

lemma dec_inv_emit: "dec_inv ctx \<Longrightarrow> dec_inv (fst (decode_emit cp (ctx, out)))"
  by (simp add: dec_inv_def dec_ready_def)

lemma decode_next_inv:
  assumes "dec_inv ctx" "duk__utf8_decode_next ctx x = (ctx', ret)"
  shows "dec_inv ctx' \<and> (\<forall>cp. ret = Cp cp \<longrightarrow> is_scalar cp)"
proof (cases "dec_ready ctx")
  case True
  have "x < 0x80 \<Longrightarrow> is_scalar (ucast x)"
    by (simp add: is_scalar_def word_le_nat_alt word_less_nat_alt unat_ucast_mod)
  with True assms dec_inv_start [OF _ True, of x] show ?thesis
    by (auto simp: decode_next_ready split: if_splits option.splits)
next
  case False
  then obtain n where n: "n \<in> {1, 2, 3}" "dc_needed ctx = of_nat n" "0x80 \<le> dc_lower ctx" "dc_upper ctx \<le> 0xbf"
    and c: "\<And>c. dc_lower ctx \<le> c \<Longrightarrow> c \<le> dc_upper ctx \<Longrightarrow>
        completes (n - 1) (push_bit 6 (dc_codepoint ctx) + ucast (c AND 0x3f))"
    using assms(1) unfolding dec_inv_def by blast
  obtain k where k: "n = Suc k" "k \<le> 3" using n(1) by auto
  have ctx: "dec_mid ctx (Suc k) (dc_lower ctx) (dc_upper ctx) (dc_codepoint ctx) = ctx"
    using n(2) k(1) by (simp add: dec_mid_def)
  have ready: "dec_inv (dec_mid ctx 0 0x80 0xbf 0)" by (simp add: dec_inv_def dec_ready_def)
  have "completes (k - 1) (push_bit 6 (push_bit 6 (dc_codepoint ctx) + ucast (x AND 0x3f)) + ucast (c AND 0x3f))"
    if "dc_lower ctx \<le> x" "x \<le> dc_upper ctx" "k \<noteq> 0" for c :: u8
    using completes_step [of "k - 1"] c [OF that(1,2)] k that(3) by simp
  then have mid: "dec_inv (dec_mid ctx k 0x80 0xbf (push_bit 6 (dc_codepoint ctx) + ucast (x AND 0x3f)))"
    if "dc_lower ctx \<le> x" "x \<le> dc_upper ctx" "k \<noteq> 0"
    using that n(1) k unfolding dec_inv_def by auto
  show ?thesis
    using assms(2) decode_next_mid [OF k(2), of ctx "dc_lower ctx" "dc_upper ctx" "dc_codepoint ctx" x] c [of x]
      ready mid k(1)
    unfolding ctx by (auto simp: Let_def completes_0 split: if_splits)
qed

lemma decode_emit_scalar:
  assumes "is_scalar cp" "list_all is_scalar cps"
    and "decode_emit cp (ctx, utf8_encode (concat (map utf16 cps))) = (ctx', out)"
  shows "\<exists>cps. list_all is_scalar cps \<and> out = utf8_encode (concat (map utf16 cps))"
proof -
  have "snd (duk_unicode_encode_cesu8 cp) = utf8_encode (utf16 cp)"
    using assms(1) by (intro cesu8_utf16) (simp add: is_scalar_def)
  moreover have "out = utf8_encode (concat (map utf16 cps)) \<or>
      out = utf8_encode (concat (map utf16 cps)) @ snd (duk_unicode_encode_cesu8 cp)"
    using assms(3) by (auto simp: decode_emit_def Let_def split: if_splits)
  ultimately have "out = utf8_encode (concat (map utf16 cps)) \<or> out = utf8_encode (concat (map utf16 (cps @ [cp])))"
    by (auto simp: utf8_encode_def)
  then show ?thesis
  proof
    assume "out = utf8_encode (concat (map utf16 cps))"
    with assms(2) show ?thesis by (intro exI [of _ cps]) simp
  next
    assume "out = utf8_encode (concat (map utf16 (cps @ [cp])))"
    with assms(1,2) show ?thesis by (intro exI [of _ "cps @ [cp]"]) simp
  qed
qed

definition well_formed_out :: "u8 list \<Rightarrow> bool" where
  "well_formed_out out \<longleftrightarrow> (\<exists>cps. list_all is_scalar cps \<and> out = utf8_encode (concat (map utf16 cps)))"

lemma well_formed_emit:
  "is_scalar cp \<Longrightarrow> well_formed_out out \<Longrightarrow> well_formed_out (snd (decode_emit cp (ctx, out)))"
  using decode_emit_scalar [of cp _ ctx] by (cases "decode_emit cp (ctx, out)") (auto simp: well_formed_out_def)

lemma decode_loop_inv:
  "decode_loop inp s = Inr s' \<Longrightarrow> dec_inv (fst s) \<Longrightarrow> well_formed_out (snd s)
    \<Longrightarrow> dec_inv (fst s') \<and> well_formed_out (snd s')"
proof (induction inp s rule: decode_loop.induct)
  case (2 x inp ctx out)
  obtain ctx1 ret where n: "duk__utf8_decode_next ctx x = (ctx1, ret)" by force
  have inv: "dec_inv ctx1" "\<And>cp. ret = Cp cp \<Longrightarrow> is_scalar cp"
    using decode_next_inv [OF _ n] "2.prems" by simp_all
  have repl: "is_scalar 0xfffd" by (simp add: is_scalar_def)
  show ?case
    using "2.IH" [OF n [symmetric]] "2.prems" n inv dec_inv_emit [OF inv(1)] repl
    by (cases ret) (auto simp del: decode_loop.simps(2)
        simp: decode_loop.simps(2) [of x inp ctx out] well_formed_emit split: if_splits)
qed simp

lemma decode_loop_replaces: "\<not> dc_fatal (fst s) \<Longrightarrow> \<exists>s'. decode_loop inp s = Inr s'"
proof (induction inp s rule: decode_loop.induct)
  case (2 x inp ctx out)
  obtain ctx1 ret where n: "duk__utf8_decode_next ctx x = (ctx1, ret)" by force
  then show ?case
    using "2.IH" [OF n [symmetric]] "2.prems" decode_next_fatal [OF n]
    by (cases ret) (auto simp del: decode_loop.simps(2)
        simp: decode_loop.simps(2) [of x inp ctx out] split: if_splits)
qed simp

lemma decode_emit_frame:
  "decode_emit cp (c, out @ o') = (fst (decode_emit cp (c, o')), out @ snd (decode_emit cp (c, o')))"
  by (simp add: decode_emit_def Let_def)

lemma decode_loop_frame:
  "decode_loop inp (fst s, out @ snd s)
    = (case decode_loop inp s of Inl e \<Rightarrow> Inl e | Inr (c', o') \<Rightarrow> Inr (c', out @ o'))"
proof (induction inp s rule: decode_loop.induct)
  case (2 x inp c o')
  obtain c1 ret where n: "duk__utf8_decode_next c x = (c1, ret)" by force
  show ?case
    using "2.IH" [OF n [symmetric]] n
    by (cases ret) (simp_all del: decode_loop.simps(2) add: decode_emit_frame decode_loop.simps(2) [of x inp c])
qed simp

lemma decode_emits_ignore:
  "dc_ignore_bom ctx \<Longrightarrow> dec_ready ctx \<Longrightarrow> \<exists>ctx'. dec_ready ctx' \<and> dc_ignore_bom ctx' \<and>
    duk__utf8_decode_init ctx' = duk__utf8_decode_init ctx \<and>
    decode_emits cps (ctx, out) = (ctx', out @ concat (map (\<lambda>cp. snd (duk_unicode_encode_cesu8 cp)) cps))"
proof (induction cps arbitrary: ctx out)
  case (Cons x cps)
  define ctx1 where "ctx1 = ctx\<lparr>dc_bom_handled := True\<rparr>"
  have e: "decode_emit x (ctx, out) = (ctx1, out @ snd (duk_unicode_encode_cesu8 x))"
    using Cons.prems(1) by (simp add: decode_emit_def Let_def ctx1_def)
  have i: "duk__utf8_decode_init ctx1 = duk__utf8_decode_init ctx" "dc_ignore_bom ctx1" "dec_ready ctx1"
    using Cons.prems by (simp_all add: ctx1_def duk__utf8_decode_init_def dec_ready_def)
  from Cons.IH [OF i(2,3), of "out @ snd (duk_unicode_encode_cesu8 x)"] show ?case
    by (simp add: decode_emits_def e i)
qed (auto simp: decode_emits_def)

lemma cesu8_utf16s:
  "list_all is_scalar cps \<Longrightarrow>
    concat (map (\<lambda>cp. snd (duk_unicode_encode_cesu8 cp)) cps) = utf8_encode (concat (map utf16 cps))"
  by (induction cps) (simp_all add: cesu8_utf16 is_scalar_def utf8_encode_def)

lemma length_utf16s: "list_all is_scalar cps \<Longrightarrow> length (concat (map utf16 cps)) \<le> length (utf8_encode cps)"
proof (induction cps)
  case (Cons x cps)
  have "length (utf16 x) \<le> length (xutf8_bytes x)"
    by (simp add: utf16_def length_xutf8_bytes duk_unicode_encode_xutf8_def Let_def duk_unicode_get_xutf8_length_def
        word_less_nat_alt)
  with Cons show ?case by (simp add: utf8_encode_def)
qed (simp add: utf8_encode_def)

subsection \<open>Properties\<close>

text \<open>
  C15: in fatal mode a \<^verbatim>\<open>TextDecoder\<close> accepts exactly the inputs which the independent
  validity check of the string API accepts: the lead byte table with its per-byte ranges
  and the check on assembled code points agree on every byte sequence.
\<close>

theorem fatal_decoder_accepts_valid_utf8:
  assumes "dc_fatal ctx" "length bs < DUK_HBUFFER_MAX_BYTELEN div 3 - 3"
  shows "(\<exists>s. duk__decode_helper (duk__utf8_decode_init ctx) bs False = Inr s)
     \<longleftrightarrow> duk_unicode_is_utf8_compatible bs"
proof -
  have f: "dc_fatal (duk__utf8_decode_init ctx)" using assms(1) by (simp add: duk__utf8_decode_init_def)
  show ?thesis
    using decode_helper_ok [OF f, of bs] assms(2) decode_ok_iff [OF dec_ready_init f, of bs "[]"]
    by (simp add: duk_unicode_is_utf8_compatible_def ascii_skip4_check)
qed

definition sample_ctx :: "bool \<Rightarrow> decode_ctx" where
  "sample_ctx fatal = \<lparr>dc_codepoint = 0, dc_upper = 0xbf, dc_lower = 0x80, dc_needed = 0,
     dc_bom_handled = False, dc_fatal = fatal, dc_ignore_bom = True\<rparr>"

theorem fatal_decoder_accepts_valid_utf8_witness:
  "(\<exists>s. duk__decode_helper (duk__utf8_decode_init (sample_ctx True)) [0xf0, 0x90, 0x80, 0x80] False = Inr s)
     \<longleftrightarrow> duk_unicode_is_utf8_compatible [0xf0, 0x90, 0x80, 0x80]"
  by (rule fatal_decoder_accepts_valid_utf8) (simp_all add: sample_ctx_def DUK_HBUFFER_MAX_BYTELEN_def)

text \<open>
  C19: the validity check accepts exactly the concatenations of the XUTF-8 encodings of
  Unicode scalar values (no overlong forms, no surrogates, nothing above U+10FFFF, no
  truncation), its four-byte ASCII fast path included.
\<close>

theorem utf8_compatible_iff_scalars:
  "duk_unicode_is_utf8_compatible bs \<longleftrightarrow>
     (\<exists>cps. list_all is_scalar cps \<and> bs = concat (map (\<lambda>cp. snd (duk_unicode_encode_xutf8 cp)) cps))"
  by (simp only: is_utf8_compatible_iff valid_utf8_def utf8_encode_def xutf8_bytes_def [abs_def])



text \<open>
  C21: in replacement mode the decoder never fails on any input, from any context a
  previous chunk may have left; its output is a sequence of 16-bit code units of scalar
  values, the context stays well-formed, and \<open>3 + 3 * len\<close> bytes hold the output.
\<close>

theorem replacement_decoder_total:
  assumes "\<not> dc_fatal ctx" "dec_inv ctx" "length bs < DUK_HBUFFER_MAX_BYTELEN div 3 - 3"
  shows "\<exists>ctx' out. duk__decode_helper ctx bs stream = Inr (ctx', out) \<and> dec_inv ctx'
     \<and> well_formed_out out \<and> length out \<le> 3 + 3 * length bs"
proof -
  obtain ctx1 out1 where l: "decode_loop bs (ctx, []) = Inr (ctx1, out1)"
    using decode_loop_replaces [of "(ctx, [])" bs] assms(1) by auto
  have "well_formed_out []" unfolding well_formed_out_def by (rule exI [of _ "[]"]) (simp add: utf8_encode_def)
  with decode_loop_inv [OF l] assms(2) have inv: "dec_inv ctx1" "well_formed_out out1" by simp_all
  have f: "\<not> dc_fatal ctx1" using decode_loop_fatal [OF l] assms(1) by simp
  have "well_formed_out (snd (decode_emit 0xfffd (ctx1\<lparr>dc_bom_handled := True\<rparr>, out1)))"
    by (rule well_formed_emit) (use inv in \<open>simp_all add: is_scalar_def\<close>)
  then have r: "well_formed_out (out1 @ snd (duk_unicode_encode_cesu8 0xfffd))"
    by (simp add: decode_emit_def)
  have "dec_inv (duk__utf8_decode_init ctx1)" using dec_ready_init by (simp add: dec_inv_def)
  with l inv f r assms(3) have "\<exists>ctx' out. duk__decode_helper ctx bs stream = Inr (ctx', out) \<and> dec_inv ctx'
      \<and> well_formed_out out"
    by (auto simp: duk__decode_helper_def)
  then show ?thesis using decode_helper_bound by blast
qed

theorem replacement_decoder_total_witness:
  "\<exists>ctx' out. duk__decode_helper (sample_ctx False) [0xe2, 0x82] True = Inr (ctx', out) \<and> dec_inv ctx'
     \<and> well_formed_out out \<and> length out \<le> 3 + 3 * length [0xe2, 0x82 :: u8]"
  by (rule replacement_decoder_total)
    (simp_all add: sample_ctx_def dec_inv_def dec_ready_def DUK_HBUFFER_MAX_BYTELEN_def)

text \<open>
  C22: splitting the input at any byte does not change the result: decoding a first chunk
  in streaming mode and the rest with the context it left gives the same context and the
  same output as decoding the whole at once.
\<close>

theorem streaming_decode:
  assumes "length (a @ b) < DUK_HBUFFER_MAX_BYTELEN div 3 - 3"
    and "duk__decode_helper ctx a True = Inr (ctx1, out1)" "duk__decode_helper ctx1 b stream = Inr (ctx2, out2)"
  shows "duk__decode_helper ctx (a @ b) stream = Inr (ctx2, out1 @ out2)"
  using assms decode_loop_append [of a b "(ctx, [])"] decode_loop_frame [of b "(ctx1, [])" out1]
  by (auto simp: duk__decode_helper_def split: sum.splits if_splits)

theorem streaming_decode_witness:
  "duk__decode_helper (sample_ctx True) ([0xe2] @ [0x82, 0xac]) False
    = Inr (duk__utf8_decode_init (sample_ctx True), [] @ [0xe2, 0x82, 0xac])"
  by (rule streaming_decode [where ?ctx1.0 = "dec_mid (sample_ctx True) 2 0x80 0xbf 2"])
    (simp_all add: DUK_HBUFFER_MAX_BYTELEN_def sample_ctx_def duk__decode_helper_def
      duk__utf8_decode_next_def dec_mid_def decode_emit_def duk_unicode_encode_cesu8_def
      duk__utf8_decode_init_def)

text \<open>
  the \<^verbatim>\<open>TextEncoder\<close> stays within its buffer of three bytes per character for every
  string of 16-bit code units, unpaired surrogates included.
\<close>

lemma textencoder_within_buffer:
  assumes "list_all (\<lambda>cp. cp < 0x10000) cps" "length cps < DUK_HBUFFER_MAX_BYTELEN div 3"
  shows "\<exists>out. duk_bi_textencoder_prototype_encode (Some (utf8_encode cps)) = Inr (3 * length cps, out)
     \<and> length out \<le> 3 * length cps"
  using encode_chars_room [OF assms(1), of "\<lparr>ec_lead = 0, ec_out = []\<rparr>"]
  by (simp add: textencoder_units [OF assms(2)] Let_def lead_room_def lead_ok_def duk__utf8_emit_repl_def
      split: if_splits)

lemma textencoder_within_buffer_witness:
  "\<exists>out. duk_bi_textencoder_prototype_encode (Some (utf8_encode [0xd801, 0xdc37, 0xd800])) = Inr (3 * length [0xd801, 0xdc37, 0xd800 :: u32], out)
     \<and> length out \<le> 3 * length [0xd801, 0xdc37, 0xd800 :: u32]"
  by (rule textencoder_within_buffer) (simp_all add: DUK_HBUFFER_MAX_BYTELEN_def)


text \<open>
  an internal string determines its code points: two sequences of code points with the
  same XUTF-8 bytes are equal, and their number is the string's character length.
\<close>

lemma string_reading_unique:
  assumes "concat (map (\<lambda>cp. snd (duk_unicode_encode_xutf8 cp)) xs) = concat (map (\<lambda>cp. snd (duk_unicode_encode_xutf8 cp)) ys)"
  shows "xs = ys \<and> duk_unicode_unvalidated_utf8_length addr (concat (map (\<lambda>cp. snd (duk_unicode_encode_xutf8 cp)) xs)) = length xs"
proof -
  have e: "concat (map xutf8_bytes xs) = concat (map xutf8_bytes ys)"
    using assms by (simp only: xutf8_bytes_def [abs_def])
  have "length xs = length ys"
    using charlen_encoded [of addr xs] charlen_encoded [of addr ys] e by (simp add: utf8_encode_def)
  then have "xs = ys" using xutf8.stream_inj [of xs ys] e by (simp add: list_all_iff)
  then show ?thesis
    using charlen_encoded [of addr xs] by (simp only: utf8_encode_def xutf8_bytes_def [abs_def] simp_thms)
qed

lemma string_reading_unique_witness:
  "[0x41, 0x20ac] = [0x41, 0x20ac :: u32] \<and>
    duk_unicode_unvalidated_utf8_length 0 (concat (map (\<lambda>cp. snd (duk_unicode_encode_xutf8 cp)) [0x41, 0x20ac])) = length [0x41, 0x20ac :: u32]"
  by (rule string_reading_unique) (rule refl)

end
