(* ===== verification/Codec.thy ===== *)
theory Codec
  imports CodecTables
begin

text \<open>
  \<^verbatim>\<open>duk_api_codec.c\<close>: base64 and hex encoding and decoding, both the fast variants of
  the default configuration (unrolled, table driven) and the compact ones compiled when
  the fast paths are off.  The fast variants are shown equal to the compact ones on every
  input, and decoding to invert encoding.  Source pointers are the remaining input, the
  destination pointer is the output so far; writes past it are recorded as a high-water
  mark, compared with the size the callers allocate.
\<close>

subsection \<open>Base64 encoder, table driven\<close>

definition enctab :: "u32 \<Rightarrow> u8" where
  "enctab x = duk__base64_enctab_fast ! unat x"

definition DUK_ASC_EQUALS :: u8 where
  "DUK_ASC_EQUALS = 0x3d"

definition duk__base64_encode_fast_3 :: "u8 \<Rightarrow> u8 \<Rightarrow> u8 \<Rightarrow> u8 list" where
  "duk__base64_encode_fast_3 s0 s1 s2 =
     (let t = ucast s0 :: u32;
          t = push_bit 8 t + ucast s1;
          t = push_bit 8 t + ucast s2
      in [enctab (drop_bit 18 t), enctab (drop_bit 12 t AND 0x3f),
          enctab (drop_bit 6 t AND 0x3f), enctab (t AND 0x3f)])"

definition duk__base64_encode_fast_2 :: "u8 \<Rightarrow> u8 \<Rightarrow> u8 list" where
  "duk__base64_encode_fast_2 s0 s1 =
     (let t = ucast s0 :: u32;
          t = push_bit 8 t + ucast s1
      in [enctab (drop_bit 10 t), enctab (drop_bit 4 t AND 0x3f),
          enctab (push_bit 2 t AND 0x3f), DUK_ASC_EQUALS])"

definition duk__base64_encode_fast_1 :: "u8 \<Rightarrow> u8 list" where
  "duk__base64_encode_fast_1 s0 =
     (let t = ucast s0 :: u32
      in [enctab (drop_bit 2 t), enctab (push_bit 4 t AND 0x3f), DUK_ASC_EQUALS, DUK_ASC_EQUALS])"

text \<open>The unrolled loop: \<open>k\<close> chunks of 12 bytes.\<close>

fun b64_chunks :: "nat \<Rightarrow> u8 list \<Rightarrow> u8 list \<Rightarrow> u8 list \<times> u8 list" where
  "b64_chunks 0 p q = (p, q)"
| "b64_chunks (Suc k) p q =
     b64_chunks k (drop 12 p)
       (q @ duk__base64_encode_fast_3 (p ! 0) (p ! 1) (p ! 2)
          @ duk__base64_encode_fast_3 (p ! 3) (p ! 4) (p ! 5)
          @ duk__base64_encode_fast_3 (p ! 6) (p ! 7) (p ! 8)
          @ duk__base64_encode_fast_3 (p ! 9) (p ! 10) (p ! 11))"

fun b64_remainder :: "u8 list \<Rightarrow> u8 list \<Rightarrow> u8 list" where
  "b64_remainder (a # b # c # p) q = b64_remainder p (q @ duk__base64_encode_fast_3 a b c)"
| "b64_remainder [a, b] q = q @ duk__base64_encode_fast_2 a b"
| "b64_remainder [a] q = q @ duk__base64_encode_fast_1 a"
| "b64_remainder [] q = q"

definition duk__base64_encode_helper :: "u8 list \<Rightarrow> u8 list" where
  "duk__base64_encode_helper src =
     (let n = length src;
          (p, q) = (if n \<ge> 16 then b64_chunks (n div 12) src [] else (src, []))
      in b64_remainder p q)"

definition duk_base64_encode :: "u8 list \<Rightarrow> (nat \<times> u8 list) result" where
  "duk_base64_encode src =
     (if length src > 3221225469 then Inl (TypeError ''base64 encode failed'')
      else Inr ((length src + 2) div 3 * 4, duk__base64_encode_helper src))"

subsection \<open>Base64 encoder, compact variant\<close>

text \<open>Three bytes into \<open>t\<close>, padded by zero; the pad count continues over the groups.\<close>

fun b64_read :: "nat \<Rightarrow> u32 \<Rightarrow> u8 list \<Rightarrow> nat \<Rightarrow> u32 \<times> u8 list \<times> nat" where
  "b64_read 0 t p npad = (t, p, npad)"
| "b64_read (Suc i) t p npad =
     (let t = push_bit 8 t
      in case p of x # p' \<Rightarrow> b64_read i (t + ucast x) p' npad | [] \<Rightarrow> b64_read i t [] (npad + 1))"

fun b64_emit :: "nat \<Rightarrow> u32 \<Rightarrow> u8 list \<Rightarrow> u8 list" where
  "b64_emit 0 t q = q"
| "b64_emit (Suc i) t q =
     (let x = drop_bit 18 t AND 0x3f;
          t = push_bit 6 t;
          y = (if x \<le> 51 then (if x \<le> 25 then x + 0x41 else x - 26 + 0x61)
               else if x \<le> 61 then x - 52 + 0x30 else if x = 62 then 0x2b else 0x2f)
      in b64_emit i t (q @ [ucast y]))"

lemma b64_read_length:
  "b64_read n t p npad = (t', p', npad') \<Longrightarrow> length p' = length p - n"
  by (induction n t p npad rule: b64_read.induct) (auto simp: Let_def split: list.splits)

function b64_groups :: "u8 list \<Rightarrow> u8 list \<Rightarrow> nat \<Rightarrow> u8 list \<times> nat" where
  "b64_groups p q npad =
     (if p = [] then (q, npad)
      else let (t, p', npad') = b64_read 3 0 p npad in b64_groups p' (b64_emit 4 t q) npad')"
  by pat_completeness auto
termination
  by (relation "measure (\<lambda>(p, q, npad). length p)") (auto dest!: b64_read_length [OF sym])

declare b64_groups.simps [simp del]

fun b64_fix_padding :: "u8 list \<Rightarrow> nat \<Rightarrow> u8 list" where
  "b64_fix_padding q 0 = q"
| "b64_fix_padding q (Suc npad) = b64_fix_padding (q[length q - Suc npad := DUK_ASC_EQUALS]) npad"

definition base64_encode_compact :: "u8 list \<Rightarrow> u8 list" where
  "base64_encode_compact src = (let (q, npad) = b64_groups src [] 0 in b64_fix_padding q npad)"

subsection \<open>Both encoders agree\<close>

lemma enctab_nat: "x < 64 \<Longrightarrow> duk__base64_enctab_fast ! x = of_nat (b64_digit x)"
  by (simp flip: base64_enctab_eq)

lemma enctab_word:
  assumes "unat x < 64"
  shows "ucast (if x \<le> 51 then (if x \<le> 25 then x + 0x41 else x - 26 + 0x61)
      else if x \<le> 61 then x - 52 + 0x30 else if x = 62 then 0x2b else (0x2f :: u32)) = enctab x"
  using assms unfolding enctab_def enctab_nat [OF assms]
  by (auto simp: word_le_nat_alt b64_digit_def word_unat_eq_iff unat_ucast_mod unat_add_mod
      unat_sub_if_size unat_of_nat)

lemma b64_emit_4:
  "b64_emit 4 t q = q @ [enctab (drop_bit 18 t AND 0x3f), enctab (drop_bit 12 t AND 0x3f),
     enctab (drop_bit 6 t AND 0x3f), enctab (t AND 0x3f)]"
proof -
  have d: "drop_bit 18 (push_bit 6 t) AND 0x3f = drop_bit 12 t AND 0x3f"
    "drop_bit 18 (push_bit 6 (push_bit 6 t)) AND 0x3f = drop_bit 6 t AND 0x3f"
    "drop_bit 18 (push_bit 6 (push_bit 6 (push_bit 6 t))) AND 0x3f = t AND 0x3f"
    unfolding mask_numerals by (simp_all add: word32_eq_iff upt32 bit_simps)
  have s: "b64_emit (Suc i) t q = b64_emit i (push_bit 6 t) (q @ [enctab (drop_bit 18 t AND 0x3f)])" for i t q
    unfolding b64_emit.simps Let_def by (subst enctab_word) (simp_all add: unat_and_num(5))
  have four: "(4 :: nat) = Suc (Suc (Suc (Suc 0)))" by simp
  show ?thesis unfolding four s b64_emit.simps(1) d by simp
qed

text \<open>The 24 bits of a group as a number.\<close>

lemma unat_3bytes:
  "unat (push_bit 8 (push_bit 8 (ucast (a :: u8)) + ucast (b :: u8)) + ucast (c :: u8) :: u32)
    = unat a * 65536 + unat b * 256 + unat c" (is "unat ?t = _")
  "unat a * 65536 + unat b * 256 + unat c < 16777216"
  "unat (push_bit 8 (ucast a) + ucast b :: u32) = unat a * 256 + unat b" "unat a * 256 + unat b < 65536"
proof -
  have "unat a < 256" "unat b < 256" "unat c < 256"
    by (rule unat_width_less)+
  then show "unat ?t = unat a * 65536 + unat b * 256 + unat c"
    "unat a * 65536 + unat b * 256 + unat c < 16777216"
    "unat (push_bit 8 (ucast a) + ucast b :: u32) = unat a * 256 + unat b" "unat a * 256 + unat b < 65536"
    by (simp_all add: unat_add_mod unat_push_bit_mod unat_ucast_mod)
qed

lemma drop_and_small:
  fixes t :: u32
  assumes "unat t < 2 ^ (k + 6)"
  shows "drop_bit k t AND 0x3f = drop_bit k t"
proof -
  have "unat t div 2 ^ k < 64"
    using assms by (intro less_mult_imp_div_less) (simp add: power_add mult.commute)
  then show ?thesis by (simp add: word_unat_eq_iff unat_and_num(5) unat_drop_bit)
qed

lemma encode_fast_3_emit:
  "b64_emit 4 (push_bit 8 (push_bit 8 (ucast a) + ucast b) + ucast c) q = q @ duk__base64_encode_fast_3 a b c"
  by (simp add: b64_emit_4 duk__base64_encode_fast_3_def Let_def drop_and_small unat_3bytes del: push_bit_add)

lemma encode_fast_2_emit:
  "\<exists>x. b64_emit 4 (push_bit 8 (push_bit 8 (ucast a) + ucast b)) q
      = q @ butlast (duk__base64_encode_fast_2 a b) @ [x]"
proof -
  define t where "t = (push_bit 8 (ucast a) + ucast b :: u32)"
  have t: "unat t < 65536" using unat_3bytes(3,4) [of a b] by (simp add: t_def)
  have "drop_bit 18 (push_bit 8 t) AND 0x3f = drop_bit 10 t"
    "drop_bit 12 (push_bit 8 t) AND 0x3f = drop_bit 4 t AND 0x3f"
    "drop_bit 6 (push_bit 8 t) AND 0x3f = push_bit 2 t AND 0x3f"
  proof -
    have "unat t div 1024 < 64" using t by (simp add: less_mult_imp_div_less)
    then show "drop_bit 18 (push_bit 8 t) AND 0x3f = drop_bit 10 t"
      using t by (simp add: word_unat_eq_iff unat_and_num(5) unat_drop_bit unat_push_bit_mod)
    show "drop_bit 12 (push_bit 8 t) AND 0x3f = drop_bit 4 t AND 0x3f"
      "drop_bit 6 (push_bit 8 t) AND 0x3f = push_bit 2 t AND 0x3f"
      unfolding mask_numerals by (simp_all add: word32_eq_iff upt32 bit_simps)
  qed
  then show ?thesis
    by (simp add: b64_emit_4 duk__base64_encode_fast_2_def flip: t_def del: push_bit_add)
qed

lemma encode_fast_1_emit:
  "\<exists>x y. b64_emit 4 (push_bit 8 (push_bit 8 (ucast a))) q
      = q @ take 2 (duk__base64_encode_fast_1 a) @ [x, y]"
proof -
  define t where "t = (ucast a :: u32)"
  have t: "unat t < 256" using unat_width_less(1) [of a] by (simp add: t_def unat_ucast_mod)
  have "drop_bit 18 (push_bit 8 (push_bit 8 t)) AND 0x3f = drop_bit 2 t"
    "drop_bit 12 (push_bit 8 (push_bit 8 t)) AND 0x3f = push_bit 4 t AND 0x3f"
  proof -
    have "unat t div 4 < 64" using t by (simp add: less_mult_imp_div_less)
    then show "drop_bit 18 (push_bit 8 (push_bit 8 t)) AND 0x3f = drop_bit 2 t"
      using t by (simp add: word_unat_eq_iff unat_and_num(5) unat_drop_bit unat_push_bit_mod)
    show "drop_bit 12 (push_bit 8 (push_bit 8 t)) AND 0x3f = push_bit 4 t AND 0x3f"
      unfolding mask_numerals by (simp_all add: word32_eq_iff upt32 bit_simps)
  qed
  then show ?thesis
    by (simp add: b64_emit_4 duk__base64_encode_fast_1_def flip: t_def del: push_bit_push_bit)
qed

lemma b64_read_3:
  "b64_read 3 0 (a # b # c # p) n = (push_bit 8 (push_bit 8 (ucast a) + ucast b) + ucast c, p, n)"
  "b64_read 3 0 [a, b] n = (push_bit 8 (push_bit 8 (ucast a) + ucast b), [], n + 1)"
  "b64_read 3 0 [a] n = (push_bit 8 (push_bit 8 (ucast a)), [], n + 2)"
  by (simp_all add: numeral_3_eq_3 Let_def del: push_bit_add push_bit_push_bit)

lemma compact_remainder:
  "(let (q, npad) = b64_groups p q 0 in b64_fix_padding q npad) = b64_remainder p q"
proof (induction p q rule: b64_remainder.induct)
  case (1 a b c p q)
  then show ?case
    by (subst b64_groups.simps) (simp add: b64_read_3 encode_fast_3_emit)
next
  case (2 a b q)
  obtain x where "b64_emit 4 (push_bit 8 (push_bit 8 (ucast a) + ucast b)) q
      = q @ butlast (duk__base64_encode_fast_2 a b) @ [x]"
    using encode_fast_2_emit by blast
  then show ?case
    by (subst b64_groups.simps)
      (simp add: b64_read_3 b64_groups.simps [of "[]"] duk__base64_encode_fast_2_def Let_def list_update_append del: push_bit_add)
next
  case (3 a q)
  obtain x y where "b64_emit 4 (push_bit 8 (push_bit 8 (ucast a))) q
      = q @ take 2 (duk__base64_encode_fast_1 a) @ [x, y]"
    using encode_fast_1_emit by blast
  then show ?case
    by (subst b64_groups.simps)
      (simp add: b64_read_3 b64_groups.simps [of "[]"] duk__base64_encode_fast_1_def Let_def list_update_append del: push_bit_push_bit)
next
  case (4 q)
  then show ?case by (simp add: b64_groups.simps)
qed

lemma b64_remainder_3:
  "3 \<le> length p \<Longrightarrow> b64_remainder p q = b64_remainder (drop 3 p) (q @ duk__base64_encode_fast_3 (p ! 0) (p ! 1) (p ! 2))"
  by (cases "(p, q)" rule: b64_remainder.cases) (auto simp: numeral_2_eq_2 numeral_3_eq_3)

lemma b64_chunks_remainder:
  "12 * k \<le> length p \<Longrightarrow> (let (p', q') = b64_chunks k p q in b64_remainder p' q') = b64_remainder p q"
proof (induction k p q rule: b64_chunks.induct)
  case (2 k p q)
  then have l: "12 \<le> length p" "12 * k \<le> length (drop 12 p)" by simp_all
  have "b64_remainder p q = b64_remainder (drop 12 p)
     (q @ duk__base64_encode_fast_3 (p ! 0) (p ! 1) (p ! 2) @ duk__base64_encode_fast_3 (p ! 3) (p ! 4) (p ! 5)
        @ duk__base64_encode_fast_3 (p ! 6) (p ! 7) (p ! 8) @ duk__base64_encode_fast_3 (p ! 9) (p ! 10) (p ! 11))"
    using l(1) b64_remainder_3 [of p q] b64_remainder_3 [of "drop 3 p"] b64_remainder_3 [of "drop 6 p"]
      b64_remainder_3 [of "drop 9 p"] by simp
  with "2.IH" [OF l(2)] show ?case by simp
qed simp

lemma base64_encode_eq: "duk__base64_encode_helper src = base64_encode_compact src"
  using b64_chunks_remainder [of "length src div 12" src "[]"]
  by (simp add: duk__base64_encode_helper_def base64_encode_compact_def compact_remainder [of src "[]", symmetric] Let_def
      split: prod.splits)

lemma length_b64_remainder: "length (b64_remainder p q) = length q + (length p + 2) div 3 * 4"
proof (induction p q rule: b64_remainder.induct)
  case (1 a b c p q)
  have "(5 + length p) div 3 = (length p + 2) div 3 + 1" by presburger
  with 1 show ?case by (simp add: duk__base64_encode_fast_3_def Let_def)
qed (simp_all add: duk__base64_encode_fast_3_def duk__base64_encode_fast_2_def duk__base64_encode_fast_1_def Let_def)

lemma base64_encode_remainder: "duk__base64_encode_helper src = b64_remainder src []"
  using compact_remainder [of src "[]"] by (simp add: base64_encode_eq base64_encode_compact_def)

subsection \<open>Base64 decoder, table driven\<close>

definition dectab :: "u8 \<Rightarrow> int" where
  "dectab x = duk__base64_dectab_fast ! unat x"

definition b64_fast_group :: "u8 \<Rightarrow> u8 \<Rightarrow> u8 \<Rightarrow> u8 \<Rightarrow> u32" where
  "b64_fast_group a b c d =
     (let t = word_of_int (dectab a);
          t = push_bit 6 t OR word_of_int (dectab b);
          t = push_bit 6 t OR word_of_int (dectab c)
      in push_bit 6 t OR word_of_int (dectab d))"

definition b64_bytes :: "u32 \<Rightarrow> u8 list" where
  "b64_bytes t = [ucast (drop_bit 16 t AND 0xff), ucast (drop_bit 8 t AND 0xff), ucast (t AND 0xff)]"

text \<open>The fast path; \<open>hw\<close> is the high-water mark of the destination.\<close>

fun b64_fast :: "u8 list \<Rightarrow> u8 list \<Rightarrow> nat \<Rightarrow> u8 list \<times> u8 list \<times> nat" where
  "b64_fast (a # b # c # d # e # f # g # h # p) q hw =
     (let t1 = b64_fast_group a b c d;
          t2 = b64_fast_group e f g h;
          hw = max hw (length q + 6)
      in if sint (t1 OR t2) \<ge> 0 then b64_fast p (q @ b64_bytes t1 @ b64_bytes t2) hw
         else if sint t1 \<ge> 0 then (e # f # g # h # p, q @ b64_bytes t1, hw)
         else (a # b # c # d # e # f # g # h # p, q, hw))"
| "b64_fast p q hw = (p, q, hw)"

text \<open>Slow path step 1.\<close>

fun b64_scan :: "u8 list \<Rightarrow> u32 \<Rightarrow> (u8 list \<times> u32) option" where
  "b64_scan [] t = Some ([], t)"
| "b64_scan (ch # p) t =
     (let x = dectab ch
      in if x \<ge> 0 then
           (let t = push_bit 6 t + word_of_int x
            in if t \<ge> 0x1000000 then Some (p, t) else b64_scan p t)
         else if x = -1 then b64_scan p t
         else if x = -2 then Some (ch # p, t)
         else None)"

text \<open>The padding loop; the accumulator starts at 1, so four steps always suffice.\<close>

fun b64_pad :: "nat \<Rightarrow> u32 \<Rightarrow> nat \<Rightarrow> u32 \<times> nat" where
  "b64_pad 0 t n_equal = (t, n_equal)"
| "b64_pad (Suc k) t n_equal =
     (if t < 0x1000000 then b64_pad k (push_bit 6 t + 0) (n_equal + 1) else (t, n_equal))"

text \<open>Slow path step 2.\<close>

definition b64_flush :: "u32 \<Rightarrow> u8 list \<Rightarrow> nat \<Rightarrow> (u8 list \<times> nat) option" where
  "b64_flush t q hw =
     (let (t, n_equal) = b64_pad 4 t 0;
          hw = max hw (length q + 3);
          step = duk__base64_decode_nequal_step ! n_equal
      in if step < 0 then None else Some (q @ take (nat step) (b64_bytes t), hw))"

text \<open>Slow path step 3.\<close>

fun b64_skip :: "u8 list \<Rightarrow> u8 list" where
  "b64_skip [] = []"
| "b64_skip (ch # p) = (let x = dectab ch in if x = -1 \<or> x = -2 then b64_skip p else ch # p)"

lemma b64_fast_length: "b64_fast p q hw = (p', q', hw') \<Longrightarrow> length p' \<le> length p"
  by (induction p q hw rule: b64_fast.induct) (auto simp: Let_def le_SucI split: if_splits)

lemma b64_skip_length: "length (b64_skip p) \<le> length p"
  by (induction p rule: b64_skip.induct) (auto simp: Let_def)

lemma b64_scan_skip:
  "b64_scan p t = Some (p', t') \<Longrightarrow> p \<noteq> [] \<Longrightarrow> length (b64_skip p') < length p"
proof (induction p t rule: b64_scan.induct)
  case (2 ch p t)
  then show ?case
    using b64_skip_length [of p] by (cases "p = []") (auto simp: Let_def less_Suc_eq_le less_imp_le split: if_splits)
qed simp

function b64_dec_loop :: "u8 list \<Rightarrow> u8 list \<Rightarrow> nat \<Rightarrow> (u8 list \<times> nat) option" where
  "b64_dec_loop p q hw =
     (let (p1, q1, hw1) = b64_fast p q hw
      in case b64_scan p1 1 of None \<Rightarrow> None
       | Some (p2, t) \<Rightarrow>
           (case b64_flush t q1 hw1 of None \<Rightarrow> None
            | Some (q2, hw2) \<Rightarrow>
                (let p3 = b64_skip p2 in if p3 = [] then Some (q2, hw2) else b64_dec_loop p3 q2 hw2)))"
  by pat_completeness auto
termination
proof (relation "measure (\<lambda>(p, q, hw). length p)", goal_cases)
  case (2 p q hw x p1 y q1 hw1 a p2 t b q2 hw2 p3)
  then have "length p1 \<le> length p" "p1 \<noteq> []"
    by (auto dest: b64_fast_length [OF sym])
  with 2 b64_scan_skip [of p1 1 p2 t] show ?case by auto
qed simp

declare b64_dec_loop.simps [simp del]

definition duk__base64_decode_helper :: "u8 list \<Rightarrow> (u8 list \<times> nat) option" where
  "duk__base64_decode_helper src = b64_dec_loop src [] 0"

text \<open>The size allocated by \<^verbatim>\<open>duk_base64_decode\<close> and its result.\<close>

definition base64_decode_dstlen :: "nat \<Rightarrow> nat" where
  "base64_decode_dstlen srclen = srclen div 4 * 3 + 6"

definition duk_base64_decode :: "u8 list \<Rightarrow> u8 list result" where
  "duk_base64_decode src =
     (case duk__base64_decode_helper src of
        None \<Rightarrow> Inl (TypeError ''base64 decode failed'')
      | Some (dst, hw) \<Rightarrow> Inr dst)"

subsection \<open>Base64 decoder, compact variant\<close>

text \<open>
  One loop over the characters.  Whitespace, padding and errors are the codes -1, -2 and
  -3 of \<open>b64_class\<close>, which stands for the source's cascade of comparisons.
\<close>

function base64_decode_compact :: "u8 list \<Rightarrow> u32 \<Rightarrow> u8 list \<Rightarrow> u8 list option" where
  "base64_decode_compact [] t q =
     (if t = 1 then Some q
      else case b64_flush t q 0 of None \<Rightarrow> None | Some (q', _) \<Rightarrow> base64_decode_compact [] 1 q')"
| "base64_decode_compact (ch # p) t q =
     (let y = b64_class ch
      in if y = -3 then None
         else if y = -1 then base64_decode_compact p t q
         else if y = -2 then
           (if t = 1 then base64_decode_compact p t q
            else case b64_flush t q 0 of None \<Rightarrow> None | Some (q', _) \<Rightarrow> base64_decode_compact p 1 q')
         else
           (let t = push_bit 6 t + word_of_int y
            in if t < 0x1000000 then base64_decode_compact p t q
               else case b64_flush t q 0 of None \<Rightarrow> None
                 | Some (q', _) \<Rightarrow> base64_decode_compact p 1 q'))"
  by pat_completeness auto
termination
  by (relation "measure (\<lambda>(p, t, q). 2 * length p + (if t = 1 then 0 else 1))") auto

subsection \<open>Both decoders agree\<close>

lemma dectab_class: "dectab x = b64_class x"
proof -
  have "duk__base64_dectab_fast ! unat x = b64_class (of_nat (unat x))"
    using unat_width_less(1) [of x] by (simp flip: base64_dectab_eq)
  then show ?thesis by (simp add: dectab_def)
qed

lemma b64_class_cases:
  obtains "b64_class x = -3" | "b64_class x = -2" | "b64_class x = -1"
    | n where "n < 64" "b64_class x = int n"
proof -
  have "unat x < length duk__base64_dectab_fast"
    using unat_width_less(1) [of x] by (simp flip: base64_dectab_eq)
  then have "dectab x = -3 \<or> dectab x = -2 \<or> dectab x = -1 \<or> (0 \<le> dectab x \<and> dectab x < 64)"
    using base64_dectab_range unfolding dectab_def list_all_length by blast
  then show thesis
    using that(1-3) that(4) [of "nat (b64_class x)"] unfolding dectab_class by auto
qed

text \<open>Flushing, by the number of characters in the accumulator.\<close>

lemma b64_pad_step:
  "b64_pad 4 t n = (if t < 0x1000000 then b64_pad 3 (push_bit 6 t) (n + 1) else (t, n))"
  "b64_pad 3 t n = (if t < 0x1000000 then b64_pad 2 (push_bit 6 t) (n + 1) else (t, n))"
  "b64_pad 2 t n = (if t < 0x1000000 then b64_pad 1 (push_bit 6 t) (n + 1) else (t, n))"
  "b64_pad 1 t n = (if t < 0x1000000 then (push_bit 6 t, n + 1) else (t, n))"
proof -
  have "(4 :: nat) = Suc 3" "(3 :: nat) = Suc 2" "(2 :: nat) = Suc 1" "(1 :: nat) = Suc 0" by simp_all
  then show "b64_pad 4 t n = (if t < 0x1000000 then b64_pad 3 (push_bit 6 t) (n + 1) else (t, n))"
    "b64_pad 3 t n = (if t < 0x1000000 then b64_pad 2 (push_bit 6 t) (n + 1) else (t, n))"
    "b64_pad 2 t n = (if t < 0x1000000 then b64_pad 1 (push_bit 6 t) (n + 1) else (t, n))"
    "b64_pad 1 t n = (if t < 0x1000000 then (push_bit 6 t, n + 1) else (t, n))"
    by (metis b64_pad.simps add_0_right)+
qed

lemma b64_flush_empty: "b64_flush 1 q hw = Some (q, max hw (length q + 3))"
  by (simp add: b64_flush_def b64_pad_step duk__base64_decode_nequal_step_def)

lemma b64_flush_full:
  "t \<ge> 0x1000000 \<Longrightarrow> b64_flush t q hw = Some (q @ b64_bytes t, max hw (length q + 3))"
  by (simp add: b64_flush_def b64_pad_step duk__base64_decode_nequal_step_def b64_bytes_def not_less [symmetric])

lemma b64_flush_hw:
  "map_option fst (b64_flush t q hw) = map_option fst (b64_flush t q hw')"
  by (simp add: b64_flush_def Let_def split: prod.splits)

lemma compact_scan:
  "base64_decode_compact p t q = (case b64_scan p t of None \<Rightarrow> None
     | Some (p', t') \<Rightarrow> (case b64_flush t' q 0 of None \<Rightarrow> None
         | Some (q', _) \<Rightarrow> base64_decode_compact p' 1 q'))"
proof (induction p t rule: b64_scan.induct)
  case (1 t)
  show ?case by (simp add: b64_flush_empty)
next
  case (2 ch p t)
  show ?case
  proof (cases ch rule: b64_class_cases)
    case 2
    then show ?thesis
      by (simp add: dectab_class b64_flush_empty split: option.splits)
  next
    case (4 n)
    with "2.IH"(1) show ?thesis
      by (simp add: dectab_class Let_def not_less [symmetric])
  qed (use "2.IH" in \<open>simp_all add: dectab_class\<close>)
qed

lemma compact_skip: "base64_decode_compact (b64_skip p) 1 q = base64_decode_compact p 1 q"
  by (induction p rule: b64_skip.induct) (simp_all add: dectab_class Let_def)

text \<open>
  The optimistic check: the sign of the combined words tells whether all characters were
  digits, because negative table entries are sign extended before the shifts.
\<close>

lemma sint_nonneg: "0 \<le> sint (x :: u32) \<longleftrightarrow> \<not> bit x 31"
  using bit_last_iff [of x] by (simp add: not_less)

lemma entry_bit: "6 \<le> k \<Longrightarrow> k < 32 \<Longrightarrow> bit (word_of_int (b64_class a) :: u32) k \<longleftrightarrow> b64_class a < 0"
proof (cases a rule: b64_class_cases)
  case 1
  show "6 \<le> k \<Longrightarrow> k < 32 \<Longrightarrow> ?thesis" unfolding 1 by (simp add: bit_simps)
next
  case 2
  show "6 \<le> k \<Longrightarrow> k < 32 \<Longrightarrow> ?thesis" unfolding 2 by (simp add: bit_simps)
next
  case 3
  show "6 \<le> k \<Longrightarrow> k < 32 \<Longrightarrow> ?thesis" unfolding 3 by (simp add: bit_simps)
next
  case (4 n)
  then show "6 \<le> k \<Longrightarrow> k < 32 \<Longrightarrow> ?thesis"
    using bit_word_int_small [of n 6 k] by (simp del: of_int_of_nat_eq)
qed

lemmas entry_bits = entry_bit [of 13] entry_bit [of 19] entry_bit [of 25] entry_bit [of 31]

lemma fast_group_sign:
  "0 \<le> sint (b64_fast_group a b c d) \<longleftrightarrow>
    0 \<le> b64_class a \<and> 0 \<le> b64_class b \<and> 0 \<le> b64_class c \<and> 0 \<le> b64_class d"
  by (auto simp: sint_nonneg b64_fast_group_def Let_def dectab_class bit_or_iff bit_push_bit_iff entry_bits [simplified] not_less)

lemma fast_groups_sign: "0 \<le> sint (x OR y :: u32) \<longleftrightarrow> 0 \<le> sint x \<and> 0 \<le> sint y"
  by (auto simp: sint_nonneg bit_or_iff)

lemma or_digit:
  assumes "unat t < 2 ^ 26" "n < 64"
  shows "unat (push_bit 6 t OR word_of_int (int n) :: u32) = unat t * 64 + n"
proof -
  have "bit (word_of_int (int n) :: u32) k \<Longrightarrow> k < 6" for k
    using bit_word_int_small [of n 6 k] assms(2) by (auto simp: not_less [symmetric] simp del: of_int_of_nat_eq)
  then have "push_bit 6 t OR word_of_int (int n) = push_bit 6 t + (word_of_int (int n) :: u32)"
    by (intro disjunctive_add [symmetric]) (metis bit_push_bit_iff not_le)
  moreover have "unat (push_bit 6 t + (word_of_int (int n) :: u32)) = unat t * 64 + n"
    using assms by (simp add: unat_add_mod unat_push_bit_mod unat_of_nat)
  ultimately show ?thesis by simp
qed

definition group_val :: "nat \<Rightarrow> nat \<Rightarrow> nat \<Rightarrow> nat \<Rightarrow> nat" where
  "group_val n1 n2 n3 n4 = ((n1 * 64 + n2) * 64 + n3) * 64 + n4"

lemma fast_group_val:
  assumes "b64_class a = int n1" "b64_class b = int n2" "b64_class c = int n3" "b64_class d = int n4"
    and "n1 < 64" "n2 < 64" "n3 < 64" "n4 < 64"
  shows "unat (b64_fast_group a b c d) = group_val n1 n2 n3 n4"
proof -
  define t1 :: u32 where "t1 = word_of_int (int n1)"
  define t2 :: u32 where "t2 = push_bit 6 t1 OR word_of_int (int n2)"
  define t3 :: u32 where "t3 = push_bit 6 t2 OR word_of_int (int n3)"
  have u1: "unat t1 = n1" using assms(5) by (simp add: t1_def unat_of_nat)
  have u2: "unat t2 = n1 * 64 + n2" unfolding t2_def using assms u1 by (subst or_digit) simp_all
  have u3: "unat t3 = (n1 * 64 + n2) * 64 + n3" unfolding t3_def using assms u2 by (subst or_digit) simp_all
  have "b64_fast_group a b c d = push_bit 6 t3 OR word_of_int (int n4)"
    unfolding b64_fast_group_def Let_def dectab_class assms(1-4) t3_def t2_def t1_def ..
  then show ?thesis using assms u3 by (simp only: group_val_def) (subst or_digit, simp_all)
qed

lemma group_val_less: "n1 < 64 \<Longrightarrow> n2 < 64 \<Longrightarrow> n3 < 64 \<Longrightarrow> n4 < 64 \<Longrightarrow> group_val n1 n2 n3 n4 < 16777216"
  by (simp add: group_val_def)

lemma b64_bytes_leading:
  assumes "unat t' = 16777216 + unat t" "unat t < 16777216"
  shows "b64_bytes t' = b64_bytes t"
proof -
  have "(16777216 + n) div 65536 mod 256 = n div 65536 mod 256"
    "(16777216 + n) div 256 mod 256 = n div 256 mod 256" "(16777216 + n) mod 256 = n mod 256" for n :: nat
    using mod_mult_self3 [of 1 256 "n div 65536"] mod_mult_self3 [of 256 256 "n div 256"]
      mod_mult_self3 [of 65536 256 n] div_mult_self3 [of 65536 256 n] div_mult_self3 [of 256 65536 n] by simp_all
  then show ?thesis
    using assms by (simp add: b64_bytes_def word_unat_eq_iff unat_ucast_mod unat_and_num(7) unat_drop_bit)
qed

lemma compact_group:
  assumes "b64_class a = int n1" "b64_class b = int n2" "b64_class c = int n3" "b64_class d = int n4"
    and n: "n1 < 64" "n2 < 64" "n3 < 64" "n4 < 64"
    and t: "unat t = group_val n1 n2 n3 n4"
  shows "base64_decode_compact (a # b # c # d # p) 1 q = base64_decode_compact p 1 (q @ b64_bytes t)"
proof -
  define t1 :: u32 where "t1 = push_bit 6 1 + word_of_int (int n1)"
  define t2 :: u32 where "t2 = push_bit 6 t1 + word_of_int (int n2)"
  define t3 :: u32 where "t3 = push_bit 6 t2 + word_of_int (int n3)"
  define t4 :: u32 where "t4 = push_bit 6 t3 + word_of_int (int n4)"
  have u1: "unat t1 = 64 + n1" using n by (simp add: t1_def unat_add_mod unat_push_bit_mod unat_of_nat)
  have u2: "unat t2 = (64 + n1) * 64 + n2" using n u1 by (simp add: t2_def unat_add_mod unat_push_bit_mod unat_of_nat)
  have u3: "unat t3 = ((64 + n1) * 64 + n2) * 64 + n3"
    using n u2 by (simp add: t3_def unat_add_mod unat_push_bit_mod unat_of_nat)
  have u4: "unat t4 = 16777216 + group_val n1 n2 n3 n4"
    using n u3 by (simp add: t4_def unat_add_mod unat_push_bit_mod unat_of_nat group_val_def)
  have "t1 < 0x1000000" "t2 < 0x1000000" "t3 < 0x1000000" "\<not> t4 < 0x1000000"
    using n u1 u2 u3 u4 by (simp_all add: word_less_nat_alt)
  moreover have "b64_flush t4 q 0 = Some (q @ b64_bytes t, max 0 (length q + 3))"
    using u4 group_val_less [OF n] t b64_bytes_leading [of t4 t] b64_flush_full [of t4 q 0]
    by (simp add: word_le_nat_alt)
  ultimately show ?thesis
    unfolding base64_decode_compact.simps(2) Let_def assms(1-4) t1_def [symmetric] t2_def [symmetric]
      t3_def [symmetric] t4_def [symmetric] by simp
qed

lemma compact_fast_group:
  assumes "0 \<le> sint (b64_fast_group a b c d)"
  shows "base64_decode_compact (a # b # c # d # p) 1 q
    = base64_decode_compact p 1 (q @ b64_bytes (b64_fast_group a b c d))"
proof -
  have obt: "\<exists>n < 64. b64_class x = int n" if "0 \<le> b64_class x" for x
    using that by (cases x rule: b64_class_cases) auto
  obtain n1 n2 n3 n4 where cls: "b64_class a = int n1" "b64_class b = int n2" "b64_class c = int n3"
    "b64_class d = int n4" "n1 < 64" "n2 < 64" "n3 < 64" "n4 < 64"
    using assms obt [of a] obt [of b] obt [of c] obt [of d] unfolding fast_group_sign by blast
  show ?thesis by (rule compact_group [OF cls fast_group_val [OF cls]])
qed

lemma compact_fast:
  "b64_fast p q hw = (p', q', hw') \<Longrightarrow> base64_decode_compact p 1 q = base64_decode_compact p' 1 q'"
proof (induction p q hw rule: b64_fast.induct)
  case (1 a b c d e f g h p q hw)
  let ?t1 = "b64_fast_group a b c d" and ?t2 = "b64_fast_group e f g h"
  show ?case
  proof (cases "0 \<le> sint ?t1")
    case True
    note c1 = compact_fast_group [OF True, of "e # f # g # h # p" q]
    show ?thesis
    proof (cases "0 \<le> sint ?t2")
      case True
      with 1 \<open>0 \<le> sint ?t1\<close> compact_fast_group [OF True, of p "q @ b64_bytes ?t1"] c1 show ?thesis
        by (simp add: fast_groups_sign Let_def del: base64_decode_compact.simps)
    qed (use 1 \<open>0 \<le> sint ?t1\<close> c1 in \<open>auto simp add: fast_groups_sign Let_def simp del: base64_decode_compact.simps\<close>)
  qed (use 1 in \<open>auto simp add: fast_groups_sign Let_def simp del: base64_decode_compact.simps\<close>)
qed auto

lemma base64_decode_loop_eq: "map_option fst (b64_dec_loop p q hw) = base64_decode_compact p 1 q"
proof (induction p q hw rule: b64_dec_loop.induct)
  case (1 p q hw)
  obtain p1 q1 hw1 where f: "b64_fast p q hw = (p1, q1, hw1)" by (cases "b64_fast p q hw") auto
  have c: "base64_decode_compact p 1 q = base64_decode_compact p1 1 q1" by (rule compact_fast [OF f])
  show ?case
  proof (cases "b64_scan p1 1")
    case None
    with f show ?thesis unfolding c compact_scan [of p1 1] by (simp add: b64_dec_loop.simps [of p])
  next
    case (Some s)
    obtain p2 t where s: "s = (p2, t)" by force
    show ?thesis
    proof (cases "b64_flush t q1 hw1")
      case None
      with b64_flush_hw [of t q1 hw1 0] Some f s show ?thesis
        unfolding c compact_scan [of p1 1] by (simp add: b64_dec_loop.simps [of p])
    next
      case (Some r)
      obtain q2 hw2 where r: "r = (q2, hw2)" by force
      have "\<exists>hw0. b64_flush t q1 0 = Some (q2, hw0)"
        using b64_flush_hw [of t q1 hw1 0] Some r by (cases "b64_flush t q1 0") auto
      then have c2: "base64_decode_compact p 1 q = base64_decode_compact (b64_skip p2) 1 q2"
        unfolding c compact_scan [of p1 1] \<open>b64_scan p1 1 = Some s\<close> s compact_skip by auto
      show ?thesis
        using "1.IH" [OF f [symmetric] refl refl \<open>b64_scan p1 1 = Some s\<close> [unfolded s] refl \<open>b64_flush t q1 hw1 = Some r\<close> [unfolded r] refl refl]
          f Some \<open>b64_scan p1 1 = Some s\<close> s r unfolding c2
        by (simp add: b64_dec_loop.simps [of p] Let_def)
    qed
  qed
qed

text \<open>Every write of the decoder stays within the buffer allocated by its caller.\<close>

lemma length_b64_bytes [simp]: "length (b64_bytes t) = 3"
  by (simp add: b64_bytes_def)

definition b64_level :: "u32 \<Rightarrow> nat" where
  "b64_level t = (if t < 0x40 then 0 else if t < 0x1000 then 1 else if t < 0x40000 then 2
     else if t < 0x1000000 then 3 else 4)"

lemma b64_pad_level:
  assumes "0 < t" "t < 0x40000000"
  shows "snd (b64_pad 4 t 0) = 4 - b64_level t"
proof -
  have step: "unat x < 16777216 \<Longrightarrow> push_bit 6 x < 0x1000000 \<longleftrightarrow> unat x < 262144" for x :: u32
    by (simp add: word_less_nat_alt unat_push_bit_mod)
  have step2: "unat x < 262144 \<Longrightarrow> push_bit 6 (push_bit 6 x) < 0x1000000 \<longleftrightarrow> unat x < 4096" for x :: u32
    by (simp add: word_less_nat_alt unat_push_bit_mod del: push_bit_push_bit)
  have step3: "unat x < 4096 \<Longrightarrow> push_bit 6 (push_bit 6 (push_bit 6 x)) < 0x1000000 \<longleftrightarrow> unat x < 64" for x :: u32
    by (simp add: word_less_nat_alt unat_push_bit_mod del: push_bit_push_bit)
  show ?thesis
    using step [of t] step2 [of t] step3 [of t]
    by (simp add: b64_pad_step b64_level_def word_less_nat_alt [of t] del: push_bit_push_bit)
qed

lemma unat_shift_digit:
  "unat t < 16777216 \<Longrightarrow> n < 64 \<Longrightarrow> unat (push_bit 6 t + word_of_int (int n) :: u32) = unat t * 64 + n"
  by (simp add: unat_add_mod unat_push_bit_mod unat_of_nat)

lemma b64_scan_level:
  "b64_scan p t = Some (p', t') \<Longrightarrow> 0 < t \<Longrightarrow> t < 0x1000000 \<Longrightarrow>
    b64_level t' + length p' \<le> b64_level t + length p \<and> 0 < t' \<and> t' < 0x40000000"
proof (induction p t rule: b64_scan.induct)
  case (1 t)
  then show ?case by (auto simp: word_less_nat_alt)
next
  case (2 ch p t)
  show ?case
  proof (cases ch rule: b64_class_cases)
    case (4 n)
    let ?t = "push_bit 6 t + word_of_int (int n)"
    have u: "unat ?t = unat t * 64 + n"
      using 4 "2.prems" by (intro unat_shift_digit) (simp_all add: word_less_nat_alt)
    have t: "0 < unat t" "unat t < 16777216" using "2.prems" by (simp_all add: word_less_nat_alt)
    have l: "b64_level ?t \<le> b64_level t + 1" "0 < ?t" "?t < 0x40000000"
      unfolding b64_level_def word_less_nat_alt u using 4(1) t by simp_all
    show ?thesis
      using "2.prems" "2.IH"(1) [OF refl _ refl] l 4
      by (auto simp: dectab_class Let_def not_le simp del: of_int_of_nat_eq split: if_splits)
  next
    case 2
    with "2.prems" show ?thesis by (auto simp: dectab_class word_less_nat_alt)
  qed (use "2.prems" "2.IH"(2) [OF refl] in \<open>auto simp: dectab_class\<close>)
qed

lemma b64_flush_length:
  assumes "b64_flush t q hw = Some (q', hw')" "0 < t" "t < 0x40000000"
  shows "4 * length q' \<le> 4 * length q + 3 * b64_level t \<and> hw' = max hw (length q + 3)"
proof -
  have "snd (b64_pad 4 t 0) = 4 - b64_level t" by (rule b64_pad_level [OF assms(2,3)])
  moreover have "b64_level t \<in> {0, 1, 2, 3, 4}" by (simp add: b64_level_def)
  ultimately show ?thesis
    using assms(1) by (auto simp: b64_flush_def duk__base64_decode_nequal_step_def Let_def split: prod.splits if_splits)
qed

lemma b64_fast_bound:
  "b64_fast p q hw = (p', q', hw') \<Longrightarrow> 4 * length q + 3 * length p \<le> 3 * n \<Longrightarrow> hw \<le> n div 4 * 3 + 6 \<Longrightarrow>
    4 * length q' + 3 * length p' \<le> 3 * n \<and> hw' \<le> n div 4 * 3 + 6"
proof (induction p q hw rule: b64_fast.induct)
  case (1 a b c d e f g h p q hw)
  have "length q + 6 \<le> n div 4 * 3 + 6" using "1.prems"(2) by simp
  then show ?case using 1 by (auto simp: Let_def split: if_splits)
qed auto

lemma b64_dec_loop_bound:
  "b64_dec_loop p q hw = Some (q', hw') \<Longrightarrow> 4 * length q + 3 * length p \<le> 3 * n \<Longrightarrow> hw \<le> n div 4 * 3 + 6 \<Longrightarrow>
    4 * length q' \<le> 3 * n \<and> hw' \<le> n div 4 * 3 + 6"
proof (induction p q hw arbitrary: q' hw' rule: b64_dec_loop.induct)
  case (1 p q hw)
  obtain p1 q1 hw1 where f: "b64_fast p q hw = (p1, q1, hw1)" by (cases "b64_fast p q hw") auto
  note b1 = b64_fast_bound [OF f "1.prems"(2,3)]
  obtain p2 t where s: "b64_scan p1 1 = Some (p2, t)"
    using "1.prems"(1) by (auto simp: b64_dec_loop.simps [of p] f split: option.splits)
  have l: "b64_level t + length p2 \<le> length p1" "0 < t" "t < 0x40000000"
    using b64_scan_level [OF s] by (simp_all add: b64_level_def)
  obtain q2 hw2 where r: "b64_flush t q1 hw1 = Some (q2, hw2)"
    using "1.prems"(1) by (auto simp: b64_dec_loop.simps [of p] f s split: option.splits)
  note b2 = b64_flush_length [OF r l(2,3)]
  have "4 * length q2 + 3 * length p2 \<le> 3 * n" "hw2 \<le> n div 4 * 3 + 6"
    using b1 b2 l(1) by (auto)
  moreover have "length (b64_skip p2) \<le> length p2" by (rule b64_skip_length)
  ultimately have "4 * length q2 + 3 * length (b64_skip p2) \<le> 3 * n" "hw2 \<le> n div 4 * 3 + 6" by simp_all
  then show ?case
    using "1.IH" [OF f [symmetric] refl refl s refl r refl refl] "1.prems"(1)
    by (auto simp: b64_dec_loop.simps [of p] f s r Let_def split: if_splits)
qed

subsection \<open>Decoding inverts encoding\<close>

lemma class_enctab: "unat x < 64 \<Longrightarrow> b64_class (enctab x) = int (unat x)"
  using base64_class_digit by (simp add: enctab_def enctab_nat list_all_iff)

lemma b64_bytes_of_nat:
  assumes "unat t = unat a * 65536 + unat b * 256 + unat c"
  shows "b64_bytes t = [a, b, c]"
proof -
  define x where "x = unat a"
  define y where "y = unat b"
  define z where "z = unat c"
  have n: "x < 256" "y < 256" "z < 256" by (simp_all add: x_def y_def z_def unat_width_less)
  have "(x * 65536 + y * 256 + z) div 65536 = x" "(x * 65536 + y * 256 + z) div 256 = x * 256 + y"
    using n by (auto intro!: div_nat_eqI)
  moreover have "(x * 65536 + y * 256 + z) mod 256 = z" "(x * 256 + y) mod 256 = y"
    using n mod_mult_self3 [of "x * 256 + y" 256 z] by (simp_all add: algebra_simps)
  ultimately show ?thesis
    using n assms by (simp add: b64_bytes_def word_unat_eq_iff unat_ucast_mod unat_and_num(7) unat_drop_bit
      flip: x_def y_def z_def)
qed

lemma compact_fast_3:
  "base64_decode_compact (duk__base64_encode_fast_3 a b c @ p) 1 q = base64_decode_compact p 1 (q @ [a, b, c])"
proof -
  define t :: u32 where "t = push_bit 8 (push_bit 8 (ucast a) + ucast b) + ucast c"
  have t: "unat t = unat a * 65536 + unat b * 256 + unat c" "unat t < 16777216"
    unfolding t_def unat_3bytes(1) using unat_3bytes(2) by simp_all
  have d: "unat (drop_bit 18 t) = unat t div 262144" "unat (drop_bit 12 t AND 0x3f) = unat t div 4096 mod 64"
    "unat (drop_bit 6 t AND 0x3f) = unat t div 64 mod 64" "unat (t AND 0x3f) = unat t mod 64"
    by (simp_all add: unat_drop_bit unat_and_num(5))
  have "unat t div 262144 < 64" using t(2) by (simp add: less_mult_imp_div_less)
  moreover have "unat t = group_val (unat t div 262144) (unat t div 4096 mod 64) (unat t div 64 mod 64) (unat t mod 64)"
  proof -
    have "unat t div 262144 * 64 + unat t div 4096 mod 64 = unat t div 4096"
      using div_mult_mod_eq [of "unat t div 4096" 64] by (simp add: div_mult2_eq [symmetric])
    moreover have "unat t div 4096 * 64 + unat t div 64 mod 64 = unat t div 64"
      using div_mult_mod_eq [of "unat t div 64" 64] by (simp add: div_mult2_eq [symmetric])
    ultimately show ?thesis by (simp add: group_val_def)
  qed
  ultimately show ?thesis
    unfolding duk__base64_encode_fast_3_def Let_def t_def [symmetric] append_Cons append_Nil
    by (subst compact_group [where t = t]) (simp_all add: class_enctab d b64_bytes_of_nat [OF t(1)] del: group_val_def)
qed

lemma b64_flush_partial:
  "unat t < 16777216 \<Longrightarrow> 262144 \<le> unat t \<Longrightarrow>
    b64_flush t q hw = Some (q @ take 2 (b64_bytes (push_bit 6 t)), max hw (length q + 3))"
  "unat t < 262144 \<Longrightarrow> 4096 \<le> unat t \<Longrightarrow>
    b64_flush t q hw = Some (q @ take 1 (b64_bytes (push_bit 12 t)), max hw (length q + 3))"
  by (simp_all add: b64_flush_def b64_pad_step duk__base64_decode_nequal_step_def word_less_nat_alt
      unat_push_bit_mod)

lemma class_equals: "b64_class DUK_ASC_EQUALS = -2"
  by (simp add: b64_class_def DUK_ASC_EQUALS_def)

lemma compact_digit:
  "b64_class ch = int n \<Longrightarrow> n < 64 \<Longrightarrow> unat t < 262144 \<Longrightarrow>
    base64_decode_compact (ch # p) t q = base64_decode_compact p (push_bit 6 t + word_of_int (int n)) q"
  using unat_shift_digit [of t n] by (simp add: Let_def word_less_nat_alt)

lemma compact_fast_2: "base64_decode_compact (duk__base64_encode_fast_2 a b) 1 q = Some (q @ [a, b])"
proof -
  define T :: u32 where "T = push_bit 8 (ucast a) + ucast b"
  define x where "x = unat T"
  have x: "unat T = x" "x < 65536" "x = unat a * 256 + unat b"
    using unat_3bytes(3,4) [of a b] by (simp_all add: x_def T_def)
  define n1 where "n1 = x div 1024"
  define n2 where "n2 = x div 16 mod 64"
  define n3 where "n3 = x * 4 mod 64"
  have n: "n1 < 64" "n2 < 64" "n3 < 64" using x(2) by (simp_all add: n1_def n2_def n3_def less_mult_imp_div_less)
  have sum: "(n1 * 64 + n2) * 64 + n3 = x * 4"
  proof -
    have "n1 * 64 + n2 = x div 16"
      using div_mult_mod_eq [of "x div 16" 64] by (simp add: n1_def n2_def div_mult2_eq [symmetric])
    moreover have "x * 4 div 64 = x div 16" by simp
    ultimately show ?thesis using div_mult_mod_eq [of "x * 4" 64] by (simp add: n3_def)
  qed
  have c: "b64_class (enctab (drop_bit 10 T)) = int n1" "b64_class (enctab (drop_bit 4 T AND 0x3f)) = int n2"
    "b64_class (enctab (push_bit 2 T AND 0x3f)) = int n3"
    using n x by (simp_all add: class_enctab unat_drop_bit unat_and_num(5) unat_push_bit_mod n1_def n2_def n3_def)
  define t1 :: u32 where "t1 = push_bit 6 1 + word_of_int (int n1)"
  define t2 :: u32 where "t2 = push_bit 6 t1 + word_of_int (int n2)"
  define t3 :: u32 where "t3 = push_bit 6 t2 + word_of_int (int n3)"
  have u1: "unat t1 = 64 + n1" unfolding t1_def using n by (subst unat_shift_digit) simp_all
  have u2: "unat t2 = (64 + n1) * 64 + n2" unfolding t2_def using n u1 by (subst unat_shift_digit) simp_all
  have u3: "unat t3 = 262144 + x * 4" unfolding t3_def using n u2 sum by (subst unat_shift_digit) simp_all
  have f: "b64_flush t3 q 0 = Some (q @ take 2 (b64_bytes (push_bit 6 t3)), max 0 (length q + 3))"
    using x(2) u3 by (intro b64_flush_partial) simp_all
  define w :: u32 where "w = of_nat (x * 256)"
  have w: "unat w = x * 256" using x(2) by (simp add: w_def unat_of_nat del: of_nat_mult)
  have "b64_bytes (push_bit 6 t3) = b64_bytes w"
    using x(2) u3 w by (intro b64_bytes_leading) (simp_all add: unat_push_bit_mod)
  also have "\<dots> = [a, b, 0]"
    using w unfolding x(3) by (intro b64_bytes_of_nat) simp
  finally have "take 2 (b64_bytes (push_bit 6 t3)) = [a, b]" by simp
  moreover have "t3 \<noteq> 1" using u3 by (auto simp: word_unat_eq_iff)
  ultimately have "base64_decode_compact [DUK_ASC_EQUALS] t3 q = Some (q @ [a, b])"
    using f by (simp add: class_equals)
  moreover have "duk__base64_encode_fast_2 a b = [enctab (drop_bit 10 T), enctab (drop_bit 4 T AND 0x3f),
      enctab (push_bit 2 T AND 0x3f), DUK_ASC_EQUALS]"
    by (simp only: duk__base64_encode_fast_2_def Let_def T_def)
  moreover have "base64_decode_compact (enctab (drop_bit 10 T) # r) 1 q = base64_decode_compact r t1 q"
    "base64_decode_compact (enctab (drop_bit 4 T AND 0x3f) # r) t1 q = base64_decode_compact r t2 q"
    "base64_decode_compact (enctab (push_bit 2 T AND 0x3f) # r) t2 q = base64_decode_compact r t3 q" for r
    unfolding t3_def t2_def t1_def by (rule compact_digit [OF c(1) n(1)], simp, rule compact_digit [OF c(2) n(2)],
      use n u1 in \<open>simp add: t1_def\<close>, rule compact_digit [OF c(3) n(3)]) (use n u2 in \<open>simp add: t1_def t2_def\<close>)
  ultimately show ?thesis by (simp only:)
qed

lemma compact_fast_1: "base64_decode_compact (duk__base64_encode_fast_1 a) 1 q = Some (q @ [a])"
proof -
  define T :: u32 where "T = ucast a"
  define x where "x = unat T"
  have x: "unat T = x" "x < 256" "x = unat a"
    using unat_width_less(1) [of a] by (simp_all add: x_def T_def unat_ucast_mod)
  define n1 where "n1 = x div 4"
  define n2 where "n2 = x * 16 mod 64"
  have n: "n1 < 64" "n2 < 64" using x(2) by (simp_all add: n1_def n2_def less_mult_imp_div_less)
  have sum: "n1 * 64 + n2 = x * 16"
  proof -
    have "x * 16 div 64 = x div 4" by simp
    then show ?thesis using div_mult_mod_eq [of "x * 16" 64] by (simp add: n1_def n2_def)
  qed
  have c: "b64_class (enctab (drop_bit 2 T)) = int n1" "b64_class (enctab (push_bit 4 T AND 0x3f)) = int n2"
    using n x by (simp_all add: class_enctab unat_drop_bit unat_and_num(5) unat_push_bit_mod n1_def n2_def)
  define t1 :: u32 where "t1 = push_bit 6 1 + word_of_int (int n1)"
  define t2 :: u32 where "t2 = push_bit 6 t1 + word_of_int (int n2)"
  have u1: "unat t1 = 64 + n1" unfolding t1_def using n by (subst unat_shift_digit) simp_all
  have u2: "unat t2 = 4096 + x * 16" unfolding t2_def using n u1 sum by (subst unat_shift_digit) simp_all
  have f: "b64_flush t2 q 0 = Some (q @ take 1 (b64_bytes (push_bit 12 t2)), max 0 (length q + 3))"
    using x(2) u2 by (intro b64_flush_partial) simp_all
  define w :: u32 where "w = of_nat (x * 65536)"
  have w: "unat w = x * 65536" using x(2) by (simp add: w_def unat_of_nat del: of_nat_mult)
  have "b64_bytes (push_bit 12 t2) = b64_bytes w"
    using x(2) u2 w by (intro b64_bytes_leading) (simp_all add: unat_push_bit_mod)
  also have "\<dots> = [a, 0, 0]"
    using w unfolding x(3) by (intro b64_bytes_of_nat) simp
  finally have "take 1 (b64_bytes (push_bit 12 t2)) = [a]" by simp
  moreover have "t2 \<noteq> 1" using u2 by (auto simp: word_unat_eq_iff)
  ultimately have "base64_decode_compact [DUK_ASC_EQUALS, DUK_ASC_EQUALS] t2 q = Some (q @ [a])"
    using f by (simp add: class_equals)
  moreover have "duk__base64_encode_fast_1 a = [enctab (drop_bit 2 T), enctab (push_bit 4 T AND 0x3f),
      DUK_ASC_EQUALS, DUK_ASC_EQUALS]"
    by (simp only: duk__base64_encode_fast_1_def Let_def T_def)
  moreover have "base64_decode_compact (enctab (drop_bit 2 T) # r) 1 q = base64_decode_compact r t1 q"
    "base64_decode_compact (enctab (push_bit 4 T AND 0x3f) # r) t1 q = base64_decode_compact r t2 q" for r
    unfolding t2_def t1_def by (rule compact_digit [OF c(1) n(1)], simp, rule compact_digit [OF c(2) n(2)])
      (use n u1 in \<open>simp add: t1_def\<close>)
  ultimately show ?thesis by (simp only:)
qed

lemma b64_remainder_acc: "b64_remainder p (q @ q') = q @ b64_remainder p q'"
  by (induction p q' rule: b64_remainder.induct) simp_all

lemma compact_remainder_roundtrip: "base64_decode_compact (b64_remainder p []) 1 q = Some (q @ p)"
proof (induction p arbitrary: q rule: length_induct)
  case (1 p)
  show ?case
  proof (cases "(p, q)" rule: b64_remainder.cases)
    case (1 a b c r)
    have "b64_remainder p [] = duk__base64_encode_fast_3 a b c @ b64_remainder r []"
      using 1 b64_remainder_acc [of r "duk__base64_encode_fast_3 a b c" "[]"] by simp
    with 1 "1.IH" show ?thesis by (simp add: compact_fast_3 del: base64_decode_compact.simps)
  qed (simp_all add: compact_fast_2 compact_fast_1 del: base64_decode_compact.simps(2))
qed

subsection \<open>Hex\<close>

text \<open>A 16-bit store of a table entry, low byte first.\<close>

definition store_enctab :: "u8 \<Rightarrow> u8 list" where
  "store_enctab x = (let w = duk_hex_enctab ! unat x in [ucast w, ucast (drop_bit 8 w)])"

fun hex_encode_4 :: "u8 list \<Rightarrow> u8 list \<Rightarrow> u8 list \<times> u8 list" where
  "hex_encode_4 (a # b # c # d # inp) p16 =
     hex_encode_4 inp (p16 @ store_enctab a @ store_enctab b @ store_enctab c @ store_enctab d)"
| "hex_encode_4 inp p16 = (inp, p16)"

fun hex_encode_1 :: "u8 list \<Rightarrow> u8 list \<Rightarrow> u8 list" where
  "hex_encode_1 [] p16 = p16"
| "hex_encode_1 (a # inp) p16 = hex_encode_1 inp (p16 @ store_enctab a)"

definition duk_hex_encode :: "u8 list \<Rightarrow> u8 list" where
  "duk_hex_encode inp = (let (rest, p16) = hex_encode_4 inp [] in hex_encode_1 rest p16)"

text \<open>The variant without \<^verbatim>\<open>DUK_USE_HEX_FASTPATH\<close>.\<close>

definition hex_encode_compact :: "u8 list \<Rightarrow> u8 list" where
  "hex_encode_compact inp =
     concat (map (\<lambda>t. [duk_lc_digits ! unat (drop_bit 4 t), duk_lc_digits ! unat (t AND 0x0f)]) inp)"

definition hex_pair_fast :: "u8 \<Rightarrow> u8 \<Rightarrow> u32" where
  "hex_pair_fast a b = word_of_int (duk_hex_dectab_shift4 ! unat a) OR word_of_int (duk_hex_dectab ! unat b)"

definition hex_pair :: "u8 \<Rightarrow> u8 \<Rightarrow> u32" where
  "hex_pair a b = push_bit 4 (word_of_int (duk_hex_dectab ! unat a)) OR word_of_int (duk_hex_dectab ! unat b)"

fun hex_decode_8 :: "u8 list \<Rightarrow> u8 list \<Rightarrow> (u8 list \<times> u8 list) option" where
  "hex_decode_8 (a # b # c # d # e # f # g # h # inp) out =
     (let t0 = hex_pair_fast a b; chk = t0;
          t1 = hex_pair_fast c d; chk = chk OR t1;
          t2 = hex_pair_fast e f; chk = chk OR t2;
          t3 = hex_pair_fast g h; chk = chk OR t3
      in if sint chk < 0 then None
         else hex_decode_8 inp (out @ [ucast t0, ucast t1, ucast t2, ucast t3]))"
| "hex_decode_8 inp out = Some (inp, out)"

fun hex_decode_2 :: "u8 list \<Rightarrow> u8 list \<Rightarrow> u8 list option" where
  "hex_decode_2 (a # b # inp) out =
     (let t = hex_pair a b in if sint t < 0 then None else hex_decode_2 inp (out @ [ucast t]))"
| "hex_decode_2 inp out = Some out"

definition duk_hex_decode :: "u8 list \<Rightarrow> u8 list result" where
  "duk_hex_decode inp =
     (if length inp mod 2 = 1 then Inl (TypeError ''hex decode failed'')
      else case hex_decode_8 inp [] of
        None \<Rightarrow> Inl (TypeError ''hex decode failed'')
      | Some (rest, out) \<Rightarrow>
          (case hex_decode_2 rest out of None \<Rightarrow> Inl (TypeError ''hex decode failed'') | Some out \<Rightarrow> Inr out))"

definition hex_decode_compact :: "u8 list \<Rightarrow> u8 list result" where
  "hex_decode_compact inp =
     (if length inp mod 2 = 1 then Inl (TypeError ''hex decode failed'')
      else case hex_decode_2 inp [] of None \<Rightarrow> Inl (TypeError ''hex decode failed'') | Some out \<Rightarrow> Inr out)"

lemma store_enctab_eq: "store_enctab x = [duk_lc_digits ! unat (drop_bit 4 x), duk_lc_digits ! unat (x AND 0x0f)]"
  using hex_enctab_bytes unat_width_less(1) [of x]
  by (simp add: store_enctab_def Let_def list_all_iff unat_drop_bit unat_and_num)

lemma hex_encode_eq: "duk_hex_encode inp = hex_encode_compact inp"
proof -
  have "hex_encode_1 p q = q @ hex_encode_compact p" for p q
    by (induction p q rule: hex_encode_1.induct) (simp_all add: hex_encode_compact_def store_enctab_eq)
  moreover have "hex_encode_4 p q = (p', q') \<Longrightarrow> q' @ hex_encode_compact p' = q @ hex_encode_compact p" for p q p' q'
    by (induction p q rule: hex_encode_4.induct) (auto simp: hex_encode_compact_def store_enctab_eq)
  ultimately show ?thesis by (auto simp: duk_hex_encode_def split: prod.splits)
qed

text \<open>One pair of characters; \<open>hex_digit_val\<close> is what the table gives for a digit.\<close>

lemma hex_dectab_value: "duk_hex_dectab ! unat (x :: u8) = hex_value (unat x)"
  using unat_width_less(1) [of x] by (simp flip: hex_dectab_eq)

lemma hex_value_cases:
  obtains "hex_value (unat (x :: u8)) = -1" | n where "n < 16" "hex_value (unat x) = int n"
proof -
  have "unat x < length duk_hex_dectab" using unat_width_less(1) [of x] by (simp flip: hex_dectab_eq)
  then have "hex_value (unat x) = -1 \<or> (0 \<le> hex_value (unat x) \<and> hex_value (unat x) < 16)"
    using hex_dectab_range unfolding list_all_length hex_dectab_value [symmetric] by blast
  then show thesis using that(1) that(2) [of "nat (hex_value (unat x))"] by auto
qed

lemma hex_shift4_value:
  "duk_hex_dectab_shift4 ! unat (x :: u8) = (if hex_value (unat x) < 0 then -1 else 16 * hex_value (unat x))"
  using unat_width_less(1) [of x] by (simp flip: hex_dectab_shift4_eq hex_dectab_eq)

lemma hex_pair_valid:
  assumes "hex_value (unat a) = int m" "hex_value (unat b) = int n" "m < 16" "n < 16"
  shows "unat (hex_pair a b) = m * 16 + n" "hex_pair_fast a b = hex_pair a b" "0 \<le> sint (hex_pair a b)"
proof -
  have "bit (word_of_int (int n) :: u32) k \<Longrightarrow> k < 4" for k
    using bit_word_int_small [of n 4 k] assms(4) by (auto simp: not_less [symmetric] simp del: of_int_of_nat_eq)
  then have "hex_pair a b = push_bit 4 (word_of_int (int m)) + word_of_int (int n)"
    unfolding hex_pair_def hex_dectab_value assms(1,2)
    by (intro disjunctive_add [symmetric]) (metis bit_push_bit_iff not_le)
  then show u: "unat (hex_pair a b) = m * 16 + n"
    using assms(3,4) by (simp add: unat_add_mod unat_push_bit_mod unat_of_nat)
  then show "0 \<le> sint (hex_pair a b)" using assms(3,4) by (simp add: sint_u32)
  have "word_of_int (16 * int m) = (push_bit 4 (word_of_int (int m)) :: u32)" by (simp add: push_bit_eq_mult)
  then show "hex_pair_fast a b = hex_pair a b"
    by (simp add: hex_pair_fast_def hex_pair_def hex_shift4_value hex_dectab_value assms(1,2) del: of_int_of_nat_eq)
qed

lemma hex_pair_invalid:
  assumes "hex_value (unat a) = -1 \<or> hex_value (unat b) = -1"
  shows "sint (hex_pair a b) < 0" "sint (hex_pair_fast a b) < 0"
  using assms by (auto simp: hex_pair_def hex_pair_fast_def hex_dectab_value hex_shift4_value
      sint_nonneg bit_or_iff bit_push_bit_iff simp flip: not_le)

lemma hex_pair_fast_sign:
  "sint (hex_pair_fast a b) < 0 \<longleftrightarrow> sint (hex_pair a b) < 0"
  "\<not> sint (hex_pair a b) < 0 \<Longrightarrow> hex_pair_fast a b = hex_pair a b"
  by (cases a rule: hex_value_cases; cases b rule: hex_value_cases;
      use hex_pair_valid [of a _ b] hex_pair_invalid [of a b] in \<open>simp add: not_less\<close>)+

lemma sint_or_neg: "sint (x OR y :: u32) < 0 \<longleftrightarrow> sint x < 0 \<or> sint y < 0"
  using fast_groups_sign [of x y] by (simp flip: not_le)

lemma hex_decode_8_eq:
  "hex_decode_2 inp out = (case hex_decode_8 inp out of None \<Rightarrow> None | Some (r, o') \<Rightarrow> hex_decode_2 r o')"
proof (induction inp out rule: hex_decode_8.induct)
  case (1 a b c d e f g h inp out)
  then show ?case by (auto simp: Let_def sint_or_neg hex_pair_fast_sign)
qed simp_all

lemma hex_decode_eq: "duk_hex_decode inp = hex_decode_compact inp"
  unfolding duk_hex_decode_def hex_decode_compact_def hex_decode_8_eq [of inp "[]"]
  by (auto split: option.splits)

lemma hex_value_lc_digit: "n < 16 \<Longrightarrow> hex_value (unat (duk_lc_digits ! n)) = int n"
  using hex_value_digit by (simp add: list_all_iff)

lemma hex_decode_2_encoded: "hex_decode_2 (hex_encode_compact bs) out = Some (out @ bs)"
proof (induction bs arbitrary: out)
  case (Cons x bs)
  let ?a = "duk_lc_digits ! unat (drop_bit 4 x)" and ?b = "duk_lc_digits ! unat (x AND 0x0f)"
  have u: "unat (drop_bit 4 x) = unat x div 16" "unat (x AND 0x0f) = unat x mod 16" "unat x < 256"
    by (simp_all add: unat_drop_bit unat_and_num unat_width_less)
  then have "unat x div 16 < 16" by simp
  from hex_pair_valid [OF hex_value_lc_digit [OF this] hex_value_lc_digit, of "unat x mod 16"] this
  have p: "unat (hex_pair ?a ?b) = unat x" "\<not> sint (hex_pair ?a ?b) < 0" by (simp_all add: u not_less)
  then have "(ucast (hex_pair ?a ?b) :: u8) = x" using u(3) by (simp add: word_unat_eq_iff unat_ucast_mod)
  with p Cons show ?case by (simp add: hex_encode_compact_def Let_def)
qed (simp add: hex_encode_compact_def)

subsection \<open>Properties\<close>

text \<open>
  the unrolled base64 encoder writes, for every input, exactly the bytes of the compact
  encoder which pads the last group and rewrites its characters.
\<close>

lemma base64_encoders_agree: "duk__base64_encode_helper src = base64_encode_compact src"
  by (rule base64_encode_eq)

text \<open>
  C17: on every input, well-formed or not, the fast base64 decoder (two groups at a time with
  one sign test, dropping into a slow path for whitespace, padding and the end of input)
  accepts and returns the same as the compact decoder.
\<close>

theorem base64_decoders_agree:
  "map_option fst (duk__base64_decode_helper src) = base64_decode_compact src 1 []"
  by (simp only: duk__base64_decode_helper_def base64_decode_loop_eq)

text \<open>
  C20: base64 round trip; the encoder fills exactly the buffer allocated for it.
\<close>

theorem base64_roundtrip:
  assumes "length src \<le> 3221225469"
  shows "\<exists>str. duk_base64_encode src = Inr (length str, str) \<and> duk_base64_decode str = Inr src"
proof -
  let ?s = "b64_remainder src []"
  have "map_option fst (duk__base64_decode_helper ?s) = Some src"
    using compact_remainder_roundtrip [of src "[]"]
    by (simp only: duk__base64_decode_helper_def base64_decode_loop_eq append_Nil)
  then have "duk_base64_decode ?s = Inr src" by (auto simp: duk_base64_decode_def)
  moreover have "duk_base64_encode src = Inr (length ?s, ?s)"
    using assms by (simp add: duk_base64_encode_def base64_encode_remainder length_b64_remainder)
  ultimately show ?thesis by blast
qed

theorem base64_roundtrip_witness:
  "\<exists>str. duk_base64_encode [0x66, 0x6f] = Inr (length str, str) \<and> duk_base64_decode str = Inr [0x66, 0x6f]"
  by (rule base64_roundtrip) simp



text \<open>
  the unrolled hex encoder and decoder compute, for every input, what the byte at a time
  variants do; in particular the decoder rejects the same inputs.
\<close>

lemma hex_variants_agree:
  "duk_hex_encode inp = hex_encode_compact inp \<and> duk_hex_decode inp = hex_decode_compact inp"
  using hex_encode_eq hex_decode_eq by simp

text \<open>C25: hex round trip.\<close>

theorem hex_roundtrip: "duk_hex_decode (duk_hex_encode bs) = Inr bs"
proof -
  have "length (hex_encode_compact bs) = 2 * length bs"
    by (induction bs) (simp_all add: hex_encode_compact_def)
  then show ?thesis
    by (simp add: hex_decode_eq hex_encode_eq hex_decode_compact_def hex_decode_2_encoded)
qed

end
