(* ===== verification/Bitstream.thy ===== *)
theory Bitstream
  imports Prelude
begin

text \<open>
  \<^verbatim>\<open>duk_util_bitdecoder.c\<close> and \<^verbatim>\<open>duk_util_bitencoder.c\<close>: the bit packed streams of the
  built-in init data and of the pc2line debug data.  The interfaces \<open>bit_source\<close> and
  \<open>bit_sink\<close> state what a reader and a writer promise to their clients; the decoder and
  encoder of the source are interpretations of them.
\<close>

subsection \<open>Sequences of bits\<close>

text \<open>The \<open>n\<close> low bits of a word, most significant first.\<close>

definition to_bits :: "nat \<Rightarrow> 'a::len word \<Rightarrow> bool list" where
  "to_bits n x = map (\<lambda>i. bit x (n - 1 - i)) [0..<n]"

lemma length_to_bits [simp]: "length (to_bits n x) = n"
  by (simp add: to_bits_def)

lemma nth_to_bits [simp]: "i < n \<Longrightarrow> to_bits n x ! i = bit x (n - 1 - i)"
  by (simp add: to_bits_def)

text \<open>An infinite stream that begins with given bits.\<close>

definition starts :: "(nat \<Rightarrow> bool) \<Rightarrow> bool list \<Rightarrow> bool" where
  "starts f bs \<longleftrightarrow> (\<forall>i < length bs. f i = bs ! i)"

lemma starts_append: "starts f (xs @ ys) \<longleftrightarrow> starts f xs \<and> starts (\<lambda>i. f (length xs + i)) ys"
proof
  assume "starts f (xs @ ys)"
  then show "starts f xs \<and> starts (\<lambda>i. f (length xs + i)) ys"
    unfolding starts_def by (metis length_append nth_append nth_append_length_plus trans_less_add1 add_less_cancel_left)
next
  assume a: "starts f xs \<and> starts (\<lambda>i. f (length xs + i)) ys"
  show "starts f (xs @ ys)"
    unfolding starts_def
  proof (intro allI impI)
    fix i assume i: "i < length (xs @ ys)"
    show "f i = (xs @ ys) ! i"
    proof (cases "i < length xs")
      case False
      then obtain j where "i = length xs + j" using le_Suc_ex not_less by blast
      with a i show ?thesis by (simp add: starts_def)
    qed (use a in \<open>simp add: starts_def nth_append\<close>)
  qed
qed

subsection \<open>Interfaces\<close>

text \<open>
  A source: \<open>get s n\<close> reads up to 24 bits as a number, \<open>at s\<close> is the stream that remains.
\<close>

locale bit_source =
  fixes get :: "'s \<Rightarrow> nat \<Rightarrow> 'a::len word \<times> 's" and at :: "'s \<Rightarrow> nat \<Rightarrow> bool" and src_ok :: "'s \<Rightarrow> bool"
  assumes get_ok: "src_ok s \<Longrightarrow> 1 \<le> n \<Longrightarrow> n \<le> 24 \<Longrightarrow> src_ok (snd (get s n))"
    and get_bit: "src_ok s \<Longrightarrow> 1 \<le> n \<Longrightarrow> n \<le> 24 \<Longrightarrow> bit (fst (get s n)) j \<longleftrightarrow> j < n \<and> at s (n - 1 - j)"
    and get_at: "src_ok s \<Longrightarrow> 1 \<le> n \<Longrightarrow> n \<le> 24 \<Longrightarrow> at (snd (get s n)) i = at s (n + i)"
begin

lemma get_prefix:
  assumes "src_ok s" "1 \<le> n" "n \<le> 24" "starts (at s) (to_bits n x @ r)"
  shows "\<exists>s'. get s n = (take_bit n x, s') \<and> src_ok s' \<and> starts (at s') r"
proof -
  have a: "\<forall>i<n. at s i = bit x (n - 1 - i)"
    using assms(4) unfolding starts_append by (simp add: starts_def)
  have "fst (get s n) = take_bit n x"
  proof (rule bit_word_eqI)
    fix j
    show "bit (fst (get s n)) j = bit (take_bit n x) j"
      using a [rule_format, of "n - 1 - j"] assms(2) by (auto simp: get_bit [OF assms(1-3)] bit_take_bit_iff)
  qed
  moreover have "starts (at (snd (get s n))) r"
    using assms(4) unfolding starts_append by (simp add: get_at [OF assms(1-3)] starts_def)
  ultimately show ?thesis
    using get_ok [OF assms(1-3)] by (cases "get s n") simp
qed

end

text \<open>
  A sink: \<open>put e x n\<close> appends the \<open>n\<close> low bits of \<open>x\<close>, which has no others, while there is
  room for them.
\<close>

locale bit_sink =
  fixes put :: "'e \<Rightarrow> 'a::len word \<Rightarrow> nat \<Rightarrow> 'e" and bits :: "'e \<Rightarrow> bool list" and room :: "'e \<Rightarrow> nat"
    and snk_ok :: "'e \<Rightarrow> bool"
  assumes put_bits: "snk_ok e \<Longrightarrow> 1 \<le> n \<Longrightarrow> n \<le> 24 \<Longrightarrow> take_bit n x = x \<Longrightarrow> length (bits e) + n \<le> room e \<Longrightarrow>
      snk_ok (put e x n) \<and> bits (put e x n) = bits e @ to_bits n x \<and> room (put e x n) = room e"
begin

lemma put_items:
  assumes "snk_ok e" "list_all (\<lambda>(x, n). 1 \<le> n \<and> n \<le> 24 \<and> take_bit n x = x) items"
    and "length (bits e) + sum_list (map snd items) \<le> room e"
  shows "snk_ok (foldl (\<lambda>e (x, n). put e x n) e items)
    \<and> bits (foldl (\<lambda>e (x, n). put e x n) e items) = bits e @ concat (map (\<lambda>(x, n). to_bits n x) items)
    \<and> room (foldl (\<lambda>e (x, n). put e x n) e items) = room e"
  using assms
proof (induction items arbitrary: e)
  case (Cons it items)
  obtain x n where it: "it = (x, n)" by force
  have p: "snk_ok (put e x n) \<and> bits (put e x n) = bits e @ to_bits n x \<and> room (put e x n) = room e"
    using Cons.prems it by (intro put_bits) simp_all
  with Cons.IH [of "put e x n"] Cons.prems it show ?case by simp
qed simp

end

text \<open>A writer and a reader of the same bits: what was put is what is got.\<close>

fun get_widths :: "('s \<Rightarrow> nat \<Rightarrow> 'w \<times> 's) \<Rightarrow> 's \<Rightarrow> nat list \<Rightarrow> 'w list" where
  "get_widths get s [] = []"
| "get_widths get s (n # ns) = (let (x, s) = get s n in x # get_widths get s ns)"

locale bit_pipe = bit_sink put bits room snk_ok + bit_source get at src_ok
  for put :: "'e \<Rightarrow> 'a::len word \<Rightarrow> nat \<Rightarrow> 'e" and bits and room and snk_ok
    and get :: "'s \<Rightarrow> nat \<Rightarrow> 'a word \<times> 's" and at and src_ok
begin

lemma get_put:
  assumes "snk_ok e" "bits e = []" "list_all (\<lambda>(x, n). 1 \<le> n \<and> n \<le> 24 \<and> take_bit n x = x) items"
    and "sum_list (map snd items) \<le> room e" "src_ok s"
    and "starts (at s) (bits (foldl (\<lambda>e (x, n). put e x n) e items))"
  shows "get_widths get s (map snd items) = map fst items"
proof -
  have "starts (at s) (concat (map (\<lambda>(x, n). to_bits n x) items)) \<Longrightarrow> src_ok s \<Longrightarrow>
      list_all (\<lambda>(x, n). 1 \<le> n \<and> n \<le> 24 \<and> take_bit n x = x) items \<Longrightarrow>
      get_widths get s (map snd items) = map fst items" for s
  proof (induction items arbitrary: s)
    case (Cons it items)
    obtain x n where it: "it = (x, n)" by force
    then obtain s' where "get s n = (take_bit n x, s')" "src_ok s'"
        "starts (at s') (concat (map (\<lambda>(x, n). to_bits n x) items))"
      using get_prefix [of s n x "concat (map (\<lambda>(x, n). to_bits n x) items)"] Cons.prems by auto
    with Cons it show ?case by simp
  qed simp
  moreover have "bits (foldl (\<lambda>e (x, n). put e x n) e items) = concat (map (\<lambda>(x, n). to_bits n x) items)"
    using put_items [OF assms(1,3)] assms(2,4) by simp
  ultimately show ?thesis using assms by simp
qed

end

subsection \<open>Bit decoder\<close>

record duk_bitdecoder_ctx =
  bd_data :: "u8 list"
  bd_offset :: nat
  bd_currval :: u32
  bd_currbits :: nat

text \<open>
  The loop that shifts whole bytes in, and its body; past the end of the data zeroes are
  shifted in.
\<close>

definition bd_shift_in :: "duk_bitdecoder_ctx \<Rightarrow> duk_bitdecoder_ctx" where
  "bd_shift_in ctx =
     (let ctx = ctx\<lparr>bd_currval := push_bit 8 (bd_currval ctx)\<rparr>;
          ctx = (if bd_offset ctx < length (bd_data ctx)
                 then ctx\<lparr>bd_currval := bd_currval ctx OR ucast (bd_data ctx ! bd_offset ctx),
                          bd_offset := bd_offset ctx + 1\<rparr>
                 else ctx)
      in ctx\<lparr>bd_currbits := bd_currbits ctx + 8\<rparr>)"

lemma bd_shift_in_currbits [simp]: "bd_currbits (bd_shift_in ctx) = bd_currbits ctx + 8"
  by (simp add: bd_shift_in_def Let_def)

function bd_fill :: "duk_bitdecoder_ctx \<Rightarrow> nat \<Rightarrow> duk_bitdecoder_ctx" where
  "bd_fill ctx bits = (if bd_currbits ctx < bits then bd_fill (bd_shift_in ctx) bits else ctx)"
  by pat_completeness auto
termination
  by (relation "measure (\<lambda>(ctx, bits). bits - bd_currbits ctx)") auto

declare bd_fill.simps [simp del]

definition duk_bd_decode :: "duk_bitdecoder_ctx \<Rightarrow> nat \<Rightarrow> u32 \<times> duk_bitdecoder_ctx" where
  "duk_bd_decode ctx bits =
     (let ctx = bd_fill ctx bits;
          shift = bd_currbits ctx - bits;
          mask = push_bit bits 1 - 1;
          tmp = drop_bit shift (bd_currval ctx) AND mask
      in (tmp, ctx\<lparr>bd_currbits := shift\<rparr>))"

definition duk_bd_decode_flag :: "duk_bitdecoder_ctx \<Rightarrow> u32 \<times> duk_bitdecoder_ctx" where
  "duk_bd_decode_flag ctx = duk_bd_decode ctx 1"

definition duk_bd_decode_flagged :: "duk_bitdecoder_ctx \<Rightarrow> nat \<Rightarrow> u32 \<Rightarrow> u32 \<times> duk_bitdecoder_ctx" where
  "duk_bd_decode_flagged ctx bits def_value =
     (let (f, ctx) = duk_bd_decode_flag ctx
      in if f \<noteq> 0 then duk_bd_decode ctx bits else (def_value, ctx))"

definition duk_bd_decode_flagged_signed :: "duk_bitdecoder_ctx \<Rightarrow> nat \<Rightarrow> int \<Rightarrow> int \<times> duk_bitdecoder_ctx" where
  "duk_bd_decode_flagged_signed ctx bits def_value =
     (let (v, ctx) = duk_bd_decode_flagged ctx bits (word_of_int def_value) in (sint v, ctx))"

definition duk_bd_decode_varuint :: "duk_bitdecoder_ctx \<Rightarrow> u32 \<times> duk_bitdecoder_ctx" where
  "duk_bd_decode_varuint ctx =
     (let (t, ctx) = duk_bd_decode ctx 2
      in if t = 0 then (0, ctx)
         else if t = 1 then (let (t, ctx) = duk_bd_decode ctx 2 in (t + 1, ctx))
         else if t = 2 then (let (t, ctx) = duk_bd_decode ctx 5 in (t + 5, ctx))
         else
           (let (t, ctx) = duk_bd_decode ctx 7
            in if t = 0 then duk_bd_decode ctx 20 else ((t - 1) + 37, ctx)))"

definition duk__bitpacked_lookup :: "u8 list" where
  "duk__bitpacked_lookup = [0x30, 0x31, 0x32, 0x33, 0x34, 0x35, 0x36, 0x37,
     0x38, 0x39, 0x5f, 0x20, 0x82, 0x80, 0x22, 0x7b]"

text \<open>One character of a bit packed string: the character, and the new case mode (0 or 32).\<close>

definition bitpacked_char :: "duk_bitdecoder_ctx \<Rightarrow> u32 \<Rightarrow> u8 \<times> duk_bitdecoder_ctx \<times> u32" where
  "bitpacked_char bd mode =
     (let (t, bd) = duk_bd_decode bd 5
      in if t < 26 then (ucast (t + 0x41 + mode), bd, mode)
         else if t = 26 then
           (let (u, bd) = duk_bd_decode bd 3 in (duk__bitpacked_lookup ! unat u, bd, mode))
         else if t = 27 then
           (let (u, bd) = duk_bd_decode bd 3 in (duk__bitpacked_lookup ! unat (8 + u), bd, mode))
         else if t = 28 then
           (let (t, bd) = duk_bd_decode bd 5 in (ucast (t + 0x41 + (mode XOR 32)), bd, mode))
         else if t = 29 then
           (let mode = mode XOR 32; (t, bd) = duk_bd_decode bd 5 in (ucast (t + 0x41 + mode), bd, mode))
         else if t = 31 then
           (let (t, bd) = duk_bd_decode bd 8 in (ucast t, bd, mode))
         else (ucast t, bd, mode))"

fun bitpacked_chars :: "nat \<Rightarrow> duk_bitdecoder_ctx \<Rightarrow> u32 \<Rightarrow> u8 list \<times> duk_bitdecoder_ctx" where
  "bitpacked_chars 0 bd mode = ([], bd)"
| "bitpacked_chars (Suc n) bd mode =
     (let (c, bd, mode) = bitpacked_char bd mode; (out, bd) = bitpacked_chars n bd mode in (c # out, bd))"

definition duk_bd_decode_bitpacked_string :: "duk_bitdecoder_ctx \<Rightarrow> nat \<times> u8 list \<times> duk_bitdecoder_ctx" where
  "duk_bd_decode_bitpacked_string bd =
     (let (len, bd) = duk_bd_decode bd 5;
          (len, bd) = (if len = 31 then duk_bd_decode bd 8 else (len, bd));
          (out, bd) = bitpacked_chars (unat len) bd 32
      in (unat len, out, bd))"

definition DUK_BD_BITPACKED_STRING_MAXLEN :: nat where
  "DUK_BD_BITPACKED_STRING_MAXLEN = 256"

subsection \<open>The decoder is a bit source\<close>

definition bd_at :: "duk_bitdecoder_ctx \<Rightarrow> nat \<Rightarrow> bool" where
  "bd_at ctx i =
     (if i < bd_currbits ctx then bit (bd_currval ctx) (bd_currbits ctx - 1 - i)
      else (let k = bd_offset ctx + (i - bd_currbits ctx) div 8
            in k < length (bd_data ctx) \<and> bit (bd_data ctx ! k) (7 - (i - bd_currbits ctx) mod 8)))"

definition bd_ok :: "duk_bitdecoder_ctx \<Rightarrow> bool" where
  "bd_ok ctx \<longleftrightarrow> bd_currbits ctx < 8"

lemma bd_shift_in_at:
  assumes "bd_currbits ctx \<le> 23"
  shows "bd_at (bd_shift_in ctx) = bd_at ctx"
proof
  fix i
  define m where "m = bd_currbits ctx"
  have m: "m \<le> 23" using assms by (simp add: m_def)
  consider "i < m" | j where "i = m + j" "j < 8" | j where "i = m + 8 + j"
    by (metis add.assoc le_Suc_ex nat_add_left_cancel_less not_le)
  then show "bd_at (bd_shift_in ctx) i = bd_at ctx i"
  proof cases
    case 1
    then have "\<not> m + 8 - 1 - i < 8" "m + 8 - 1 - i < 32" "m + 8 - 1 - i - 8 = m - 1 - i" using m by auto
    then show ?thesis using 1 bit_imp_le_length [of "bd_data ctx ! bd_offset ctx" "m + 8 - 1 - i"]
      by (auto simp: bd_at_def bd_shift_in_def bit_or_iff bit_push_bit_iff bit_ucast_iff Let_def simp flip: m_def)
  next
    case (2 j)
    then have "m + 8 - 1 - i = 7 - j" "7 - j < 8" by auto
    with 2 show ?thesis
      by (auto simp: bd_at_def bd_shift_in_def bit_or_iff bit_push_bit_iff bit_ucast_iff Let_def simp flip: m_def)
  next
    case (3 j)
    have "(8 + j) div 8 = Suc (j div 8)" "(8 + j) mod 8 = j mod 8" by simp_all
    with 3 show ?thesis by (auto simp: bd_at_def bd_shift_in_def Let_def add.assoc simp flip: m_def)
  qed
qed

lemma bd_fill_at: "bits \<le> 24 \<Longrightarrow> bd_at (bd_fill ctx bits) = bd_at ctx"
proof (induction ctx bits rule: bd_fill.induct)
  case (1 ctx bits)
  then show ?case by (subst bd_fill.simps) (simp add: bd_shift_in_at)
qed

lemma bd_fill_currbits:
  "bits \<le> bd_currbits (bd_fill ctx bits) \<and> bd_currbits (bd_fill ctx bits) < max (bd_currbits ctx + 1) (bits + 8)"
proof (induction ctx bits rule: bd_fill.induct)
  case (1 ctx bits)
  then show ?case by (subst (1 2) bd_fill.simps) auto
qed

interpretation bd: bit_source duk_bd_decode bd_at bd_ok
proof
  fix ctx n j i
  assume ok: "bd_ok ctx" "1 \<le> n" "n \<le> (24 :: nat)"
  define c where "c = bd_fill ctx n"
  have d: "duk_bd_decode ctx n = (drop_bit (bd_currbits c - n) (bd_currval c) AND mask n,
      c\<lparr>bd_currbits := bd_currbits c - n\<rparr>)"
    by (simp add: duk_bd_decode_def c_def Let_def mask_eq_exp_minus_1)
  have b: "n \<le> bd_currbits c" "bd_currbits c < n + 8"
    using bd_fill_currbits [of n ctx] ok by (auto simp: c_def bd_ok_def)
  have at: "bd_at c = bd_at ctx" using ok bd_fill_at [of n ctx] by (simp add: c_def)
  show "bd_ok (snd (duk_bd_decode ctx n))" using b by (simp add: d bd_ok_def)
  show "bit (fst (duk_bd_decode ctx n)) j \<longleftrightarrow> j < n \<and> bd_at ctx (n - 1 - j)"
    using b ok by (auto simp: d bit_and_iff bit_mask_iff bit_drop_bit_eq bd_at_def at [symmetric])
  show "bd_at (snd (duk_bd_decode ctx n)) i = bd_at ctx (n + i)"
    using b by (auto simp: d bd_at_def at [symmetric] Let_def add.commute)
qed

subsection \<open>Variable length integers\<close>

text \<open>The encoding \<^verbatim>\<open>duk_bd_decode_varuint\<close> reads, by the ranges its comments give.\<close>

definition varuint_bits :: "u32 \<Rightarrow> bool list" where
  "varuint_bits x =
     (if x = 0 then to_bits 2 (0 :: u32)
      else if x \<le> 4 then to_bits 2 (1 :: u32) @ to_bits 2 (x - 1)
      else if x \<le> 36 then to_bits 2 (2 :: u32) @ to_bits 5 (x - 5)
      else if x \<le> 163 then to_bits 2 (3 :: u32) @ to_bits 7 (x - 37 + 1)
      else to_bits 2 (3 :: u32) @ to_bits 7 (0 :: u32) @ to_bits 20 x)"

lemma take_bit_small: "unat (x :: u32) < 2 ^ n \<Longrightarrow> take_bit n x = x"
  by (simp add: word_unat_eq_iff unsigned_take_bit_eq take_bit_nat_eq_self)

lemma bd_decode_prefix:
  assumes "bd_ok s" "1 \<le> n" "n \<le> 24" "starts (bd_at s) (to_bits n x @ r)" "unat x < 2 ^ n"
  shows "\<exists>s'. duk_bd_decode s n = (x, s') \<and> bd_ok s' \<and> starts (bd_at s') r"
  using bd.get_prefix [OF assms(1-4)] take_bit_small [OF assms(5)] by simp

lemma varuint_decode:
  assumes "bd_ok s" "starts (bd_at s) (varuint_bits x @ r)" "x < 0x100000"
  shows "\<exists>s'. duk_bd_decode_varuint s = (x, s') \<and> bd_ok s' \<and> starts (bd_at s') r"
proof -
  have step: "\<exists>s'. duk_bd_decode s n = (y, s') \<and> bd_ok s' \<and> starts (bd_at s') r'"
    if "bd_ok s" "starts (bd_at s) (to_bits n y @ r')" "unat y < 2 ^ n" "1 \<le> n" "n \<le> 24" for s n y r'
    by (rule bd_decode_prefix [OF that(1,4,5,2,3)])
  consider "x = 0" | "unat x \<noteq> 0" "unat x \<le> 4" | "4 < unat x" "unat x \<le> 36" | "36 < unat x" "unat x \<le> 163"
    | "163 < unat x" "unat x < 1048576"
    using assms(3) by (fastforce simp: word_less_nat_alt word_unat_eq_iff not_le)
  then show ?thesis
  proof cases
    case 1
    with assms step [of s 2 0 r] show ?thesis
      by (auto simp: varuint_bits_def duk_bd_decode_varuint_def)
  next
    case 2
    then have u: "unat (x - 1) < 4" "x - 1 + 1 = x" "x \<noteq> 0" by (auto simp: unat_sub_if_size)
    from assms 2 u step [of s 2 1 "to_bits 2 (x - 1) @ r"] obtain s1 where
      "duk_bd_decode s 2 = (1, s1)" "bd_ok s1" "starts (bd_at s1) (to_bits 2 (x - 1) @ r)"
      by (auto simp: varuint_bits_def word_le_nat_alt)
    with step [of s1 2 "x - 1" r] u show ?thesis by (auto simp: duk_bd_decode_varuint_def)
  next
    case 3
    then have u: "unat (x - 5) < 32" "x - 5 + 5 = x" "x \<noteq> 0" by (auto simp: unat_sub_if_size word_le_nat_alt)
    from assms 3 u step [of s 2 2 "to_bits 5 (x - 5) @ r"] obtain s1 where
      "duk_bd_decode s 2 = (2, s1)" "bd_ok s1" "starts (bd_at s1) (to_bits 5 (x - 5) @ r)"
      by (auto simp: varuint_bits_def word_le_nat_alt)
    with step [of s1 5 "x - 5" r] u show ?thesis by (auto simp: duk_bd_decode_varuint_def)
  next
    case 4
    define y where "y = x - 37 + 1"
    have u: "unat y = unat x - 36" using 4 by (simp add: y_def unat_sub_if_size word_le_nat_alt)
    then have y: "unat y < 128" "y \<noteq> 0" "(y - 1) + 37 = x" "x \<noteq> 0" using 4 by (auto simp: y_def)
    from assms 4 y step [of s 2 3 "to_bits 7 y @ r"] obtain s1 where
      "duk_bd_decode s 2 = (3, s1)" "bd_ok s1" "starts (bd_at s1) (to_bits 7 y @ r)"
      by (auto simp: varuint_bits_def word_le_nat_alt y_def)
    with step [of s1 7 y r] y show ?thesis by (auto simp: duk_bd_decode_varuint_def)
  next
    case 5
    then have "x \<noteq> 0" by auto
    with assms 5 step [of s 2 3 "to_bits 7 0 @ to_bits 20 x @ r"] obtain s1 where
      "duk_bd_decode s 2 = (3, s1)" "bd_ok s1" "starts (bd_at s1) (to_bits 7 (0 :: u32) @ to_bits 20 x @ r)"
      by (auto simp: varuint_bits_def word_le_nat_alt)
    moreover from step [OF this(2,3)] obtain s2 where
      "duk_bd_decode s1 7 = (0, s2)" "bd_ok s2" "starts (bd_at s2) (to_bits 20 x @ r)" by auto
    ultimately show ?thesis using step [of s2 20 x r] 5 by (auto simp: duk_bd_decode_varuint_def)
  qed
qed

subsection \<open>Bit encoder\<close>

record duk_bitencoder_ctx =
  be_data :: "u8 list"
  be_length :: nat
  be_currval :: u32
  be_currbits :: nat
  be_truncated :: bool

text \<open>
  \<open>be_data\<close> holds the bytes written so far, \<^verbatim>\<open>offset\<close> is its length and \<open>be_length\<close> the
  size of the buffer.
\<close>

function be_flush :: "duk_bitencoder_ctx \<Rightarrow> duk_bitencoder_ctx" where
  "be_flush ctx =
     (if be_currbits ctx \<ge> 8 then
        (let ctx = (if length (be_data ctx) < be_length ctx then
                      (let tmp = ucast (drop_bit (be_currbits ctx - 8) (be_currval ctx) AND 0xff)
                       in ctx\<lparr>be_data := be_data ctx @ [tmp]\<rparr>)
                    else ctx\<lparr>be_truncated := True\<rparr>)
         in be_flush (ctx\<lparr>be_currbits := be_currbits ctx - 8\<rparr>))
      else ctx)"
  by pat_completeness auto
termination
  by (relation "measure be_currbits") (auto simp: Let_def)

declare be_flush.simps [simp del]

definition duk_be_encode :: "duk_bitencoder_ctx \<Rightarrow> u32 \<Rightarrow> nat \<Rightarrow> duk_bitencoder_ctx" where
  "duk_be_encode ctx data bits =
     be_flush (ctx\<lparr>be_currval := push_bit bits (be_currval ctx) OR data,
                   be_currbits := be_currbits ctx + bits\<rparr>)"

definition duk_be_finish :: "duk_bitencoder_ctx \<Rightarrow> duk_bitencoder_ctx" where
  "duk_be_finish ctx =
     (let npad = 8 - be_currbits ctx in if npad > 0 then duk_be_encode ctx 0 npad else ctx)"

text \<open>The bits written: those of the bytes and those pending.\<close>

definition be_bits :: "duk_bitencoder_ctx \<Rightarrow> bool list" where
  "be_bits ctx = concat (map (to_bits 8) (be_data ctx)) @ to_bits (be_currbits ctx) (be_currval ctx)"

definition be_room :: "duk_bitencoder_ctx \<Rightarrow> nat" where
  "be_room ctx = 8 * be_length ctx"

definition be_ok :: "duk_bitencoder_ctx \<Rightarrow> bool" where
  "be_ok ctx \<longleftrightarrow> be_currbits ctx < 8 \<and> \<not> be_truncated ctx"

lemma to_bits_split: "to_bits (m + n) x = to_bits m (drop_bit n x) @ to_bits n x"
  by (rule nth_equalityI) (auto simp: nth_append bit_drop_bit_eq add.commute)

lemma to_bits_cong: "(\<And>i. i < n \<Longrightarrow> bit x i = bit y i) \<Longrightarrow> to_bits n x = to_bits n y"
  unfolding to_bits_def by (rule map_cong) auto

lemma to_bits_low_byte: "to_bits 8 (ucast (x AND 0xff :: u32) :: u8) = to_bits 8 x"
  by (rule nth_equalityI) (auto simp add: mask_numerals(7) bit_ucast_iff bit_and_iff bit_mask_iff)

lemma length_concat_bits [simp]: "length (concat (map (to_bits 8) xs)) = 8 * length xs"
  by (induction xs) simp_all

lemma be_flush_bits:
  "length (be_bits ctx) \<le> be_room ctx \<Longrightarrow>
    be_bits (be_flush ctx) = be_bits ctx \<and> be_room (be_flush ctx) = be_room ctx
    \<and> be_currbits (be_flush ctx) < 8 \<and> be_truncated (be_flush ctx) = be_truncated ctx"
proof (induction ctx rule: be_flush.induct)
  case (1 ctx)
  show ?case
  proof (cases "8 \<le> be_currbits ctx")
    case True
    then have l: "length (be_data ctx) < be_length ctx"
      using "1.prems" by (simp add: be_bits_def be_room_def)
    define ctx' where "ctx' = ctx\<lparr>be_data := be_data ctx @ [ucast (drop_bit (be_currbits ctx - 8) (be_currval ctx) AND 0xff)],
       be_currbits := be_currbits ctx - 8\<rparr>"
    have "be_flush ctx = be_flush ctx'"
      using True l by (subst be_flush.simps) (simp add: ctx'_def)
    moreover have "be_bits ctx' = be_bits ctx"
    proof -
      obtain k where k: "be_currbits ctx = 8 + k" using True le_Suc_ex by blast
      show ?thesis unfolding be_bits_def ctx'_def k by (simp add: to_bits_split [of 8 k] to_bits_low_byte)
    qed
    moreover have "be_room ctx' = be_room ctx" "be_truncated ctx' = be_truncated ctx"
      by (simp_all add: ctx'_def be_room_def)
    moreover have "length (be_bits ctx') \<le> be_room ctx' \<Longrightarrow> be_bits (be_flush ctx') = be_bits ctx' \<and> be_room (be_flush ctx') = be_room ctx'
    \<and> be_currbits (be_flush ctx') < 8 \<and> be_truncated (be_flush ctx') = be_truncated ctx'"
      using "1.IH" [OF True, of "ctx\<lparr>be_data := be_data ctx @ [ucast (drop_bit (be_currbits ctx - 8) (be_currval ctx) AND 0xff)]\<rparr>"] l
      by (simp add: ctx'_def)
    ultimately show ?thesis using "1.prems" by simp
  next
    case False
    then show ?thesis by (subst (1 2 3 4) be_flush.simps) simp
  qed
qed

lemma be_encode_bits:
  assumes "be_ok ctx" "1 \<le> n" "n \<le> 24" "take_bit n x = x" "length (be_bits ctx) + n \<le> be_room ctx"
  shows "be_ok (duk_be_encode ctx x n) \<and> be_bits (duk_be_encode ctx x n) = be_bits ctx @ to_bits n x
    \<and> be_room (duk_be_encode ctx x n) = be_room ctx"
proof -
  define ctx' where "ctx' = ctx\<lparr>be_currval := push_bit n (be_currval ctx) OR x, be_currbits := be_currbits ctx + n\<rparr>"
  have x: "bit x i \<Longrightarrow> i < n" for i using assms(4) by (metis bit_take_bit_iff)
  have b: "be_currbits ctx < 8" using assms(1) by (simp add: be_ok_def)
  have "to_bits (be_currbits ctx + n) (push_bit n (be_currval ctx) OR x)
      = to_bits (be_currbits ctx) (be_currval ctx) @ to_bits n x"
    unfolding to_bits_split using b assms(3)
    by (auto intro!: arg_cong2 [where f = append] to_bits_cong simp: bit_simps dest: x)
  then have "be_bits ctx' = be_bits ctx @ to_bits n x" by (simp add: be_bits_def ctx'_def)
  moreover have "be_room ctx' = be_room ctx" "be_truncated ctx' = be_truncated ctx" by (simp_all add: ctx'_def be_room_def)
  ultimately show ?thesis
    using be_flush_bits [of ctx'] assms(1,5) by (simp add: duk_be_encode_def be_ok_def flip: ctx'_def)
qed

interpretation be: bit_sink duk_be_encode be_bits be_room be_ok
  by unfold_locales (rule be_encode_bits)

interpretation bp: bit_pipe duk_be_encode be_bits be_room be_ok duk_bd_decode bd_at bd_ok
  by unfold_locales

text \<open>Finishing pads to a whole number of bytes; a decoder over those bytes sees the bits.\<close>

lemma be_finish_bits:
  assumes "be_ok ctx" "length (be_bits ctx) div 8 < be_length ctx"
  shows "be_ok (duk_be_finish ctx) \<and> be_currbits (duk_be_finish ctx) = 0
    \<and> 8 * length (be_data (duk_be_finish ctx)) = 8 * (length (be_bits ctx) div 8 + 1)
    \<and> (\<exists>pad. concat (map (to_bits 8) (be_data (duk_be_finish ctx))) = be_bits ctx @ pad)"
proof -
  let ?n = "8 - be_currbits ctx"
  have b: "be_currbits ctx < 8" using assms(1) by (simp add: be_ok_def)
  have l: "length (be_bits ctx) = 8 * length (be_data ctx) + be_currbits ctx" by (simp add: be_bits_def)
  then have d: "length (be_bits ctx) div 8 = length (be_data ctx)" using b by simp
  have e: "be_ok (duk_be_encode ctx 0 ?n) \<and> be_bits (duk_be_encode ctx 0 ?n) = be_bits ctx @ to_bits ?n (0 :: u32)
     \<and> be_room (duk_be_encode ctx 0 ?n) = be_room ctx"
    by (rule be_encode_bits) (use assms b l d in \<open>simp_all add: be_room_def\<close>)
  define f where "f = duk_be_encode ctx 0 ?n"
  have f: "duk_be_finish ctx = f" using b by (simp add: duk_be_finish_def f_def)
  have "length (be_bits f) = 8 * (length (be_data ctx) + 1)" using e b l by (simp flip: f_def)
  moreover have "length (be_bits f) = 8 * length (be_data f) + be_currbits f" by (simp add: be_bits_def)
  moreover have "be_currbits f < 8" using e by (simp add: be_ok_def flip: f_def)
  ultimately have z: "be_currbits f = 0" "length (be_data f) = length (be_data ctx) + 1"
    by presburger+
  then have "concat (map (to_bits 8) (be_data f)) = be_bits f" by (simp add: be_bits_def to_bits_def)
  then show ?thesis using e z d by (auto simp: f simp flip: f_def)
qed

definition bd_init :: "u8 list \<Rightarrow> duk_bitdecoder_ctx" where
  "bd_init data = \<lparr>bd_data = data, bd_offset = 0, bd_currval = 0, bd_currbits = 0\<rparr>"

definition be_init :: "nat \<Rightarrow> duk_bitencoder_ctx" where
  "be_init n = \<lparr>be_data = [], be_length = n, be_currval = 0, be_currbits = 0, be_truncated = False\<rparr>"

lemma init_simps [simp]:
  "bd_ok (bd_init data)" "be_ok (be_init n)" "be_bits (be_init n) = []" "be_room (be_init n) = 8 * n"
  "be_length (be_init n) = n"
  by (simp_all add: bd_ok_def bd_init_def be_ok_def be_init_def be_bits_def be_room_def to_bits_def)

lemma be_room_length: "be_room ctx = be_room ctx' \<longleftrightarrow> be_length ctx = be_length ctx'"
  by (simp add: be_room_def)

lemma concat_bits_nth:
  "i < 8 * length ds \<Longrightarrow> concat (map (to_bits 8) ds) ! i = bit (ds ! (i div 8)) (7 - i mod 8)"
proof (induction ds arbitrary: i)
  case (Cons d ds)
  show ?case
  proof (cases "i < 8")
    case False
    then obtain j where j: "i = 8 + j" using le_Suc_ex not_less by blast
    have "(8 + j) div 8 = Suc (j div 8)" by simp
    with j Cons show ?thesis by (simp add: nth_append)
  qed (simp add: nth_append)
qed simp

lemma bd_init_starts: "starts (bd_at (bd_init (ds @ rest))) (concat (map (to_bits 8) ds))"
proof -
  have "i div 8 < length ds" if "i < 8 * length ds" for i
    using that by (simp add: less_mult_imp_div_less mult.commute)
  then show ?thesis
    by (auto simp: starts_def bd_at_def bd_init_def concat_bits_nth nth_append Let_def)
qed

lemma length_concat_items: "length (concat (map (\<lambda>(x, n). to_bits n x) items)) = sum_list (map snd items)"
  by (induction items) auto

lemma starts_prefix: "starts f (xs @ ys) \<Longrightarrow> starts f xs"
  by (simp add: starts_append)

subsection \<open>Properties\<close>

text \<open>
  C29: the values written by any sequence of \<^verbatim>\<open>duk_be_encode\<close> calls which fit the buffer,
  followed by \<^verbatim>\<open>duk_be_finish\<close>, are read back by \<^verbatim>\<open>duk_bd_decode\<close> with the same widths,
  and nothing is truncated.
\<close>

theorem bitstream_roundtrip:
  assumes "list_all (\<lambda>(x, n). 1 \<le> n \<and> n \<le> 24 \<and> take_bit n x = x) items"
    and "sum_list (map snd items) div 8 < len"
  shows "let ctx = duk_be_finish (foldl (\<lambda>e (x, n). duk_be_encode e x n) (be_init len) items)
    in \<not> be_truncated ctx \<and> get_widths duk_bd_decode (bd_init (be_data ctx)) (map snd items) = map fst items"
proof -
  let ?e = "foldl (\<lambda>e (x, n). duk_be_encode e x n) (be_init len) items"
  have r: "sum_list (map snd items) \<le> be_room (be_init len)"
    using assms(2) by simp
  have e: "be_ok ?e \<and> be_bits ?e = concat (map (\<lambda>(x, n). to_bits n x) items) \<and> be_room ?e = be_room (be_init len)"
    using be.put_items [OF init_simps(2) assms(1)] r by (simp only: init_simps) simp
  have f: "be_ok (duk_be_finish ?e)" "\<exists>pad. concat (map (to_bits 8) (be_data (duk_be_finish ?e))) = be_bits ?e @ pad"
    using be_finish_bits [of ?e] e assms(2) length_concat_items [of items]
    by (simp_all only: be_room_length) (simp_all add: e)
  have "starts (bd_at (bd_init (be_data (duk_be_finish ?e)))) (be_bits ?e)"
    using bd_init_starts [of "be_data (duk_be_finish ?e)" "[]"] f(2) starts_prefix by auto
  then show ?thesis
    using bp.get_put [OF init_simps(2,3) assms(1) r init_simps(1)] f(1) by (simp add: be_ok_def Let_def)
qed

theorem bitstream_roundtrip_witness:
  "let ctx = duk_be_finish (foldl (\<lambda>e (x, n). duk_be_encode e x n) (be_init 2) [(5, 3), (0x7f, 11)])
    in \<not> be_truncated ctx \<and> get_widths duk_bd_decode (bd_init (be_data ctx)) (map snd [(5 :: u32, 3), (0x7f, 11)]) = map fst [(5, 3), (0x7f, 11 :: nat)]"
  by (rule bitstream_roundtrip) (simp_all add: take_bit_small)

text \<open>
  \<^verbatim>\<open>duk_bd_decode_varuint\<close> decodes, at any position of a stream, every value below
  \<open>2 ^ 20\<close> from its variable length encoding and consumes exactly that.
\<close>

lemma varuint_roundtrip:
  assumes "x < 0x100000" "bd_ok s" "starts (bd_at s) (varuint_bits x @ r)"
  shows "\<exists>s'. duk_bd_decode_varuint s = (x, s') \<and> bd_ok s' \<and> starts (bd_at s') r"
  by (rule varuint_decode [OF assms(2,3,1)])

lemma varuint_roundtrip_witness:
  "\<exists>s'. duk_bd_decode_varuint (bd_init [0x60]) = (3, s') \<and> bd_ok s' \<and> starts (bd_at s') [False, False, False, False]"
proof (rule varuint_roundtrip)
  have "concat (map (to_bits 8) [0x60 :: u8]) = varuint_bits 3 @ [False, False, False, False]"
    by (simp add: varuint_bits_def to_bits_def upt_conv_Cons)
  then show "starts (bd_at (bd_init [0x60])) (varuint_bits 3 @ [False, False, False, False])"
    using bd_init_starts [of "[0x60]" "[]"] by simp
qed simp_all

text \<open>
  a bit packed string has at most 255 characters, so the output buffer of
  \<^verbatim>\<open>DUK_BD_BITPACKED_STRING_MAXLEN\<close> bytes of the callers cannot be overrun, whatever the
  input.
\<close>

lemma bitpacked_string_fits:
  assumes "bd_ok bd"
  shows "case duk_bd_decode_bitpacked_string bd of (len, out, bd') \<Rightarrow>
    length out = len \<and> len < DUK_BD_BITPACKED_STRING_MAXLEN"
proof -
  have len: "length (fst (bitpacked_chars n b mode)) = n" for n b mode
  proof (induction n arbitrary: b mode)
    case (Suc n)
    obtain c b1 m1 where "bitpacked_char b mode = (c, b1, m1)" by (cases "bitpacked_char b mode") auto
    with Suc [of b1 m1] show ?case by (cases "bitpacked_chars n b1 m1") simp
  qed simp
  have small: "unat (fst (duk_bd_decode b n)) < 2 ^ n" if "bd_ok b" "1 \<le> n" "n \<le> 24" for b n
  proof -
    have "take_bit n (fst (duk_bd_decode b n)) = fst (duk_bd_decode b n)"
      by (rule bit_word_eqI) (auto simp: bit_take_bit_iff bd.get_bit [OF that])
    then show ?thesis by (metis take_bit_nat_less_exp unsigned_take_bit_eq)
  qed
  obtain l b where d: "duk_bd_decode bd 5 = (l, b)" by force
  have b: "bd_ok b" "unat l < 32" using bd.get_ok [OF assms, of 5] small [OF assms, of 5] d by simp_all
  have "unat (fst (duk_bd_decode b 8)) < 256" using small [OF b(1), of 8] by simp
  then show ?thesis
    using len b(2) by (auto simp: duk_bd_decode_bitpacked_string_def d DUK_BD_BITPACKED_STRING_MAXLEN_def
        Let_def split: prod.splits) (metis fst_conv)+
qed

lemma bitpacked_string_fits_witness:
  "case duk_bd_decode_bitpacked_string (bd_init [0x10, 0x44]) of (len, out, bd') \<Rightarrow>
    length out = len \<and> len < DUK_BD_BITPACKED_STRING_MAXLEN"
  by (rule bitpacked_string_fits) simp

end
