(* ===== verification/Pc2line.thy ===== *)
theory Pc2line
  imports Bitstream
begin

text \<open>
  \<^verbatim>\<open>duk_hobject_pc2line.c\<close>: packing the line number of every instruction into a buffer
  with an index of 64-instruction runs and bit packed differences, and looking a program
  counter up in it.  The buffer is a list of bytes; the header words are stored little
  endian.  \<^verbatim>\<open>duk_int_fast32_t\<close> is 64 bits wide on the modelled platform, so the line
  arithmetic of the packer, on 32-bit values, is that of the integers.
\<close>

subsection \<open>Buffer access\<close>

definition write_u32 :: "u8 list \<Rightarrow> nat \<Rightarrow> u32 \<Rightarrow> u8 list" where
  "write_u32 buf off v = blit buf off [ucast v, ucast (drop_bit 8 v), ucast (drop_bit 16 v), ucast (drop_bit 24 v)]"

definition read_u32 :: "u8 list \<Rightarrow> nat \<Rightarrow> u32" where
  "read_u32 buf off = le32 (buf ! off) (buf ! (off + 1)) (buf ! (off + 2)) (buf ! (off + 3))"

text \<open>\<^verbatim>\<open>duk_hbuffer_resize\<close>: the common prefix is kept, new bytes are zero.\<close>

definition duk_hbuffer_resize :: "u8 list \<Rightarrow> nat \<Rightarrow> u8 list" where
  "duk_hbuffer_resize buf new_size = take new_size buf @ replicate (new_size - length buf) 0"

lemma length_resize [simp]: "length (duk_hbuffer_resize buf n) = n"
  by (simp add: duk_hbuffer_resize_def)

lemma nth_resize: "i < length buf \<Longrightarrow> i < n \<Longrightarrow> duk_hbuffer_resize buf n ! i = buf ! i"
  by (simp add: duk_hbuffer_resize_def nth_append)

lemma read_write_u32:
  assumes "off + 4 \<le> length buf"
  shows "read_u32 (write_u32 buf off v) off = v"
proof -
  have "le32 (ucast v) (ucast (drop_bit 8 v)) (ucast (drop_bit 16 v)) (ucast (drop_bit 24 v)) = v"
    by (rule bit_word_eqI) (auto simp: bit_le32 bit_ucast_iff bit_drop_bit_eq)
  then show ?thesis
    using assms by (simp add: read_u32_def write_u32_def nth_blit)
qed

lemma read_u32_cong:
  "(\<And>i. off \<le> i \<Longrightarrow> i < off + 4 \<Longrightarrow> a ! i = b ! i) \<Longrightarrow> read_u32 a off = read_u32 b off"
  by (simp add: read_u32_def)

subsection \<open>Packing\<close>

record duk_compiler_instr =
  ci_ins :: u32
  ci_line :: u32

definition DUK_PC2LINE_SKIP :: nat where
  "DUK_PC2LINE_SKIP = 64"

definition DUK_PC2LINE_MAX_DIFF_LENGTH :: nat where
  "DUK_PC2LINE_MAX_DIFF_LENGTH = ((DUK_PC2LINE_SKIP - 1) * 35 + 7) div 8"

definition DUK_COMPILER_MAX_BYTECODE_LENGTH :: nat where
  "DUK_COMPILER_MAX_BYTECODE_LENGTH = 256 * 1024 * 1024"

text \<open>Encoding of one line difference.\<close>

definition pc2line_put_diff :: "duk_bitencoder_ctx \<Rightarrow> int \<Rightarrow> int \<Rightarrow> duk_bitencoder_ctx" where
  "pc2line_put_diff be curr_line next_line =
     (let diff_line = next_line - curr_line
      in if diff_line = 0 then duk_be_encode be 0 1
         else if diff_line \<ge> 1 \<and> diff_line \<le> 4 then
           duk_be_encode be (word_of_int (push_bit 2 0x02 + (diff_line - 1))) 4
         else if diff_line \<ge> - 0x80 \<and> diff_line \<le> 0x7f then
           duk_be_encode be (word_of_int (push_bit 8 0x06 + (diff_line + 0x80))) 11
         else
           duk_be_encode
             (duk_be_encode be (word_of_int (push_bit 16 0x07 + (drop_bit 16 next_line AND 0xffff))) 19)
             (word_of_int (next_line AND 0xffff)) 16)"

text \<open>The inner loop: one run of differences.\<close>

function pc2line_run :: "duk_compiler_instr list \<Rightarrow> nat \<Rightarrow> int \<Rightarrow> duk_bitencoder_ctx \<Rightarrow> nat \<times> duk_bitencoder_ctx" where
  "pc2line_run instrs curr_pc curr_line be =
     (let curr_pc = curr_pc + 1
      in if curr_pc mod DUK_PC2LINE_SKIP = 0 \<or> curr_pc \<ge> length instrs then (curr_pc, be)
         else (let next_line = sint (ci_line (instrs ! curr_pc))
               in pc2line_run instrs curr_pc next_line (pc2line_put_diff be curr_line next_line)))"
  by pat_completeness auto
termination
  by (relation "measure (\<lambda>(instrs, curr_pc, curr_line, be). length instrs - curr_pc)") auto

declare pc2line_run.simps [simp del]

lemma pc2line_run_pc:
  "pc2line_run instrs pc l be = (pc', be') \<Longrightarrow> pc < pc'"
proof (induction instrs pc l be rule: pc2line_run.induct)
  case (1 instrs pc l be)
  show ?case
    using "1.prems" "1.IH" [OF refl _ refl]
    by (subst (asm) pc2line_run.simps) (auto simp: Let_def split: if_splits dest: Suc_lessD)
qed

text \<open>The outer loop, over the runs.\<close>

function pc2line_outer :: "duk_compiler_instr list \<Rightarrow> nat \<Rightarrow> nat \<Rightarrow> u8 list \<Rightarrow> nat \<times> u8 list" where
  "pc2line_outer instrs curr_pc curr_offset buf =
     (if curr_pc < length instrs then
        (let buf = duk_hbuffer_resize buf (curr_offset + DUK_PC2LINE_MAX_DIFF_LENGTH);
             hdr_index = 1 + (curr_pc div DUK_PC2LINE_SKIP) * 2;
             curr_line = ci_line (instrs ! curr_pc);
             buf = write_u32 buf (4 * hdr_index) curr_line;
             buf = write_u32 buf (4 * (hdr_index + 1)) (of_nat curr_offset);
             (curr_pc, be) = pc2line_run instrs curr_pc (uint curr_line) (be_init DUK_PC2LINE_MAX_DIFF_LENGTH);
             be = duk_be_finish be;
             buf = blit buf curr_offset (be_data be)
         in pc2line_outer instrs curr_pc (curr_offset + length (be_data be)) buf)
      else (curr_offset, buf))"
  by pat_completeness auto
termination
  by (relation "measure (\<lambda>(instrs, curr_pc, curr_offset, buf). length instrs - curr_pc)")
    (auto dest: pc2line_run_pc [OF sym])

declare pc2line_outer.simps [simp del]

definition duk_hobject_pc2line_pack :: "duk_compiler_instr list \<Rightarrow> u8 list" where
  "duk_hobject_pc2line_pack instrs =
     (let num_header_entries = (length instrs + DUK_PC2LINE_SKIP - 1) div DUK_PC2LINE_SKIP;
          curr_offset = 4 + num_header_entries * 4 * 2;
          buf = replicate curr_offset 0;
          buf = write_u32 buf 0 (of_nat (length instrs));
          (curr_offset, buf) = pc2line_outer instrs 0 curr_offset buf
      in duk_hbuffer_resize buf curr_offset)"

subsection \<open>Lookup\<close>

text \<open>One turn of the lookup loop; \<open>curr_line\<close> is a \<^verbatim>\<open>duk_uint_fast32_t\<close>.\<close>

definition pc2line_get_diff :: "duk_bitdecoder_ctx \<Rightarrow> u64 \<Rightarrow> u64 \<times> duk_bitdecoder_ctx" where
  "pc2line_get_diff bd curr_line =
     (let (f, bd) = duk_bd_decode_flag bd
      in if f \<noteq> 0 then
           (let (f, bd) = duk_bd_decode_flag bd
            in if f \<noteq> 0 then
                 (let (f, bd) = duk_bd_decode_flag bd
                  in if f \<noteq> 0 then
                       (let (t, bd) = duk_bd_decode bd 16;
                            (u, bd) = duk_bd_decode bd 16
                        in (push_bit 16 (ucast t) + ucast u, bd))
                     else (let (t, bd) = duk_bd_decode bd 8 in (curr_line + ucast t - 0x80, bd)))
               else (let (t, bd) = duk_bd_decode bd 2 in (curr_line + ucast t + 1, bd)))
         else (curr_line, bd))"

fun pc2line_seek :: "nat \<Rightarrow> duk_bitdecoder_ctx \<Rightarrow> u64 \<Rightarrow> u64" where
  "pc2line_seek 0 bd curr_line = curr_line"
| "pc2line_seek (Suc n) bd curr_line =
     (let (curr_line, bd) = pc2line_get_diff bd curr_line in pc2line_seek n bd curr_line)"

definition duk__hobject_pc2line_query_raw :: "u8 list \<Rightarrow> nat \<Rightarrow> u64" where
  "duk__hobject_pc2line_query_raw buf pc =
     (let hdr_index = pc div DUK_PC2LINE_SKIP;
          pc_base = hdr_index * DUK_PC2LINE_SKIP;
          n = pc - pc_base
      in if length buf \<le> 4 then 0
         else if pc \<ge> unat (read_u32 buf 0) then 0
         else
           (let curr_line = ucast (read_u32 buf (4 * (1 + hdr_index * 2)));
                start_offset = unat (read_u32 buf (4 * (1 + hdr_index * 2 + 1)))
            in if start_offset > length buf then 0
               else pc2line_seek n (bd_init (drop start_offset buf)) curr_line))"

definition duk_hobject_pc2line_query :: "u8 list option \<Rightarrow> nat \<Rightarrow> u64" where
  "duk_hobject_pc2line_query pc2line pc =
     (case pc2line of Some buf \<Rightarrow> duk__hobject_pc2line_query_raw buf pc | None \<Rightarrow> 0)"

subsection \<open>One difference\<close>

definition line_of :: "duk_compiler_instr list \<Rightarrow> nat \<Rightarrow> int" where
  "line_of instrs i = uint (ci_line (instrs ! i))"

text \<open>What the packer puts for a step from one line to the next, as (value, width) items.\<close>

definition diff_items :: "int \<Rightarrow> int \<Rightarrow> (u32 \<times> nat) list" where
  "diff_items curr_line next_line =
     (let diff_line = next_line - curr_line
      in if diff_line = 0 then [(0, 1)]
         else if diff_line \<ge> 1 \<and> diff_line \<le> 4 then [(word_of_int (push_bit 2 0x02 + (diff_line - 1)), 4)]
         else if diff_line \<ge> - 0x80 \<and> diff_line \<le> 0x7f then
           [(word_of_int (push_bit 8 0x06 + (diff_line + 0x80)), 11)]
         else [(word_of_int (push_bit 16 0x07 + (drop_bit 16 next_line AND 0xffff)), 19),
               (word_of_int (next_line AND 0xffff), 16)])"

abbreviation put_all :: "duk_bitencoder_ctx \<Rightarrow> (u32 \<times> nat) list \<Rightarrow> duk_bitencoder_ctx" where
  "put_all \<equiv> foldl (\<lambda>e (x, n). duk_be_encode e x n)"

abbreviation items_ok :: "(u32 \<times> nat) list \<Rightarrow> bool" where
  "items_ok \<equiv> list_all (\<lambda>(x, n). 1 \<le> n \<and> n \<le> 24 \<and> take_bit n x = x)"

definition diff_bits :: "int \<Rightarrow> int \<Rightarrow> bool list" where
  "diff_bits a b = concat (map (\<lambda>(x, n). to_bits n x) (diff_items a b))"

lemma put_diff_items: "pc2line_put_diff be a b = put_all be (diff_items a b)"
  by (simp add: pc2line_put_diff_def diff_items_def Let_def)

text \<open>The difference cases with natural number parameters.\<close>

lemma diff_cases:
  assumes "0 \<le> a" "a < 2 ^ 31" "0 \<le> b" "b < 2 ^ 31"
  obtains "b = a" "diff_items a b = [(0, 1)]"
    | t where "t < 4" "b = a + int t + 1" "diff_items a b = [(of_nat (2 * 2 ^ 2 + t), 4)]"
    | t where "t < 256" "b = a + int t - 0x80" "diff_items a b = [(of_nat (6 * 2 ^ 8 + t), 11)]"
    | h l where "h < 65536" "l < 65536" "b = int h * 65536 + int l"
        "diff_items a b = [(of_nat (7 * 2 ^ 16 + h), 19), (of_nat l, 16)]"
proof -
  have and16: "x AND 0xffff = x mod 65536" for x :: int
    using take_bit_eq_mask [of 16 x] by (simp add: take_bit_eq_mod mask_eq_exp_minus_1)
  consider "b - a = 0" | "1 \<le> b - a" "b - a \<le> 4" | "b - a \<noteq> 0" "\<not> (1 \<le> b - a \<and> b - a \<le> 4)" "-128 \<le> b - a" "b - a \<le> 127"
    | "b - a \<noteq> 0" "\<not> (1 \<le> b - a \<and> b - a \<le> 4)" "\<not> (-128 \<le> b - a \<and> b - a \<le> 127)" by linarith
  then show thesis
  proof cases
    case 1 then show ?thesis using that(1) by (simp add: diff_items_def)
  next
    case 2
    define t where "t = nat (b - a - 1)"
    have "b - a - 1 = int t" "t < 4" using 2 by (simp_all add: t_def)
    with 2 show ?thesis by (intro that(2) [of t]) (simp_all add: diff_items_def Let_def)
  next
    case 3
    define t where "t = nat (b - a + 128)"
    have "b - a + 128 = int t" "t < 256" using 3 by (simp_all add: t_def)
    with 3 show ?thesis by (intro that(3) [of t]) (simp_all add: diff_items_def Let_def)
  next
    case 4
    define n where "n = nat b"
    have n: "b = int n" "n < 2147483648" using assms by (simp_all add: n_def)
    have k: "n div 65536 < 65536" using n(2) by (simp add: less_mult_imp_div_less)
    have "drop_bit 16 b = int (n div 65536)" by (simp add: n(1) drop_bit_eq_div zdiv_int)
    with k have "drop_bit 16 b AND 0xffff = int (n div 65536)" by (simp add: and16)
    moreover have "b AND 0xffff = int (n mod 65536)" by (simp add: and16 n(1) zmod_int)
    moreover have "b = int (n div 65536) * 65536 + int (n mod 65536)"
      using arg_cong [OF div_mult_mod_eq [of n 65536, symmetric], of int]
      by (simp only: n(1) of_nat_add of_nat_mult of_nat_numeral)
    ultimately show ?thesis using 4 k
      by (intro that(4) [of "n div 65536" "n mod 65536"]) (simp_all add: diff_items_def Let_def)
  qed
qed

lemma take_bit_nat_word: "k < 2 ^ n \<Longrightarrow> n \<le> 31 \<Longrightarrow> take_bit n (of_nat k :: u32) = of_nat k"
proof (rule take_bit_small)
  assume "k < 2 ^ n" "n \<le> 31"
  moreover have "(2 :: nat) ^ n \<le> 2 ^ 31" using \<open>n \<le> 31\<close> by (intro power_increasing) simp_all
  ultimately show "unat (of_nat k :: u32) < 2 ^ n" by (simp add: unat_of_nat)
qed

lemma diff_items_ok:
  assumes "0 \<le> a" "a < 2 ^ 31" "0 \<le> b" "b < 2 ^ 31"
  shows "items_ok (diff_items a b) \<and> sum_list (map snd (diff_items a b)) \<le> 35"
  by (rule diff_cases [OF assms]) (simp_all add: take_bit_nat_word del: of_nat_add of_nat_mult of_nat_numeral)

lemma to_bits_of_nat:
  assumes "k < 2 ^ m" "t < 2 ^ n" "m + n \<le> 31"
  shows "to_bits (m + n) (of_nat (k * 2 ^ n + t) :: u32) = to_bits m (of_nat k :: u32) @ to_bits n (of_nat t :: u32)"
proof -
  have "k * 2 ^ n + t < 2 ^ (m + n)"
  proof -
    have "k * 2 ^ n + t < (k + 1) * 2 ^ n" using assms(2) by simp
    also have "\<dots> \<le> 2 ^ m * 2 ^ n" using assms(1) by (intro mult_le_mono1) simp
    finally show ?thesis by (simp add: power_add)
  qed
  moreover have "(2 :: nat) ^ (m + n) \<le> 2 ^ 31" using assms(3) by (intro power_increasing) simp_all
  ultimately have l: "k * 2 ^ n + t < 2 ^ 31" by (rule less_le_trans)
  have small: "k \<le> k * 2 ^ n + t" by (simp add: trans_le_add1)
  have u: "unat (of_nat x :: u32) = x" if "x < 2 ^ 31" for x using that by (simp add: unat_of_nat)
  have "drop_bit n (of_nat (k * 2 ^ n + t) :: u32) = of_nat k"
    using u [OF l] u [OF le_less_trans [OF small l]] assms(2)
    by (simp only: word_unat_eq_iff unat_drop_bit) simp
  moreover have "take_bit n (of_nat (k * 2 ^ n + t) :: u32) = take_bit n (of_nat t)"
    by (simp only: take_bit_of_nat) (simp add: take_bit_eq_mod)
  then have "to_bits n (of_nat (k * 2 ^ n + t) :: u32) = to_bits n (of_nat t :: u32)"
    by (intro to_bits_cong) (metis bit_take_bit_iff)
  ultimately show ?thesis by (simp only: to_bits_split)
qed

lemma bd_decode_nat:
  assumes "bd_ok s" "1 \<le> n" "n \<le> 24" "starts (bd_at s) (to_bits n (of_nat t :: u32) @ r)" "t < 2 ^ n"
  shows "\<exists>s'. duk_bd_decode s n = (of_nat t, s') \<and> bd_ok s' \<and> starts (bd_at s') r"
  using bd.get_prefix [OF assms(1-4)] take_bit_nat_word [OF assms(5)] assms(3) by simp

lemma bd_decode_flag_bit:
  assumes "bd_ok s" "starts (bd_at s) (b # r)"
  shows "\<exists>s'. duk_bd_decode_flag s = (of_bool b, s') \<and> bd_ok s' \<and> starts (bd_at s') r"
proof -
  have "to_bits 1 (of_nat (of_bool b) :: u32) = [b]" by (simp add: to_bits_def)
  with assms show ?thesis
    using bd_decode_nat [of s 1 "of_bool b" r] by (simp add: duk_bd_decode_flag_def)
qed

lemma to_bits_consts:
  "to_bits 2 (of_nat 2 :: u32) = [True, False]" "to_bits 3 (of_nat 6 :: u32) = [True, True, False]"
  "to_bits 3 (of_nat 7 :: u32) = [True, True, True]" "to_bits 1 (0 :: u32) = [False]"
  by (simp_all add: to_bits_def upt_conv_Cons)

lemma pc2line_get_diff:
  assumes ok: "bd_ok s" and st: "starts (bd_at s) (diff_bits a b @ r)"
    and ab: "0 \<le> a" "a < 2 ^ 31" "0 \<le> b" "b < 2 ^ 31"
  shows "\<exists>s'. pc2line_get_diff s (of_int a) = (of_int b, s') \<and> bd_ok s' \<and> starts (bd_at s') r"
proof (rule diff_cases [OF ab])
  assume "b = a" "diff_items a b = [(0, 1)]"
  with st have "starts (bd_at s) (False # r)" by (simp add: diff_bits_def to_bits_def)
  from bd_decode_flag_bit [OF ok this] \<open>b = a\<close> show ?thesis by (auto simp: pc2line_get_diff_def)
next
  fix t :: nat
  assume t: "t < 4" "b = a + int t + 1" "diff_items a b = [(of_nat (2 * 2 ^ 2 + t), 4)]"
  have "to_bits 4 (of_nat (2 * 2 ^ 2 + t) :: u32) = [True, False] @ to_bits 2 (of_nat t :: u32)"
    using to_bits_of_nat [of 2 2 t 2] t(1) unfolding to_bits_consts by simp
  then have "starts (bd_at s) (True # False # to_bits 2 (of_nat t :: u32) @ r)"
    using st unfolding diff_bits_def t(3) by simp
  from bd_decode_flag_bit [OF ok this] obtain s1 where
    1: "duk_bd_decode_flag s = (1, s1)" "bd_ok s1" "starts (bd_at s1) (False # to_bits 2 (of_nat t :: u32) @ r)" by auto
  from bd_decode_flag_bit [OF 1(2,3)] obtain s2 where
    2: "duk_bd_decode_flag s1 = (0, s2)" "bd_ok s2" "starts (bd_at s2) (to_bits 2 (of_nat t :: u32) @ r)" by auto
  from bd_decode_nat [OF 2(2) _ _ 2(3)] t(1) obtain s3 where
    3: "duk_bd_decode s2 2 = (of_nat t, s3)" "bd_ok s3" "starts (bd_at s3) r" by auto
  have "(ucast (of_nat t :: u32) :: u64) = of_nat t" using t(1) by (simp add: word_unat_eq_iff unat_ucast_mod unat_of_nat)
  then show ?thesis using 1 2 3 t(2) by (simp add: pc2line_get_diff_def)
next
  fix t :: nat
  assume t: "t < 256" "b = a + int t - 0x80" "diff_items a b = [(of_nat (6 * 2 ^ 8 + t), 11)]"
  have "to_bits 11 (of_nat (6 * 2 ^ 8 + t) :: u32) = [True, True, False] @ to_bits 8 (of_nat t :: u32)"
    using to_bits_of_nat [of 6 3 t 8] t(1) unfolding to_bits_consts by simp
  then have "starts (bd_at s) (True # True # False # to_bits 8 (of_nat t :: u32) @ r)"
    using st unfolding diff_bits_def t(3) by simp
  from bd_decode_flag_bit [OF ok this] obtain s1 where
    1: "duk_bd_decode_flag s = (1, s1)" "bd_ok s1" "starts (bd_at s1) (True # False # to_bits 8 (of_nat t :: u32) @ r)" by auto
  from bd_decode_flag_bit [OF 1(2,3)] obtain s2 where
    2: "duk_bd_decode_flag s1 = (1, s2)" "bd_ok s2" "starts (bd_at s2) (False # to_bits 8 (of_nat t :: u32) @ r)" by auto
  from bd_decode_flag_bit [OF 2(2,3)] obtain s3 where
    3: "duk_bd_decode_flag s2 = (0, s3)" "bd_ok s3" "starts (bd_at s3) (to_bits 8 (of_nat t :: u32) @ r)" by auto
  from bd_decode_nat [OF 3(2) _ _ 3(3)] t(1) obtain s4 where
    4: "duk_bd_decode s3 8 = (of_nat t, s4)" "bd_ok s4" "starts (bd_at s4) r" by auto
  have "(ucast (of_nat t :: u32) :: u64) = of_nat t" using t(1) by (simp add: word_unat_eq_iff unat_ucast_mod unat_of_nat)
  then show ?thesis using 1 2 3 4 t(2) by (simp add: pc2line_get_diff_def)
next
  fix h l :: nat
  assume t: "h < 65536" "l < 65536" "b = int h * 65536 + int l"
    "diff_items a b = [(of_nat (7 * 2 ^ 16 + h), 19), (of_nat l, 16)]"
  have "to_bits 19 (of_nat (7 * 2 ^ 16 + h) :: u32) = [True, True, True] @ to_bits 16 (of_nat h :: u32)"
    using to_bits_of_nat [of 7 3 h 16] t(1) unfolding to_bits_consts by simp
  then have "starts (bd_at s) (True # True # True # to_bits 16 (of_nat h :: u32) @ to_bits 16 (of_nat l :: u32) @ r)"
    using st unfolding diff_bits_def t(4) by simp
  from bd_decode_flag_bit [OF ok this] obtain s1 where
    1: "duk_bd_decode_flag s = (1, s1)" "bd_ok s1" "starts (bd_at s1) (True # True # to_bits 16 (of_nat h :: u32) @ to_bits 16 (of_nat l :: u32) @ r)" by auto
  from bd_decode_flag_bit [OF 1(2,3)] obtain s2 where
    2: "duk_bd_decode_flag s1 = (1, s2)" "bd_ok s2" "starts (bd_at s2) (True # to_bits 16 (of_nat h :: u32) @ to_bits 16 (of_nat l :: u32) @ r)" by auto
  from bd_decode_flag_bit [OF 2(2,3)] obtain s3 where
    3: "duk_bd_decode_flag s2 = (1, s3)" "bd_ok s3" "starts (bd_at s3) (to_bits 16 (of_nat h :: u32) @ to_bits 16 (of_nat l :: u32) @ r)" by auto
  from bd_decode_nat [OF 3(2) _ _ 3(3)] t(1) obtain s4 where
    4: "duk_bd_decode s3 16 = (of_nat h, s4)" "bd_ok s4" "starts (bd_at s4) (to_bits 16 (of_nat l :: u32) @ r)" by auto
  from bd_decode_nat [OF 4(2) _ _ 4(3)] t(2) obtain s5 where
    5: "duk_bd_decode s4 16 = (of_nat l, s5)" "bd_ok s5" "starts (bd_at s5) r" by auto
  have "(ucast (of_nat h :: u32) :: u64) = of_nat h" "(ucast (of_nat l :: u32) :: u64) = of_nat l"
    using t(1,2) by (simp_all add: word_unat_eq_iff unat_ucast_mod unat_of_nat)
  then show ?thesis using 1 2 3 4 5 t(3) by (simp add: pc2line_get_diff_def push_bit_eq_mult)
qed

subsection \<open>One run\<close>

definition run_bits :: "duk_compiler_instr list \<Rightarrow> nat \<Rightarrow> nat \<Rightarrow> bool list" where
  "run_bits instrs a b = concat (map (\<lambda>i. diff_bits (line_of instrs i) (line_of instrs (i + 1))) [a..<b - 1])"

definition lines_ok :: "duk_compiler_instr list \<Rightarrow> bool" where
  "lines_ok instrs \<longleftrightarrow> list_all (\<lambda>i. unat (ci_line i) < 2 ^ 31) instrs"

lemma line_range: "lines_ok instrs \<Longrightarrow> i < length instrs \<Longrightarrow> 0 \<le> line_of instrs i \<and> line_of instrs i < 2 ^ 31"
  unfolding lines_ok_def list_all_length line_of_def
  by (metis (mono_tags) of_nat_less_iff of_nat_numeral of_nat_power uint_nat unsigned_greater_eq)

lemma next_line_int: "lines_ok instrs \<Longrightarrow> i < length instrs \<Longrightarrow> sint (ci_line (instrs ! i)) = line_of instrs i"
  unfolding lines_ok_def list_all_length line_of_def by (simp add: sint_u32_small)

lemma pc2line_seek:
  assumes "lines_ok instrs" "b \<le> length instrs"
  shows "a + n < b \<Longrightarrow> bd_ok s \<Longrightarrow> starts (bd_at s) (run_bits instrs a b @ r) \<Longrightarrow>
    pc2line_seek n s (of_int (line_of instrs a)) = of_int (line_of instrs (a + n))"
proof (induction n arbitrary: a s)
  case (Suc n)
  then have "[a..<b - 1] = a # [a + 1..<b - 1]" by (intro upt_conv_Cons [THEN trans]) simp_all
  then have "run_bits instrs a b = diff_bits (line_of instrs a) (line_of instrs (a + 1)) @ run_bits instrs (a + 1) b"
    by (simp add: run_bits_def)
  with Suc.prems(3) have "starts (bd_at s) (diff_bits (line_of instrs a) (line_of instrs (a + 1)) @ run_bits instrs (a + 1) b @ r)"
    by simp
  from pc2line_get_diff [OF Suc.prems(2) this] obtain s' where
    "pc2line_get_diff s (of_int (line_of instrs a)) = (of_int (line_of instrs (a + 1)), s')" "bd_ok s'"
    "starts (bd_at s') (run_bits instrs (a + 1) b @ r)"
    using line_range [OF assms(1)] assms(2) Suc.prems(1) by auto
  with Suc.IH [of "a + 1" s'] Suc.prems(1) show ?case by simp
qed simp

text \<open>What the inner loop puts, and where it stops.\<close>

definition run_end :: "duk_compiler_instr list \<Rightarrow> nat \<Rightarrow> nat" where
  "run_end instrs pc = min (64 * (pc div 64 + 1)) (length instrs)"

definition run_items :: "duk_compiler_instr list \<Rightarrow> nat \<Rightarrow> nat \<Rightarrow> (u32 \<times> nat) list" where
  "run_items instrs a b = concat (map (\<lambda>i. diff_items (line_of instrs i) (line_of instrs (i + 1))) [a..<b - 1])"

lemma concat_map_concat: "concat (map f (concat (map g xs))) = concat (map (\<lambda>i. concat (map f (g i))) xs)"
  by (induction xs) simp_all

lemma run_bits_items: "run_bits instrs a b = concat (map (\<lambda>(x, n). to_bits n x) (run_items instrs a b))"
  by (simp only: run_bits_def run_items_def diff_bits_def concat_map_concat)

lemma next_run:
  "(pc + 1) mod 64 = 0 \<Longrightarrow> 64 * (pc div 64 + 1) = pc + (1 :: nat)"
  "pc + 1 \<le> 64 * (pc div 64 + (1 :: nat))"
  "(pc + 1) mod 64 \<noteq> 0 \<Longrightarrow> (pc + 1) div 64 = pc div (64 :: nat)"
  "(pc + 1) mod 64 \<noteq> 0 \<Longrightarrow> pc + 1 < 64 * (pc div 64 + (1 :: nat))"
proof -
  have e: "64 * (pc div 64) + pc mod 64 = pc" "pc mod 64 < 64" by simp_all
  have m: "(pc + 1) mod 64 = 0 \<longleftrightarrow> pc mod 64 = 63" using mod_Suc [of pc 64] by simp
  have d: "64 * (pc div 64 + 1) = 64 * (pc div 64) + 64" by (simp only: distrib_left mult_1_right)
  from e show "pc + 1 \<le> 64 * (pc div 64 + 1)" unfolding d by linarith
  from e m show "(pc + 1) mod 64 = 0 \<Longrightarrow> 64 * (pc div 64 + 1) = pc + 1" unfolding d by linarith
  show "(pc + 1) mod 64 \<noteq> 0 \<Longrightarrow> (pc + 1) div 64 = pc div 64" using div_Suc [of pc 64] by simp
  from e m show "(pc + 1) mod 64 \<noteq> 0 \<Longrightarrow> pc + 1 < 64 * (pc div 64 + 1)" unfolding d by linarith
qed

lemma pc2line_run_items:
  assumes "lines_ok instrs"
  shows "pc < length instrs \<Longrightarrow>
    pc2line_run instrs pc (line_of instrs pc) be = (run_end instrs pc, put_all be (run_items instrs pc (run_end instrs pc)))"
proof (induction "length instrs - pc" arbitrary: pc be rule: less_induct)
  case less
  show ?case
  proof (cases "(pc + 1) mod 64 = 0 \<or> pc + 1 \<ge> length instrs")
    case True
    have "run_end instrs pc = pc + 1"
    proof (cases "(pc + 1) mod 64 = 0")
      case True
      then have "64 * (pc div 64 + 1) = pc + 1" by (rule next_run(1))
      then show ?thesis using less.prems by (simp add: run_end_def)
    next
      case False
      with \<open>(pc + 1) mod 64 = 0 \<or> pc + 1 \<ge> length instrs\<close> less.prems have "length instrs = pc + 1" by simp
      moreover have "pc + 1 \<le> 64 * (pc div 64 + 1)" by (rule next_run(2))
      ultimately show ?thesis by (simp add: run_end_def)
    qed
    with True show ?thesis
      by (subst pc2line_run.simps) (simp add: DUK_PC2LINE_SKIP_def run_items_def Let_def)
  next
    case False
    then have nd: "(pc + 1) div 64 = pc div 64" "pc + 1 < length instrs" using next_run(3) [of pc] by simp_all
    then have e: "run_end instrs (pc + 1) = run_end instrs pc" by (simp add: run_end_def)
    have "pc + 1 < run_end instrs pc"
    proof -
      have "pc + 1 < 64 * (pc div 64 + 1)" using False next_run(4) by blast
      then show ?thesis using nd(2) by (simp add: run_end_def)
    qed
    then have "[pc..<run_end instrs pc - 1] = pc # [pc + 1..<run_end instrs pc - 1]"
      by (intro upt_conv_Cons [THEN trans]) simp_all
    then have "run_items instrs pc (run_end instrs pc)
       = diff_items (line_of instrs pc) (line_of instrs (pc + 1)) @ run_items instrs (pc + 1) (run_end instrs pc)"
      by (simp add: run_items_def)
    then show ?thesis
      using False less.hyps [of "pc + 1"] nd(2) e
      by (subst pc2line_run.simps)
        (simp add: DUK_PC2LINE_SKIP_def Let_def next_line_int [OF assms] put_diff_items)
  qed
qed

lemma run_end_bounds: "pc < length instrs \<Longrightarrow> pc < run_end instrs pc \<and> run_end instrs pc \<le> length instrs
   \<and> run_end instrs pc \<le> 64 * (pc div 64 + 1)"
  by (simp add: run_end_def)

lemma run_items_ok:
  assumes "lines_ok instrs" "b \<le> length instrs"
  shows "items_ok (run_items instrs a b) \<and> sum_list (map snd (run_items instrs a b)) \<le> 35 * (b - 1 - a)"
proof -
  have "items_ok (concat (map (\<lambda>i. diff_items (line_of instrs i) (line_of instrs (i + 1))) xs))
     \<and> sum_list (map snd (concat (map (\<lambda>i. diff_items (line_of instrs i) (line_of instrs (i + 1))) xs))) \<le> 35 * length xs"
    if "\<forall>i \<in> set xs. i + 1 < length instrs" for xs
    using that
  proof (induction xs)
    case (Cons i xs)
    have "items_ok (diff_items (line_of instrs i) (line_of instrs (i + 1)))
       \<and> sum_list (map snd (diff_items (line_of instrs i) (line_of instrs (i + 1)))) \<le> 35"
      using line_range [OF assms(1)] Cons.prems by (intro diff_items_ok) simp_all
    with Cons show ?case by simp
  qed simp
  moreover have "\<forall>i \<in> set [a..<b - 1]. i + 1 < length instrs" using assms(2) by auto
  ultimately have "items_ok (run_items instrs a b)
     \<and> sum_list (map snd (run_items instrs a b)) \<le> 35 * length [a..<b - 1]"
    unfolding run_items_def by blast
  then show ?thesis by simp
qed

text \<open>The bytes of one run: never more than the space reserved, and a decoder sees its bits.\<close>

definition run_bytes :: "duk_compiler_instr list \<Rightarrow> nat \<Rightarrow> u8 list" where
  "run_bytes instrs pc = be_data (duk_be_finish (put_all (be_init 276) (run_items instrs pc (run_end instrs pc))))"

lemma run_bytes_spec:
  assumes "lines_ok instrs" "pc < length instrs" "pc mod 64 = 0"
  shows "length (run_bytes instrs pc) \<le> 276"
    and "\<not> be_truncated (duk_be_finish (put_all (be_init 276) (run_items instrs pc (run_end instrs pc))))"
    and "starts (bd_at (bd_init (run_bytes instrs pc @ rest))) (run_bits instrs pc (run_end instrs pc))"
proof -
  let ?items = "run_items instrs pc (run_end instrs pc)"
  let ?e = "put_all (be_init 276) ?items"
  have b: "run_end instrs pc \<le> length instrs" "run_end instrs pc - 1 - pc \<le> 63"
  proof -
    have "64 * (pc div 64) = pc" using assms(3) minus_mod_eq_mult_div [of pc 64] by simp
    then have "64 * (pc div 64 + 1) = pc + 64" by (simp only: distrib_left mult_1_right)
    then show "run_end instrs pc \<le> length instrs" "run_end instrs pc - 1 - pc \<le> 63"
      using run_end_bounds [OF assms(2)] by linarith+
  qed
  note ok = run_items_ok [OF assms(1) b(1), of pc]
  then have w: "sum_list (map snd ?items) \<le> 2205" using b(2) by linarith
  have e: "be_ok ?e \<and> be_bits ?e = run_bits instrs pc (run_end instrs pc) \<and> be_room ?e = be_room (be_init 276)"
    using be.put_items [of "be_init 276" ?items] ok w by (simp add: run_bits_items)
  have "length (be_bits ?e) = sum_list (map snd ?items)"
    using e length_concat_items [of ?items] by (simp only: run_bits_items)
  then have len: "length (be_bits ?e) div 8 \<le> 275" using w by simp
  then have f: "be_ok (duk_be_finish ?e)" "length (be_data (duk_be_finish ?e)) \<le> 276"
    "\<exists>pad. concat (map (to_bits 8) (be_data (duk_be_finish ?e))) = be_bits ?e @ pad"
    using be_finish_bits [of ?e] e by (simp_all only: be_room_length) simp_all
  then show "length (run_bytes instrs pc) \<le> 276" "\<not> be_truncated (duk_be_finish ?e)"
    by (simp_all add: run_bytes_def be_ok_def)
  show "starts (bd_at (bd_init (run_bytes instrs pc @ rest))) (run_bits instrs pc (run_end instrs pc))"
    using bd_init_starts [of "run_bytes instrs pc" rest] f(3) e starts_prefix unfolding run_bytes_def by metis
qed

subsection \<open>All runs\<close>

text \<open>
  Run \<open>k\<close> is stored: its index entry holds the first line and an offset at or after \<open>base\<close>
  where its bytes are, before \<open>lim\<close>.
\<close>

definition stored :: "duk_compiler_instr list \<Rightarrow> nat \<Rightarrow> u8 list \<Rightarrow> nat \<Rightarrow> nat \<Rightarrow> bool" where
  "stored instrs base buf lim k \<longleftrightarrow> read_u32 buf (4 + 8 * k) = ci_line (instrs ! (64 * k))
     \<and> (let off = unat (read_u32 buf (8 + 8 * k)); bs = run_bytes instrs (64 * k)
        in base \<le> off \<and> off + length bs \<le> lim \<and> (\<forall>j < length bs. buf ! (off + j) = bs ! j))"

lemma stored_cong:
  assumes "stored instrs base buf lim k" "lim \<le> lim'"
    and "\<And>i. base \<le> i \<Longrightarrow> i < lim \<Longrightarrow> buf' ! i = buf ! i"
    and "\<And>i. 4 + 8 * k \<le> i \<Longrightarrow> i < 12 + 8 * k \<Longrightarrow> buf' ! i = buf ! i"
  shows "stored instrs base buf' lim' k"
proof -
  have "read_u32 buf' (4 + 8 * k) = read_u32 buf (4 + 8 * k)" "read_u32 buf' (8 + 8 * k) = read_u32 buf (8 + 8 * k)"
    by (rule read_u32_cong, rule assms(4), simp_all)+
  with assms(1-3) show ?thesis by (simp add: stored_def Let_def)
qed

text \<open>The buffer after one turn of the outer loop.\<close>

definition store_run :: "duk_compiler_instr list \<Rightarrow> nat \<Rightarrow> nat \<Rightarrow> u8 list \<Rightarrow> u8 list" where
  "store_run instrs k off buf =
     blit (write_u32 (write_u32 (duk_hbuffer_resize buf (off + 276)) (4 + 8 * k) (ci_line (instrs ! (64 * k))))
       (8 + 8 * k) (of_nat off)) off (run_bytes instrs (64 * k))"

lemma store_run_nth:
  assumes "8 + 8 * k + 4 \<le> off" "off \<le> length buf" "length (run_bytes instrs (64 * k)) \<le> 276" "off < 2 ^ 32"
  shows "length (store_run instrs k off buf) = off + 276"
    and "i < off \<Longrightarrow> i < 4 + 8 * k \<or> 12 + 8 * k \<le> i \<Longrightarrow> store_run instrs k off buf ! i = buf ! i"
    and "read_u32 (store_run instrs k off buf) (4 + 8 * k) = ci_line (instrs ! (64 * k))"
    and "unat (read_u32 (store_run instrs k off buf) (8 + 8 * k)) = off"
    and "j < length (run_bytes instrs (64 * k)) \<Longrightarrow> store_run instrs k off buf ! (off + j) = run_bytes instrs (64 * k) ! j"
proof -
  define b1 where "b1 = duk_hbuffer_resize buf (off + 276)"
  define b2 where "b2 = write_u32 b1 (4 + 8 * k) (ci_line (instrs ! (64 * k)))"
  define b3 where "b3 = write_u32 b2 (8 + 8 * k) (of_nat off)"
  define b4 where "b4 = blit b3 off (run_bytes instrs (64 * k))"
  have b4: "store_run instrs k off buf = b4" by (simp add: store_run_def b4_def b3_def b2_def b1_def)
  have l1: "length b1 = off + 276" by (simp add: b1_def)
  then have l2: "length b2 = off + 276" using assms(1) by (simp add: b2_def write_u32_def)
  then have l3: "length b3 = off + 276" using assms(1) by (simp add: b3_def write_u32_def)
  then show "length (store_run instrs k off buf) = off + 276" using assms(3) by (simp add: b4 b4_def)
  have n1: "i < off \<Longrightarrow> b1 ! i = buf ! i" for i using assms(2) by (simp add: b1_def nth_resize)
  have n2: "i < off \<Longrightarrow> i < 4 + 8 * k \<or> 8 + 8 * k \<le> i \<Longrightarrow> b2 ! i = b1 ! i" for i
    using assms(1) l1 by (auto simp: b2_def write_u32_def nth_blit)
  have n3: "i < off \<Longrightarrow> i < 8 + 8 * k \<or> 12 + 8 * k \<le> i \<Longrightarrow> b3 ! i = b2 ! i" for i
    using assms(1) l2 by (auto simp: b3_def write_u32_def nth_blit)
  have n4: "i < off \<Longrightarrow> b4 ! i = b3 ! i" for i using assms(3) l3 by (simp add: b4_def nth_blit)
  show "i < off \<Longrightarrow> i < 4 + 8 * k \<or> 12 + 8 * k \<le> i \<Longrightarrow> store_run instrs k off buf ! i = buf ! i"
    using n1 [of i] n2 [of i] n3 [of i] n4 [of i] by (auto simp: b4)
  have "read_u32 b4 (4 + 8 * k) = read_u32 b2 (4 + 8 * k)"
    using n3 n4 assms(1) by (intro read_u32_cong) simp
  also have "\<dots> = ci_line (instrs ! (64 * k))"
    unfolding b2_def using l1 assms(1) by (intro read_write_u32) simp
  finally show "read_u32 (store_run instrs k off buf) (4 + 8 * k) = ci_line (instrs ! (64 * k))" by (simp add: b4)
  have "read_u32 b4 (8 + 8 * k) = read_u32 b3 (8 + 8 * k)"
    using n4 assms(1) by (intro read_u32_cong) simp
  also have "\<dots> = of_nat off"
    unfolding b3_def using l2 assms(1) by (intro read_write_u32) simp
  finally show "unat (read_u32 (store_run instrs k off buf) (8 + 8 * k)) = off"
    using assms(4) by (simp add: b4 unat_of_nat)
  show "j < length (run_bytes instrs (64 * k)) \<Longrightarrow> store_run instrs k off buf ! (off + j) = run_bytes instrs (64 * k) ! j"
    using assms(3) l3 by (simp add: b4 b4_def nth_blit)
qed

lemma store_run_stored:
  assumes "12 + 8 * k \<le> base" "base \<le> off" "off \<le> length buf" "length (run_bytes instrs (64 * k)) \<le> 276"
    and "off < 2 ^ 32" "\<forall>k' < k. stored instrs base buf off k'"
  shows "\<forall>k' < Suc k. stored instrs base (store_run instrs k off buf) (off + length (run_bytes instrs (64 * k))) k'"
    and "read_u32 (store_run instrs k off buf) 0 = read_u32 buf 0"
proof -
  have p: "8 + 8 * k + 4 \<le> off" using assms(1,2) by simp
  note n = store_run_nth [OF p assms(3,4,5)]
  show "\<forall>k' < Suc k. stored instrs base (store_run instrs k off buf) (off + length (run_bytes instrs (64 * k))) k'"
  proof (intro allI impI)
    fix k' assume "k' < Suc k"
    then consider "k' = k" | "k' < k" by linarith
    then show "stored instrs base (store_run instrs k off buf) (off + length (run_bytes instrs (64 * k))) k'"
    proof cases
      case 1
      then show ?thesis using n assms(2) by (simp add: stored_def Let_def)
    next
      case 2
      show ?thesis
      proof (rule stored_cong)
        show "stored instrs base buf off k'" using 2 assms(6) by simp
        show "base \<le> i \<Longrightarrow> i < off \<Longrightarrow> store_run instrs k off buf ! i = buf ! i" for i
          using n(2) [of i] assms(1) by simp
        show "4 + 8 * k' \<le> i \<Longrightarrow> i < 12 + 8 * k' \<Longrightarrow> store_run instrs k off buf ! i = buf ! i" for i
          using n(2) [of i] 2 p by simp
      qed simp
    qed
  qed
  show "read_u32 (store_run instrs k off buf) 0 = read_u32 buf 0"
    using n(2) p by (intro read_u32_cong) simp
qed

lemma max_diff_length: "DUK_PC2LINE_MAX_DIFF_LENGTH = 276"
  by (simp add: DUK_PC2LINE_MAX_DIFF_LENGTH_def DUK_PC2LINE_SKIP_def)

lemma pc2line_outer_step:
  assumes "lines_ok instrs" "64 * k < length instrs"
  shows "pc2line_outer instrs (64 * k) off buf =
    pc2line_outer instrs (run_end instrs (64 * k)) (off + length (run_bytes instrs (64 * k))) (store_run instrs k off buf)"
  using pc2line_run_items [OF assms, of "be_init 276"] assms(2)
  by (subst pc2line_outer.simps)
    (simp add: Let_def max_diff_length DUK_PC2LINE_SKIP_def store_run_def run_bytes_def algebra_simps flip: line_of_def)

lemma run_end_Suc: "run_end instrs (64 * k) = min (64 * Suc k) (length instrs)"
  by (simp add: run_end_def)

lemma pc2line_outer_stored:
  assumes "lines_ok instrs" "base = 4 + 8 * ((length instrs + 63) div 64)"
    and "length instrs \<le> DUK_COMPILER_MAX_BYTECODE_LENGTH"
  shows "pc = min (64 * k) (length instrs) \<Longrightarrow> k \<le> (length instrs + 63) div 64 \<Longrightarrow>
    base \<le> off \<Longrightarrow> off \<le> base + 276 * k \<Longrightarrow> off \<le> length buf \<Longrightarrow> \<forall>k' < k. stored instrs base buf off k' \<Longrightarrow>
    pc2line_outer instrs pc off buf = (off', buf') \<Longrightarrow>
    base \<le> off' \<and> off' \<le> length buf' \<and> read_u32 buf' 0 = read_u32 buf 0
    \<and> (\<forall>k' < (length instrs + 63) div 64. stored instrs base buf' off' k')"
proof (induction "length instrs - pc" arbitrary: pc k off buf rule: less_induct)
  case less
  show ?case
  proof (cases "pc < length instrs")
    case False
    then have "k = (length instrs + 63) div 64" using less.prems(1,2) by linarith
    moreover have "pc2line_outer instrs pc off buf = (off, buf)"
      using False by (subst pc2line_outer.simps) simp
    ultimately show ?thesis using less.prems by simp
  next
    case True
    then have pc: "pc = 64 * k" "64 * k < length instrs" using less.prems(1) by auto
    then have k: "Suc k \<le> (length instrs + 63) div 64" by linarith
    have len: "length (run_bytes instrs (64 * k)) \<le> 276" using run_bytes_spec(1) [OF assms(1) pc(2)] by simp
    have base: "12 + 8 * k \<le> base" using k assms(2) by linarith
    have nh: "(length instrs + 63) div 64 \<le> 4194304"
      using assms(3) by (simp add: DUK_COMPILER_MAX_BYTECODE_LENGTH_def)
    have "off < 2 ^ 32" using less.prems(4) k nh unfolding assms(2) by simp
    note s = store_run_stored [OF base less.prems(3,5) len this less.prems(6)]
    have "length (store_run instrs k off buf) = off + 276"
      using store_run_nth(1) [OF _ less.prems(5) len \<open>off < 2 ^ 32\<close>] base less.prems(3) by simp
    then have "off + length (run_bytes instrs (64 * k)) \<le> length (store_run instrs k off buf)" using len by simp
    moreover have "off + length (run_bytes instrs (64 * k)) \<le> base + 276 * Suc k" using less.prems(4) len by simp
    moreover have "base \<le> off + length (run_bytes instrs (64 * k))" using less.prems(3) by simp
    moreover have "length instrs - run_end instrs (64 * k) < length instrs - pc"
      using pc run_end_bounds [OF pc(2)] by linarith
    moreover have "pc2line_outer instrs (run_end instrs (64 * k)) (off + length (run_bytes instrs (64 * k)))
        (store_run instrs k off buf) = (off', buf')"
      using less.prems(7) by (simp only: pc(1) pc2line_outer_step [OF assms(1) pc(2)])
    ultimately show ?thesis
      using less.hyps [OF _ run_end_Suc k] s by simp
  qed
qed

text \<open>The packed buffer, ready for lookup.\<close>

lemma pc2line_pack_stored:
  assumes "lines_ok instrs" "length instrs \<le> DUK_COMPILER_MAX_BYTECODE_LENGTH"
  shows "let buf = duk_hobject_pc2line_pack instrs; base = 4 + 8 * ((length instrs + 63) div 64)
    in base \<le> length buf \<and> unat (read_u32 buf 0) = length instrs
      \<and> (\<forall>k < (length instrs + 63) div 64. stored instrs base buf (length buf) k)"
proof -
  define nh where "nh = (length instrs + 63) div 64"
  define base where "base = 4 + 8 * nh"
  define b0 where "b0 = write_u32 (replicate base 0) 0 (of_nat (length instrs))"
  have l0: "length b0 = base" by (simp add: b0_def write_u32_def base_def)
  have r0: "read_u32 b0 0 = of_nat (length instrs)" unfolding b0_def by (rule read_write_u32) (simp add: base_def)
  obtain off buf where o: "pc2line_outer instrs 0 base b0 = (off, buf)" by force
  have pack: "duk_hobject_pc2line_pack instrs = duk_hbuffer_resize buf off"
    using o by (simp add: duk_hobject_pc2line_pack_def DUK_PC2LINE_SKIP_def b0_def base_def nh_def Let_def add.commute)
  have "base \<le> off \<and> off \<le> length buf \<and> read_u32 buf 0 = read_u32 b0 0 \<and> (\<forall>k < nh. stored instrs base buf off k)"
    using pc2line_outer_stored [OF assms(1) _ assms(2), of base 0 0 base b0 off buf] l0 o
    by (simp add: base_def nh_def)
  then have f: "base \<le> off" "off \<le> length buf" "read_u32 buf 0 = of_nat (length instrs)"
    "\<And>k. k < nh \<Longrightarrow> stored instrs base buf off k" by (simp_all add: r0)
  have same: "i < off \<Longrightarrow> duk_hbuffer_resize buf off ! i = buf ! i" for i using f(2) by (simp add: nth_resize)
  have "read_u32 (duk_hbuffer_resize buf off) 0 = of_nat (length instrs)"
    unfolding f(3) [symmetric] using same f(1) by (intro read_u32_cong) (simp add: base_def)
  moreover have "stored instrs base (duk_hbuffer_resize buf off) off k" if "k < nh" for k
    using that f(1) same by (intro stored_cong [OF f(4)]) (simp_all add: base_def)
  moreover have "unat (of_nat (length instrs) :: u32) = length instrs"
    using assms(2) by (simp add: unat_of_nat DUK_COMPILER_MAX_BYTECODE_LENGTH_def)
  ultimately show ?thesis using f(1) by (simp add: pack base_def nh_def Let_def)
qed

subsection \<open>Properties\<close>

text \<open>
  C28: looking up a program counter in the packed line table gives the line of that
  instruction, for every program of the sizes the compiler emits, and zero beyond its end.
\<close>

theorem pc2line_query_pack:
  assumes "length instrs \<le> DUK_COMPILER_MAX_BYTECODE_LENGTH"
    and "list_all (\<lambda>i. unat (ci_line i) < 2 ^ 31) instrs"
  shows "duk_hobject_pc2line_query (Some (duk_hobject_pc2line_pack instrs)) pc =
    (if pc < length instrs then ucast (ci_line (instrs ! pc)) else 0)"
proof -
  have ok: "lines_ok instrs" using assms(2) by (simp add: lines_ok_def)
  define buf where "buf = duk_hobject_pc2line_pack instrs"
  define base where "base = 4 + 8 * ((length instrs + 63) div 64)"
  have b: "base \<le> length buf" "unat (read_u32 buf 0) = length instrs"
    "\<And>k. k < (length instrs + 63) div 64 \<Longrightarrow> stored instrs base buf (length buf) k"
    using pc2line_pack_stored [OF ok assms(1)] by (simp_all add: buf_def base_def Let_def)
  show ?thesis
  proof (cases "pc < length instrs")
    case True
    define k where "k = pc div 64"
    have k: "k < (length instrs + 63) div 64" "64 * k < length instrs" "64 * k \<le> pc" using True by (simp_all add: k_def)
    have re: "pc < run_end instrs (64 * k)" using True by (simp add: run_end_def k_def)
    define off where "off = unat (read_u32 buf (8 + 8 * k))"
    have s: "read_u32 buf (4 + 8 * k) = ci_line (instrs ! (64 * k))" "off + length (run_bytes instrs (64 * k)) \<le> length buf"
      "\<forall>j < length (run_bytes instrs (64 * k)). buf ! (off + j) = run_bytes instrs (64 * k) ! j"
      using b(3) [OF k(1)] by (simp_all add: stored_def Let_def off_def)
    have d: "drop off buf = run_bytes instrs (64 * k) @ drop (off + length (run_bytes instrs (64 * k))) buf"
      using s(2,3) by (intro nth_equalityI) (auto simp: nth_append)
    have st: "starts (bd_at (bd_init (drop off buf))) (run_bits instrs (64 * k) (run_end instrs (64 * k)))"
      unfolding d using run_bytes_spec(3) [OF ok k(2)] by simp
    have "pc2line_seek (pc - 64 * k) (bd_init (drop off buf)) (of_int (line_of instrs (64 * k)))
       = of_int (line_of instrs (64 * k + (pc - 64 * k)))"
      using pc2line_seek [OF ok, of "run_end instrs (64 * k)" "64 * k" "pc - 64 * k" "bd_init (drop off buf)" "[]"] run_end_bounds [OF k(2)] re k(3) st
      by (simp only: init_simps append_Nil2 le_add_diff_inverse)
    moreover have "of_int (line_of instrs i) = (ucast (ci_line (instrs ! i)) :: u64)" for i
      by (simp only: line_of_def ucast_eq)
    moreover have "4 < length buf" using b(1) True by (simp add: base_def)
    moreover have "off \<le> length buf" using s(2) by simp
    ultimately show ?thesis
      using True b(2) k(3) s(1) off_def
      by (simp add: duk_hobject_pc2line_query_def duk__hobject_pc2line_query_raw_def DUK_PC2LINE_SKIP_def Let_def
          mult.commute add.commute flip: buf_def k_def)
  next
    case False
    then show ?thesis using b(2)
      by (simp add: duk_hobject_pc2line_query_def duk__hobject_pc2line_query_raw_def Let_def flip: buf_def)
  qed
qed

theorem pc2line_query_pack_witness:
  "duk_hobject_pc2line_query (Some (duk_hobject_pc2line_pack [\<lparr>ci_ins = 0, ci_line = 7\<rparr>, \<lparr>ci_ins = 0, ci_line = 3\<rparr>])) 1 =
    (if 1 < length [\<lparr>ci_ins = 0, ci_line = 7\<rparr>, \<lparr>ci_ins = 0, ci_line = 3\<rparr>]
     then ucast (ci_line ([\<lparr>ci_ins = 0, ci_line = 7\<rparr>, \<lparr>ci_ins = 0, ci_line = 3\<rparr>] ! 1)) else 0)"
  by (rule pc2line_query_pack) (simp_all add: DUK_COMPILER_MAX_BYTECODE_LENGTH_def)

text \<open>
  no run of the packer is ever truncated: the 276 bytes reserved for the differences of
  64 instructions hold the longest encoding, padding included.
\<close>

lemma pc2line_run_fits:
  assumes "list_all (\<lambda>i. unat (ci_line i) < 2 ^ 31) instrs" "pc < length instrs" "pc mod DUK_PC2LINE_SKIP = 0"
  shows "let be = duk_be_finish (snd (pc2line_run instrs pc (uint (ci_line (instrs ! pc))) (be_init DUK_PC2LINE_MAX_DIFF_LENGTH)))
    in \<not> be_truncated be \<and> length (be_data be) \<le> DUK_PC2LINE_MAX_DIFF_LENGTH"
proof -
  have ok: "lines_ok instrs" using assms(1) by (simp add: lines_ok_def)
  show ?thesis
    using run_bytes_spec(1,2) [OF ok assms(2)] assms(3) pc2line_run_items [OF ok assms(2)]
    by (simp add: max_diff_length DUK_PC2LINE_SKIP_def run_bytes_def Let_def flip: line_of_def)
qed

lemma pc2line_run_fits_witness:
  "let be = duk_be_finish (snd (pc2line_run [\<lparr>ci_ins = 0, ci_line = 7\<rparr>, \<lparr>ci_ins = 0, ci_line = 70000\<rparr>] 0
       (uint (ci_line ([\<lparr>ci_ins = 0, ci_line = 7\<rparr>, \<lparr>ci_ins = 0, ci_line = 70000\<rparr>] ! 0))) (be_init DUK_PC2LINE_MAX_DIFF_LENGTH)))
    in \<not> be_truncated be \<and> length (be_data be) \<le> DUK_PC2LINE_MAX_DIFF_LENGTH"
  by (rule pc2line_run_fits) simp_all

end
