(* ===== verification/Bigint.thy ===== *)
theory Bigint
  imports Prelude
begin

text \<open>
  The bounded big integers of \<^verbatim>\<open>duk_numconv.c\<close>: 37 32-bit parts, low to high, of which the
  first \<open>n\<close> are in use.  Every operation is modelled on the array, in the variant with
  64-bit arithmetic and, where the source has one, in the variant without; the two are
  shown equal, and each operation to compute the intended natural number as long as the
  result fits the parts.  The destination \<open>x\<close> is an argument because its unused parts keep
  their old contents.
\<close>

subsection \<open>Representation\<close>

definition DUK__BI_MAX_PARTS :: nat where
  "DUK__BI_MAX_PARTS = 37"

record duk__bigint =
  bi_n :: nat
  bi_v :: "u32 list"

fun le_val :: "u32 list \<Rightarrow> nat" where
  "le_val [] = 0"
| "le_val (w # ws) = unat w + 2 ^ 32 * le_val ws"

definition bi_val :: "duk__bigint \<Rightarrow> nat" where
  "bi_val x = le_val (take (bi_n x) (bi_v x))"

definition bi_array :: "duk__bigint \<Rightarrow> bool" where
  "bi_array x \<longleftrightarrow> length (bi_v x) = DUK__BI_MAX_PARTS"

definition duk__bi_is_valid :: "duk__bigint \<Rightarrow> bool" where
  "duk__bi_is_valid x \<longleftrightarrow> bi_array x \<and> bi_n x \<le> DUK__BI_MAX_PARTS \<and> (bi_n x = 0 \<or> bi_v x ! (bi_n x - 1) \<noteq> 0)"

subsection \<open>Operations\<close>

fun bi_top :: "u32 list \<Rightarrow> nat \<Rightarrow> nat" where
  "bi_top v 0 = 0"
| "bi_top v (Suc i) = (if v ! i \<noteq> 0 then Suc i else bi_top v i)"

definition duk__bi_normalize :: "duk__bigint \<Rightarrow> duk__bigint" where
  "duk__bi_normalize x = x\<lparr>bi_n := bi_top (bi_v x) (bi_n x)\<rparr>"

definition duk__bi_copy :: "duk__bigint \<Rightarrow> duk__bigint \<Rightarrow> duk__bigint" where
  "duk__bi_copy x y = x\<lparr>bi_n := bi_n y, bi_v := take (bi_n y) (bi_v y) @ drop (bi_n y) (bi_v x)\<rparr>"

definition duk__bi_set_small :: "duk__bigint \<Rightarrow> u32 \<Rightarrow> duk__bigint" where
  "duk__bi_set_small x v = (if v = 0 then x\<lparr>bi_n := 0\<rparr> else x\<lparr>bi_n := 1, bi_v := (bi_v x)[0 := v]\<rparr>)"

fun bi_compare_from :: "u32 list \<Rightarrow> u32 list \<Rightarrow> nat \<Rightarrow> int" where
  "bi_compare_from xv yv 0 = 0"
| "bi_compare_from xv yv (Suc i) =
     (if xv ! i > yv ! i then 1 else if xv ! i < yv ! i then - 1 else bi_compare_from xv yv i)"

definition duk__bi_compare :: "duk__bigint \<Rightarrow> duk__bigint \<Rightarrow> int" where
  "duk__bi_compare x y =
     (if bi_n x > bi_n y then 1 else if bi_n x < bi_n y then - 1
      else bi_compare_from (bi_v x) (bi_v y) (bi_n x))"

text \<open>Addition with a 64-bit accumulator; the loop runs from \<open>i\<close> for \<open>k\<close> more parts.\<close>

fun bi_add_loop :: "nat \<Rightarrow> nat \<Rightarrow> u32 list \<Rightarrow> u32 list \<Rightarrow> nat \<Rightarrow> u64 \<Rightarrow> u32 list \<Rightarrow> u64 \<times> u32 list" where
  "bi_add_loop 0 i yv zv nz tmp xv = (tmp, xv)"
| "bi_add_loop (Suc k) i yv zv nz tmp xv =
     (let tmp = tmp + ucast (yv ! i);
          tmp = (if i < nz then tmp + ucast (zv ! i) else tmp);
          xv = xv[i := ucast (tmp AND 0xffffffff)]
      in bi_add_loop k (i + 1) yv zv nz (drop_bit 32 tmp) xv)"

definition duk__bi_add :: "duk__bigint \<Rightarrow> duk__bigint \<Rightarrow> duk__bigint \<Rightarrow> duk__bigint" where
  "duk__bi_add x y z =
     (let (y, z) = (if bi_n z > bi_n y then (z, y) else (y, z));
          (tmp, xv) = bi_add_loop (bi_n y) 0 (bi_v y) (bi_v z) (bi_n z) 0 (bi_v x)
      in if tmp \<noteq> 0 then x\<lparr>bi_n := bi_n y + 1, bi_v := xv[bi_n y := ucast tmp]\<rparr>
         else x\<lparr>bi_n := bi_n y, bi_v := xv\<rparr>)"

text \<open>Addition with carry detection by wrapping.\<close>

fun bi_add32_loop :: "nat \<Rightarrow> nat \<Rightarrow> u32 list \<Rightarrow> u32 list \<Rightarrow> nat \<Rightarrow> u32 \<Rightarrow> u32 list \<Rightarrow> u32 \<times> u32 list" where
  "bi_add32_loop 0 i yv zv nz carry xv = (carry, xv)"
| "bi_add32_loop (Suc k) i yv zv nz carry xv =
     (let tmp1 = yv ! i;
          tmp2 = (if i < nz then tmp1 + zv ! i else tmp1);
          (tmp2, carry) = (if carry \<noteq> 0 then (tmp2 + 1, if tmp2 + 1 \<le> tmp1 then 1 else 0)
                           else (tmp2, if tmp2 < tmp1 then 1 else 0));
          xv = xv[i := tmp2]
      in bi_add32_loop k (i + 1) yv zv nz carry xv)"

definition bi_add32 :: "duk__bigint \<Rightarrow> duk__bigint \<Rightarrow> duk__bigint \<Rightarrow> duk__bigint" where
  "bi_add32 x y z =
     (let (y, z) = (if bi_n z > bi_n y then (z, y) else (y, z));
          (carry, xv) = bi_add32_loop (bi_n y) 0 (bi_v y) (bi_v z) (bi_n z) 0 (bi_v x)
      in if carry \<noteq> 0 then x\<lparr>bi_n := bi_n y + 1, bi_v := xv[bi_n y := carry]\<rparr>
         else x\<lparr>bi_n := bi_n y, bi_v := xv\<rparr>)"

text \<open>The temporary of the source is uninitialised; its parts are an argument here.\<close>

definition duk__bi_add_small :: "duk__bigint \<Rightarrow> duk__bigint \<Rightarrow> duk__bigint \<Rightarrow> u32 \<Rightarrow> duk__bigint" where
  "duk__bi_add_small tmp x y z = duk__bi_add x y (duk__bi_set_small tmp z)"

text \<open>Subtraction: \<^verbatim>\<open>duk_int64_t\<close> never overflows here, so the accumulator is an integer.\<close>

fun bi_sub_loop :: "nat \<Rightarrow> nat \<Rightarrow> u32 list \<Rightarrow> u32 list \<Rightarrow> nat \<Rightarrow> int \<Rightarrow> u32 list \<Rightarrow> u32 list" where
  "bi_sub_loop 0 i yv zv nz tmp xv = xv"
| "bi_sub_loop (Suc k) i yv zv nz tmp xv =
     (let ty = yv ! i;
          tz = (if i < nz then zv ! i else 0);
          tmp = uint ty - uint tz + tmp;
          xv = xv[i := word_of_int (tmp AND 0xffffffff)]
      in bi_sub_loop k (i + 1) yv zv nz (drop_bit 32 tmp) xv)"

definition duk__bi_sub :: "duk__bigint \<Rightarrow> duk__bigint \<Rightarrow> duk__bigint \<Rightarrow> duk__bigint" where
  "duk__bi_sub x y z =
     duk__bi_normalize (x\<lparr>bi_n := bi_n y, bi_v := bi_sub_loop (bi_n y) 0 (bi_v y) (bi_v z) (bi_n z) 0 (bi_v x)\<rparr>)"

fun bi_sub32_loop :: "nat \<Rightarrow> nat \<Rightarrow> u32 list \<Rightarrow> u32 list \<Rightarrow> nat \<Rightarrow> u32 \<Rightarrow> u32 list \<Rightarrow> u32 list" where
  "bi_sub32_loop 0 i yv zv nz borrow xv = xv"
| "bi_sub32_loop (Suc k) i yv zv nz borrow xv =
     (let tmp1 = yv ! i;
          tmp2 = (if i < nz then tmp1 - zv ! i else tmp1);
          (tmp2, borrow) = (if borrow \<noteq> 0 then (tmp2 - 1, if tmp2 - 1 \<ge> tmp1 then 1 else 0)
                            else (tmp2, if tmp2 > tmp1 then 1 else 0));
          xv = xv[i := tmp2]
      in bi_sub32_loop k (i + 1) yv zv nz borrow xv)"

definition bi_sub32 :: "duk__bigint \<Rightarrow> duk__bigint \<Rightarrow> duk__bigint \<Rightarrow> duk__bigint" where
  "bi_sub32 x y z =
     duk__bi_normalize (x\<lparr>bi_n := bi_n y, bi_v := bi_sub32_loop (bi_n y) 0 (bi_v y) (bi_v z) (bi_n z) 0 (bi_v x)\<rparr>)"

definition duk__bi_sub_copy :: "duk__bigint \<Rightarrow> duk__bigint \<Rightarrow> duk__bigint \<Rightarrow> duk__bigint \<times> duk__bigint" where
  "duk__bi_sub_copy x y t = (let t = duk__bi_sub t x y in (duk__bi_copy x t, t))"

text \<open>
  Multiplication.  \<open>mac\<close> is one multiply, add and carry: from the parts \<open>yi\<close> and \<open>zj\<close>, the
  accumulated part and the carry it gives the new part and the new carry.
\<close>

definition bi_mac64 :: "u32 \<Rightarrow> u32 \<Rightarrow> u32 \<Rightarrow> u64 \<Rightarrow> u32 \<times> u64" where
  "bi_mac64 yi zj xij tmp =
     (let tmp = tmp + (ucast yi * ucast zj + ucast xij) in (ucast (tmp AND 0xffffffff), drop_bit 32 tmp))"

fun bi_mul_row :: "nat \<Rightarrow> nat \<Rightarrow> nat \<Rightarrow> u32 \<Rightarrow> u32 list \<Rightarrow> u64 \<Rightarrow> u32 list \<Rightarrow> u64 \<times> u32 list" where
  "bi_mul_row 0 i j yi zv tmp xv = (tmp, xv)"
| "bi_mul_row (Suc k) i j yi zv tmp xv =
     (let (lo, tmp) = bi_mac64 yi (zv ! j) (xv ! (i + j)) tmp
      in bi_mul_row k i (j + 1) yi zv tmp (xv[i + j := lo]))"

fun bi_mul_rows :: "nat \<Rightarrow> nat \<Rightarrow> u32 list \<Rightarrow> u32 list \<Rightarrow> nat \<Rightarrow> u32 list \<Rightarrow> u32 list" where
  "bi_mul_rows 0 i yv zv nz xv = xv"
| "bi_mul_rows (Suc k) i yv zv nz xv =
     (let (tmp, xv) = bi_mul_row nz i 0 (yv ! i) zv 0 xv;
          xv = (if tmp > 0 then xv[i + nz := ucast tmp] else xv)
      in bi_mul_rows k (i + 1) yv zv nz xv)"

definition bi_zero_parts :: "nat \<Rightarrow> u32 list \<Rightarrow> u32 list" where
  "bi_zero_parts n xv = replicate n 0 @ drop n xv"

definition duk__bi_mul :: "duk__bigint \<Rightarrow> duk__bigint \<Rightarrow> duk__bigint \<Rightarrow> duk__bigint" where
  "duk__bi_mul x y z =
     (let nx = bi_n y + bi_n z
      in if nx = 0 then x\<lparr>bi_n := 0\<rparr>
         else duk__bi_normalize (x\<lparr>bi_n := nx,
           bi_v := bi_mul_rows (bi_n y) 0 (bi_v y) (bi_v z) (bi_n z) (bi_zero_parts nx (bi_v x))\<rparr>))"

text \<open>The variant with 16-bit by 16-bit products only.\<close>

definition bi_mac16 :: "u32 \<Rightarrow> u32 \<Rightarrow> u32 \<Rightarrow> u32 \<Rightarrow> u32 \<times> u32" where
  "bi_mac16 yi zj e f =
     (let a = drop_bit 16 yi; b = yi AND 0xffff; c = drop_bit 16 zj; d = zj AND 0xffff;
          r = 0; s = b * d;
          t = s + e; r = (if t < s then r + 1 else r); s = t;
          t = s + f; r = (if t < s then r + 1 else r); s = t;
          t = b * c; r = r + drop_bit 16 t; t = s + push_bit 16 (t AND 0xffff);
          r = (if t < s then r + 1 else r); s = t;
          t = a * d; r = r + drop_bit 16 t; t = s + push_bit 16 (t AND 0xffff);
          r = (if t < s then r + 1 else r); s = t;
          t = a * c; r = r + t
      in (s, r))"

fun bi_mul32_row :: "nat \<Rightarrow> nat \<Rightarrow> nat \<Rightarrow> u32 \<Rightarrow> u32 list \<Rightarrow> u32 \<Rightarrow> u32 list \<Rightarrow> u32 \<times> u32 list" where
  "bi_mul32_row 0 i j yi zv f xv = (f, xv)"
| "bi_mul32_row (Suc k) i j yi zv f xv =
     (let (s, r) = bi_mac16 yi (zv ! j) (xv ! (i + j)) f
      in bi_mul32_row k i (j + 1) yi zv r (xv[i + j := s]))"

fun bi_mul32_rows :: "nat \<Rightarrow> nat \<Rightarrow> u32 list \<Rightarrow> u32 list \<Rightarrow> nat \<Rightarrow> u32 list \<Rightarrow> u32 list" where
  "bi_mul32_rows 0 i yv zv nz xv = xv"
| "bi_mul32_rows (Suc k) i yv zv nz xv =
     (let (f, xv) = bi_mul32_row nz i 0 (yv ! i) zv 0 xv;
          xv = (if f > 0 then xv[i + nz := f] else xv)
      in bi_mul32_rows k (i + 1) yv zv nz xv)"

definition bi_mul32 :: "duk__bigint \<Rightarrow> duk__bigint \<Rightarrow> duk__bigint \<Rightarrow> duk__bigint" where
  "bi_mul32 x y z =
     (let nx = bi_n y + bi_n z
      in if nx = 0 then x\<lparr>bi_n := 0\<rparr>
         else duk__bi_normalize (x\<lparr>bi_n := nx,
           bi_v := bi_mul32_rows (bi_n y) 0 (bi_v y) (bi_v z) (bi_n z) (bi_zero_parts nx (bi_v x))\<rparr>))"

definition duk__bi_mul_small :: "duk__bigint \<Rightarrow> duk__bigint \<Rightarrow> duk__bigint \<Rightarrow> u32 \<Rightarrow> duk__bigint" where
  "duk__bi_mul_small tmp x y z = duk__bi_mul x y (duk__bi_set_small tmp z)"

definition duk__bi_mul_copy :: "duk__bigint \<Rightarrow> duk__bigint \<Rightarrow> duk__bigint \<Rightarrow> duk__bigint \<times> duk__bigint" where
  "duk__bi_mul_copy x y t = (let t = duk__bi_mul t x y in (duk__bi_copy x t, t))"

definition duk__bi_mul_small_copy :: "duk__bigint \<Rightarrow> duk__bigint \<Rightarrow> u32 \<Rightarrow> duk__bigint \<Rightarrow> duk__bigint \<times> duk__bigint" where
  "duk__bi_mul_small_copy tmp x y t = (let t = duk__bi_mul_small tmp t x y in (duk__bi_copy x t, t))"

definition duk__bi_is_even :: "duk__bigint \<Rightarrow> bool" where
  "duk__bi_is_even x \<longleftrightarrow> bi_n x = 0 \<or> bi_v x ! 0 AND 0x01 = 0"

definition duk__bi_is_zero :: "duk__bigint \<Rightarrow> bool" where
  "duk__bi_is_zero x \<longleftrightarrow> bi_n x = 0"

definition duk__bi_is_2to52 :: "duk__bigint \<Rightarrow> bool" where
  "duk__bi_is_2to52 x \<longleftrightarrow> bi_n x = 2 \<and> bi_v x ! 0 = 0 \<and> bi_v x ! 1 = push_bit (52 - 32) 1"

definition duk__bi_twoexp :: "duk__bigint \<Rightarrow> nat \<Rightarrow> duk__bigint" where
  "duk__bi_twoexp x y =
     (let n = y div 32 + 1; r = y mod 32
      in x\<lparr>bi_n := n, bi_v := (bi_zero_parts n (bi_v x))[n - 1 := push_bit r 1]\<rparr>)"

text \<open>The loop of \<^verbatim>\<open>duk__bi_exp_small\<close>: \<open>x\<close>, \<open>t1\<close> and the scratch \<open>t2\<close>.\<close>

function bi_exp_loop :: "nat \<Rightarrow> duk__bigint \<Rightarrow> duk__bigint \<Rightarrow> duk__bigint \<Rightarrow> duk__bigint" where
  "bi_exp_loop y x t1 t2 =
     (let (x, t2) = (if odd y then duk__bi_mul_copy x t1 t2 else (x, t2));
          y = y div 2
      in if y = 0 then x
         else (let (t1, t2) = duk__bi_mul_copy t1 t1 t2 in bi_exp_loop y x t1 t2))"
  by pat_completeness auto
termination
  by (relation "measure (\<lambda>(y, x, t1, t2). y)") auto

declare bi_exp_loop.simps [simp del]

definition duk__bi_exp_small :: "duk__bigint \<Rightarrow> nat \<Rightarrow> nat \<Rightarrow> duk__bigint \<Rightarrow> duk__bigint \<Rightarrow> duk__bigint" where
  "duk__bi_exp_small x b y t1 t2 =
     (if b = 2 then duk__bi_twoexp x y
      else bi_exp_loop y (duk__bi_set_small x 1) (duk__bi_set_small t1 (of_nat b)) t2)"

subsection \<open>Values of arrays\<close>

lemma le_val_append: "le_val (xs @ ys) = le_val xs + 2 ^ (32 * length xs) * le_val ys"
  by (induction xs) (simp_all add: algebra_simps power_add)

lemma le_val_less: "le_val xs < 2 ^ (32 * length xs)"
proof (induction xs)
  case (Cons w ws)
  have "le_val (w # ws) < 4294967296 * (le_val ws + 1)" using unat_width_less(3) [of w] by simp
  also have "\<dots> \<le> 4294967296 * 2 ^ (32 * length ws)" using Cons.IH by (intro mult_le_mono2) simp
  finally show ?case by (simp add: power_add)
qed simp

lemma le_val_take_Suc: "i < length v \<Longrightarrow> le_val (take (Suc i) v) = le_val (take i v) + 2 ^ (32 * i) * unat (v ! i)"
  by (simp add: take_Suc_conv_app_nth le_val_append)

lemma le_val_update:
  "p < length v \<Longrightarrow> le_val (v[p := w]) + 2 ^ (32 * p) * unat (v ! p) = le_val v + 2 ^ (32 * p) * unat w"
proof (induction v arbitrary: p)
  case (Cons u us)
  show ?case
  proof (cases p)
    case (Suc q)
    with Cons have "le_val (us[q := w]) + 2 ^ (32 * q) * unat (us ! q) = le_val us + 2 ^ (32 * q) * unat w" by simp
    from arg_cong [OF this, of "\<lambda>n. 2 ^ 32 * n"] show ?thesis by (simp add: Suc power_add algebra_simps)
  qed simp
qed simp

lemma le_val_zero: "le_val (replicate n 0) = 0"
  by (induction n) simp_all

lemma le_val_eq_zero: "\<forall>i < length v. v ! i = 0 \<Longrightarrow> le_val v = 0"
  by (metis le_val_zero map_replicate_const nth_equalityI length_replicate nth_replicate)

text \<open>Normalisation and sizes.\<close>

lemma bi_top_spec:
  "n \<le> length v \<Longrightarrow> bi_top v n \<le> n \<and> le_val (take (bi_top v n) v) = le_val (take n v)
    \<and> (bi_top v n = 0 \<or> v ! (bi_top v n - 1) \<noteq> 0)"
  by (induction n) (auto simp: le_val_take_Suc)

lemma normalize_spec:
  assumes "bi_array x" "bi_n x \<le> DUK__BI_MAX_PARTS"
  shows "duk__bi_is_valid (duk__bi_normalize x) \<and> bi_val (duk__bi_normalize x) = bi_val x"
  using assms bi_top_spec [of "bi_n x" "bi_v x"]
  by (auto simp: duk__bi_is_valid_def duk__bi_normalize_def bi_array_def bi_val_def)

lemma valid_array: "duk__bi_is_valid x \<Longrightarrow> bi_array x"
  by (simp add: duk__bi_is_valid_def)

lemma valid_lower:
  assumes "duk__bi_is_valid x" "bi_n x \<noteq> 0"
  shows "2 ^ (32 * (bi_n x - 1)) \<le> bi_val x"
proof -
  obtain m where m: "bi_n x = Suc m" using assms(2) not0_implies_Suc by blast
  have "bi_v x ! m \<noteq> 0" "m < length (bi_v x)" using assms m by (auto simp: duk__bi_is_valid_def bi_array_def)
  then have "2 ^ (32 * m) \<le> 2 ^ (32 * m) * unat (bi_v x ! m)" by (simp add: Suc_le_eq unat_gt_0)
  moreover have "bi_val x = le_val (take m (bi_v x)) + 2 ^ (32 * m) * unat (bi_v x ! m)"
    using \<open>m < length (bi_v x)\<close> by (simp add: bi_val_def m le_val_take_Suc)
  ultimately show ?thesis unfolding m by (simp only: diff_Suc_1)
qed

lemma valid_upper:
  assumes "duk__bi_is_valid x"
  shows "bi_val x < 2 ^ (32 * bi_n x)"
proof -
  have "length (take (bi_n x) (bi_v x)) = bi_n x" using assms by (simp add: duk__bi_is_valid_def bi_array_def)
  then show ?thesis using le_val_less [of "take (bi_n x) (bi_v x)"] by (simp only: bi_val_def)
qed

lemma valid_n_le:
  assumes "duk__bi_is_valid x" "bi_val x < 2 ^ (32 * k)"
  shows "bi_n x \<le> k"
proof (rule ccontr)
  assume k: "\<not> bi_n x \<le> k"
  then have "(2 :: nat) ^ (32 * k) \<le> 2 ^ (32 * (bi_n x - 1))" by (intro power_increasing) simp_all
  also have "\<dots> \<le> bi_val x" using k by (intro valid_lower [OF assms(1)]) simp
  finally show False using assms(2) by simp
qed

lemma bi_val_zero: "duk__bi_is_valid x \<Longrightarrow> bi_val x = 0 \<longleftrightarrow> bi_n x = 0"
proof (cases "bi_n x = 0")
  case False
  assume "duk__bi_is_valid x"
  from valid_lower [OF this False] have "0 < bi_val x" by (rule less_le_trans [rotated]) simp
  with False show ?thesis by simp
qed (simp add: bi_val_def)

subsection \<open>Copying, small numbers, comparison\<close>

lemma copy_spec:
  assumes "duk__bi_is_valid y" "bi_array x"
  shows "duk__bi_is_valid (duk__bi_copy x y) \<and> bi_val (duk__bi_copy x y) = bi_val y \<and> bi_array (duk__bi_copy x y)"
  using assms by (auto simp: duk__bi_copy_def duk__bi_is_valid_def bi_array_def bi_val_def nth_append)

lemma set_small_spec:
  assumes "bi_array x"
  shows "duk__bi_is_valid (duk__bi_set_small x v) \<and> bi_val (duk__bi_set_small x v) = unat v"
  using assms by (cases "bi_v x") (auto simp: duk__bi_set_small_def duk__bi_is_valid_def bi_array_def bi_val_def
      DUK__BI_MAX_PARTS_def)

lemma compare_from_spec:
  "n \<le> length xv \<Longrightarrow> n \<le> length yv \<Longrightarrow>
    bi_compare_from xv yv n = (if le_val (take n xv) > le_val (take n yv) then 1
      else if le_val (take n xv) < le_val (take n yv) then - 1 else 0)"
proof (induction n)
  case (Suc n)
  let ?x = "le_val (take n xv)" and ?y = "le_val (take n yv)"
  have l: "?x < 2 ^ (32 * n)" "?y < 2 ^ (32 * n)"
    using le_val_less [of "take n xv"] le_val_less [of "take n yv"] Suc.prems by simp_all
  have big: "a + 2 ^ (32 * n) * u < b + 2 ^ (32 * n) * w" if "u < w" "a < 2 ^ (32 * n)" for a b u w :: nat
  proof -
    have "a + 2 ^ (32 * n) * u < 2 ^ (32 * n) * (u + 1)" using that(2) by simp
    also have "\<dots> \<le> 2 ^ (32 * n) * w" using that(1) by (intro mult_le_mono2) simp
    finally show ?thesis by simp
  qed
  consider "unat (xv ! n) < unat (yv ! n)" | "unat (xv ! n) = unat (yv ! n)" | "unat (yv ! n) < unat (xv ! n)" by linarith
  then show ?case
  proof cases
    case 1
    with big [OF this l(1), of ?y] Suc.prems show ?thesis
      by (simp add: le_val_take_Suc word_less_nat_alt)
  next
    case 2
    with Suc show ?thesis by (simp add: le_val_take_Suc word_less_nat_alt)
  next
    case 3
    with big [OF this l(2), of ?x] Suc.prems show ?thesis
      by (simp add: le_val_take_Suc word_less_nat_alt)
  qed
qed simp

lemma compare_spec:
  assumes "duk__bi_is_valid x" "duk__bi_is_valid y"
  shows "duk__bi_compare x y = (if bi_val x > bi_val y then 1 else if bi_val x < bi_val y then - 1 else 0)"
proof -
  have less: "bi_val a < bi_val b" if "duk__bi_is_valid a" "duk__bi_is_valid b" "bi_n a < bi_n b" for a b
  proof -
    have "bi_val a < 2 ^ (32 * bi_n a)" by (rule valid_upper [OF that(1)])
    also have "(2 :: nat) ^ (32 * bi_n a) \<le> 2 ^ (32 * (bi_n b - 1))" using that(3) by (intro power_increasing) simp_all
    also have "\<dots> \<le> bi_val b" using that(3) by (intro valid_lower [OF that(2)]) simp
    finally show ?thesis .
  qed
  consider "bi_n x < bi_n y" | "bi_n x = bi_n y" | "bi_n y < bi_n x" by linarith
  then show ?thesis
  proof cases
    case 2
    then show ?thesis using assms compare_from_spec [of "bi_n x" "bi_v x" "bi_v y"]
      by (simp add: duk__bi_compare_def bi_val_def duk__bi_is_valid_def bi_array_def)
  qed (use less [OF assms] less [OF assms(2,1)] in \<open>simp_all add: duk__bi_compare_def\<close>)
qed

subsection \<open>Addition\<close>

lemma add_step:
  fixes y z :: u32 and tmp :: u64
  assumes "unat tmp \<le> 1"
  shows "unat (ucast (tmp + ucast y + ucast z AND 0xffffffff) :: u32) = (unat tmp + unat y + unat z) mod 4294967296"
    "unat (drop_bit 32 (tmp + ucast y + ucast z)) = (unat tmp + unat y + unat z) div 4294967296"
    "unat tmp + unat y + unat z < 2 * 4294967296"
    "unat (ucast (tmp + ucast y AND 0xffffffff) :: u32) = (unat tmp + unat y) mod 4294967296"
    "unat (drop_bit 32 (tmp + ucast y)) = (unat tmp + unat y) div 4294967296"
proof -
  have l: "unat y < 4294967296" "unat z < 4294967296" by (rule unat_width_less)+
  with assms show "unat tmp + unat y + unat z < 2 * 4294967296" by simp
  have u: "unat (tmp + ucast y + ucast z) = unat tmp + unat y + unat z" "unat (tmp + ucast y) = unat tmp + unat y"
    using l assms by (simp_all add: unat_add_mod unat_ucast_mod)
  show "unat (ucast (tmp + ucast y + ucast z AND 0xffffffff) :: u32) = (unat tmp + unat y + unat z) mod 4294967296"
    "unat (drop_bit 32 (tmp + ucast y + ucast z)) = (unat tmp + unat y + unat z) div 4294967296"
    "unat (ucast (tmp + ucast y AND 0xffffffff) :: u32) = (unat tmp + unat y) mod 4294967296"
    "unat (drop_bit 32 (tmp + ucast y)) = (unat tmp + unat y) div 4294967296"
    by (simp_all add: unat_ucast_mod unat_and_ffff unat_drop_bit u)
qed

lemma scale_split: "a * (T mod 4294967296) + a * 4294967296 * (T div 4294967296) = a * (T :: nat)"
  by (simp only: mult.assoc distrib_left [symmetric] mod_mult_div_eq)

lemma power_Suc_32: "(2 :: nat) ^ (32 * Suc i) = 2 ^ (32 * i) * 4294967296"
  by (simp add: power_add)

definition part :: "u32 list \<Rightarrow> nat \<Rightarrow> nat \<Rightarrow> nat" where
  "part zv nz i = (if i < nz then unat (zv ! i) else 0)"

lemma take_part: "nz \<le> length zv \<Longrightarrow>
    le_val (take (min (Suc i) nz) zv) = le_val (take (min i nz) zv) + 2 ^ (32 * i) * part zv nz i"
proof (cases "i < nz")
  case True
  then show "nz \<le> length zv \<Longrightarrow> ?thesis" using le_val_take_Suc [of i zv] by (simp add: part_def min_def)
next
  case False
  then show ?thesis by (simp add: part_def min_def)
qed

lemma take_update_Suc:
  "i < length xv \<Longrightarrow> le_val (take (Suc i) (xv[i := w])) = le_val (take i xv) + 2 ^ (32 * i) * unat w"
  by (simp add: le_val_take_Suc)

lemma add_loop_spec:
  assumes "nz \<le> length zv"
  shows "unat tmp \<le> 1 \<Longrightarrow> i + k \<le> length yv \<Longrightarrow> i + k \<le> length xv \<Longrightarrow> bi_add_loop k i yv zv nz tmp xv = (tmp', xv') \<Longrightarrow>
    length xv' = length xv \<and> unat tmp' \<le> 1 \<and>
    le_val (take (i + k) xv') + 2 ^ (32 * (i + k)) * unat tmp' + le_val (take i yv) + le_val (take (min i nz) zv)
    = le_val (take i xv) + 2 ^ (32 * i) * unat tmp + le_val (take (i + k) yv) + le_val (take (min (i + k) nz) zv)"
proof (induction k arbitrary: i tmp xv)
  case (Suc k)
  define T where "T = unat tmp + unat (yv ! i) + part zv nz i"
  define xw where "xw = (if i < nz then tmp + ucast (yv ! i) + ucast (zv ! i) else tmp + ucast (yv ! i))"
  have T: "unat (ucast (xw AND 0xffffffff) :: u32) = T mod 4294967296" "unat (drop_bit 32 xw) = T div 4294967296"
      "T < 2 * 4294967296"
    using add_step(1-3) [where y = "yv ! i" and z = "zv ! i", OF Suc.prems(1)]
      add_step(4,5) [where y = "yv ! i", OF Suc.prems(1)] by (auto simp: T_def xw_def part_def)
  have "bi_add_loop (Suc k) i yv zv nz tmp xv = bi_add_loop k (Suc i) yv zv nz (drop_bit 32 xw) (xv[i := ucast (xw AND 0xffffffff)])"
    by (simp add: Let_def xw_def)
  with Suc.prems(4) have r: "bi_add_loop k (Suc i) yv zv nz (drop_bit 32 xw) (xv[i := ucast (xw AND 0xffffffff)]) = (tmp', xv')"
    by simp
  have "unat (drop_bit 32 xw) \<le> 1" using T(2,3) by simp
  note IH = Suc.IH [OF this _ _ r]
  have t: "le_val (take (Suc i) (xv[i := ucast (xw AND 0xffffffff)])) = le_val (take i xv) + 2 ^ (32 * i) * (T mod 4294967296)"
    "le_val (take (Suc i) yv) = le_val (take i yv) + 2 ^ (32 * i) * unat (yv ! i)"
    using Suc.prems(2,3) by (simp_all add: take_update_Suc T(1) le_val_take_Suc)
  have "2 ^ (32 * i) * (T mod 4294967296) + 2 ^ (32 * Suc i) * (T div 4294967296) = 2 ^ (32 * i) * T"
    using scale_split [of "2 ^ (32 * i)" T] by (simp only: power_Suc_32)
  then show ?case
    using IH Suc.prems(2,3) unfolding T(2) t take_part [OF assms] T_def by (simp add: distrib_left)
qed simp

lemma add_spec:
  assumes "duk__bi_is_valid y" "duk__bi_is_valid z" "bi_array x" "bi_val y + bi_val z < 2 ^ (32 * DUK__BI_MAX_PARTS)"
  shows "duk__bi_is_valid (duk__bi_add x y z) \<and> bi_val (duk__bi_add x y z) = bi_val y + bi_val z"
proof -
  have main: "duk__bi_is_valid (duk__bi_add x y z) \<and> bi_val (duk__bi_add x y z) = bi_val y + bi_val z"
    if v: "duk__bi_is_valid y" "duk__bi_is_valid z" and n: "bi_n z \<le> bi_n y" and s: "bi_val y + bi_val z < 2 ^ (32 * DUK__BI_MAX_PARTS)"
    for y z
  proof -
    obtain tmp xv where l: "bi_add_loop (bi_n y) 0 (bi_v y) (bi_v z) (bi_n z) 0 (bi_v x) = (tmp, xv)" by force
    have a: "length xv = DUK__BI_MAX_PARTS" "unat tmp \<le> 1"
      "le_val (take (bi_n y) xv) + 2 ^ (32 * bi_n y) * unat tmp = bi_val y + bi_val z"
      using add_loop_spec [OF _ _ _ _ l] v n assms(3) by (auto simp: duk__bi_is_valid_def bi_array_def bi_val_def min_def)
    show ?thesis
    proof (cases "tmp = 0")
      case True
      have "bi_n y = 0 \<or> xv ! (bi_n y - 1) \<noteq> 0"
      proof (rule ccontr)
        assume c: "\<not> ?thesis"
        then obtain m where m: "bi_n y = Suc m" "xv ! m = 0" by (cases "bi_n y") auto
        have "m < length xv" using a(1) v(1) m(1) by (simp add: duk__bi_is_valid_def)
        then have "le_val (take (bi_n y) xv) = le_val (take m xv)" using m by (simp add: le_val_take_Suc)
        also have "\<dots> < 2 ^ (32 * m)" using le_val_less [of "take m xv"] \<open>m < length xv\<close> by simp
        also have "\<dots> \<le> bi_val y" using valid_lower [OF v(1)] m(1) by simp
        finally show False using a(3) True by simp
      qed
      with a True v l n show ?thesis
        by (simp add: duk__bi_add_def duk__bi_is_valid_def bi_array_def bi_val_def Let_def)
    next
      case False
      then have t: "unat tmp = 1" using a(2) by (simp add: le_Suc_eq word_unat_eq_iff)
      have "bi_n y < DUK__BI_MAX_PARTS"
      proof (rule ccontr)
        assume "\<not> ?thesis"
        then have "bi_n y = DUK__BI_MAX_PARTS" using v(1) by (simp add: duk__bi_is_valid_def)
        then show False using a(3) t s by simp
      qed
      with a(1,3) t False l n show ?thesis
        by (simp add: duk__bi_add_def duk__bi_is_valid_def bi_array_def bi_val_def Let_def le_val_take_Suc
            unat_ucast_mod word_unat_eq_iff [of "ucast tmp"])
    qed
  qed
  show ?thesis
  proof (cases "bi_n z > bi_n y")
    case True
    then have "duk__bi_add x y z = duk__bi_add x z y" by (simp add: duk__bi_add_def)
    with main [OF assms(2,1)] True assms(4) show ?thesis by (simp add: add.commute)
  qed (use main assms in simp)
qed

lemma add32_step:
  fixes y z c :: u32
  assumes "unat c \<le> 1"
  defines "T \<equiv> unat c + unat y + unat z"
  shows "unat (if c \<noteq> 0 then y + z + 1 else y + z) = T mod 4294967296"
    "unat (if c \<noteq> 0 then (if y + z + 1 \<le> y then 1 else 0) else (if y + z < y then 1 else 0) :: u32) = T div 4294967296"
proof -
  have l: "unat y < 4294967296" "unat z < 4294967296" by (rule unat_width_less)+
  have c: "unat c = (if c \<noteq> 0 then 1 else 0)"
    using assms(1) by (auto simp: le_Suc_eq word_unat_eq_iff)
  have u: "unat (y + z + 1) = (unat y + unat z + 1) mod 4294967296" "unat (y + z) = (unat y + unat z) mod 4294967296"
    by (simp_all add: unat_add_mod mod_simps)
  have t: "T < 2 * 4294967296" using l assms(1) by (simp add: T_def)
  show "unat (if c \<noteq> 0 then y + z + 1 else y + z) = T mod 4294967296"
    unfolding T_def c by (simp add: u)
  have d: "T div 4294967296 = (if T < 4294967296 then 0 else 1)" using t by (simp add: div_eq_0_iff le_div_geq)
  show "unat (if c \<noteq> 0 then (if y + z + 1 \<le> y then 1 else 0) else (if y + z < y then 1 else 0) :: u32) = T div 4294967296"
  proof (cases "c = 0")
    case True
    then show ?thesis using l unfolding d by (auto simp: T_def c word_less_nat_alt u wrap_once)
  next
    case False
    then show ?thesis using l unfolding d by (auto simp: T_def c word_le_nat_alt u wrap_once)
  qed
qed

lemma add32_loop_eq:
  "unat c \<le> 1 \<Longrightarrow> bi_add32_loop k i yv zv nz c xv = (c', xv') \<Longrightarrow>
    bi_add_loop k i yv zv nz (ucast c) xv = (ucast c', xv') \<and> unat c' \<le> 1"
proof (induction k arbitrary: i c xv)
  case (Suc k)
  define z where "z = (if i < nz then zv ! i else 0)"
  define r where "r = (if c \<noteq> 0 then yv ! i + z + 1 else yv ! i + z)"
  define d where "d = (if c \<noteq> 0 then (if yv ! i + z + 1 \<le> yv ! i then 1 else 0) else (if yv ! i + z < yv ! i then 1 else 0) :: u32)"
  define xw where "xw = (ucast c :: u64) + ucast (yv ! i) + ucast z"
  have "bi_add32_loop (Suc k) i yv zv nz c xv = bi_add32_loop k (Suc i) yv zv nz d (xv[i := r])"
    by (simp add: Let_def z_def r_def d_def)
  then have e: "bi_add32_loop k (Suc i) yv zv nz d (xv[i := r]) = (c', xv')" using Suc.prems(2) by simp
  have c: "unat (ucast c :: u64) = unat c" "unat (ucast c :: u64) \<le> 1"
    using Suc.prems(1) by (simp_all add: unat_ucast_mod)
  note s32 = add32_step [OF Suc.prems(1), of "yv ! i" z, folded r_def d_def]
  note s64 = add_step(1-3) [OF c(2), of "yv ! i" z, folded xw_def, unfolded c(1)]
  have "ucast (xw AND 0xffffffff) = r" by (simp only: word_unat_eq_iff s32 s64)
  moreover have d1: "unat d \<le> 1" unfolding s32(2) using s64(3) by simp
  moreover have "drop_bit 32 xw = ucast d"
    using d1 by (simp only: word_unat_eq_iff s64 s32 unat_ucast_mod) (simp only: s32(2) [symmetric], simp)
  moreover have "bi_add_loop (Suc k) i yv zv nz (ucast c) xv = bi_add_loop k (Suc i) yv zv nz (drop_bit 32 xw) (xv[i := ucast (xw AND 0xffffffff)])"
    by (simp add: Let_def xw_def z_def)
  ultimately show ?case using Suc.IH [OF d1 e] by simp
qed simp

lemma add32_eq: "bi_add32 x y z = duk__bi_add x y z"
proof -
  have "bi_add32_loop k 0 yv zv nz 0 xv = (c', xv') \<Longrightarrow> bi_add_loop k 0 yv zv nz 0 xv = (ucast c', xv') \<and> unat c' \<le> 1"
    for k yv zv nz c' xv xv' using add32_loop_eq [of 0 k 0 yv zv nz xv c' xv'] by simp
  moreover have "(ucast (c :: u32) :: u64) = 0 \<longleftrightarrow> c = 0" "ucast (ucast c :: u64) = c" for c :: u32
    using unat_width_less(3) [of c] by (simp_all add: word_unat_eq_iff unat_ucast_mod)
  ultimately show ?thesis
    by (simp add: bi_add32_def duk__bi_add_def split: prod.split)
qed

subsection \<open>Subtraction\<close>

lemma sub_step:
  fixes y z :: u32 and tmp :: int
  assumes "tmp = 0 \<or> tmp = - 1"
  defines "T \<equiv> uint y - uint z + tmp"
  shows "int (unat (word_of_int (T AND 0xffffffff) :: u32)) = T mod 4294967296"
    "drop_bit 32 T = T div 4294967296" "T div 4294967296 = 0 \<or> T div 4294967296 = - 1"
proof -
  have m: "T AND 0xffffffff = T mod 4294967296"
    using take_bit_eq_mask [of 32 T] by (simp add: mask_eq_exp_minus_1 take_bit_eq_mod)
  have "0 \<le> T mod 4294967296" "T mod 4294967296 < 4294967296" by simp_all
  then show "int (unat (word_of_int (T AND 0xffffffff) :: u32)) = T mod 4294967296"
    unfolding m by (simp add: uint_word_of_int)
  show "drop_bit 32 T = T div 4294967296" by (simp add: drop_bit_eq_div)
  have "0 \<le> uint y" "uint y < 4294967296" "0 \<le> uint z" "uint z < 4294967296"
    using unsigned_less [of y] unsigned_less [of z] by simp_all
  then have "- 4294967296 \<le> T" "T < 4294967296"
    unfolding T_def using assms(1) by (elim disjE; linarith)+
  then show "T div 4294967296 = 0 \<or> T div 4294967296 = - 1"
    by linarith
qed

lemma sub_loop_spec:
  assumes "nz \<le> length zv"
  shows "tmp = 0 \<or> tmp = - 1 \<Longrightarrow> i + k \<le> length yv \<Longrightarrow> i + k \<le> length xv \<Longrightarrow> bi_sub_loop k i yv zv nz tmp xv = xv' \<Longrightarrow>
    length xv' = length xv \<and> (\<exists>tmp'. (tmp' = 0 \<or> tmp' = - 1) \<and>
    int (le_val (take (i + k) xv')) + 2 ^ (32 * (i + k)) * tmp' + int (le_val (take i yv)) + int (le_val (take (min (i + k) nz) zv))
    = int (le_val (take i xv)) + 2 ^ (32 * i) * tmp + int (le_val (take (i + k) yv)) + int (le_val (take (min i nz) zv)))"
proof (induction k arbitrary: i tmp xv)
  case (Suc k)
  define z where "z = (if i < nz then zv ! i else 0)"
  define T where "T = uint (yv ! i) - uint z + tmp"
  have p: "uint z = int (part zv nz i)" by (simp add: part_def z_def)
  note st = sub_step [OF Suc.prems(1), of "yv ! i" z, folded T_def]
  have r: "bi_sub_loop k (Suc i) yv zv nz (drop_bit 32 T) (xv[i := word_of_int (T AND 0xffffffff)]) = xv'"
    using Suc.prems(4) by (simp add: Let_def z_def T_def)
  have d: "drop_bit 32 T = 0 \<or> drop_bit 32 T = - 1" unfolding st(2) by (rule st(3))
  have "i < length xv" using Suc.prems(3) by simp
  then have tx: "int (le_val (take (Suc i) (xv[i := word_of_int (T AND 0xffffffff)]))) = int (le_val (take i xv)) + 2 ^ (32 * i) * (T mod 4294967296)"
    by (simp only: take_update_Suc of_nat_add of_nat_mult st(1) of_nat_power of_nat_numeral)
  have ty: "int (le_val (take (Suc i) yv)) = int (le_val (take i yv)) + 2 ^ (32 * i) * uint (yv ! i)"
    using Suc.prems(2) by (simp add: le_val_take_Suc)
  have tz: "int (le_val (take (min (Suc i) nz) zv)) = int (le_val (take (min i nz) zv)) + 2 ^ (32 * i) * uint z"
    by (simp add: p take_part [OF assms])
  have "2 ^ (32 * i) * (T mod 4294967296) + 2 ^ (32 * Suc i) * (T div 4294967296)
      = 2 ^ (32 * i) * (T mod 4294967296 + 4294967296 * (T div 4294967296))"
    by (simp only: distrib_left mult_Suc_right power_add) simp
  also have "\<dots> = 2 ^ (32 * i) * T" by (simp only: mod_mult_div_eq)
  also have "\<dots> = 2 ^ (32 * i) * uint (yv ! i) - 2 ^ (32 * i) * uint z + 2 ^ (32 * i) * tmp"
    by (simp only: T_def distrib_left right_diff_distrib)
  finally have e: "2 ^ (32 * i) * (T mod 4294967296) + 2 ^ (32 * Suc i) * (T div 4294967296)
      = 2 ^ (32 * i) * uint (yv ! i) - 2 ^ (32 * i) * uint z + 2 ^ (32 * i) * tmp" .
  show ?case
    using Suc.IH [OF d _ _ r] Suc.prems(2,3) e unfolding tx ty tz st(2) by auto
qed auto

lemma sub_spec:
  assumes "duk__bi_is_valid y" "duk__bi_is_valid z" "bi_array x" "bi_val z \<le> bi_val y"
  shows "duk__bi_is_valid (duk__bi_sub x y z) \<and> bi_val (duk__bi_sub x y z) = bi_val y - bi_val z"
proof -
  define xv where "xv = bi_sub_loop (bi_n y) 0 (bi_v y) (bi_v z) (bi_n z) 0 (bi_v x)"
  have ny: "bi_n y \<le> DUK__BI_MAX_PARTS" using assms(1) by (simp add: duk__bi_is_valid_def)
  have nz: "bi_n z \<le> bi_n y"
    using valid_n_le [OF assms(2)] valid_upper [OF assms(1)] assms(4) by (meson le_less_trans)
  have bv: "bi_n z \<le> length (bi_v z)" "0 + bi_n y \<le> length (bi_v y)" "0 + bi_n y \<le> length (bi_v x)" "min (0 + bi_n y) (bi_n z) = bi_n z"
    using assms nz by (simp_all add: duk__bi_is_valid_def bi_array_def)
  obtain tmp where l: "length xv = DUK__BI_MAX_PARTS" and t: "tmp = 0 \<or> tmp = - 1"
    and e: "int (le_val (take (bi_n y) xv)) + 2 ^ (32 * bi_n y) * tmp + int (bi_val z) = int (bi_val y)"
    using sub_loop_spec [OF bv(1) _ bv(2,3) xv_def [symmetric]] assms(3) unfolding bv(4)
    by (simp add: bi_array_def bi_val_def) blast
  have "le_val (take (bi_n y) xv) < 2 ^ (32 * bi_n y)"
    using le_val_less [of "take (bi_n y) xv"] l ny by simp
  then have "int (le_val (take (bi_n y) xv)) < 2 ^ (32 * bi_n y)" by (metis of_nat_less_iff of_nat_power of_nat_numeral)
  moreover have "int (bi_val z) \<le> int (bi_val y)" using assms(4) by simp
  moreover have "int (le_val (take (bi_n y) xv)) - 2 ^ (32 * bi_n y) + int (bi_val z) = int (bi_val y)" if "tmp = - 1"
    using e that by simp
  ultimately have "tmp = 0" using t by linarith
  with e have v: "le_val (take (bi_n y) xv) = bi_val y - bi_val z" by simp
  show ?thesis
    using normalize_spec [of "x\<lparr>bi_n := bi_n y, bi_v := xv\<rparr>"] l ny v
    by (simp add: duk__bi_sub_def xv_def bi_array_def bi_val_def)
qed

lemma sub32_step:
  fixes y z c :: u32 and tmp :: int
  assumes "tmp = (if c = 0 then 0 else - 1)"
  defines "T \<equiv> uint y - uint z + tmp"
  shows "(if c \<noteq> 0 then y - z - 1 else y - z) = word_of_int (T AND 0xffffffff)"
    "(if (if c \<noteq> 0 then (if y - z - 1 \<ge> y then 1 else 0) else (if y - z > y then 1 else 0) :: u32) = 0 then 0 else - 1) = drop_bit 32 T"
proof -
  have st: "int (unat (word_of_int (T AND 0xffffffff) :: u32)) = T mod 4294967296" "drop_bit 32 T = T div 4294967296"
    unfolding T_def using sub_step [of tmp y z] assms(1) by auto
  have b: "0 \<le> uint y" "uint y < 4294967296" "0 \<le> uint z" "uint z < 4294967296"
    using unsigned_less [of y] unsigned_less [of z] by simp_all
  have u: "uint (y - z) = (uint y - uint z) mod 4294967296" "uint (y - z - 1) = (uint y - uint z - 1) mod 4294967296"
    by (simp_all add: uint_word_ariths mod_simps)
  have w: "a mod 4294967296 = (if a < 0 then a + 4294967296 else a) \<and> a div 4294967296 = (if a < 0 then - 1 else 0)"
    if "- 4294967296 \<le> a" "a < 4294967296" for a :: int
    using that mod_pos_pos_trivial [of "a + 4294967296" 4294967296] by auto
  show "(if c \<noteq> 0 then y - z - 1 else y - z) = word_of_int (T AND 0xffffffff)"
    using st(1) by (simp add: word_uint_eq_iff u T_def assms(1))
  show "(if (if c \<noteq> 0 then (if y - z - 1 \<ge> y then 1 else 0) else (if y - z > y then 1 else 0) :: u32) = 0 then 0 else - 1) = drop_bit 32 T"
  proof (cases "c = 0")
    case True
    have "- 4294967296 \<le> uint y - uint z" "uint y - uint z < 4294967296" using b by linarith+
    from w [OF this] b True show ?thesis
      unfolding st(2) by (auto simp: T_def assms(1) word_less_def u)
  next
    case False
    have "- 4294967296 \<le> uint y - uint z - 1" "uint y - uint z - 1 < 4294967296" using b by linarith+
    from w [OF this] b False show ?thesis
      unfolding st(2) by (auto simp: T_def assms(1) word_le_def u)
  qed
qed

lemma sub32_loop_eq:
  "tmp = (if c = 0 then 0 else - 1) \<Longrightarrow> bi_sub32_loop k i yv zv nz c xv = bi_sub_loop k i yv zv nz tmp xv"
proof (induction k arbitrary: i c tmp xv)
  case (Suc k)
  note st = sub32_step [OF Suc.prems, of "yv ! i" "if i < nz then zv ! i else 0"]
  have "bi_sub32_loop (Suc k) i yv zv nz c xv =
      bi_sub32_loop k (Suc i) yv zv nz
        (if c \<noteq> 0 then (if yv ! i - (if i < nz then zv ! i else 0) - 1 \<ge> yv ! i then 1 else 0)
         else (if yv ! i - (if i < nz then zv ! i else 0) > yv ! i then 1 else 0))
        (xv[i := if c \<noteq> 0 then yv ! i - (if i < nz then zv ! i else 0) - 1 else yv ! i - (if i < nz then zv ! i else 0)])"
    by (simp add: Let_def)
  also have "\<dots> = bi_sub_loop (Suc k) i yv zv nz tmp xv"
    unfolding st(1) using Suc.IH [OF st(2) [symmetric]] by (simp add: Let_def)
  finally show ?case .
qed simp

lemma sub32_eq: "bi_sub32 x y z = duk__bi_sub x y z"
  by (simp add: bi_sub32_def duk__bi_sub_def sub32_loop_eq)

subsection \<open>Multiplication\<close>

lemma prod_bound:
  assumes "(a :: nat) < 4294967296" "b < 4294967296" "x < 4294967296" "t < 4294967296"
  shows "t + (a * b + x) < 18446744073709551616"
proof -
  have "a * b \<le> 4294967295 * 4294967295" using assms(1,2) by (intro mult_le_mono) simp_all
  then show ?thesis using assms(3,4) by simp
qed

lemma mac64_spec:
  fixes yi zj xij :: u32 and tmp :: u64
  assumes "unat tmp < 4294967296" "bi_mac64 yi zj xij tmp = (lo, tmp')"
  shows "unat lo = (unat tmp + (unat yi * unat zj + unat xij)) mod 4294967296
    \<and> unat tmp' = (unat tmp + (unat yi * unat zj + unat xij)) div 4294967296
    \<and> unat tmp' < 4294967296"
proof -
  define T where "T = unat tmp + (unat yi * unat zj + unat xij)"
  have t: "T < 18446744073709551616" unfolding T_def by (intro prod_bound assms(1) unat_width_less)
  then have p: "unat yi * unat zj < 18446744073709551616" "unat yi * unat zj + unat xij < 18446744073709551616"
    by (simp_all add: T_def)
  have c: "unat (ucast w :: u64) = unat w" for w :: u32
    using unat_width_less(3) [of w] by (simp add: unat_ucast_mod)
  have "unat (tmp + (ucast yi * ucast zj + ucast xij)) = T"
    using p t by (simp add: unat_add_mod unat_mult_mod c T_def)
  then show ?thesis
    using assms(2) t by (auto simp: bi_mac64_def Let_def unat_ucast_mod unat_and_ffff unat_drop_bit T_def [symmetric])
qed

lemma le_val_take_update:
  "p < n \<Longrightarrow> n \<le> length xv \<Longrightarrow>
    le_val (take n (xv[p := w])) + 2 ^ (32 * p) * unat (xv ! p) = le_val (take n xv) + 2 ^ (32 * p) * unat w"
  using le_val_update [of p "take n xv" w] by (simp add: take_update_swap)

lemma mul_row_spec:
  "unat tmp < 4294967296 \<Longrightarrow> j + k \<le> length zv \<Longrightarrow> i + j + k \<le> n \<Longrightarrow> n \<le> length xv \<Longrightarrow>
    bi_mul_row k i j yi zv tmp xv = (tmp', xv') \<Longrightarrow>
    length xv' = length xv \<and> unat tmp' < 4294967296 \<and> (\<forall>p. i + j + k \<le> p \<longrightarrow> xv' ! p = xv ! p) \<and>
    le_val (take n xv') + 2 ^ (32 * (i + j + k)) * unat tmp' + 2 ^ (32 * i) * unat yi * le_val (take j zv)
    = le_val (take n xv) + 2 ^ (32 * (i + j)) * unat tmp + 2 ^ (32 * i) * unat yi * le_val (take (j + k) zv)"
proof (induction k arbitrary: j tmp xv)
  case (Suc k)
  obtain lo t where m: "bi_mac64 yi (zv ! j) (xv ! (i + j)) tmp = (lo, t)" by force
  define T where "T = unat tmp + (unat yi * unat (zv ! j) + unat (xv ! (i + j)))"
  note st = mac64_spec [OF Suc.prems(1) m, folded T_def]
  have r: "bi_mul_row k i (Suc j) yi zv t (xv[i + j := lo]) = (tmp', xv')"
    using Suc.prems(5) m by simp
  have IH: "length xv' = length xv" "unat tmp' < 4294967296" "\<forall>p. i + Suc j + k \<le> p \<longrightarrow> xv' ! p = (xv[i + j := lo]) ! p"
    "le_val (take n xv') + 2 ^ (32 * (i + Suc j + k)) * unat tmp' + 2 ^ (32 * i) * unat yi * le_val (take (Suc j) zv)
    = le_val (take n (xv[i + j := lo])) + 2 ^ (32 * (i + Suc j)) * unat t + 2 ^ (32 * i) * unat yi * le_val (take (Suc j + k) zv)"
    using Suc.IH [OF _ _ _ _ r] st Suc.prems(2-4) by simp_all
  have u: "le_val (take n (xv[i + j := lo])) + 2 ^ (32 * (i + j)) * unat (xv ! (i + j)) = le_val (take n xv) + 2 ^ (32 * (i + j)) * (T mod 4294967296)"
    using le_val_take_update [of "i + j" n xv lo] Suc.prems(3,4) st by simp
  have z: "le_val (take (Suc j) zv) = le_val (take j zv) + 2 ^ (32 * j) * unat (zv ! j)"
    using Suc.prems(2) by (simp add: le_val_take_Suc)
  have "2 ^ (32 * (i + j)) * (T mod 4294967296) + 2 ^ (32 * (i + Suc j)) * unat t = 2 ^ (32 * (i + j)) * T"
    using scale_split [of "2 ^ (32 * (i + j))" T] st by (simp only: add_Suc_right power_Suc_32)
  also have "\<dots> = 2 ^ (32 * (i + j)) * unat tmp + 2 ^ (32 * i) * unat yi * (2 ^ (32 * j) * unat (zv ! j)) + 2 ^ (32 * (i + j)) * unat (xv ! (i + j))"
    by (simp add: T_def distrib_left power_add)
  finally have e: "2 ^ (32 * (i + j)) * (T mod 4294967296) + 2 ^ (32 * (i + Suc j)) * unat t
    = 2 ^ (32 * (i + j)) * unat tmp + 2 ^ (32 * i) * unat yi * (2 ^ (32 * j) * unat (zv ! j)) + 2 ^ (32 * (i + j)) * unat (xv ! (i + j))" .
  have "le_val (take n xv') + 2 ^ (32 * (i + Suc j + k)) * unat tmp' + 2 ^ (32 * i) * unat yi * le_val (take j zv)
    = le_val (take n xv) + 2 ^ (32 * (i + j)) * unat tmp + 2 ^ (32 * i) * unat yi * le_val (take (Suc j + k) zv)"
    using IH(4) u e unfolding z distrib_left by linarith
  with IH(1-3) show ?case by auto
qed auto

lemma mul_rows_spec:
  assumes "nz \<le> length zv"
  shows "i + k \<le> length yv \<Longrightarrow> i + k + nz \<le> n \<Longrightarrow> n \<le> length xv \<Longrightarrow> (\<forall>p. i + nz \<le> p \<and> p < n \<longrightarrow> xv ! p = 0) \<Longrightarrow>
    length (bi_mul_rows k i yv zv nz xv) = length xv \<and>
    le_val (take n (bi_mul_rows k i yv zv nz xv)) + le_val (take i yv) * le_val (take nz zv)
    = le_val (take n xv) + le_val (take (i + k) yv) * le_val (take nz zv)"
proof (induction k arbitrary: i xv)
  case (Suc k)
  obtain tmp xv1 where r: "bi_mul_row nz i 0 (yv ! i) zv 0 xv = (tmp, xv1)" by force
  define xv2 where "xv2 = (if tmp > 0 then xv1[i + nz := ucast tmp] else xv1)"
  have R: "length xv1 = length xv" "unat tmp < 4294967296" "\<forall>p. i + nz \<le> p \<longrightarrow> xv1 ! p = xv ! p"
    "le_val (take n xv1) + 2 ^ (32 * (i + nz)) * unat tmp = le_val (take n xv) + 2 ^ (32 * i) * unat (yv ! i) * le_val (take nz zv)"
    using mul_row_spec [OF _ _ _ _ r, of n] assms Suc.prems(2,3) by simp_all
  have z: "xv1 ! (i + nz) = 0" using R(3) Suc.prems(2,4) by simp
  have L: "length xv2 = length xv" using R(1) by (simp add: xv2_def)
  have V: "le_val (take n xv2) = le_val (take n xv) + 2 ^ (32 * i) * unat (yv ! i) * le_val (take nz zv)"
  proof (cases "tmp > 0")
    case True
    have "unat (ucast tmp :: u32) = unat tmp" using R(2) by (simp add: unat_ucast_mod)
    then show ?thesis using le_val_take_update [of "i + nz" n xv1 "ucast tmp"] True z R(1,4) Suc.prems(2,3)
      by (simp add: xv2_def)
  next
    case False
    then have "tmp = 0" by (simp add: word_gt_0)
    then show ?thesis using R(4) by (simp add: xv2_def)
  qed
  have Z: "\<forall>p. Suc i + nz \<le> p \<and> p < n \<longrightarrow> xv2 ! p = 0"
    using R(3) Suc.prems(4) by (auto simp: xv2_def)
  have e: "bi_mul_rows (Suc k) i yv zv nz xv = bi_mul_rows k (Suc i) yv zv nz xv2"
    by (simp add: r xv2_def)
  have "le_val (take (Suc i) yv) * le_val (take nz zv)
      = le_val (take i yv) * le_val (take nz zv) + 2 ^ (32 * i) * unat (yv ! i) * le_val (take nz zv)"
    using Suc.prems(1) by (simp only: le_val_take_Suc distrib_right)
  with Suc.IH [of "Suc i" xv2] L V Z Suc.prems(1-3) show ?case unfolding e by simp
qed simp

text \<open>A product below \<open>2 ^ (32 * 36)\<close> never needs more than the 37 parts.\<close>

lemma mul_parts:
  assumes "duk__bi_is_valid y" "duk__bi_is_valid z" "bi_val y * bi_val z < 2 ^ (32 * 36)"
  shows "bi_n y + bi_n z \<le> DUK__BI_MAX_PARTS"
proof (cases "bi_n y = 0 \<or> bi_n z = 0")
  case True
  then show ?thesis using assms(1,2) by (auto simp: duk__bi_is_valid_def)
next
  case False
  then obtain a b where n: "bi_n y = Suc a" "bi_n z = Suc b" using not0_implies_Suc by blast
  have "(2 :: nat) ^ (32 * a) * 2 ^ (32 * b) \<le> bi_val y * bi_val z"
    using valid_lower [OF assms(1)] valid_lower [OF assms(2)] unfolding n by (intro mult_le_mono) simp_all
  then have "(2 :: nat) ^ (32 * (a + b)) < 2 ^ (32 * 36)" using assms(3) by (simp only: power_add distrib_left)
  then have "32 * (a + b) < (32 * 36 :: nat)" by (rule power_less_imp_less_exp [rotated]) simp
  then show ?thesis by (simp add: n DUK__BI_MAX_PARTS_def)
qed

lemma mul_spec:
  assumes "duk__bi_is_valid y" "duk__bi_is_valid z" "bi_array x" "bi_n y + bi_n z \<le> DUK__BI_MAX_PARTS"
  shows "duk__bi_is_valid (duk__bi_mul x y z) \<and> bi_val (duk__bi_mul x y z) = bi_val y * bi_val z \<and> bi_array (duk__bi_mul x y z)"
proof (cases "bi_n y + bi_n z = 0")
  case True
  then show ?thesis using assms(3) by (simp add: duk__bi_mul_def duk__bi_is_valid_def bi_val_def bi_array_def)
next
  case False
  define n where "n = bi_n y + bi_n z"
  define xv where "xv = bi_mul_rows (bi_n y) 0 (bi_v y) (bi_v z) (bi_n z) (bi_zero_parts n (bi_v x))"
  have l: "bi_n z \<le> length (bi_v z)" "0 + bi_n y \<le> length (bi_v y)" "0 + bi_n y + bi_n z \<le> n"
      "n \<le> length (bi_zero_parts n (bi_v x))" "length (bi_zero_parts n (bi_v x)) = DUK__BI_MAX_PARTS"
    using assms by (simp_all add: duk__bi_is_valid_def bi_array_def n_def bi_zero_parts_def)
  have z: "\<forall>p. 0 + bi_n z \<le> p \<and> p < n \<longrightarrow> bi_zero_parts n (bi_v x) ! p = 0"
    by (simp add: bi_zero_parts_def nth_append)
  have zv: "le_val (take n (bi_zero_parts n (bi_v x))) = 0" by (simp add: bi_zero_parts_def le_val_zero)
  have v: "length xv = DUK__BI_MAX_PARTS" "le_val (take n xv) = bi_val y * bi_val z"
    using mul_rows_spec [OF l(1-4) z] l(5) zv by (simp_all add: xv_def bi_val_def)
  have e: "duk__bi_mul x y z = duk__bi_normalize (x\<lparr>bi_n := n, bi_v := xv\<rparr>)"
    using False by (auto simp: duk__bi_mul_def n_def xv_def Let_def)
  have "duk__bi_is_valid (duk__bi_mul x y z) \<and> bi_val (duk__bi_mul x y z) = bi_val (x\<lparr>bi_n := n, bi_v := xv\<rparr>)"
    unfolding e by (rule normalize_spec) (use v(1) assms(4) in \<open>simp_all add: bi_array_def n_def\<close>)
  then show ?thesis using v(2) by (simp add: bi_val_def valid_array)
qed

subsection \<open>Multiplication by 16-bit products\<close>

lemma unat_half: "unat (drop_bit 16 (w :: u32)) = unat w div 65536" "unat (w AND 0xffff) = unat w mod 65536"
  by (simp_all add: unat_drop_bit unat_and_ffff)

lemma unat_mult_half:
  fixes a b :: u32
  assumes "unat a < 65536" "unat b < 65536"
  shows "unat (a * b) = unat a * unat b"
proof -
  have "unat a * unat b \<le> 65535 * 65535" using assms by (intro mult_le_mono) simp_all
  then show ?thesis by (simp add: unat_mult_mod)
qed

lemma unat_low_up: "unat (push_bit 16 ((w :: u32) AND 0xffff)) = 65536 * (unat w mod 65536)"
  by (simp only: unat_push_bit_mod unat_half) (simp add: mult.commute)

lemma mac16_spec:
  fixes yi zj e f :: u32
  assumes "bi_mac16 yi zj e f = (s, r)"
  defines "T \<equiv> unat f + (unat yi * unat zj + unat e)"
  shows "unat s = T mod 4294967296 \<and> unat r = T div 4294967296"
proof -
  define a b c d where "a = drop_bit 16 yi" and "b = yi AND 0xffff" and "c = drop_bit 16 zj" and "d = zj AND 0xffff"
  have l: "unat yi < 4294967296" "unat zj < 4294967296" by (rule unat_width_less)+
  have h: "unat a < 65536" "unat b < 65536" "unat c < 65536" "unat d < 65536"
    using l by (simp_all add: a_def b_def c_def d_def unat_half less_mult_imp_div_less)
  have yz: "unat yi = 65536 * unat a + unat b" "unat zj = 65536 * unat c + unat d"
    by (simp_all add: a_def b_def c_def d_def unat_half)
  define p q where "p = push_bit 16 (b * c AND 0xffff)" and "q = push_bit 16 (a * d AND 0xffff)"
  have pq: "unat p = 65536 * ((unat b * unat c) mod 65536)" "unat q = 65536 * ((unat a * unat d) mod 65536)"
    unfolding p_def q_def by (simp_all only: unat_low_up unat_mult_half h)
  define s0 s1 s2 s3 s4 where "s0 = b * d" and "s1 = s0 + e" and "s2 = s1 + f"
    and "s3 = s2 + p" and "s4 = s3 + q"
  define k1 k2 k3 k4 :: nat where "k1 = (if s1 < s0 then 1 else 0)" and "k2 = (if s2 < s1 then 1 else 0)"
    and "k3 = (if s3 < s2 then 1 else 0)" and "k4 = (if s4 < s3 then 1 else 0)"
  have C: "unat s1 + 4294967296 * k1 = unat s0 + unat e" "unat s2 + 4294967296 * k2 = unat s1 + unat f"
    "unat s3 + 4294967296 * k3 = unat s2 + 65536 * ((unat b * unat c) mod 65536)"
    "unat s4 + 4294967296 * k4 = unat s3 + 65536 * ((unat a * unat d) mod 65536)"
    using carry_add [of s0 e] carry_add [of s1 f] carry_add [of s2 p] carry_add [of s3 q]
    unfolding s1_def s2_def s3_def s4_def k1_def k2_def k3_def k4_def pq by - (assumption+)
  have s0: "unat s0 = unat b * unat d" using h by (simp add: s0_def unat_mult_half)
  define R where "R = k1 + k2 + (unat b * unat c) div 65536 + k3 + (unat a * unat d) div 65536 + k4 + unat a * unat c"
  have sr: "s = s4" "r = of_nat k1 + of_nat k2 + drop_bit 16 (b * c) + of_nat k3 + drop_bit 16 (a * d) + of_nat k4 + a * c"
    using assms(1) by (auto simp: bi_mac16_def Let_def a_def b_def c_def d_def s0_def s1_def s2_def s3_def s4_def p_def q_def
        k1_def k2_def k3_def k4_def)
  have ur: "unat r = R mod 4294967296"
    unfolding sr(2) R_def using h by (simp add: unat_add_mod unat_half unat_mult_half unat_of_nat mod_simps)
  have T: "T = unat s + 4294967296 * R"
  proof -
    have "unat yi * unat zj = 4294967296 * (unat a * unat c) + 65536 * (unat b * unat c) + 65536 * (unat a * unat d) + unat b * unat d"
      unfolding yz by (simp add: algebra_simps)
    moreover have up: "65536 * p = 65536 * (p mod 65536) + 4294967296 * (p div 65536)" for p :: nat
    proof -
      have "4294967296 * (p div 65536) = 65536 * (65536 * (p div 65536))" by simp
      then show ?thesis by (simp only: distrib_left [symmetric] mod_mult_div_eq)
    qed
    moreover note up [of "unat b * unat c"] up [of "unat a * unat d"]
    ultimately show ?thesis
      using C unfolding T_def s0 sr(1) R_def distrib_left by linarith
  qed
  have ls: "unat s < 4294967296" by (rule unat_width_less)
  have "T < 18446744073709551616" unfolding T_def by (intro prod_bound unat_width_less)
  then have "R < 4294967296" using T by simp
  with ur T ls show ?thesis by simp
qed

lemma mac16_mac64:
  assumes "unat tmp = unat f" "bi_mac16 yi zj e f = (s, r)"
  shows "bi_mac64 yi zj e tmp = (s, ucast r)"
proof -
  obtain lo t where m: "bi_mac64 yi zj e tmp = (lo, t)" by force
  have "unat tmp < 4294967296" using assms(1) unat_width_less(3) [of f] by simp
  note mac64_spec [OF this m]
  moreover note mac16_spec [OF assms(2)]
  moreover have "unat (ucast r :: u64) = unat r" using unat_width_less(3) [of r] by (simp add: unat_ucast_mod)
  ultimately show ?thesis using m assms(1) by (simp add: word_unat_eq_iff)
qed

lemma mul32_row_eq:
  "bi_mul32_row k i j yi zv f xv = (f', xv') \<Longrightarrow> bi_mul_row k i j yi zv (ucast f) xv = (ucast f', xv')"
proof (induction k arbitrary: j f xv)
  case (Suc k)
  obtain s r where m: "bi_mac16 yi (zv ! j) (xv ! (i + j)) f = (s, r)" by force
  have "unat (ucast f :: u64) = unat f" using unat_width_less(3) [of f] by (simp add: unat_ucast_mod)
  from mac16_mac64 [OF this m] show ?case using Suc m by simp
qed simp

lemma mul32_rows_eq: "bi_mul32_rows k i yv zv nz xv = bi_mul_rows k i yv zv nz xv"
proof (induction k arbitrary: i xv)
  case (Suc k)
  obtain f xv1 where r: "bi_mul32_row nz i 0 (yv ! i) zv 0 xv = (f, xv1)" by force
  have "bi_mul_row nz i 0 (yv ! i) zv 0 xv = (ucast f, xv1)" using mul32_row_eq [OF r] by simp
  moreover have "(0 < (ucast f :: u64)) = (0 < f)" "ucast (ucast f :: u64) = f"
    using unat_width_less(3) [of f] by (simp_all add: word_less_nat_alt word_unat_eq_iff unat_ucast_mod)
  ultimately show ?case using r Suc by simp
qed simp

lemma mul32_eq: "bi_mul32 x y z = duk__bi_mul x y z"
  by (simp only: bi_mul32_def duk__bi_mul_def mul32_rows_eq)

subsection \<open>Exponentiation\<close>

lemma mul_copy_spec:
  assumes "duk__bi_is_valid x" "duk__bi_is_valid y" "bi_array t" "bi_val x * bi_val y < 2 ^ (32 * 36)"
    "duk__bi_mul_copy x y t = (x', t')"
  shows "duk__bi_is_valid x' \<and> bi_val x' = bi_val x * bi_val y \<and> bi_array t'"
proof -
  have m: "duk__bi_is_valid (duk__bi_mul t x y) \<and> bi_val (duk__bi_mul t x y) = bi_val x * bi_val y \<and> bi_array (duk__bi_mul t x y)"
    using assms by (intro mul_spec mul_parts)
  have "x' = duk__bi_copy x (duk__bi_mul t x y)" "t' = duk__bi_mul t x y"
    using assms(5) by (auto simp: duk__bi_mul_copy_def Let_def)
  with m copy_spec [of "duk__bi_mul t x y" x] valid_array [OF assms(1)] show ?thesis by simp
qed

lemma exp_loop_spec:
  assumes "duk__bi_is_valid x" "duk__bi_is_valid t1" "bi_array t2" "1 \<le> bi_val x" "1 \<le> bi_val t1"
    "bi_val x * bi_val t1 ^ y < 2 ^ (32 * 36)"
  shows "duk__bi_is_valid (bi_exp_loop y x t1 t2) \<and> bi_val (bi_exp_loop y x t1 t2) = bi_val x * bi_val t1 ^ y"
  using assms
proof (induction y x t1 t2 rule: bi_exp_loop.induct)
  case (1 y x t1 t2)
  obtain x1 s where s: "(if odd y then duk__bi_mul_copy x t1 t2 else (x, t2)) = (x1, s)" by force
  have x1: "duk__bi_is_valid x1 \<and> bi_val x1 = (if odd y then bi_val x * bi_val t1 else bi_val x) \<and> bi_array s"
  proof (cases "odd y")
    case True
    then have "bi_val x * bi_val t1 \<le> bi_val x * bi_val t1 ^ y"
      using "1.prems"(5) by (intro mult_le_mono2 self_le_power) (simp_all add: odd_pos)
    then have b: "bi_val x * bi_val t1 < 2 ^ (32 * 36)" using "1.prems"(6) by (rule le_less_trans)
    have "duk__bi_mul_copy x t1 t2 = (x1, s)" using s True by simp
    from mul_copy_spec [OF "1.prems"(1,2,3) b this] True show ?thesis by simp
  qed (use s "1.prems"(1,3) in simp)
  have p: "bi_val x * bi_val t1 ^ y = bi_val x1 * (bi_val t1 * bi_val t1) ^ (y div 2)"
  proof -
    have "bi_val t1 ^ y = bi_val t1 ^ (2 * (y div 2) + y mod 2)" by simp
    also have "\<dots> = (bi_val t1 * bi_val t1) ^ (y div 2) * bi_val t1 ^ (y mod 2)"
      by (simp only: power_add power_mult power2_eq_square)
    finally show ?thesis using x1 by (auto simp: odd_iff_mod_2_eq_one)
  qed
  show ?case
  proof (cases "y div 2 = 0")
    case True
    then show ?thesis using s x1 p by (simp add: bi_exp_loop.simps [of y] Let_def)
  next
    case False
    obtain t3 s' where m: "duk__bi_mul_copy t1 t1 s = (t3, s')" by force
    have "bi_val t1 * bi_val t1 \<le> (bi_val t1 * bi_val t1) ^ (y div 2)"
      using False "1.prems"(5) by (intro self_le_power) simp_all
    also have "\<dots> \<le> bi_val x1 * (bi_val t1 * bi_val t1) ^ (y div 2)"
      using x1 "1.prems"(4,5) by simp
    finally have "bi_val t1 * bi_val t1 < 2 ^ (32 * 36)" using "1.prems"(6) unfolding p by (rule le_less_trans)
    from mul_copy_spec [OF "1.prems"(2,2) _ this m] x1
    have t: "duk__bi_is_valid t3" "bi_val t3 = bi_val t1 * bi_val t1" "bi_array s'" by simp_all
    have "bi_exp_loop y x t1 t2 = bi_exp_loop (y div 2) x1 t3 s'"
      using s m False by (simp add: bi_exp_loop.simps [of y] Let_def)
    moreover have "duk__bi_is_valid (bi_exp_loop (y div 2) x1 t3 s') \<and>
        bi_val (bi_exp_loop (y div 2) x1 t3 s') = bi_val x1 * bi_val t3 ^ (y div 2)"
      using x1 t "1.prems"(4-6) p by (intro "1.IH" [OF s [symmetric] refl refl False m [symmetric] refl]) simp_all
    ultimately show ?thesis using p t by simp
  qed
qed

lemma twoexp_spec:
  assumes "bi_array x" "y < 32 * DUK__BI_MAX_PARTS"
  shows "duk__bi_is_valid (duk__bi_twoexp x y) \<and> bi_val (duk__bi_twoexp x y) = 2 ^ y"
proof -
  define n where "n = y div 32"
  have n: "n < DUK__BI_MAX_PARTS" using assms(2) by (simp add: n_def less_mult_imp_div_less mult.commute)
  define v where "v = (bi_zero_parts (Suc n) (bi_v x))[n := push_bit (y mod 32) 1]"
  have e: "duk__bi_twoexp x y = x\<lparr>bi_n := Suc n, bi_v := v\<rparr>"
    by (simp add: duk__bi_twoexp_def v_def n_def Let_def)
  have u: "unat (push_bit (y mod 32) (1 :: u32)) = 2 ^ (y mod 32)"
  proof -
    have "(2 :: nat) ^ (y mod 32) < 2 ^ 32" by (intro power_strict_increasing) simp_all
    then show ?thesis by (simp only: unat_push_bit_mod) simp
  qed
  have l: "length v = DUK__BI_MAX_PARTS" "v ! n = push_bit (y mod 32) 1"
  proof -
    have "length (bi_zero_parts (Suc n) (bi_v x)) = DUK__BI_MAX_PARTS"
      using n assms(1) by (simp add: bi_zero_parts_def bi_array_def del: replicate_Suc)
    with n show "length v = DUK__BI_MAX_PARTS" "v ! n = push_bit (y mod 32) 1"
      unfolding v_def by (simp_all only: length_list_update nth_list_update_eq)
  qed
  have "take n v = replicate n 0" by (simp add: v_def bi_zero_parts_def del: replicate_Suc)
  then have "le_val (take (Suc n) v) = 2 ^ (32 * n) * 2 ^ (y mod 32)"
    using le_val_take_Suc [of n v] l n u by (simp add: le_val_zero)
  also have "\<dots> = 2 ^ y" by (simp add: power_add [symmetric] n_def)
  finally have "bi_val (duk__bi_twoexp x y) = 2 ^ y" by (simp add: e bi_val_def)
  moreover have "v ! n \<noteq> 0" unfolding l(2) using u by (auto simp: word_unat_eq_iff)
  ultimately show ?thesis using l n by (simp add: e duk__bi_is_valid_def bi_array_def)
qed

lemma exp_small_spec:
  assumes "bi_array x" "bi_array t1" "bi_array t2" "1 \<le> b" "b < 2 ^ 32" "b ^ y < 2 ^ (32 * 36)"
  shows "duk__bi_is_valid (duk__bi_exp_small x b y t1 t2) \<and> bi_val (duk__bi_exp_small x b y t1 t2) = b ^ y"
proof (cases "b = 2")
  case True
  then have "(2 :: nat) ^ y < 2 ^ (32 * 36)" using assms(6) by simp
  then have "y < 32 * 36" by (rule power_less_imp_less_exp [rotated]) simp
  then show ?thesis using twoexp_spec [OF assms(1), of y] True
    by (simp add: duk__bi_exp_small_def DUK__BI_MAX_PARTS_def)
next
  case False
  have v: "duk__bi_is_valid (duk__bi_set_small x 1)" "bi_val (duk__bi_set_small x 1) = 1"
    "duk__bi_is_valid (duk__bi_set_small t1 (of_nat b))" "bi_val (duk__bi_set_small t1 (of_nat b)) = b"
    using set_small_spec [OF assms(1), of 1] set_small_spec [OF assms(2), of "of_nat b"] assms(5)
    by (simp_all add: unat_of_nat)
  show ?thesis using exp_loop_spec [OF v(1,3) assms(3), of y] v(2,4) assms(4,6) False
    by (simp add: duk__bi_exp_small_def)
qed

lemma is_even_spec: "duk__bi_is_valid x \<Longrightarrow> duk__bi_is_even x \<longleftrightarrow> even (bi_val x)"
proof -
  assume v: "duk__bi_is_valid x"
  show ?thesis
  proof (cases "bi_n x")
    case 0
    then show ?thesis by (simp add: duk__bi_is_even_def bi_val_def)
  next
    case (Suc n)
    with v obtain w ws where w: "bi_v x = w # ws" by (cases "bi_v x") (auto simp: duk__bi_is_valid_def bi_array_def)
    have "w AND 1 = 0 \<longleftrightarrow> even (unat w)" by (simp add: word_unat_eq_iff unat_and_1 even_iff_mod_2_eq_zero)
    with Suc w show ?thesis by (simp add: duk__bi_is_even_def bi_val_def)
  qed
qed

lemma is_zero_spec: "duk__bi_is_valid x \<Longrightarrow> duk__bi_is_zero x \<longleftrightarrow> bi_val x = 0"
  by (simp add: duk__bi_is_zero_def bi_val_zero)

lemma valid_inj:
  assumes "duk__bi_is_valid x" "duk__bi_is_valid y" "bi_val x = bi_val y"
  shows "bi_n x = bi_n y \<and> take (bi_n x) (bi_v x) = take (bi_n y) (bi_v y)"
proof -
  have n: "bi_n x = bi_n y"
    using valid_n_le [OF assms(1), of "bi_n y"] valid_n_le [OF assms(2), of "bi_n x"]
      valid_upper [OF assms(1)] valid_upper [OF assms(2)] assms(3) by simp
  have inj: "length xs = length ys \<Longrightarrow> le_val xs = le_val ys \<Longrightarrow> xs = ys" for xs ys
  proof (induction xs ys rule: list_induct2)
    case (Cons u us w ws)
    have "a = b \<and> p = q" if "a + 4294967296 * p = b + 4294967296 * q" "a < 4294967296" "b < 4294967296" for a b p q :: nat
      using arg_cong [OF that(1), of "\<lambda>n. n mod 4294967296"] arg_cong [OF that(1), of "\<lambda>n. n div 4294967296"]
        that(2,3) by simp
    from this [of "unat u" "le_val us" "unat w" "le_val ws"] Cons.prems unat_width_less(3) [of u] unat_width_less(3) [of w]
    have "unat u = unat w \<and> le_val us = le_val ws" by simp
    with Cons.IH show ?case by (simp add: word_unat_eq_iff)
  qed simp
  from n show ?thesis
    using inj [of "take (bi_n x) (bi_v x)" "take (bi_n y) (bi_v y)"] assms
    by (simp add: duk__bi_is_valid_def bi_array_def bi_val_def)
qed

lemma take_two: "2 \<le> length v \<Longrightarrow> take 2 v = [v ! 0, v ! 1]"
proof (induction v)
  case (Cons a w)
  then show ?case by (cases w) simp_all
qed simp

lemma is_2to52_spec: "duk__bi_is_valid x \<Longrightarrow> duk__bi_is_2to52 x \<longleftrightarrow> bi_val x = 2 ^ 52"
proof -
  assume v: "duk__bi_is_valid x"
  define y where "y = \<lparr>bi_n = 2, bi_v = [0, 1048576] @ replicate 35 0\<rparr>"
  have y: "duk__bi_is_valid y" "bi_val y = 2 ^ 52" "take (bi_n y) (bi_v y) = [0, 1048576]" "bi_n y = 2"
    by (simp_all add: y_def duk__bi_is_valid_def bi_array_def DUK__BI_MAX_PARTS_def bi_val_def)
  have "(bi_n x = 2 \<and> take (bi_n x) (bi_v x) = [0, 1048576]) \<longleftrightarrow> bi_val x = 2 ^ 52"
    using valid_inj [OF v y(1)] y by (auto simp: bi_val_def)
  moreover have "duk__bi_is_2to52 x \<longleftrightarrow> (bi_n x = 2 \<and> take (bi_n x) (bi_v x) = [0, 1048576])"
    using v by (auto simp: duk__bi_is_2to52_def duk__bi_is_valid_def bi_array_def DUK__BI_MAX_PARTS_def take_two)
  ultimately show ?thesis by simp
qed

subsection \<open>Properties\<close>

text \<open>
  the variants of addition, subtraction and multiplication for compilers without 64-bit
  arithmetic (carries and borrows found by comparing wrapped 32-bit values, products put
  together from four 16-bit ones) compute the same number, part by part, as the variants
  with a 64-bit accumulator, for every destination, also on invalid arguments.
\<close>

lemma bigint_variants_agree:
  "bi_add32 x y z = duk__bi_add x y z \<and> bi_sub32 x y z = duk__bi_sub x y z \<and> bi_mul32 x y z = duk__bi_mul x y z"
  by (simp add: add32_eq sub32_eq mul32_eq)

text \<open>
  C27: on valid numbers the operations are those of the natural numbers as long as the
  result fits: the sum fits in 37 parts, the difference is not negative, the product
  is below 36 full parts (so that the 37 parts hold every intermediate part).  The results
  are valid, that is normalised and inside the array, whatever the destination held, and
  the comparison gives the order of the values.
\<close>

theorem bigint_arithmetic:
  assumes "duk__bi_is_valid y" "duk__bi_is_valid z" "bi_array x"
  shows "(bi_val y + bi_val z < 2 ^ (32 * DUK__BI_MAX_PARTS) \<longrightarrow>
      duk__bi_is_valid (duk__bi_add x y z) \<and> bi_val (duk__bi_add x y z) = bi_val y + bi_val z)
    \<and> (bi_val z \<le> bi_val y \<longrightarrow>
      duk__bi_is_valid (duk__bi_sub x y z) \<and> bi_val (duk__bi_sub x y z) = bi_val y - bi_val z)
    \<and> (bi_val y * bi_val z < 2 ^ (32 * 36) \<longrightarrow>
      duk__bi_is_valid (duk__bi_mul x y z) \<and> bi_val (duk__bi_mul x y z) = bi_val y * bi_val z)
    \<and> duk__bi_compare y z = sgn (int (bi_val y) - int (bi_val z))
    \<and> (duk__bi_is_even y \<longleftrightarrow> even (bi_val y)) \<and> (duk__bi_is_zero y \<longleftrightarrow> bi_val y = 0)
    \<and> (duk__bi_is_2to52 y \<longleftrightarrow> bi_val y = 2 ^ 52)"
  using assms add_spec [OF assms] sub_spec [OF assms] mul_spec [OF assms] mul_parts [OF assms(1,2)]
    compare_spec [OF assms(1,2)] is_even_spec is_zero_spec is_2to52_spec
  by (simp add: sgn_if)

definition small_bi :: "u32 \<Rightarrow> duk__bigint" where
  "small_bi w = \<lparr>bi_n = 1, bi_v = w # replicate 36 7\<rparr>"

lemma small_bi_valid: "w \<noteq> 0 \<Longrightarrow> duk__bi_is_valid (small_bi w) \<and> bi_val (small_bi w) = unat w"
  by (simp add: small_bi_def duk__bi_is_valid_def bi_array_def bi_val_def DUK__BI_MAX_PARTS_def)

theorem bigint_arithmetic_witness:
  "bi_val (duk__bi_sub (small_bi 1) (small_bi 9) (small_bi 5)) = 4
   \<and> bi_val (duk__bi_mul (small_bi 1) (small_bi 9) (small_bi 5)) = 45
   \<and> duk__bi_compare (small_bi 9) (small_bi 5) = 1"
  using bigint_arithmetic [of "small_bi 9" "small_bi 5" "small_bi 1"] small_bi_valid [of 9] small_bi_valid [of 5]
    valid_array [of "small_bi 1"] small_bi_valid [of 1]
  by simp

text \<open>
  C30: exponentiation by repeated squaring computes the power whenever the power itself is
  below 36 full parts: no intermediate square or product overflows the array, because
  the last, unneeded square is never computed.
\<close>

theorem bigint_exp:
  assumes "bi_array x" "bi_array t1" "bi_array t2" "1 \<le> b" "b < 2 ^ 32" "b ^ y < 2 ^ (32 * 36)"
  shows "duk__bi_is_valid (duk__bi_exp_small x b y t1 t2) \<and> bi_val (duk__bi_exp_small x b y t1 t2) = b ^ y"
  using assms by (rule exp_small_spec)

theorem bigint_exp_witness:
  "bi_val (duk__bi_exp_small (small_bi 1) 10 308 (small_bi 1) (small_bi 1)) = 10 ^ 308"
  using bigint_exp [of "small_bi 1" "small_bi 1" "small_bi 1" 10 308] valid_array [of "small_bi 1"] small_bi_valid [of 1]
  by simp

end
