(* ===== verification/Crc.thy ===== *)
theory Crc
  imports Prelude
begin

text \<open>
  The cyclic redundancy checks of \<^verbatim>\<open>mod/mod.sys.hash.hh\<close>: the table driven CRC-16 (USB) and
  CRC-32 and the bitwise CRC-8 (PEC), with their tables.  They are compared with the bit by
  bit division of the reflected (CRC-16, CRC-32) and the plain (CRC-8) polynomial, and the
  error detection that the polynomial promises is proved for the table driven code.
\<close>

subsection \<open>The code\<close>

definition crc16_tab :: "u16 list" where
  "crc16_tab = [0x0000, 0xc0c1, 0xc181, 0x0140, 0xc301, 0x03c0, 0x0280, 0xc241, 0xc601, 0x06c0, 0x0780, 0xc741,
    0x0500, 0xc5c1, 0xc481, 0x0440, 0xcc01, 0x0cc0, 0x0d80, 0xcd41, 0x0f00, 0xcfc1, 0xce81, 0x0e40,
    0x0a00, 0xcac1, 0xcb81, 0x0b40, 0xc901, 0x09c0, 0x0880, 0xc841, 0xd801, 0x18c0, 0x1980, 0xd941,
    0x1b00, 0xdbc1, 0xda81, 0x1a40, 0x1e00, 0xdec1, 0xdf81, 0x1f40, 0xdd01, 0x1dc0, 0x1c80, 0xdc41,
    0x1400, 0xd4c1, 0xd581, 0x1540, 0xd701, 0x17c0, 0x1680, 0xd641, 0xd201, 0x12c0, 0x1380, 0xd341,
    0x1100, 0xd1c1, 0xd081, 0x1040, 0xf001, 0x30c0, 0x3180, 0xf141, 0x3300, 0xf3c1, 0xf281, 0x3240,
    0x3600, 0xf6c1, 0xf781, 0x3740, 0xf501, 0x35c0, 0x3480, 0xf441, 0x3c00, 0xfcc1, 0xfd81, 0x3d40,
    0xff01, 0x3fc0, 0x3e80, 0xfe41, 0xfa01, 0x3ac0, 0x3b80, 0xfb41, 0x3900, 0xf9c1, 0xf881, 0x3840,
    0x2800, 0xe8c1, 0xe981, 0x2940, 0xeb01, 0x2bc0, 0x2a80, 0xea41, 0xee01, 0x2ec0, 0x2f80, 0xef41,
    0x2d00, 0xedc1, 0xec81, 0x2c40, 0xe401, 0x24c0, 0x2580, 0xe541, 0x2700, 0xe7c1, 0xe681, 0x2640,
    0x2200, 0xe2c1, 0xe381, 0x2340, 0xe101, 0x21c0, 0x2080, 0xe041, 0xa001, 0x60c0, 0x6180, 0xa141,
    0x6300, 0xa3c1, 0xa281, 0x6240, 0x6600, 0xa6c1, 0xa781, 0x6740, 0xa501, 0x65c0, 0x6480, 0xa441,
    0x6c00, 0xacc1, 0xad81, 0x6d40, 0xaf01, 0x6fc0, 0x6e80, 0xae41, 0xaa01, 0x6ac0, 0x6b80, 0xab41,
    0x6900, 0xa9c1, 0xa881, 0x6840, 0x7800, 0xb8c1, 0xb981, 0x7940, 0xbb01, 0x7bc0, 0x7a80, 0xba41,
    0xbe01, 0x7ec0, 0x7f80, 0xbf41, 0x7d00, 0xbdc1, 0xbc81, 0x7c40, 0xb401, 0x74c0, 0x7580, 0xb541,
    0x7700, 0xb7c1, 0xb681, 0x7640, 0x7200, 0xb2c1, 0xb381, 0x7340, 0xb101, 0x71c0, 0x7080, 0xb041,
    0x5000, 0x90c1, 0x9181, 0x5140, 0x9301, 0x53c0, 0x5280, 0x9241, 0x9601, 0x56c0, 0x5780, 0x9741,
    0x5500, 0x95c1, 0x9481, 0x5440, 0x9c01, 0x5cc0, 0x5d80, 0x9d41, 0x5f00, 0x9fc1, 0x9e81, 0x5e40,
    0x5a00, 0x9ac1, 0x9b81, 0x5b40, 0x9901, 0x59c0, 0x5880, 0x9841, 0x8801, 0x48c0, 0x4980, 0x8941,
    0x4b00, 0x8bc1, 0x8a81, 0x4a40, 0x4e00, 0x8ec1, 0x8f81, 0x4f40, 0x8d01, 0x4dc0, 0x4c80, 0x8c41,
    0x4400, 0x84c1, 0x8581, 0x4540, 0x8701, 0x47c0, 0x4680, 0x8641, 0x8201, 0x42c0, 0x4380, 0x8341,
    0x4100, 0x81c1, 0x8081, 0x4040]"

definition crc32_tab :: "u32 list" where
  "crc32_tab = [0x00000000, 0x77073096, 0xee0e612c, 0x990951ba, 0x076dc419, 0x706af48f, 0xe963a535, 0x9e6495a3,
    0x0edb8832, 0x79dcb8a4, 0xe0d5e91e, 0x97d2d988, 0x09b64c2b, 0x7eb17cbd, 0xe7b82d07, 0x90bf1d91,
    0x1db71064, 0x6ab020f2, 0xf3b97148, 0x84be41de, 0x1adad47d, 0x6ddde4eb, 0xf4d4b551, 0x83d385c7,
    0x136c9856, 0x646ba8c0, 0xfd62f97a, 0x8a65c9ec, 0x14015c4f, 0x63066cd9, 0xfa0f3d63, 0x8d080df5,
    0x3b6e20c8, 0x4c69105e, 0xd56041e4, 0xa2677172, 0x3c03e4d1, 0x4b04d447, 0xd20d85fd, 0xa50ab56b,
    0x35b5a8fa, 0x42b2986c, 0xdbbbc9d6, 0xacbcf940, 0x32d86ce3, 0x45df5c75, 0xdcd60dcf, 0xabd13d59,
    0x26d930ac, 0x51de003a, 0xc8d75180, 0xbfd06116, 0x21b4f4b5, 0x56b3c423, 0xcfba9599, 0xb8bda50f,
    0x2802b89e, 0x5f058808, 0xc60cd9b2, 0xb10be924, 0x2f6f7c87, 0x58684c11, 0xc1611dab, 0xb6662d3d,
    0x76dc4190, 0x01db7106, 0x98d220bc, 0xefd5102a, 0x71b18589, 0x06b6b51f, 0x9fbfe4a5, 0xe8b8d433,
    0x7807c9a2, 0x0f00f934, 0x9609a88e, 0xe10e9818, 0x7f6a0dbb, 0x086d3d2d, 0x91646c97, 0xe6635c01,
    0x6b6b51f4, 0x1c6c6162, 0x856530d8, 0xf262004e, 0x6c0695ed, 0x1b01a57b, 0x8208f4c1, 0xf50fc457,
    0x65b0d9c6, 0x12b7e950, 0x8bbeb8ea, 0xfcb9887c, 0x62dd1ddf, 0x15da2d49, 0x8cd37cf3, 0xfbd44c65,
    0x4db26158, 0x3ab551ce, 0xa3bc0074, 0xd4bb30e2, 0x4adfa541, 0x3dd895d7, 0xa4d1c46d, 0xd3d6f4fb,
    0x4369e96a, 0x346ed9fc, 0xad678846, 0xda60b8d0, 0x44042d73, 0x33031de5, 0xaa0a4c5f, 0xdd0d7cc9,
    0x5005713c, 0x270241aa, 0xbe0b1010, 0xc90c2086, 0x5768b525, 0x206f85b3, 0xb966d409, 0xce61e49f,
    0x5edef90e, 0x29d9c998, 0xb0d09822, 0xc7d7a8b4, 0x59b33d17, 0x2eb40d81, 0xb7bd5c3b, 0xc0ba6cad,
    0xedb88320, 0x9abfb3b6, 0x03b6e20c, 0x74b1d29a, 0xead54739, 0x9dd277af, 0x04db2615, 0x73dc1683,
    0xe3630b12, 0x94643b84, 0x0d6d6a3e, 0x7a6a5aa8, 0xe40ecf0b, 0x9309ff9d, 0x0a00ae27, 0x7d079eb1,
    0xf00f9344, 0x8708a3d2, 0x1e01f268, 0x6906c2fe, 0xf762575d, 0x806567cb, 0x196c3671, 0x6e6b06e7,
    0xfed41b76, 0x89d32be0, 0x10da7a5a, 0x67dd4acc, 0xf9b9df6f, 0x8ebeeff9, 0x17b7be43, 0x60b08ed5,
    0xd6d6a3e8, 0xa1d1937e, 0x38d8c2c4, 0x4fdff252, 0xd1bb67f1, 0xa6bc5767, 0x3fb506dd, 0x48b2364b,
    0xd80d2bda, 0xaf0a1b4c, 0x36034af6, 0x41047a60, 0xdf60efc3, 0xa867df55, 0x316e8eef, 0x4669be79,
    0xcb61b38c, 0xbc66831a, 0x256fd2a0, 0x5268e236, 0xcc0c7795, 0xbb0b4703, 0x220216b9, 0x5505262f,
    0xc5ba3bbe, 0xb2bd0b28, 0x2bb45a92, 0x5cb36a04, 0xc2d7ffa7, 0xb5d0cf31, 0x2cd99e8b, 0x5bdeae1d,
    0x9b64c2b0, 0xec63f226, 0x756aa39c, 0x026d930a, 0x9c0906a9, 0xeb0e363f, 0x72076785, 0x05005713,
    0x95bf4a82, 0xe2b87a14, 0x7bb12bae, 0x0cb61b38, 0x92d28e9b, 0xe5d5be0d, 0x7cdcefb7, 0x0bdbdf21,
    0x86d3d2d4, 0xf1d4e242, 0x68ddb3f8, 0x1fda836e, 0x81be16cd, 0xf6b9265b, 0x6fb077e1, 0x18b74777,
    0x88085ae6, 0xff0f6a70, 0x66063bca, 0x11010b5c, 0x8f659eff, 0xf862ae69, 0x616bffd3, 0x166ccf45,
    0xa00ae278, 0xd70dd2ee, 0x4e048354, 0x3903b3c2, 0xa7672661, 0xd06016f7, 0x4969474d, 0x3e6e77db,
    0xaed16a4a, 0xd9d65adc, 0x40df0b66, 0x37d83bf0, 0xa9bcae53, 0xdebb9ec5, 0x47b2cf7f, 0x30b5ffe9,
    0xbdbdf21c, 0xcabac28a, 0x53b39330, 0x24b4a3a6, 0xbad03605, 0xcdd70693, 0x54de5729, 0x23d967bf,
    0xb3667a2e, 0xc4614ab8, 0x5d681b02, 0x2a6f2b94, 0xb40bbe37, 0xc30c8ea1, 0x5a05df1b, 0x2d02ef8d]"

text \<open>\<^verbatim>\<open>basic_crc::calculate\<close> on raw data, as a function of the table and the two constants.\<close>

fun crc_loop :: "'a::len word list \<Rightarrow> 'a word \<Rightarrow> u8 list \<Rightarrow> 'a word" where
  "crc_loop tab crc [] = crc"
| "crc_loop tab crc (p # ps) = crc_loop tab (tab ! unat ((crc XOR ucast p) AND 0xff) XOR drop_bit 8 crc) ps"

definition basic_crc_calculate :: "'a::len word list \<Rightarrow> 'a word \<Rightarrow> 'a word \<Rightarrow> u8 list \<Rightarrow> 'a word" where
  "basic_crc_calculate tab initial_crc_value final_xor_value data =
     crc_loop tab initial_crc_value data XOR final_xor_value"

definition crc16 :: "u8 list \<Rightarrow> u16" where
  "crc16 data = basic_crc_calculate crc16_tab 0xffff 0xffff data"

definition crc32 :: "u8 list \<Rightarrow> u32" where
  "crc32 data = basic_crc_calculate crc32_tab 0xffffffff 0xffffffff data"

text \<open>\<^verbatim>\<open>crc8\<close>: the size parameter is a \<^verbatim>\<open>uint8_t\<close>, to which the callers' sizes are cut.\<close>

fun crc8_bits :: "nat \<Rightarrow> u16 \<Rightarrow> u16" where
  "crc8_bits 0 crc = crc"
| "crc8_bits (Suc i) crc =
     crc8_bits i (push_bit 1 (if crc AND 0x8000 \<noteq> 0 then crc XOR push_bit 3 0x1070 else crc))"

fun crc8_bytes :: "nat \<Rightarrow> u8 list \<Rightarrow> u16 \<Rightarrow> u16" where
  "crc8_bytes 0 p crc = crc"
| "crc8_bytes (Suc j) p crc = crc8_bytes j (tl p) (crc8_bits 8 (crc XOR push_bit 8 (ucast (hd p))))"

definition crc8 :: "u8 list \<Rightarrow> u8 \<Rightarrow> u8" where
  "crc8 data sz = ucast (drop_bit 8 (crc8_bytes (unat sz) data 0))"

subsection \<open>Bitwise division\<close>

definition crc_bit :: "'a::len word \<Rightarrow> 'a word \<Rightarrow> 'a word" where
  "crc_bit poly c = (if bit c 0 then drop_bit 1 c XOR poly else drop_bit 1 c)"

fun crc_bits :: "nat \<Rightarrow> 'a::len word \<Rightarrow> 'a word \<Rightarrow> 'a word" where
  "crc_bits 0 poly c = c"
| "crc_bits (Suc n) poly c = crc_bits n poly (crc_bit poly c)"

fun crc_ref :: "'a::len word \<Rightarrow> 'a word \<Rightarrow> u8 list \<Rightarrow> 'a word" where
  "crc_ref poly c [] = c"
| "crc_ref poly c (b # bs) = crc_ref poly (crc_bits 8 poly (c XOR ucast b)) bs"

definition crc_table_ok :: "'a::len word \<Rightarrow> 'a word list \<Rightarrow> bool" where
  "crc_table_ok poly tab \<longleftrightarrow> tab = map (\<lambda>i. crc_bits 8 poly (of_nat i)) [0..<256]"

lemma crc_bit_xor: "crc_bit poly (a XOR b) = crc_bit poly a XOR crc_bit poly b"
  by (auto simp: crc_bit_def bit_xor_iff drop_bit_xor intro!: bit_word_eqI)

lemma crc_bits_xor: "crc_bits n poly (a XOR b) = crc_bits n poly a XOR crc_bits n poly b"
  by (induction n arbitrary: a b) (simp_all add: crc_bit_xor)

lemma crc_bits_shift:
  "(\<And>i. i < n \<Longrightarrow> \<not> bit c i) \<Longrightarrow> crc_bits n poly c = drop_bit n c"
proof (induction n arbitrary: c)
  case (Suc n)
  have "crc_bit poly c = drop_bit 1 c" using Suc.prems [of 0] by (simp add: crc_bit_def)
  moreover have "crc_bits n poly (drop_bit 1 c) = drop_bit n (drop_bit 1 c)"
    by (rule Suc.IH) (use Suc.prems in \<open>simp add: bit_drop_bit_eq\<close>)
  ultimately show ?case by (simp add: drop_bit_drop_bit)
qed simp

lemma crc_bits_byte:
  assumes "8 \<le> LENGTH('a::len)"
  shows "crc_bits 8 poly (c :: 'a word) = crc_bits 8 poly (c AND 0xff) XOR drop_bit 8 c"
proof -
  have m: "(0xff :: 'a word) = mask 8" by (simp add: mask_eq_exp_minus_1)
  have "c = (c AND 0xff) XOR (c AND NOT (mask 8))"
    unfolding m by (rule bit_word_eqI) (auto simp: bit_simps)
  then have "crc_bits 8 poly c = crc_bits 8 poly (c AND 0xff) XOR crc_bits 8 poly (c AND NOT (mask 8))"
    by (metis crc_bits_xor)
  also have "crc_bits 8 poly (c AND NOT (mask 8)) = drop_bit 8 (c AND NOT (mask 8))"
    by (rule crc_bits_shift) (simp add: bit_simps)
  also have "\<dots> = drop_bit 8 c"
    by (rule bit_word_eqI) (auto simp: bit_simps dest: bit_imp_le_length)
  finally show ?thesis .
qed

lemma crc_loop_ref:
  assumes "crc_table_ok poly tab" "8 \<le> LENGTH('a::len)"
  shows "crc_loop tab (c :: 'a word) ps = crc_ref poly c ps"
proof (induction ps arbitrary: c)
  case (Cons p ps)
  let ?x = "c XOR ucast p"
  have "tab ! unat (?x AND 0xff) = crc_bits 8 poly (of_nat (unat (?x AND 0xff)))"
    using assms(1) by (simp add: crc_table_ok_def unat_and_num)
  then have t: "tab ! unat (?x AND 0xff) = crc_bits 8 poly (?x AND 0xff)" by simp
  have "drop_bit 8 c = drop_bit 8 ?x"
    by (rule bit_word_eqI) (auto simp: bit_simps dest: bit_imp_le_length)
  then have "tab ! unat (?x AND 0xff) XOR drop_bit 8 c = crc_bits 8 poly ?x"
    using crc_bits_byte [OF assms(2), of poly ?x] by (simp only: t)
  then show ?case by (simp only: crc_loop.simps crc_ref.simps Cons)
qed simp

text \<open>
  The tables are checked through their structure: by linearity a table is built by doubling
  from its values at the powers of two.
\<close>

fun xor_span :: "'a::len word list \<Rightarrow> 'a word list" where
  "xor_span [] = [0]"
| "xor_span (t # ts) = (let r = xor_span ts in r @ map (\<lambda>x. t XOR x) r)"

lemma crc_bits_0 [simp]: "crc_bits n poly 0 = 0"
  by (induction n) (simp_all add: crc_bit_def)

lemma crc_bits_8: "crc_bits 8 poly c = (let f = crc_bit poly in f (f (f (f (f (f (f (f c))))))))"
  by (simp add: numeral_eq_Suc Let_def)

lemma of_nat_high_bit:
  assumes "i < 2 ^ n" "n < LENGTH('a::len)"
  shows "(of_nat (2 ^ n + i) :: 'a word) = push_bit n 1 XOR of_nat i"
proof (rule bit_word_eqI)
  fix k assume "k < LENGTH('a)"
  have "(2 ^ n + i :: nat) = 2 ^ n OR i"
    by (rule disjunctive_add) (use bit_nat_small [OF assms(1)] in \<open>auto simp: bit_exp_iff\<close>)
  then have "bit (2 ^ n + i) k \<longleftrightarrow> (k = n \<or> bit i k)" by (auto simp: bit_or_iff bit_exp_iff)
  moreover have "\<not> bit i n" by (rule bit_nat_small [OF assms(1)]) simp
  ultimately show "bit (of_nat (2 ^ n + i) :: 'a word) k = bit (push_bit n 1 XOR of_nat i :: 'a word) k"
    using \<open>k < LENGTH('a)\<close> by (auto simp: bit_simps simp del: of_nat_add of_nat_power)
qed

lemma xor_span_map:
  assumes "n \<le> LENGTH('a::len)"
  shows "xor_span (map (\<lambda>k. crc_bits 8 poly (push_bit k 1 :: 'a word)) (rev [0..<n]))
    = map (\<lambda>i. crc_bits 8 poly (of_nat i)) [0..<2 ^ n]"
  using assms
proof (induction n)
  case (Suc n)
  have "[0..<2 ^ Suc n] = [0..<2 ^ n] @ map (\<lambda>i. 2 ^ n + i) [0..<2 ^ n]"
    using upt_add_eq_append [of 0 "2 ^ n" "2 ^ n"] map_add_upt [of "2 ^ n" "2 ^ n"] by (simp add: add.commute mult_2)
  moreover have "map (\<lambda>i. crc_bits 8 poly (of_nat (2 ^ n + i) :: 'a word)) [0..<2 ^ n]
      = map (\<lambda>i. crc_bits 8 poly (push_bit n 1) XOR crc_bits 8 poly (of_nat i)) [0..<2 ^ n]"
    using Suc.prems by (intro map_cong refl) (simp only: of_nat_high_bit crc_bits_xor Suc_le_eq atLeastLessThan_upt [symmetric] atLeastLessThan_iff)
  ultimately show ?case using Suc by (simp add: Let_def comp_def)
qed simp

lemma table_ok:
  assumes "8 \<le> LENGTH('a::len)" "tab = xor_span bs" "bs = map (\<lambda>k. crc_bits 8 poly (push_bit k 1 :: 'a word)) [7, 6, 5, 4, 3, 2, 1, 0]"
  shows "crc_table_ok poly tab"
proof -
  have "rev [0..<8] = [7, 6, 5, 4, 3, 2, 1, 0 :: nat]" by (simp add: upt8)
  then show ?thesis
    using xor_span_map [OF assms(1), of poly] assms(2,3) by (simp add: crc_table_ok_def)
qed

lemma crc16_table: "crc_table_ok 0xa001 crc16_tab"
proof (rule table_ok [where bs = "[0xa001, 0xf001, 0xd801, 0xcc01, 0xc601, 0xc301, 0xc181, 0xc0c1]"])
  show "crc16_tab = xor_span [0xa001, 0xf001, 0xd801, 0xcc01, 0xc601, 0xc301, 0xc181, 0xc0c1]"
    by (simp add: crc16_tab_def)
qed (simp_all add: crc_bits_8 crc_bit_def)

lemma crc32_table: "crc_table_ok 0xedb88320 crc32_tab"
proof (rule table_ok [where bs = "[0xedb88320, 0x76dc4190, 0x3b6e20c8, 0x1db71064, 0x0edb8832, 0x076dc419, 0xee0e612c, 0x77073096]"])
  show "crc32_tab = xor_span [0xedb88320, 0x76dc4190, 0x3b6e20c8, 0x1db71064, 0x0edb8832, 0x076dc419, 0xee0e612c, 0x77073096]"
    by (simp add: crc32_tab_def)
qed (simp_all add: crc_bits_8 crc_bit_def)

subsection \<open>The bitwise CRC-8\<close>

definition crc8_bit :: "u8 \<Rightarrow> u8" where
  "crc8_bit c = (if bit c 7 then push_bit 1 c XOR 0x07 else push_bit 1 c)"

fun crc8_ref :: "u8 \<Rightarrow> u8 list \<Rightarrow> u8" where
  "crc8_ref c [] = c"
| "crc8_ref c (b # bs) = crc8_ref ((crc8_bit ^^ 8) (c XOR b)) bs"

lemma and_push_bit_1: "x AND push_bit n 1 \<noteq> 0 \<longleftrightarrow> bit (x :: 'a::len word) n"
proof (cases "n < LENGTH('a)")
  case True
  have "bit (x AND push_bit n 1) k \<longleftrightarrow> k = n \<and> bit x n" for k
    using True by (auto simp: bit_simps)
  then show ?thesis by (metis bit_0_eq bot_apply bot_bool_def bit_eq_iff)
next
  case False
  then have p: "push_bit n 1 = (0 :: 'a word)" by (intro bit_word_eqI) (auto simp: bit_simps)
  have "\<not> bit x n" using False bit_imp_le_length by blast
  then show ?thesis unfolding p by simp
qed

lemma crc8_step:
  "push_bit 1 (if push_bit 8 (ucast (c :: u8) :: u16) AND 0x8000 \<noteq> 0 then push_bit 8 (ucast c) XOR push_bit 3 0x1070 else push_bit 8 (ucast c) :: u16)
    = push_bit 8 (ucast (crc8_bit c))"
proof -
  have "(0x8000 :: u16) = push_bit 15 1" by simp
  then have t: "push_bit 8 (ucast c :: u16) AND 0x8000 \<noteq> 0 \<longleftrightarrow> bit c 7"
    by (simp only: and_push_bit_1 bit_push_bit_iff bit_ucast_iff) simp
  have k: "push_bit 1 (push_bit 3 0x1070 :: u16) = push_bit 8 (ucast (0x07 :: u8))" by simp
  have p: "push_bit 1 (push_bit 8 (ucast c :: u16)) = push_bit 8 (ucast (push_bit 1 c))"
  proof (rule bit_word_eqI)
    fix n assume "n < LENGTH(16)"
    have "bit c m \<Longrightarrow> m < 8" for m using bit_imp_le_length [of c m] by simp
    then show "bit (push_bit 1 (push_bit 8 (ucast c :: u16))) n = bit (push_bit 8 (ucast (push_bit 1 c)) :: u16) n"
      using \<open>n < LENGTH(16)\<close>
      by (simp only: push_bit_push_bit bit_push_bit_iff bit_ucast_iff possible_bit_word diff_diff_left) fastforce
  qed
  show ?thesis unfolding t crc8_bit_def
    by (simp only: push_bit_xor k p unsigned_xor_eq split: if_split) simp
qed

lemma crc8_bits_ref: "crc8_bits n (push_bit 8 (ucast c)) = push_bit 8 (ucast ((crc8_bit ^^ n) c))"
  by (induction n arbitrary: c) (simp_all only: crc8_bits.simps crc8_step funpow_Suc_right comp_apply, simp)

lemma crc8_bytes_ref: "n \<le> length p \<Longrightarrow> crc8_bytes n p (push_bit 8 (ucast c)) = push_bit 8 (ucast (crc8_ref c (take n p)))"
proof (induction n arbitrary: p c)
  case (Suc n)
  then obtain b q where p: "p = b # q" by (cases p) auto
  have "push_bit 8 (ucast c) XOR push_bit 8 (ucast b) = (push_bit 8 (ucast (c XOR b)) :: u16)"
    by (simp only: push_bit_xor unsigned_xor_eq)
  then have "crc8_bytes (Suc n) p (push_bit 8 (ucast c)) = crc8_bytes n q (push_bit 8 (ucast ((crc8_bit ^^ 8) (c XOR b))))"
    by (simp only: p crc8_bytes.simps list.sel crc8_bits_ref)
  with Suc p show ?case by (simp del: funpow.simps)
qed simp

lemma crc8_spec: "unat n \<le> length data \<Longrightarrow> crc8 data n = crc8_ref 0 (take (unat n) data)"
proof -
  assume "unat n \<le> length data"
  then have "crc8_bytes (unat n) data (push_bit 8 (ucast (0 :: u8))) = push_bit 8 (ucast (crc8_ref 0 (take (unat n) data)))"
    by (rule crc8_bytes_ref)
  moreover have "ucast (drop_bit 8 (push_bit 8 (ucast c :: u16))) = c" for c :: u8
    by (rule bit_word_eqI) (auto simp: bit_simps)
  ultimately show ?thesis by (simp only: crc8_def) simp
qed

subsection \<open>Error detection\<close>

text \<open>Bytes not longer than the register act on the message like one exclusive or with it.\<close>

fun le_word :: "u8 list \<Rightarrow> 'a::len word" where
  "le_word [] = 0"
| "le_word (b # bs) = ucast b XOR push_bit 8 (le_word bs)"

lemma bit_le_word:
  "8 * length bs \<le> LENGTH('a::len) \<Longrightarrow> n < LENGTH('a) \<Longrightarrow>
    bit (le_word bs :: 'a word) n \<longleftrightarrow> n div 8 < length bs \<and> bit (bs ! (n div 8)) (n mod 8)"
proof (induction bs arbitrary: n)
  case (Cons b bs)
  show ?case
  proof (cases "n < 8")
    case True
    then show ?thesis using Cons.prems by (simp add: bit_simps)
  next
    case False
    then obtain m where m: "n = 8 + m" using le_Suc_ex not_less by blast
    have "\<not> bit b n" using bit_imp_le_length [of b n] False by auto
    moreover have "(8 + m) div 8 = Suc (m div 8)" "(8 + m) mod 8 = m mod 8" by simp_all
    ultimately show ?thesis using Cons.IH [of m] Cons.prems m by (simp add: bit_simps del: div_add_self1 div_add_self2 mod_add_self1)
  qed
qed simp

lemma le_word_inj:
  assumes "le_word bs = (le_word cs :: 'a::len word)" "length bs = length cs" "8 * length bs \<le> LENGTH('a)"
  shows "bs = cs"
proof (rule nth_equalityI [OF assms(2)])
  fix i assume i: "i < length bs"
  show "bs ! i = cs ! i"
  proof (rule bit_word_eqI)
    fix n assume "n < LENGTH(8)"
    then have n: "8 * i + n < LENGTH('a)" "(8 * i + n) div 8 = i" "(8 * i + n) mod 8 = n" using i assms(3) by simp_all
    from bit_le_word [OF _ n(1), of bs] bit_le_word [OF _ n(1), of cs] assms i n(2,3)
    show "bit (bs ! i) n = bit (cs ! i) n" by simp
  qed
qed

lemma crc_bits_add: "crc_bits (m + n) poly c = crc_bits n poly (crc_bits m poly c)"
  by (induction m arbitrary: c) simp_all

lemma crc_ref_le_word:
  "8 * length bs \<le> LENGTH('a::len) \<Longrightarrow>
    crc_ref poly c bs = crc_bits (8 * length bs) poly ((c :: 'a word) XOR le_word bs)"
proof (induction bs arbitrary: c)
  case (Cons b bs)
  have s: "crc_bits 8 poly (push_bit 8 (le_word bs) :: 'a word) = le_word bs"
  proof -
    have "crc_bits 8 poly (push_bit 8 (le_word bs) :: 'a word) = drop_bit 8 (push_bit 8 (le_word bs))"
      by (rule crc_bits_shift) (simp add: bit_simps)
    also have "\<dots> = le_word bs"
    proof (rule bit_word_eqI)
      fix n assume n: "n < LENGTH('a)"
      have "8 + n < LENGTH('a)" if "bit (le_word bs :: 'a word) n"
      proof -
        have "n div 8 < length bs" using that bit_le_word [of bs n, where 'a = 'a] Cons.prems n by simp
        then have "n < 8 * length bs" by (simp add: less_mult_imp_div_less div_less_iff_less_mult mult.commute)
        then show ?thesis using Cons.prems by simp
      qed
      then show "bit (drop_bit 8 (push_bit 8 (le_word bs :: 'a word))) n = bit (le_word bs :: 'a word) n"
        using n by (auto simp: bit_simps)
    qed
    finally show ?thesis .
  qed
  have "crc_ref poly c (b # bs) = crc_bits (8 * length bs) poly (crc_bits 8 poly (c XOR ucast b) XOR le_word bs)"
    using Cons by simp
  also have "crc_bits 8 poly (c XOR ucast b) XOR le_word bs = crc_bits 8 poly (c XOR le_word (b # bs))"
    by (simp only: le_word.simps crc_bits_xor s xor.assoc)
  finally show ?case using crc_bits_add [of 8 "8 * length bs" poly] by simp
qed simp

lemma xor_cancel: "a XOR k = b XOR k \<longleftrightarrow> a = (b :: 'a::len word)" "k XOR a = k XOR b \<longleftrightarrow> a = b"
  by (metis xor.assoc xor.right_neutral xor_self_eq) (metis xor.assoc xor.left_neutral xor_self_eq)

lemma crc_bit_inj:
  assumes "bit poly (LENGTH('a::len) - 1)" "crc_bit poly c = crc_bit poly (d :: 'a word)"
  shows "c = d"
proof -
  have top: "bit (crc_bit poly x) (LENGTH('a) - 1) \<longleftrightarrow> bit x 0" for x :: "'a word"
    using assms(1) by (auto simp: crc_bit_def bit_simps dest: bit_imp_le_length)
  then have z: "bit c 0 \<longleftrightarrow> bit d 0" using assms(2) by metis
  with assms(2) have d: "drop_bit 1 c = drop_bit 1 d"
    using z by (cases "bit c 0") (simp_all add: crc_bit_def xor_cancel)
  show ?thesis
  proof (rule bit_word_eqI)
    fix n
    show "bit c n = bit d n"
      using z arg_cong [OF d, of "\<lambda>x. bit x (n - 1)"] by (cases n) (simp_all add: bit_drop_bit_eq)
  qed
qed

lemma crc_bits_inj: "bit poly (LENGTH('a::len) - 1) \<Longrightarrow> crc_bits n poly c = crc_bits n poly (d :: 'a word) \<Longrightarrow> c = d"
proof (induction n arbitrary: c d)
  case (Suc n)
  then show ?case using crc_bit_inj [OF Suc.prems(1)] unfolding crc_bits.simps by blast
qed simp

lemma crc_ref_append: "crc_ref poly c (xs @ ys) = crc_ref poly (crc_ref poly c xs) ys"
  by (induction xs arbitrary: c) simp_all

lemma crc_ref_state_inj:
  "bit poly (LENGTH('a::len) - 1) \<Longrightarrow> crc_ref poly c bs = crc_ref poly (d :: 'a word) bs \<Longrightarrow> c = d"
proof (induction bs arbitrary: c d)
  case (Cons b bs)
  then have "crc_bits 8 poly (c XOR ucast b) = crc_bits 8 poly (d XOR ucast b)" by simp
  then have "c XOR ucast b = d XOR ucast b" by (rule crc_bits_inj [OF Cons.prems(1)])
  then show ?case by (simp only: xor_cancel)
qed simp

lemma crc_ref_burst:
  fixes poly :: "'a::len word"
  assumes "bit poly (LENGTH('a) - 1)" "length bs = length cs" "8 * length bs \<le> LENGTH('a)" "bs \<noteq> cs"
  shows "crc_ref poly c (xs @ bs @ ys) \<noteq> crc_ref poly c (xs @ cs @ ys)"
proof
  assume "crc_ref poly c (xs @ bs @ ys) = crc_ref poly c (xs @ cs @ ys)"
  then have "crc_ref poly (crc_ref poly c xs) bs = crc_ref poly (crc_ref poly c xs) cs"
    unfolding crc_ref_append by (rule crc_ref_state_inj [OF assms(1)])
  then have "crc_ref poly c xs XOR le_word bs = crc_ref poly c xs XOR le_word cs"
    using assms(2,3) by (auto simp: crc_ref_le_word intro: crc_bits_inj [OF assms(1)])
  then have "le_word bs = (le_word cs :: 'a word)" by (simp only: xor_cancel)
  with le_word_inj assms(2-4) show False by blast
qed

lemma crc16_ref: "crc16 data = crc_ref 0xa001 0xffff data XOR 0xffff"
  by (simp add: crc16_def basic_crc_calculate_def crc_loop_ref [OF crc16_table])

lemma crc32_ref: "crc32 data = crc_ref 0xedb88320 0xffffffff data XOR 0xffffffff"
  by (simp add: crc32_def basic_crc_calculate_def crc_loop_ref [OF crc32_table])

subsection \<open>Properties\<close>

text \<open>
  the table driven checks compute the bit by bit division of the documented
  polynomials: CRC-16/USB (reflected 0x8005, initial value and final exclusive or 0xffff) and
  CRC-32 (reflected 0x04c11db7, all ones) on every input, and CRC-8/PEC (0x07, zero) on
  inputs of at most 255 bytes.
\<close>

lemma crc_table_driven:
  "crc16 data = crc_ref 0xa001 0xffff data XOR 0xffff
   \<and> crc32 data = crc_ref 0xedb88320 0xffffffff data XOR 0xffffffff
   \<and> (length data \<le> 255 \<longrightarrow> crc8 data (of_nat (length data)) = crc8_ref 0 data)"
  using crc8_spec [of "of_nat (length data)" data] by (simp add: crc16_ref crc32_ref unat_of_nat)

lemma crc_table_driven_witness: "crc8 [0x31] 1 = crc8_ref 0 [0x31]"
  using crc_table_driven [of "[0x31]"] by simp

text \<open>
  C36: error detection: two messages that differ only in a burst of at most two (CRC-16) or
  four (CRC-32) consecutive bytes, anywhere in the message, have different check values.
\<close>

theorem crc_detects_bursts:
  assumes "length bs = length cs" "bs \<noteq> cs"
  shows "(length bs \<le> 2 \<longrightarrow> crc16 (xs @ bs @ ys) \<noteq> crc16 (xs @ cs @ ys))
    \<and> (length bs \<le> 4 \<longrightarrow> crc32 (xs @ bs @ ys) \<noteq> crc32 (xs @ cs @ ys))"
proof -
  have "crc_ref 0xa001 (0xffff :: u16) (xs @ bs @ ys) \<noteq> crc_ref 0xa001 0xffff (xs @ cs @ ys)" if "length bs \<le> 2"
    by (rule crc_ref_burst) (use assms that in \<open>simp_all\<close>)
  moreover have "crc_ref 0xedb88320 (0xffffffff :: u32) (xs @ bs @ ys) \<noteq> crc_ref 0xedb88320 0xffffffff (xs @ cs @ ys)"
    if "length bs \<le> 4"
    by (rule crc_ref_burst) (use assms that in \<open>simp_all\<close>)
  ultimately show ?thesis
    unfolding crc16_ref crc32_ref xor_cancel by blast
qed

theorem crc_detects_bursts_witness: "crc16 ([1] @ [2, 3] @ [4]) \<noteq> crc16 ([1] @ [3, 2] @ [4])"
  using crc_detects_bursts [of "[2, 3]" "[3, 2]" "[1]" "[4]"] by simp

end
