(* ===== verification/Blockhash.thy ===== *)
theory Blockhash
  imports Prelude
begin

text \<open>
  The common structure of the digests of \<^verbatim>\<open>mod/mod.sys.hash.hh\<close>: bytes are collected into
  blocks, every complete block is compressed into the chaining value, and at the end the
  rest is padded.  The contract between the incremental interface and this structure is the
  locale \<open>block_hash\<close>; the three digests interpret it.  The reading of a stream in pieces of
  64 bytes and the hexadecimal printing that they share are modelled here.
\<close>

subsection \<open>Compressing blocks\<close>

function absorb :: "nat \<Rightarrow> ('s \<Rightarrow> u8 list \<Rightarrow> 's) \<Rightarrow> 's \<Rightarrow> u8 list \<Rightarrow> 's \<times> u8 list" where
  "absorb B f s xs = (if B = 0 \<or> length xs < B then (s, xs) else absorb B f (f s (take B xs)) (drop B xs))"
  by pat_completeness auto
termination
  by (relation "measure (\<lambda>(B, f, s, xs). length xs)") auto

declare absorb.simps [simp del]

lemma absorb_short: "length xs < B \<Longrightarrow> absorb B f s xs = (s, xs)"
  by (simp add: absorb.simps)

lemma absorb_block: "0 < B \<Longrightarrow> length b = B \<Longrightarrow> absorb B f s (b @ xs) = absorb B f (f s b) xs"
  by (simp add: absorb.simps [of B f s "b @ xs"])

lemma absorb_rest: "0 < B \<Longrightarrow> absorb B f s xs = (s', r) \<Longrightarrow> length r < B \<and> length r = length xs mod B"
proof (induction B f s xs rule: absorb.induct)
  case (1 B f s xs)
  show ?case
  proof (cases "length xs < B")
    case True
    then show ?thesis using "1.prems" by (simp add: absorb_short)
  next
    case False
    with "1.prems" have e: "absorb B f (f s (take B xs)) (drop B xs) = (s', r)" by (simp add: absorb.simps [of B f s xs])
    with "1.IH" "1.prems"(1) False show ?thesis by (simp add: le_mod_geq)
  qed
qed

lemma absorb_append:
  "0 < B \<Longrightarrow> absorb B f s xs = (s', r) \<Longrightarrow> absorb B f s (xs @ ys) = absorb B f s' (r @ ys)"
proof (induction B f s xs rule: absorb.induct)
  case (1 B f s xs)
  show ?case
  proof (cases "length xs < B")
    case True
    then show ?thesis using "1.prems" by (simp add: absorb_short)
  next
    case False
    with "1.prems" have e: "absorb B f (f s (take B xs)) (drop B xs) = (s', r)" by (simp add: absorb.simps [of B f s xs])
    from False "1.prems"(1) have "absorb B f s (xs @ ys) = absorb B f (f s (take B xs)) (drop B xs @ ys)"
      by (simp add: absorb.simps [of B f s "xs @ ys"])
    with "1.IH" [OF _ "1.prems"(1) e] False "1.prems"(1) show ?thesis by simp
  qed
qed

lemma absorb_cong:
  assumes "\<And>s b. length b = B \<Longrightarrow> set b \<subseteq> set xs \<Longrightarrow> f s b = g s b"
  shows "absorb B f s xs = absorb B g s xs"
  using assms
proof (induction "length xs" arbitrary: s xs rule: less_induct)
  case less
  show ?case
  proof (cases "B = 0 \<or> length xs < B")
    case False
    have "absorb B f (f s (take B xs)) (drop B xs) = absorb B g (f s (take B xs)) (drop B xs)"
      by (rule less.hyps) (use False less.prems set_drop_subset [of B xs] in auto)
    moreover have "f s (take B xs) = g s (take B xs)"
      by (rule less.prems) (use False set_take_subset [of B xs] in auto)
    ultimately show ?thesis using False by (simp add: absorb.simps [of B _ s xs])
  qed (simp add: absorb.simps [of B _ s xs])
qed

lemma absorb_whole:
  "0 < B \<Longrightarrow> absorb B f s xs = (s', []) \<Longrightarrow> absorb B f s (xs @ ys) = absorb B f s' ys"
  using absorb_append [of B f s xs s' "[]" ys] by simp

subsection \<open>The incremental interface\<close>

text \<open>
  \<open>view\<close> gives the chaining value, the bytes waiting in the buffer and the number of bits
  seen; \<open>short\<close> bounds the pieces that one call may be given.
\<close>

locale block_hash =
  fixes B :: nat and f :: "'s \<Rightarrow> u8 list \<Rightarrow> 's"
    and chain :: "'c \<Rightarrow> 's" and pending :: "'c \<Rightarrow> u8 list" and bits :: "'c \<Rightarrow> u64"
    and ok :: "'c \<Rightarrow> bool" and short :: "u8 list \<Rightarrow> bool" and update :: "'c \<Rightarrow> u8 list \<Rightarrow> 'c"
  assumes B_pos: "0 < B"
    and update_ok: "ok c \<Longrightarrow> short xs \<Longrightarrow> ok (update c xs)"
    and update_absorb: "ok c \<Longrightarrow> short xs \<Longrightarrow>
      absorb B f (chain c) (pending c @ xs) = (chain (update c xs), pending (update c xs))"
    and update_bits: "ok c \<Longrightarrow> short xs \<Longrightarrow> bits (update c xs) = bits c + 8 * of_nat (length xs)"
begin

lemma updates:
  "ok c \<Longrightarrow> list_all short xss \<Longrightarrow>
    ok (foldl update c xss)
    \<and> absorb B f (chain c) (pending c @ concat xss) = (chain (foldl update c xss), pending (foldl update c xss))
    \<and> bits (foldl update c xss) = bits c + 8 * of_nat (length (concat xss))
    \<or> xss = []"
proof (induction xss rule: rev_induct)
  case (snoc xs xss)
  show ?case
  proof (cases "xss = []")
    case True
    with snoc.prems show ?thesis using update_ok update_absorb update_bits by simp
  next
    case False
    with snoc have IH: "ok (foldl update c xss)"
      "absorb B f (chain c) (pending c @ concat xss) = (chain (foldl update c xss), pending (foldl update c xss))"
      "bits (foldl update c xss) = bits c + 8 * of_nat (length (concat xss))" by auto
    have s: "short xs" using snoc.prems by simp
    have "absorb B f (chain c) (pending c @ concat (xss @ [xs]))
        = absorb B f (chain (foldl update c xss)) (pending (foldl update c xss) @ xs)"
      using absorb_append [OF B_pos IH(2), of xs] by simp
    with IH s show ?thesis using update_ok update_absorb update_bits by (simp add: algebra_simps)
  qed
qed simp

text \<open>Only the concatenation of the pieces matters, not where it is cut.\<close>

lemma chunking:
  assumes "ok c" "list_all short xss" "list_all short yss" "xss \<noteq> []" "yss \<noteq> []" "concat xss = concat yss"
  shows "chain (foldl update c xss) = chain (foldl update c yss)
    \<and> pending (foldl update c xss) = pending (foldl update c yss)
    \<and> bits (foldl update c xss) = bits (foldl update c yss)"
  using updates [OF assms(1,2)] updates [OF assms(1,3)] assms(4-6) by auto

end

subsection \<open>Streams\<close>

text \<open>
  \<^verbatim>\<open>calculate(std::istream&)\<close>: pieces of 64 bytes while the stream delivers them, then the
  rest.  The stream is its contents; \<open>None\<close> is a stream that is not good, which gives the
  empty string.
\<close>

function stream_chunks :: "u8 list \<Rightarrow> u8 list list" where
  "stream_chunks xs = (if 64 \<le> length xs then take 64 xs # stream_chunks (drop 64 xs)
     else if xs \<noteq> [] then [xs] else [])"
  by pat_completeness auto
termination
  by (relation "measure length") auto

declare stream_chunks.simps [simp del]

definition calculate_stream :: "'c \<Rightarrow> ('c \<Rightarrow> u8 list \<Rightarrow> 'c) \<Rightarrow> ('c \<Rightarrow> string) \<Rightarrow> u8 list option \<Rightarrow> string" where
  "calculate_stream r upd fin is =
     (case is of None \<Rightarrow> [] | Some data \<Rightarrow> fin (foldl upd r (stream_chunks data)))"

lemma stream_chunks_concat: "concat (stream_chunks xs) = xs \<and> (\<forall>b \<in> set (stream_chunks xs). length b \<le> 64)"
proof (induction xs rule: stream_chunks.induct)
  case (1 xs)
  then show ?case by (cases "64 \<le> length xs") (simp_all add: stream_chunks.simps [of xs])
qed

lemma stream_chunks_Nil: "stream_chunks xs = [] \<longleftrightarrow> xs = []"
  by (subst stream_chunks.simps) auto

subsection \<open>Hexadecimal output\<close>

definition hex_digit :: "nat \<Rightarrow> char" where
  "hex_digit d = ''0123456789abcdef'' ! d"

fun hex_digits :: "nat \<Rightarrow> string" where
  "hex_digits n = (if n < 16 then [hex_digit n] else hex_digits (n div 16) @ [hex_digit (n mod 16)])"

declare hex_digits.simps [simp del]

text \<open>\<^verbatim>\<open>std::hex << std::setfill('0') << std::setw(w)\<close>\<close>

definition hex_setw :: "nat \<Rightarrow> nat \<Rightarrow> string" where
  "hex_setw w n = (let ds = hex_digits n in replicate (w - length ds) CHR ''0'' @ ds)"

fun hex_fixed :: "nat \<Rightarrow> nat \<Rightarrow> string" where
  "hex_fixed 0 n = []"
| "hex_fixed (Suc w) n = hex_fixed w (n div 16) @ [hex_digit (n mod 16)]"

lemma hex_setw_Suc: "hex_setw (Suc w) n = (if n < 16 then replicate w CHR ''0'' @ [hex_digit n] else hex_setw w (n div 16) @ [hex_digit (n mod 16)])"
  by (simp add: hex_setw_def hex_digits.simps [of n] Let_def)

lemma hex_fixed_0: "hex_fixed w 0 = replicate w CHR ''0''"
  by (induction w) (simp_all add: hex_digit_def replicate_append_same)

lemma hex_setw_fixed: "n < 16 ^ w \<Longrightarrow> 0 < w \<Longrightarrow> hex_setw w n = hex_fixed w n"
proof (induction w arbitrary: n)
  case (Suc w)
  show ?case
  proof (cases "n < 16")
    case True
    then show ?thesis by (simp add: hex_setw_Suc hex_fixed_0)
  next
    case False
    then have "0 < w" using Suc.prems by (cases w) simp_all
    moreover have "n div 16 < 16 ^ w" using Suc.prems(1) by (simp add: less_mult_imp_div_less mult.commute)
    ultimately show ?thesis using Suc.IH False by (simp add: hex_setw_Suc)
  qed
qed simp

subsection \<open>Words in memory\<close>

definition be32 :: "u8 \<Rightarrow> u8 \<Rightarrow> u8 \<Rightarrow> u8 \<Rightarrow> u32" where
  "be32 a b c d = ucast d OR push_bit 8 (ucast c) OR push_bit 16 (ucast b) OR push_bit 24 (ucast a)"

lemma bit_be32:
  "bit (be32 a b c d) n \<longleftrightarrow> (if n < 8 then bit d n else if n < 16 then bit c (n - 8)
     else if n < 24 then bit b (n - 16) else bit a (n - 24))"
  using bit_le32 [of d c b a n] by (simp only: be32_def le32_def)

definition le32_words :: "nat \<Rightarrow> u8 list \<Rightarrow> u32 list" where
  "le32_words n p = map (\<lambda>i. le32 (p ! (4 * i)) (p ! (4 * i + 1)) (p ! (4 * i + 2)) (p ! (4 * i + 3))) [0..<n]"

definition be32_words :: "nat \<Rightarrow> u8 list \<Rightarrow> u32 list" where
  "be32_words n p = map (\<lambda>i. be32 (p ! (4 * i)) (p ! (4 * i + 1)) (p ! (4 * i + 2)) (p ! (4 * i + 3))) [0..<n]"

text \<open>Rotation written with shifts.\<close>

lemma rotl_shift:
  assumes "0 < n" "n < LENGTH('a)"
  shows "push_bit n (x :: 'a::len word) OR drop_bit (LENGTH('a) - n) x = word_rotl n x"
proof (rule bit_word_eqI)
  fix k assume k: "k < LENGTH('a)"
  have m: "(k + (LENGTH('a) - n)) mod LENGTH('a) = (if k < n then k + (LENGTH('a) - n) else k - n)"
    using assms k by (auto simp: mod_if)
  have b: "\<not> bit x (LENGTH('a) - n + k)" if "n \<le> k" using that assms by (auto dest: bit_imp_le_length)
  show "bit (push_bit n x OR drop_bit (LENGTH('a) - n) x) k = bit (word_rotl n x) k"
    unfolding bit_word_rotl_iff bit_or_iff bit_push_bit_iff bit_drop_bit_eq comp_def mod_less [OF assms(2)] m
    using assms k b by (auto simp: add.commute)
qed

lemma rotr_shift:
  assumes "0 < n" "n < LENGTH('a)"
  shows "drop_bit n (x :: 'a::len word) OR push_bit (LENGTH('a) - n) x = word_rotr n x"
proof (rule bit_word_eqI)
  fix k assume k: "k < LENGTH('a)"
  have m: "(k + n) mod LENGTH('a) = (if k + n < LENGTH('a) then k + n else k + n - LENGTH('a))"
    using assms k by (auto simp: mod_if)
  have b: "\<not> bit x (n + k)" if "LENGTH('a) \<le> n + k" using that by (auto dest: bit_imp_le_length)
  show "bit (drop_bit n x OR push_bit (LENGTH('a) - n) x) k = bit (word_rotr n x) k"
    unfolding bit_word_rotr_iff bit_or_iff bit_push_bit_iff bit_drop_bit_eq comp_def mod_less [OF assms(2)] m
    using assms k b by (auto simp: add.commute)
qed

subsection \<open>The padding of the standards\<close>

text \<open>
  One bit, zeros up to \<open>B - l\<close> modulo the block size, and the length field of \<open>l\<close> bytes.
\<close>

definition std_pad :: "nat \<Rightarrow> nat \<Rightarrow> u8 list \<Rightarrow> u8 list \<Rightarrow> u8 list" where
  "std_pad B l len xs = xs @ 0x80 # replicate ((2 * B - 1 - l - length xs mod B) mod B) 0 @ len"

lemma std_pad_length:
  assumes "length len = l" "l < B"
  shows "length (std_pad B l len xs) mod B = 0"
proof -
  define r where "r = length xs mod B"
  have r: "r < B" using assms(2) by (simp add: r_def)
  have "length (std_pad B l len xs) mod B = (length xs + (1 + l) + (2 * B - 1 - l - r) mod B) mod B"
    using assms(1) by (simp add: std_pad_def r_def ac_simps)
  also have "\<dots> = (r + (1 + l) + (2 * B - 1 - l - r)) mod B"
  proof -
    have "(a + b + c mod B) mod B = (a mod B + b + c) mod B" for a b c :: nat
      using mod_add_right_eq [of "a + b" c B] mod_add_left_eq [of a B "b + c"] by (simp add: add.assoc)
    then show ?thesis unfolding r_def .
  qed
  also have "r + (1 + l) + (2 * B - 1 - l - r) = 2 * B" using assms(2) r by simp
  finally show ?thesis by simp
qed

end
