(* ===== verification/Md5.thy ===== *)
theory Md5
  imports Blockhash
begin

text \<open>
  The class \<^verbatim>\<open>basic_md5\<close> of \<^verbatim>\<open>mod/mod.sys.hash.hh\<close>: the state with its 64-byte buffer and
  64-bit bit counter, the incremental interface, the transformation of one block and the
  final padding.  It is shown to be the MD5 of RFC 1321.  Sizes are \<^verbatim>\<open>uint32_t\<close> in the code;
  the model's index arithmetic is that of the natural numbers, which is the same as long
  as a piece has less than \<open>2 ^ 32 - 64\<close> bytes (the loop \<open>i + 64 <= size\<close> does not wrap).
\<close>

subsection \<open>The code\<close>

type_synonym md5_sum = "u32 \<times> u32 \<times> u32 \<times> u32"

record basic_md5 =
  md5_buf :: "u8 list"
  md5_cnt0 :: u32
  md5_cnt1 :: u32
  md5_chain :: md5_sum

definition md5_clear :: basic_md5 where
  "md5_clear = \<lparr>md5_buf = replicate 64 0, md5_cnt0 = 0, md5_cnt1 = 0,
     md5_chain = (0x67452301, 0xefcdab89, 0x98badcfe, 0x10325476)\<rparr>"

definition md5_F1 :: "u32 \<Rightarrow> u32 \<Rightarrow> u32 \<Rightarrow> u32" where
  "md5_F1 x y z = (x AND y) OR (NOT x AND z)"

definition md5_F2 :: "u32 \<Rightarrow> u32 \<Rightarrow> u32 \<Rightarrow> u32" where
  "md5_F2 x y z = (x AND z) OR (y AND NOT z)"

definition md5_F3 :: "u32 \<Rightarrow> u32 \<Rightarrow> u32 \<Rightarrow> u32" where
  "md5_F3 x y z = x XOR y XOR z"

definition md5_F4 :: "u32 \<Rightarrow> u32 \<Rightarrow> u32 \<Rightarrow> u32" where
  "md5_F4 x y z = y XOR (x OR NOT z)"

definition md5_RL :: "u32 \<Rightarrow> nat \<Rightarrow> u32" where
  "md5_RL x n = push_bit n x OR drop_bit (32 - n) x"

text \<open>
  The macro calls of \<^verbatim>\<open>transform\<close>, in order.  Each call assigns to its first register, and the
  registers of the next call are those of the previous one rotated by one, which
  \<open>md5_step\<close> does to the quadruple.
\<close>

datatype md5_macro = FF | GG | HH | II

fun md5_fn :: "md5_macro \<Rightarrow> u32 \<Rightarrow> u32 \<Rightarrow> u32 \<Rightarrow> u32" where
  "md5_fn FF = md5_F1"
| "md5_fn GG = md5_F2"
| "md5_fn HH = md5_F3"
| "md5_fn II = md5_F4"

definition md5_rounds :: "(md5_macro \<times> nat \<times> nat \<times> u32) list" where
  "md5_rounds = [
    (FF, 0, 7, 0xd76aa478), (FF, 1, 12, 0xe8c7b756), (FF, 2, 17, 0x242070db), (FF, 3, 22, 0xc1bdceee),
    (FF, 4, 7, 0xf57c0faf), (FF, 5, 12, 0x4787c62a), (FF, 6, 17, 0xa8304613), (FF, 7, 22, 0xfd469501),
    (FF, 8, 7, 0x698098d8), (FF, 9, 12, 0x8b44f7af), (FF, 10, 17, 0xffff5bb1), (FF, 11, 22, 0x895cd7be),
    (FF, 12, 7, 0x6b901122), (FF, 13, 12, 0xfd987193), (FF, 14, 17, 0xa679438e), (FF, 15, 22, 0x49b40821),
    (GG, 1, 5, 0xf61e2562), (GG, 6, 9, 0xc040b340), (GG, 11, 14, 0x265e5a51), (GG, 0, 20, 0xe9b6c7aa),
    (GG, 5, 5, 0xd62f105d), (GG, 10, 9, 0x2441453), (GG, 15, 14, 0xd8a1e681), (GG, 4, 20, 0xe7d3fbc8),
    (GG, 9, 5, 0x21e1cde6), (GG, 14, 9, 0xc33707d6), (GG, 3, 14, 0xf4d50d87), (GG, 8, 20, 0x455a14ed),
    (GG, 13, 5, 0xa9e3e905), (GG, 2, 9, 0xfcefa3f8), (GG, 7, 14, 0x676f02d9), (GG, 12, 20, 0x8d2a4c8a),
    (HH, 5, 4, 0xfffa3942), (HH, 8, 11, 0x8771f681), (HH, 11, 16, 0x6d9d6122), (HH, 14, 23, 0xfde5380c),
    (HH, 1, 4, 0xa4beea44), (HH, 4, 11, 0x4bdecfa9), (HH, 7, 16, 0xf6bb4b60), (HH, 10, 23, 0xbebfbc70),
    (HH, 13, 4, 0x289b7ec6), (HH, 0, 11, 0xeaa127fa), (HH, 3, 16, 0xd4ef3085), (HH, 6, 23, 0x4881d05),
    (HH, 9, 4, 0xd9d4d039), (HH, 12, 11, 0xe6db99e5), (HH, 15, 16, 0x1fa27cf8), (HH, 2, 23, 0xc4ac5665),
    (II, 0, 6, 0xf4292244), (II, 7, 10, 0x432aff97), (II, 14, 15, 0xab9423a7), (II, 5, 21, 0xfc93a039),
    (II, 12, 6, 0x655b59c3), (II, 3, 10, 0x8f0ccc92), (II, 10, 15, 0xffeff47d), (II, 1, 21, 0x85845dd1),
    (II, 8, 6, 0x6fa87e4f), (II, 15, 10, 0xfe2ce6e0), (II, 6, 15, 0xa3014314), (II, 13, 21, 0x4e0811a1),
    (II, 4, 6, 0xf7537e82), (II, 11, 10, 0xbd3af235), (II, 2, 15, 0x2ad7d2bb), (II, 9, 21, 0xeb86d391)]"
fun md5_step :: "u32 list \<Rightarrow> md5_sum \<Rightarrow> md5_macro \<times> nat \<times> nat \<times> u32 \<Rightarrow> md5_sum" where
  "md5_step x (a, b, c, d) (m, k, s, ac) = (d, md5_RL (a + md5_fn m b c d + x ! k + ac) s + b, b, c)"

fun md5_add :: "md5_sum \<Rightarrow> md5_sum \<Rightarrow> md5_sum" where
  "md5_add (s0, s1, s2, s3) (a, b, c, d) = (s0 + a, s1 + b, s2 + c, s3 + d)"

definition md5_transform :: "md5_sum \<Rightarrow> u8 list \<Rightarrow> md5_sum" where
  "md5_transform cs block = md5_add cs (foldl (md5_step (le32_words 16 block)) cs md5_rounds)"

text \<open>The loop over the complete blocks of the data.\<close>

function md5_blocks :: "nat \<Rightarrow> u8 list \<Rightarrow> md5_sum \<Rightarrow> nat \<times> md5_sum" where
  "md5_blocks i data cs =
     (if i + 64 \<le> length data then md5_blocks (i + 64) data (md5_transform cs (take 64 (drop i data)))
      else (i, cs))"
  by pat_completeness auto
termination
  by (relation "measure (\<lambda>(i, data, cs). length data - i)") auto

declare md5_blocks.simps [simp del]

definition md5_update :: "basic_md5 \<Rightarrow> u8 list \<Rightarrow> basic_md5" where
  "md5_update r data =
     (let sz = of_nat (length data) :: u32;
          index = unat (md5_cnt0 r) div 8 mod 64;
          cnt0 = md5_cnt0 r + push_bit 3 sz;
          cnt1 = (if cnt0 < push_bit 3 sz then md5_cnt1 r + 1 else md5_cnt1 r) + drop_bit 29 sz;
          thresh = 64 - index;
          (i, index, buf, cs) =
            (if thresh \<le> length data
             then (let buf = blit (md5_buf r) index (take thresh data);
                       cs = md5_transform (md5_chain r) buf;
                       (i, cs) = md5_blocks thresh data cs
                   in (i, 0, buf, cs))
             else (0, index, md5_buf r, md5_chain r))
      in \<lparr>md5_buf = blit buf index (drop i data), md5_cnt0 = cnt0, md5_cnt1 = cnt1, md5_chain = cs\<rparr>)"

definition le32_bytes :: "u32 \<Rightarrow> u8 list" where
  "le32_bytes w = [ucast (w AND 0xff), ucast (drop_bit 8 w AND 0xff), ucast (drop_bit 16 w AND 0xff), ucast (drop_bit 24 w AND 0xff)]"

definition md5_final_result :: "basic_md5 \<Rightarrow> string" where
  "md5_final_result r =
     (let padding = 0x80 # replicate 63 0;
          bits = le32_bytes (md5_cnt0 r) @ le32_bytes (md5_cnt1 r);
          index = unat (md5_cnt0 r) div 8 mod 64;
          padLen = (if index < 56 then 56 - index else 120 - index);
          r = md5_update r (take padLen padding);
          r = md5_update r bits;
          (s0, s1, s2, s3) = md5_chain r;
          res = concat (map le32_bytes [s0, s1, s2, s3])
      in concat (map (\<lambda>b. hex_setw 2 (unat b)) res))"

definition md5_calculate :: "u8 list \<Rightarrow> string" where
  "md5_calculate data = md5_final_result (md5_update md5_clear data)"

definition md5_file :: "u8 list option \<Rightarrow> string" where
  "md5_file is = calculate_stream md5_clear md5_update md5_final_result is"

subsection \<open>The incremental interface\<close>

definition md5_index :: "basic_md5 \<Rightarrow> nat" where
  "md5_index r = unat (md5_cnt0 r) div 8 mod 64"

definition md5_pending :: "basic_md5 \<Rightarrow> u8 list" where
  "md5_pending r = take (md5_index r) (md5_buf r)"

definition md5_bits :: "basic_md5 \<Rightarrow> u64" where
  "md5_bits r = push_bit 32 (ucast (md5_cnt1 r)) + ucast (md5_cnt0 r)"

definition md5_ok :: "basic_md5 \<Rightarrow> bool" where
  "md5_ok r \<longleftrightarrow> length (md5_buf r) = 64 \<and> unat (md5_cnt0 r) mod 8 = 0"

definition md5_short :: "u8 list \<Rightarrow> bool" where
  "md5_short xs \<longleftrightarrow> length xs < 2 ^ 32 - 64"

lemma md5_blocks_absorb:
  "i \<le> length data \<Longrightarrow> md5_blocks i data s = (j, s') \<Longrightarrow>
    j \<le> length data \<and> absorb 64 md5_transform s (drop i data) = (s', drop j data)"
proof (induction i data s rule: md5_blocks.induct)
  case (1 i data s)
  show ?case
  proof (cases "i + 64 \<le> length data")
    case True
    with "1.prems" have "md5_blocks (i + 64) data (md5_transform s (take 64 (drop i data))) = (j, s')"
      by (simp add: md5_blocks.simps [of i])
    with "1.IH" True have "j \<le> length data"
      "absorb 64 md5_transform (md5_transform s (take 64 (drop i data))) (drop (i + 64) data) = (s', drop j data)" by simp_all
    moreover have "drop i data = take 64 (drop i data) @ drop (i + 64) data"
      using append_take_drop_id [of 64 "drop i data"] by (simp add: add.commute)
    moreover have "length (take 64 (drop i data)) = 64" using True by simp
    ultimately show ?thesis using absorb_block [of 64 "take 64 (drop i data)" md5_transform s "drop (i + 64) data"] by simp
  next
    case False
    with "1.prems" show ?thesis by (simp add: md5_blocks.simps [of i] absorb_short)
  qed
qed

lemma md5_update_cnt:
  "md5_cnt0 (md5_update r xs) = md5_cnt0 r + push_bit 3 (of_nat (length xs))"
  "md5_cnt1 (md5_update r xs) = (if md5_cnt0 r + push_bit 3 (of_nat (length xs)) < push_bit 3 (of_nat (length xs))
     then md5_cnt1 r + 1 else md5_cnt1 r) + drop_bit 29 (of_nat (length xs))"
  by (simp_all add: md5_update_def Let_def split_beta)

lemma md5_index_update:
  assumes "md5_ok r" "md5_short xs"
  shows "md5_index (md5_update r xs) = (md5_index r + length xs) mod 64
    \<and> unat (md5_cnt0 (md5_update r xs)) mod 8 = 0"
proof -
  define n where "n = unat (md5_cnt0 r)"
  have c: "unat (md5_cnt0 (md5_update r xs)) = (n + 8 * length xs) mod 2 ^ 32"
    unfolding md5_update_cnt unat_add_mod unat_push_bit_mod n_def unat_of_nat by (simp add: mod_simps mult.commute)
  obtain m where m: "n = 8 * m" using assms(1) by (auto simp: md5_ok_def n_def mod_eq_0_iff_dvd elim: dvdE)
  have "(n + 8 * length xs) mod 2 ^ 32 = 8 * ((m + length xs) mod 2 ^ 29)"
    using mult_mod_right [of 8 "m + length xs" "2 ^ 29"] by (simp add: m)
  then show ?thesis
    by (simp add: md5_index_def c m n_def [symmetric] mod_mod_cancel mod_add_left_eq)
qed

lemma md5_update_view:
  assumes "md5_ok r" "md5_short xs"
  shows "md5_ok (md5_update r xs)
    \<and> absorb 64 md5_transform (md5_chain r) (md5_pending r @ xs) = (md5_chain (md5_update r xs), md5_pending (md5_update r xs))"
proof -
  define k where "k = md5_index r"
  have k: "k < 64" "length (md5_buf r) = 64" "length (md5_pending r) = k"
    using assms(1) by (simp_all add: k_def md5_index_def md5_ok_def md5_pending_def)
  have idx: "unat (md5_cnt0 r) div 8 mod 64 = k" by (simp add: k_def md5_index_def)
  note new = md5_index_update [OF assms, folded k_def]
  show ?thesis
  proof (cases "64 - k \<le> length xs")
    case True
    define buf where "buf = blit (md5_buf r) k (take (64 - k) xs)"
    have b: "buf = md5_pending r @ take (64 - k) xs" "length buf = 64"
      using k True by (simp_all add: buf_def blit_def md5_pending_def k_def)
    obtain j s' where j: "md5_blocks (64 - k) xs (md5_transform (md5_chain r) buf) = (j, s')"
      by (cases "md5_blocks (64 - k) xs (md5_transform (md5_chain r) buf)") simp
    from md5_blocks_absorb [OF True j]
    have a: "j \<le> length xs" "absorb 64 md5_transform (md5_transform (md5_chain r) buf) (drop (64 - k) xs) = (s', drop j xs)"
      by simp_all
    have "md5_pending r @ xs = buf @ drop (64 - k) xs" by (simp add: b(1))
    then have A: "absorb 64 md5_transform (md5_chain r) (md5_pending r @ xs) = (s', drop j xs)"
      using a(2) b(2) by (simp add: absorb_block)
    from absorb_rest [OF _ this] have l: "length (drop j xs) < 64" "length (drop j xs) = (k + length xs) mod 64"
      using k(3) by simp_all
    have u: "md5_buf (md5_update r xs) = blit buf 0 (drop j xs)" "md5_chain (md5_update r xs) = s'"
      using True j by (simp_all add: md5_update_def Let_def idx buf_def)
    have "md5_pending (md5_update r xs) = take (length (drop j xs)) (blit buf 0 (drop j xs))"
      using new l(2) by (simp add: md5_pending_def u)
    also have "\<dots> = drop j xs" using take_blit [of 0 buf "drop j xs"] by simp
    finally show ?thesis using A u b(2) l(1) new by (simp add: md5_ok_def)
  next
    case False
    then have u: "md5_buf (md5_update r xs) = blit (md5_buf r) k xs" "md5_chain (md5_update r xs) = md5_chain r"
      by (simp_all add: md5_update_def Let_def idx)
    have "md5_index (md5_update r xs) = k + length xs" using new False k(1) by simp
    then have "md5_pending (md5_update r xs) = md5_pending r @ xs"
      using take_blit [of k "md5_buf r" xs] k by (simp add: md5_pending_def u k_def)
    moreover have "absorb 64 md5_transform (md5_chain r) (md5_pending r @ xs) = (md5_chain r, md5_pending r @ xs)"
      using False k by (intro absorb_short) simp
    ultimately show ?thesis using u k False new by (simp add: md5_ok_def)
  qed
qed

lemma md5_bits_nat: "md5_bits r = of_nat (2 ^ 32 * unat (md5_cnt1 r) + unat (md5_cnt0 r))"
  by (simp add: md5_bits_def push_bit_eq_mult mult.commute)

lemma md5_update_bits:
  assumes "md5_short xs"
  shows "md5_bits (md5_update r xs) = md5_bits r + 8 * of_nat (length xs)"
proof -
  define n where "n = length xs"
  have n: "n < 2 ^ 32" using assms by (simp add: md5_short_def n_def)
  define z where "z = (push_bit 3 (of_nat n) :: u32)"
  define k :: nat where "k = (if z + md5_cnt0 r < z then 1 else 0)"
  have z: "unat z + 2 ^ 32 * (n div 2 ^ 29) = 8 * n"
  proof -
    have "unat z = (8 * n) mod (8 * 2 ^ 29)"
      using n by (simp only: z_def unat_push_bit_mod unat_of_nat) (simp add: mult.commute)
    also have "\<dots> = 8 * (n mod 2 ^ 29)" by (rule mult_mod_right [symmetric])
    finally have "unat z = 8 * (n mod 2 ^ 29)" .
    moreover have "(2 :: nat) ^ 32 * (n div 2 ^ 29) = 8 * (2 ^ 29 * (n div 2 ^ 29))" by simp
    ultimately show ?thesis by (simp only: distrib_left [symmetric] mod_mult_div_eq)
  qed
  have c0: "unat (md5_cnt0 (md5_update r xs)) + 2 ^ 32 * k = unat z + unat (md5_cnt0 r)"
    using carry_add [of z "md5_cnt0 r"] by (simp add: md5_update_cnt z_def n_def k_def add.commute)
  have "md5_cnt1 (md5_update r xs) = md5_cnt1 r + of_nat k + of_nat (n div 2 ^ 29)"
  proof -
    have "drop_bit 29 (of_nat n :: u32) = of_nat (n div 2 ^ 29)"
      using n by (simp only: word_unat_eq_iff unat_drop_bit unat_of_nat) (simp add: div_le_dividend less_imp_le)
    then show ?thesis by (simp add: md5_update_cnt k_def z_def n_def add.commute)
  qed
  then have "unat (md5_cnt1 (md5_update r xs)) = (unat (md5_cnt1 r) + k + n div 2 ^ 29) mod 2 ^ 32"
    by (simp only: unat_add_mod unat_of_nat) (simp add: mod_simps)
  then have "of_nat (2 ^ 32 * unat (md5_cnt1 (md5_update r xs))) = (of_nat (2 ^ 32 * (unat (md5_cnt1 r) + k + n div 2 ^ 29)) :: u64)"
    by (simp only: word_unat_eq_iff unat_of_nat) (simp add: mult_mod_right)
  then have "md5_bits (md5_update r xs) = of_nat (2 ^ 32 * (unat (md5_cnt1 r) + k + n div 2 ^ 29) + unat (md5_cnt0 (md5_update r xs)))"
    unfolding md5_bits_nat of_nat_add [where 'a = u64] by simp
  also have "2 ^ 32 * (unat (md5_cnt1 r) + k + n div 2 ^ 29) + unat (md5_cnt0 (md5_update r xs))
      = 2 ^ 32 * unat (md5_cnt1 r) + unat (md5_cnt0 r) + 8 * n"
    using c0 z unfolding distrib_left by linarith
  finally show ?thesis by (simp add: md5_bits_nat n_def)
qed

interpretation md5: block_hash 64 md5_transform md5_chain md5_pending md5_bits md5_ok md5_short md5_update
  by unfold_locales (simp_all add: md5_update_view md5_update_bits)

subsection \<open>RFC 1321\<close>

text \<open>The specification: round functions, message index and shift as formulas of the step number.\<close>

definition rfc1321_T :: "u32 list" where
  "rfc1321_T = [
    0xd76aa478, 0xe8c7b756, 0x242070db, 0xc1bdceee, 0xf57c0faf, 0x4787c62a, 0xa8304613, 0xfd469501,
    0x698098d8, 0x8b44f7af, 0xffff5bb1, 0x895cd7be, 0x6b901122, 0xfd987193, 0xa679438e, 0x49b40821,
    0xf61e2562, 0xc040b340, 0x265e5a51, 0xe9b6c7aa, 0xd62f105d, 0x2441453, 0xd8a1e681, 0xe7d3fbc8,
    0x21e1cde6, 0xc33707d6, 0xf4d50d87, 0x455a14ed, 0xa9e3e905, 0xfcefa3f8, 0x676f02d9, 0x8d2a4c8a,
    0xfffa3942, 0x8771f681, 0x6d9d6122, 0xfde5380c, 0xa4beea44, 0x4bdecfa9, 0xf6bb4b60, 0xbebfbc70,
    0x289b7ec6, 0xeaa127fa, 0xd4ef3085, 0x4881d05, 0xd9d4d039, 0xe6db99e5, 0x1fa27cf8, 0xc4ac5665,
    0xf4292244, 0x432aff97, 0xab9423a7, 0xfc93a039, 0x655b59c3, 0x8f0ccc92, 0xffeff47d, 0x85845dd1,
    0x6fa87e4f, 0xfe2ce6e0, 0xa3014314, 0x4e0811a1, 0xf7537e82, 0xbd3af235, 0x2ad7d2bb, 0xeb86d391]"

definition rfc1321_F :: "nat \<Rightarrow> u32 \<Rightarrow> u32 \<Rightarrow> u32 \<Rightarrow> u32" where
  "rfc1321_F i x y z =
     (if i < 16 then (x AND y) OR (NOT x AND z) else if i < 32 then (x AND z) OR (y AND NOT z)
      else if i < 48 then x XOR y XOR z else y XOR (x OR NOT z))"

definition rfc1321_k :: "nat \<Rightarrow> nat" where
  "rfc1321_k i =
     (if i < 16 then i else if i < 32 then (5 * i + 1) mod 16
      else if i < 48 then (3 * i + 5) mod 16 else 7 * i mod 16)"

definition rfc1321_s :: "nat \<Rightarrow> nat" where
  "rfc1321_s i = [[7, 12, 17, 22], [5, 9, 14, 20], [4, 11, 16, 23], [6, 10, 15, 21]] ! (i div 16) ! (i mod 4)"

fun rfc1321_step :: "u32 list \<Rightarrow> md5_sum \<Rightarrow> nat \<Rightarrow> md5_sum" where
  "rfc1321_step X (a, b, c, d) i =
     (let t = a + rfc1321_F i b c d + X ! rfc1321_k i + rfc1321_T ! i
      in (d, b + word_rotl (rfc1321_s i) t, b, c))"

definition rfc1321_block :: "md5_sum \<Rightarrow> u8 list \<Rightarrow> md5_sum" where
  "rfc1321_block st M = md5_add st (foldl (rfc1321_step (le32_words 16 M)) st [0..<64])"

definition le64_bytes :: "u64 \<Rightarrow> u8 list" where
  "le64_bytes w = map (\<lambda>i. ucast (drop_bit (8 * i) w)) [0..<8]"

definition rfc1321_md5 :: "u8 list \<Rightarrow> u8 list" where
  "rfc1321_md5 M =
     (let (a, b, c, d) = fst (absorb 64 rfc1321_block (0x67452301, 0xefcdab89, 0x98badcfe, 0x10325476)
            (std_pad 64 8 (le64_bytes (8 * of_nat (length M))) M))
      in concat (map (\<lambda>w. map (\<lambda>i. ucast (drop_bit (8 * i) w)) [0..<4]) [a, b, c, d]))"

lemma md5_rounds_schedule:
  "md5_rounds = map (\<lambda>i. ([FF, GG, HH, II] ! (i div 16), rfc1321_k i, rfc1321_s i, rfc1321_T ! i)) [0..<64]"
  by code_simp

lemma md5_step_rfc:
  assumes "i < 64"
  shows "md5_step x st ([FF, GG, HH, II] ! (i div 16), rfc1321_k i, rfc1321_s i, rfc1321_T ! i) = rfc1321_step x st i"
proof -
  have "md5_fn ([FF, GG, HH, II] ! (i div 16)) = rfc1321_F i"
  proof -
    consider "i < 16" | "16 \<le> i" "i < 32" | "32 \<le> i" "i < 48" | "48 \<le> i" using assms by linarith
    then show ?thesis
    proof cases
      case 2 then have "i div 16 = 1" by simp
      with 2 show ?thesis by (simp add: fun_eq_iff rfc1321_F_def md5_F2_def)
    next
      case 3 then have "i div 16 = 2" by simp
      with 3 show ?thesis by (simp add: fun_eq_iff rfc1321_F_def md5_F3_def)
    next
      case 4 then have "i div 16 = 3" using assms by simp
      with 4 show ?thesis by (simp add: fun_eq_iff rfc1321_F_def md5_F4_def)
    qed (simp add: fun_eq_iff rfc1321_F_def md5_F1_def)
  qed
  moreover have "0 < rfc1321_s i \<and> rfc1321_s i < 32"
  proof -
    have "\<forall>i \<in> set [0..<64]. 0 < rfc1321_s i \<and> rfc1321_s i < 32" by code_simp
    then show ?thesis using assms by simp
  qed
  moreover from this have "md5_RL t (rfc1321_s i) = word_rotl (rfc1321_s i) t" for t
    using rotl_shift [of "rfc1321_s i" t] by (simp add: md5_RL_def)
  ultimately show ?thesis by (cases st) (simp add: Let_def add.commute)
qed

lemma md5_transform_rfc: "md5_transform = rfc1321_block"
proof (intro ext)
  fix st M
  have "foldl (md5_step x) st md5_rounds = foldl (rfc1321_step x) st [0..<64]" for x
    unfolding md5_rounds_schedule foldl_map by (rule foldl_cong) (simp_all add: md5_step_rfc)
  then show "md5_transform st M = rfc1321_block st M" by (simp add: md5_transform_def rfc1321_block_def)
qed

lemma md5_clear_ok: "md5_ok md5_clear" "md5_pending md5_clear = []" "md5_bits md5_clear = 0"
  by (simp_all add: md5_clear_def md5_ok_def md5_pending_def md5_index_def md5_bits_def)

lemma le32_bytes_upt: "le32_bytes w = map (\<lambda>i. ucast (drop_bit (8 * i) w)) [0..<4]"
proof -
  have "ucast (v AND 0xff) = (ucast v :: u8)" for v :: u32
    using unat_width_less(3) [of v] by (simp add: word_unat_eq_iff unat_ucast_mod unat_and_num)
  then show ?thesis by (simp add: le32_bytes_def upt_conv_Cons numeral_eq_Suc)
qed

lemma md5_bits_bytes: "le32_bytes (md5_cnt0 r) @ le32_bytes (md5_cnt1 r) = le64_bytes (md5_bits r)"
proof (rule nth_equalityI)
  have or: "md5_bits r = push_bit 32 (ucast (md5_cnt1 r)) OR ucast (md5_cnt0 r)"
    unfolding md5_bits_def
    by (rule disjunctive_add) (auto simp: bit_simps dest: bit_imp_le_length)
  fix i assume "i < length (le32_bytes (md5_cnt0 r) @ le32_bytes (md5_cnt1 r))"
  then have i: "i < 8" by (simp add: le32_bytes_def)
  have c0: "\<not> bit (md5_cnt0 r) (8 * i + n)" if "4 \<le> i" for n
    using that bit_imp_le_length [of "md5_cnt0 r" "8 * i + n"] by auto
  show "(le32_bytes (md5_cnt0 r) @ le32_bytes (md5_cnt1 r)) ! i = le64_bytes (md5_bits r) ! i"
  proof (rule bit_word_eqI)
    fix n assume n: "n < LENGTH(8)"
    show "bit ((le32_bytes (md5_cnt0 r) @ le32_bytes (md5_cnt1 r)) ! i) n = bit (le64_bytes (md5_bits r) ! i) n"
      using i n c0 unfolding le32_bytes_upt
      by (auto simp: le64_bytes_def nth_append or bit_simps right_diff_distrib')
  qed
qed (simp_all add: le32_bytes_def le64_bytes_def)

lemma md5_index_bits:
  assumes "md5_bits r = 8 * of_nat n" 
  shows "md5_index r = n mod 64"
proof -
  have "unat (md5_bits r) mod 2 ^ 32 = unat (md5_cnt0 r)"
    unfolding md5_bits_nat by (simp only: unat_of_nat) (use unat_width_less(3) [of "md5_cnt0 r"] in \<open>simp add: mod_mod_cancel\<close>)
  moreover have "unat (8 * of_nat n :: u64) = 8 * n mod 2 ^ 64"
    by (simp only: unat_mult_mod unat_of_nat) (simp add: mod_simps)
  ultimately have "unat (md5_cnt0 r) = 8 * n mod (8 * 2 ^ 29)" using assms by (simp add: mod_mod_cancel)
  then have "unat (md5_cnt0 r) = 8 * (n mod 2 ^ 29)" by (simp only: mult_mod_right)
  then show ?thesis by (simp add: md5_index_def mod_mod_cancel)
qed

lemma md5_final_spec:
  assumes "md5_ok r" "md5_bits r = 8 * of_nat (length M)"
    "absorb 64 md5_transform s0 M = (md5_chain r, md5_pending r)"
  shows "md5_final_result r =
    (let (a, b, c, d) = fst (absorb 64 md5_transform s0 (std_pad 64 8 (le64_bytes (8 * of_nat (length M))) M))
     in concat (map (\<lambda>b. hex_setw 2 (unat b)) (concat (map le32_bytes [a, b, c, d]))))"
proof -
  define k where "k = length M mod 64"
  have idx: "md5_index r = k" using md5_index_bits [OF assms(2)] by (simp add: k_def)
  define padLen where "padLen = (if k < 56 then 56 - k else 120 - k)"
  define pad where "pad = take padLen ((0x80 :: u8) # replicate 63 0)"
  define r1 where "r1 = md5_update r pad"
  define r2 where "r2 = md5_update r1 (le64_bytes (md5_bits r))"
  have k: "k < 64" by (simp add: k_def)
  have pad: "pad = 0x80 # replicate ((2 * 64 - 1 - 8 - k) mod 64) 0"
  proof (cases "k < 56")
    case True
    then have "(2 * 64 - 1 - 8 - k) mod 64 = 55 - k" "padLen = Suc (55 - k)" by (simp_all add: padLen_def mod_if)
    then show ?thesis by (simp add: pad_def)
  next
    case False
    then have "(2 * 64 - 1 - 8 - k) mod 64 = 119 - k" "padLen = Suc (119 - k)" using k by (simp_all add: padLen_def)
    then show ?thesis using False by (simp add: pad_def)
  qed
  have short: "list_all md5_short [pad, le64_bytes (md5_bits r)]"
    by (simp add: md5_short_def le64_bytes_def pad_def)
  from md5.updates [OF assms(1) short]
  have "absorb 64 md5_transform (md5_chain r) (md5_pending r @ pad @ le64_bytes (md5_bits r)) = (md5_chain r2, md5_pending r2)"
    by (simp add: r2_def r1_def)
  then have "absorb 64 md5_transform s0 (M @ pad @ le64_bytes (md5_bits r)) = (md5_chain r2, md5_pending r2)"
    using absorb_append [OF _ assms(3)] by simp
  then have "fst (absorb 64 md5_transform s0 (std_pad 64 8 (le64_bytes (8 * of_nat (length M))) M)) = md5_chain r2"
    by (simp add: std_pad_def pad k_def assms(2))
  moreover have "md5_final_result r = (let (a, b, c, d) = md5_chain r2 in concat (map (\<lambda>b. hex_setw 2 (unat b)) (concat (map le32_bytes [a, b, c, d]))))"
    unfolding md5_final_result_def Let_def md5_bits_bytes
    by (simp only: md5_index_def [symmetric] idx padLen_def [symmetric] pad_def [symmetric] r1_def [symmetric] r2_def [symmetric])
  ultimately show ?thesis by simp
qed

lemma hex2_byte: "hex_setw 2 (unat (b :: u8)) = hex_fixed 2 (unat b)"
  by (rule hex_setw_fixed) (use unat_width_less(1) [of b] in simp_all)

lemma md5_calculate_rfc:
  assumes "md5_short M"
  shows "md5_calculate M = concat (map (\<lambda>b. hex_fixed 2 (unat b)) (rfc1321_md5 M))"
proof -
  have u: "md5_ok (md5_update md5_clear M)" "md5_bits (md5_update md5_clear M) = 8 * of_nat (length M)"
    "absorb 64 md5_transform (md5_chain md5_clear) M = (md5_chain (md5_update md5_clear M), md5_pending (md5_update md5_clear M))"
    using md5.update_ok md5.update_absorb [OF md5_clear_ok(1) assms] md5.update_bits assms md5_clear_ok by simp_all
  show ?thesis
    unfolding md5_calculate_def md5_final_spec [OF u] md5_transform_rfc rfc1321_md5_def hex2_byte
    by (simp add: md5_clear_def split_beta Let_def le32_bytes_upt)
qed

subsection \<open>Properties\<close>

text \<open>
  C31: for every message of less than \<open>2 ^ 32 - 64\<close> bytes the class computes the MD5 digest
  of RFC 1321, printed in lower case hexadecimal: the unrolled transformation is the one
  the RFC states by formulas, the carry between the two 32-bit bit counters and the padding
  are right for every length.
\<close>

theorem md5_is_rfc1321:
  assumes "length M < 2 ^ 32 - 64"
  shows "md5_calculate M = concat (map (\<lambda>b. hex_fixed 2 (unat b)) (rfc1321_md5 M))"
  using assms by (intro md5_calculate_rfc) (simp add: md5_short_def)

lemma md5_abc: "md5_calculate [0x61, 0x62, 0x63] = ''900150983cd24fb0d6963f7d28e17f72''"
  by code_simp

theorem md5_is_rfc1321_witness:
  "concat (map (\<lambda>b. hex_fixed 2 (unat b)) (rfc1321_md5 [0x61, 0x62, 0x63])) = ''900150983cd24fb0d6963f7d28e17f72''"
  using md5_is_rfc1321 [of "[0x61, 0x62, 0x63]"] md5_abc by simp

end
