(* ===== verification/Sha1.thy ===== *)
theory Sha1
  imports Blockhash
begin

text \<open>
  The class \<^verbatim>\<open>basic_sha1\<close> of \<^verbatim>\<open>mod/mod.sys.hash.hh\<close>.  \<^verbatim>\<open>update\<close> puts the words of a block
  together from \<^verbatim>\<open>char\<close> values, so that its result depends on whether \<^verbatim>\<open>char\<close> is signed on
  the platform; this is the argument \<open>sc\<close> of the model (true on x86).  It is shown that the
  class is the SHA-1 of FIPS 180-4 where \<^verbatim>\<open>char\<close> is unsigned and, where it is signed, on
  data of 7-bit characters, and that it is not where a block holds bytes of 0x80 and above.
\<close>

subsection \<open>The code\<close>

type_synonym sha1_sum = "u32 \<times> u32 \<times> u32 \<times> u32 \<times> u32"

record basic_sha1 =
  sha1_iterations :: u64
  sha1_chain :: sha1_sum
  sha1_buf :: "u8 list"

definition sha1_clear :: basic_sha1 where
  "sha1_clear = \<lparr>sha1_iterations = 0,
     sha1_chain = (0x67452301, 0xefcdab89, 0x98badcfe, 0x10325476, 0xc3d2e1f0), sha1_buf = []\<rparr>"

definition sha1_ROL :: "u32 \<Rightarrow> nat \<Rightarrow> u32" where
  "sha1_ROL value bits = push_bit bits value OR drop_bit (32 - bits) (value AND 0xffffffff)"

text \<open>
  \<^verbatim>\<open>SHA256BLK(i)\<close> updates the block, a ring of 16 words, and gives the new word.
\<close>

definition ring_put :: "u32 list \<Rightarrow> nat \<Rightarrow> u32 \<Rightarrow> u32 \<times> u32 list" where
  "ring_put block i w = (w, block[i mod 16 := w])"

definition sha1_BLK :: "u32 list \<Rightarrow> nat \<Rightarrow> u32 \<times> u32 list" where
  "sha1_BLK block i =
     ring_put block i
       (sha1_ROL (block ! ((i + 13) mod 16) XOR block ! ((i + 8) mod 16) XOR block ! ((i + 2) mod 16) XOR block ! (i mod 16)) 1)"

text \<open>
  One of the 80 macro calls: \<^verbatim>\<open>SHA1R0\<close> for \<open>i < 16\<close>, \<^verbatim>\<open>SHA1R1\<close> to \<^verbatim>\<open>SHA1R4\<close> after it.  The macro
  assigns to its fifth and second register; the registers of the next call are rotated by
  one, as in the source.
\<close>

definition sha1_term :: "nat \<Rightarrow> u32 \<Rightarrow> u32 \<Rightarrow> u32 \<Rightarrow> u32 \<Rightarrow> u32 \<Rightarrow> u32" where
  "sha1_term i v w x y b =
     (if i < 20 then ((w AND (x XOR y)) XOR y) + b + 0x5a827999 + sha1_ROL v 5
      else if i < 40 then (w XOR x XOR y) + b + 0x6ed9eba1 + sha1_ROL v 5
      else if i < 60 then (((w OR x) AND y) OR (w AND x)) + b + 0x8f1bbcdc + sha1_ROL v 5
      else (w XOR x XOR y) + b + 0xca62c1d6 + sha1_ROL v 5)"

fun sha1_set :: "sha1_sum \<Rightarrow> nat \<Rightarrow> u32 \<times> u32 list \<Rightarrow> sha1_sum \<times> u32 list" where
  "sha1_set (v, w, x, y, z) i (b, block) = ((z + sha1_term i v w x y b, v, sha1_ROL w 30, x, y), block)"

fun sha1_macro :: "sha1_sum \<times> u32 list \<Rightarrow> nat \<Rightarrow> sha1_sum \<times> u32 list" where
  "sha1_macro (r, block) i = sha1_set r i (if i < 16 then (block ! i, block) else sha1_BLK block i)"

fun sha1_add :: "sha1_sum \<Rightarrow> sha1_sum \<Rightarrow> sha1_sum" where
  "sha1_add (s0, s1, s2, s3, s4) (a, b, c, d, e) = (s0 + a, s1 + b, s2 + c, s3 + d, s4 + e)"

definition sha1_transform :: "sha1_sum \<Rightarrow> u32 list \<Rightarrow> sha1_sum \<times> u32 list" where
  "sha1_transform s block =
     (let (r, block) = foldl sha1_macro (s, block) [0..<80] in (sha1_add s r, block))"

text \<open>Four \<^verbatim>\<open>char\<close> values, promoted to \<^verbatim>\<open>int\<close>, shifted and joined.\<close>

definition char_int :: "bool \<Rightarrow> u8 \<Rightarrow> u32" where
  "char_int sc p = (if sc then scast p else ucast p)"

definition sha1_word :: "bool \<Rightarrow> u8 \<Rightarrow> u8 \<Rightarrow> u8 \<Rightarrow> u8 \<Rightarrow> u32" where
  "sha1_word sc p0 p1 p2 p3 =
     char_int sc p3 OR push_bit 8 (char_int sc p2) OR push_bit 16 (char_int sc p1) OR push_bit 24 (char_int sc p0)"

definition sha1_load :: "bool \<Rightarrow> u8 list \<Rightarrow> u32 list" where
  "sha1_load sc p = map (\<lambda>i. sha1_word sc (p ! (4 * i)) (p ! (4 * i + 1)) (p ! (4 * i + 2)) (p ! (4 * i + 3))) [0..<16]"

definition sha1_run :: "basic_sha1 \<Rightarrow> u32 list \<Rightarrow> basic_sha1" where
  "sha1_run r block =
     r\<lparr>sha1_chain := fst (sha1_transform (sha1_chain r) block), sha1_iterations := sha1_iterations r + 1\<rparr>"

function sha1_blocks :: "bool \<Rightarrow> basic_sha1 \<Rightarrow> u8 list \<Rightarrow> basic_sha1" where
  "sha1_blocks sc r p =
     (if 64 \<le> length p then sha1_blocks sc (sha1_run r (sha1_load sc p)) (drop 64 p)
      else r\<lparr>sha1_buf := sha1_buf r @ p\<rparr>)"
  by pat_completeness auto
termination
  by (relation "measure (\<lambda>(sc, r, p). length p)") auto

declare sha1_blocks.simps [simp del]

definition sha1_update :: "bool \<Rightarrow> basic_sha1 \<Rightarrow> u8 list \<Rightarrow> basic_sha1" where
  "sha1_update sc r p =
     (if p = [] then r
      else if sha1_buf r \<noteq> [] then
        (let n = 64 - length (sha1_buf r);
             buf = sha1_buf r @ take n p;
             p = drop n p
         in if length buf < 64 then r\<lparr>sha1_buf := buf\<rparr>
            else sha1_blocks sc (sha1_run (r\<lparr>sha1_buf := []\<rparr>) (sha1_load sc buf)) p)
      else sha1_blocks sc r p)"

text \<open>\<^verbatim>\<open>final\<close> masks the bytes, so that it does not depend on \<open>sc\<close>.\<close>

definition sha1_final :: "basic_sha1 \<Rightarrow> string" where
  "sha1_final r =
     (let total_bits = (sha1_iterations r * 64 + of_nat (length (sha1_buf r))) * 8;
          buf = sha1_buf r @ [0x80];
          sz = length buf;
          buf = buf @ replicate (64 - sz) 0;
          block = be32_words 16 buf;
          (s, block) = (if sz > 56
                        then (let (s, block) = sha1_transform (sha1_chain r) block
                              in (s, replicate 14 0 @ drop 14 block))
                        else (sha1_chain r, block));
          block = block[15 := ucast total_bits];
          block = block[14 := ucast (drop_bit 32 total_bits)];
          ((s0, s1, s2, s3, s4), block) = sha1_transform s block
      in concat (map (\<lambda>w. hex_setw 8 (unat (w AND 0xffffffff))) [s0, s1, s2, s3, s4]))"

definition sha1_calculate :: "bool \<Rightarrow> u8 list \<Rightarrow> string" where
  "sha1_calculate sc data = sha1_final (sha1_update sc sha1_clear data)"

definition sha1_file :: "bool \<Rightarrow> u8 list option \<Rightarrow> string" where
  "sha1_file sc is = calculate_stream sha1_clear (sha1_update sc) sha1_final is"

subsection \<open>FIPS 180-4\<close>

fun fips_W :: "u32 list \<Rightarrow> nat \<Rightarrow> u32" where
  "fips_W M t = (if t < 16 then M ! t
     else word_rotl 1 (fips_W M (t - 3) XOR fips_W M (t - 8) XOR fips_W M (t - 14) XOR fips_W M (t - 16)))"

declare fips_W.simps [simp del]

definition fips_f :: "nat \<Rightarrow> u32 \<Rightarrow> u32 \<Rightarrow> u32 \<Rightarrow> u32" where
  "fips_f t x y z =
     (if t < 20 then (x AND y) XOR (NOT x AND z)
      else if t < 40 then x XOR y XOR z
      else if t < 60 then (x AND y) XOR (x AND z) XOR (y AND z)
      else x XOR y XOR z)"

definition fips_K :: "nat \<Rightarrow> u32" where
  "fips_K t = [0x5a827999, 0x6ed9eba1, 0x8f1bbcdc, 0xca62c1d6] ! (t div 20)"

fun fips_step :: "u32 list \<Rightarrow> sha1_sum \<Rightarrow> nat \<Rightarrow> sha1_sum" where
  "fips_step M (a, b, c, d, e) t =
     (let T = word_rotl 5 a + fips_f t b c d + e + fips_K t + fips_W M t in (T, a, word_rotl 30 b, c, d))"

definition fips_compress :: "sha1_sum \<Rightarrow> u32 list \<Rightarrow> sha1_sum" where
  "fips_compress H M = sha1_add H (foldl (fips_step M) H [0..<80])"

definition be64_bytes :: "u64 \<Rightarrow> u8 list" where
  "be64_bytes w = map (\<lambda>i. ucast (drop_bit (8 * (7 - i)) w)) [0..<8]"

definition fips_sha1 :: "u8 list \<Rightarrow> sha1_sum" where
  "fips_sha1 M = fst (absorb 64 (\<lambda>H b. fips_compress H (be32_words 16 b))
     (0x67452301, 0xefcdab89, 0x98badcfe, 0x10325476, 0xc3d2e1f0)
     (std_pad 64 8 (be64_bytes (8 * of_nat (length M))) M))"

definition sha1_hex :: "sha1_sum \<Rightarrow> string" where
  "sha1_hex s = (case s of (s0, s1, s2, s3, s4) \<Rightarrow> concat (map (\<lambda>w. hex_fixed 8 (unat w)) [s0, s1, s2, s3, s4]))"

text \<open>The ring of 16 words holds the last 16 words of the schedule.\<close>

definition ring_ok :: "u32 list \<Rightarrow> u32 list \<Rightarrow> nat \<Rightarrow> bool" where
  "ring_ok M block t \<longleftrightarrow> length block = 16 \<and> (\<forall>j < 16. block ! ((t + j) mod 16) = fips_W M (t + j - 16))"

lemma and_all_ones: "(x :: u32) AND 0xffffffff = x"
proof -
  have "(0xffffffff :: u32) = mask 32" by (simp add: mask_eq_exp_minus_1)
  moreover have "x AND mask 32 = x" by (simp only: take_bit_eq_mask [symmetric]) (simp add: take_bit_word_eq_self)
  ultimately show ?thesis by simp
qed

lemma sha1_ROL_rotl: "0 < n \<Longrightarrow> n < 32 \<Longrightarrow> sha1_ROL x n = word_rotl n x"
  using rotl_shift [of n x] by (simp add: sha1_ROL_def and_all_ones)

lemma sha1_f:
  "((w AND (x XOR y)) XOR y) = ((w AND x) XOR (NOT w AND (y :: u32)))"
  "(((w OR x) AND y) OR (w AND x)) = ((w AND x) XOR (w AND y) XOR (x AND (y :: u32)))"
  by (rule bit_word_eqI; auto simp: bit_simps)+

lemma ring_start:
  assumes "length M = 16"
  shows "ring_ok M M 16"
proof -
  have "M ! ((16 + j) mod 16) = fips_W M (16 + j - 16)" if "j < 16" for j
    using that by (simp add: fips_W.simps [of M j])
  with assms show ?thesis by (simp add: ring_ok_def)
qed

lemma ring_step:
  assumes "ring_ok M block t" "16 \<le> t"
  shows "sha1_BLK block t = (fips_W M t, block[t mod 16 := fips_W M t]) \<and> ring_ok M (block[t mod 16 := fips_W M t]) (Suc t)"
proof -
  have l: "length block = 16" and r: "\<And>j. j < 16 \<Longrightarrow> block ! ((t + j) mod 16) = fips_W M (t + j - 16)"
    using assms(1) by (simp_all add: ring_ok_def)
  have "block ! ((t + 13) mod 16) = fips_W M (t - 3)" "block ! ((t + 8) mod 16) = fips_W M (t - 8)"
    "block ! ((t + 2) mod 16) = fips_W M (t - 14)" "block ! (t mod 16) = fips_W M (t - 16)"
    using r [of 13] r [of 8] r [of 2] r [of 0] assms(2) by simp_all
  then have b: "sha1_BLK block t = (fips_W M t, block[t mod 16 := fips_W M t])"
    using assms(2) by (simp add: sha1_BLK_def ring_put_def sha1_ROL_rotl fips_W.simps [of M t])
  have "block[t mod 16 := fips_W M t] ! ((Suc t + j) mod 16) = fips_W M (Suc t + j - 16)" if j: "j < 16" for j
  proof (cases "j = 15")
    case True
    then have "(Suc t + j) mod 16 = t mod 16" "Suc t + j - 16 = t" by simp_all
    with l show ?thesis by simp
  next
    case False
    have "\<not> 16 dvd Suc j" using j False by (auto dest: dvd_imp_le)
    then have "(Suc t + j) mod 16 \<noteq> t mod 16" using mod_eq_dvd_iff_nat [of t "Suc t + j" 16] by simp
    with r [of "Suc j"] j False show ?thesis by simp
  qed
  with b l show ?thesis by (simp add: ring_ok_def)
qed

lemma macro_step:
  assumes "t < 80" "block ! t = fips_W M t \<or> 16 \<le> t" "t < 16 \<Longrightarrow> block = M" "16 \<le> t \<Longrightarrow> ring_ok M block t" "length M = 16"
  shows "\<exists>block'. sha1_macro (st, block) t = (fips_step M st t, block')
    \<and> (Suc t < 16 \<longrightarrow> block' = M) \<and> (16 \<le> Suc t \<longrightarrow> ring_ok M block' (Suc t))"
proof -
  obtain v w x y z where st: "st = (v, w, x, y, z)" by (cases st)
  define b' where "b' = (if t < 16 then block else block[t mod 16 := fips_W M t])"
  have e: "(if t < 16 then (block ! t, block) else sha1_BLK block t) = (fips_W M t, b')"
    using assms(2,4) ring_step [of M block t] by (auto simp: b'_def)
  have ring: "16 \<le> Suc t \<longrightarrow> ring_ok M b' (Suc t)"
  proof (cases "t < 16")
    case True
    show ?thesis
    proof
      assume "16 \<le> Suc t"
      then have "Suc t = 16" using True by simp
      then show "ring_ok M b' (Suc t)" using True assms(3,5) ring_start [of M] by (simp add: b'_def)
    qed
  next
    case False
    with ring_step [of M block t] assms(4) show ?thesis by (simp add: b'_def)
  qed
  have K: "fips_K t = (if t < 20 then 0x5a827999 else if t < 40 then 0x6ed9eba1 else if t < 60 then 0x8f1bbcdc else 0xca62c1d6)"
  proof -
    consider "t div 20 = 0" "t < 20" | "t div 20 = 1" "20 \<le> t" "t < 40" | "t div 20 = 2" "40 \<le> t" "t < 60" | "t div 20 = 3" "60 \<le> t"
      using assms(1) by linarith
    then show ?thesis by cases (simp_all add: fips_K_def)
  qed
  have "sha1_macro (st, block) t = (fips_step M st t, b')"
    unfolding st sha1_macro.simps e sha1_set.simps sha1_term_def fips_step.simps Let_def sha1_f K
    by (auto simp: sha1_ROL_rotl fips_f_def algebra_simps)
  with ring assms(3) show ?thesis by (auto simp: b'_def)
qed

lemma macros:
  assumes "length M = 16" "n \<le> 80"
  shows "\<exists>block'. foldl sha1_macro (st, M) [0..<n] = (foldl (fips_step M) st [0..<n], block')
    \<and> (n < 16 \<longrightarrow> block' = M) \<and> (16 \<le> n \<longrightarrow> ring_ok M block' n)"
  using assms(2)
proof (induction n)
  case (Suc n)
  then obtain b where b: "foldl sha1_macro (st, M) [0..<n] = (foldl (fips_step M) st [0..<n], b)"
    "n < 16 \<Longrightarrow> b = M" "16 \<le> n \<Longrightarrow> ring_ok M b n" by auto
  have "b ! n = fips_W M n \<or> 16 \<le> n" using b(2) by (cases "n < 16") (auto simp: fips_W.simps [of M n])
  from macro_step [OF _ this b(2,3) assms(1), of "foldl (fips_step M) st [0..<n]"] Suc.prems b(1) show ?case by auto
qed simp

lemma transform_fips: "length block = 16 \<Longrightarrow> fst (sha1_transform s block) = fips_compress s block"
  using macros [of block 80 s] by (auto simp: sha1_transform_def fips_compress_def Let_def)

lemma length_sha1_macro: "length (snd (sha1_macro p i)) = length (snd p)"
proof -
  have "length (snd (sha1_set r i (b, block))) = length block" for r b block
    by (cases r) simp
  then show ?thesis by (cases p) (simp add: sha1_BLK_def ring_put_def)
qed

lemma length_transform: "length (snd (sha1_transform s block)) = length block"
proof -
  have "length (snd (foldl sha1_macro p is)) = length (snd p)" for p "is"
    by (induction "is" arbitrary: p) (simp_all add: length_sha1_macro)
  from this [of "(s, block)" "[0..<80]"] show ?thesis by (simp add: sha1_transform_def Let_def split_beta)
qed

subsection \<open>The incremental interface\<close>

definition sha1_f64 :: "bool \<Rightarrow> sha1_sum \<Rightarrow> u8 list \<Rightarrow> sha1_sum" where
  "sha1_f64 sc s b = fips_compress s (sha1_load sc b)"

definition sha1_bits :: "basic_sha1 \<Rightarrow> u64" where
  "sha1_bits r = (sha1_iterations r * 64 + of_nat (length (sha1_buf r))) * 8"

definition sha1_ok :: "basic_sha1 \<Rightarrow> bool" where
  "sha1_ok r \<longleftrightarrow> length (sha1_buf r) < 64"

lemma sha1_run_simps [simp]:
  "sha1_chain (sha1_run r (sha1_load sc b)) = sha1_f64 sc (sha1_chain r) b"
  "sha1_iterations (sha1_run r w) = sha1_iterations r + 1"
  "sha1_buf (sha1_run r w) = sha1_buf r"
  by (simp_all add: sha1_run_def sha1_f64_def transform_fips sha1_load_def)

lemma sha1_load_take: "64 \<le> length p \<Longrightarrow> sha1_load sc (take 64 p) = sha1_load sc p"
  by (simp add: sha1_load_def)

lemma sha1_blocks_spec:
  "sha1_buf r = [] \<Longrightarrow>
    sha1_ok (sha1_blocks sc r p)
    \<and> absorb 64 (sha1_f64 sc) (sha1_chain r) p = (sha1_chain (sha1_blocks sc r p), sha1_buf (sha1_blocks sc r p))
    \<and> sha1_bits (sha1_blocks sc r p) = sha1_bits r + 8 * of_nat (length p)"
proof (induction sc r p rule: sha1_blocks.induct)
  case (1 sc r p)
  show ?case
  proof (cases "64 \<le> length p")
    case True
    have "absorb 64 (sha1_f64 sc) (sha1_chain r) p = absorb 64 (sha1_f64 sc) (sha1_f64 sc (sha1_chain r) p) (drop 64 p)"
      using True sha1_load_take [OF True] by (simp add: absorb.simps [of 64 _ _ p] sha1_f64_def)
    moreover have "(of_nat (length p) :: u64) = 64 + of_nat (length (drop 64 p))"
      using True by (simp add: of_nat_diff)
    ultimately show ?thesis using 1 True by (simp add: sha1_blocks.simps [of sc r p] sha1_bits_def algebra_simps)
  next
    case False
    with 1 show ?thesis by (simp add: sha1_blocks.simps [of sc r p] absorb_short sha1_ok_def sha1_bits_def algebra_simps)
  qed
qed

lemma sha1_update_spec:
  assumes "sha1_ok r"
  shows "sha1_ok (sha1_update sc r p)
    \<and> absorb 64 (sha1_f64 sc) (sha1_chain r) (sha1_buf r @ p) = (sha1_chain (sha1_update sc r p), sha1_buf (sha1_update sc r p))
    \<and> sha1_bits (sha1_update sc r p) = sha1_bits r + 8 * of_nat (length p)"
proof (cases "sha1_buf r = [] \<or> p = []")
  case True
  then show ?thesis
    using assms sha1_blocks_spec [of r sc p] by (auto simp: sha1_update_def sha1_ok_def absorb_short)
next
  case False
  define n where "n = 64 - length (sha1_buf r)"
  define buf where "buf = sha1_buf r @ take n p"
  show ?thesis
  proof (cases "length p < n")
    case True
    then have l: "take n p = p" "length (sha1_buf r @ p) < 64" using assms by (simp_all add: n_def sha1_ok_def)
    then have "sha1_update sc r p = r\<lparr>sha1_buf := sha1_buf r @ p\<rparr>"
      using False by (simp add: sha1_update_def Let_def n_def [symmetric])
    with l(2) show ?thesis by (simp add: sha1_ok_def absorb_short sha1_bits_def algebra_simps)
  next
    case long: False
    then have b: "length buf = 64" "sha1_buf r @ p = buf @ drop n p"
      using assms by (simp_all add: buf_def n_def sha1_ok_def)
    define r1 where "r1 = sha1_run (r\<lparr>sha1_buf := []\<rparr>) (sha1_load sc buf)"
    have u: "sha1_update sc r p = sha1_blocks sc r1 (drop n p)"
      using False b(1) by (simp add: sha1_update_def Let_def r1_def buf_def n_def)
    have "sha1_bits r1 + 8 * of_nat (length (drop n p)) = sha1_bits r + 8 * of_nat (length p)"
      using long assms by (simp add: r1_def sha1_bits_def n_def sha1_ok_def of_nat_diff algebra_simps)
    with sha1_blocks_spec [of r1 sc "drop n p"] b show ?thesis
      by (simp add: u absorb_block r1_def)
  qed
qed

interpretation sha1: block_hash 64 "sha1_f64 sc" sha1_chain sha1_buf sha1_bits sha1_ok "\<lambda>xs. True" "sha1_update sc"
  for sc
  by unfold_locales (simp_all add: sha1_update_spec)

subsection \<open>The final padding\<close>

definition fips_f64 :: "sha1_sum \<Rightarrow> u8 list \<Rightarrow> sha1_sum" where
  "fips_f64 H b = fips_compress H (be32_words 16 b)"

lemma be64_words:
  assumes "length q = 56" "length block = 16" "\<And>i. i < 14 \<Longrightarrow> block ! i = be32_words 16 (q @ be64_bytes n) ! i"
  shows "block[15 := ucast n, 14 := ucast (drop_bit 32 n)] = be32_words 16 (q @ be64_bytes n)"
proof (rule nth_equalityI)
  fix i assume "i < length (block[15 := ucast n, 14 := ucast (drop_bit 32 n)])"
  then have i: "i < 16" using assms(2) by simp
  have w: "be32_words 16 (q @ be64_bytes n) ! 14 = be32 (ucast (drop_bit 56 n)) (ucast (drop_bit 48 n)) (ucast (drop_bit 40 n)) (ucast (drop_bit 32 n))"
    "be32_words 16 (q @ be64_bytes n) ! 15 = be32 (ucast (drop_bit 24 n)) (ucast (drop_bit 16 n)) (ucast (drop_bit 8 n)) (ucast (drop_bit 0 n))"
    by (simp_all add: be32_words_def nth_append assms(1) be64_bytes_def del: drop_bit_0)
  have shift: "m \<le> k \<Longrightarrow> a + m + (k - m) = a + k" for a m k :: nat by simp
  have h: "ucast (drop_bit 32 n) = be32_words 16 (q @ be64_bytes n) ! 14"
    unfolding w by (rule bit_word_eqI)
      (use shift [of 8 _ 32] shift [of 16 _ 32] shift [of 24 _ 32] in \<open>auto simp: bit_be32 bit_simps\<close>)
  have l: "ucast n = be32_words 16 (q @ be64_bytes n) ! 15"
    unfolding w by (rule bit_word_eqI) (auto simp: bit_be32 bit_simps)
  consider "i < 14" | "i = 14" | "i = 15" using i by linarith
  then show "block[15 := ucast n, 14 := ucast (drop_bit 32 n)] ! i = be32_words 16 (q @ be64_bytes n) ! i"
    using assms(2,3) h l by cases simp_all
qed (simp add: assms(2) be32_words_def)

lemma sha1_final_spec:
  assumes "sha1_ok r"
  shows "sha1_final r = sha1_hex (fst (absorb 64 fips_f64 (sha1_chain r)
    (sha1_buf r @ 0x80 # replicate ((2 * 64 - 1 - 8 - length (sha1_buf r)) mod 64) 0 @ be64_bytes (sha1_bits r))))"
proof -
  define k where "k = length (sha1_buf r)"
  define buf where "buf = sha1_buf r @ [0x80] @ replicate (63 - k) 0"
  define s1 where "s1 = (if k < 56 then sha1_chain r else fst (sha1_transform (sha1_chain r) (be32_words 16 buf)))"
  define b1 where "b1 = (if k < 56 then be32_words 16 buf else replicate 14 0 @ drop 14 (snd (sha1_transform (sha1_chain r) (be32_words 16 buf))))"
  define q where "q = (if k < 56 then sha1_buf r @ [0x80] @ replicate (55 - k) 0 else replicate 56 0)"
  have k: "k < 64" using assms by (simp add: sha1_ok_def k_def)
  have lb: "length buf = 64" and lq: "length q = 56" using k by (auto simp: buf_def q_def k_def)
  have lw: "length (be32_words 16 xs) = 16" for xs by (simp add: be32_words_def)
  have l1: "length b1 = 16" by (simp add: b1_def lw length_transform)
  have b1: "b1 ! i = be32_words 16 (q @ be64_bytes (sha1_bits r)) ! i" if i: "i < 14" for i
  proof (cases "k < 56")
    case True
    have "replicate (63 - k) 0 = replicate (55 - k) 0 @ replicate 8 (0 :: u8)"
      using True by (simp add: replicate_add [symmetric])
    then have "buf = q @ replicate 8 0" using True by (simp add: buf_def q_def)
    moreover have "4 * i + 3 < 56" using i by simp
    ultimately show ?thesis using True i lq by (simp add: b1_def be32_words_def nth_append)
  next
    case False
    have "be32 0 0 0 0 = 0" by (simp add: be32_def)
    moreover have "4 * i + 3 < 56" using i by simp
    ultimately show ?thesis using False i by (simp add: b1_def be32_words_def nth_append q_def)
  qed
  have last: "b1[15 := ucast (sha1_bits r), 14 := ucast (drop_bit 32 (sha1_bits r))] = be32_words 16 (q @ be64_bytes (sha1_bits r))"
    by (rule be64_words [OF lq l1 b1])
  have hex: "hex_setw 8 (unat (w AND 0xffffffff)) = hex_fixed 8 (unat w)" for w :: u32
    unfolding and_all_ones by (rule hex_setw_fixed) (use unat_width_less(3) [of w] in simp_all)
  have F: "sha1_final r = sha1_hex (fst (sha1_transform s1 (be32_words 16 (q @ be64_bytes (sha1_bits r)))))"
  proof -
    have e: "(sha1_buf r @ [0x80]) @ replicate (64 - length (sha1_buf r @ [0x80])) 0 = buf"
      by (simp add: buf_def k_def)
    have p: "(if 56 < length (sha1_buf r @ [0x80]) then case sha1_transform (sha1_chain r) (be32_words 16 buf) of
        (s, block) \<Rightarrow> (s, replicate 14 0 @ drop 14 block) else (sha1_chain r, be32_words 16 buf)) = (s1, b1)"
      by (simp add: split_beta s1_def b1_def k_def)
    obtain st blk where t: "sha1_transform s1 (be32_words 16 (q @ be64_bytes (sha1_bits r))) = (st, blk)"
      by (rule prod.exhaust)
    obtain v0 v1 v2 v3 v4 where st: "st = (v0, v1, v2, v3, v4)" by (rule prod_cases5)
    show ?thesis
      unfolding sha1_final_def Let_def e p prod.case sha1_bits_def [symmetric] last hex
      unfolding t st sha1_hex_def fst_conv prod.case by (rule refl)
  qed
  have A: "absorb 64 fips_f64 (sha1_chain r) (sha1_buf r @ 0x80 # replicate ((2 * 64 - 1 - 8 - k) mod 64) 0 @ be64_bytes (sha1_bits r))
    = absorb 64 fips_f64 s1 (q @ be64_bytes (sha1_bits r))"
  proof (cases "k < 56")
    case True
    then have "(2 * 64 - 1 - 8 - k) mod 64 = 55 - k" by (simp add: mod_if)
    with True show ?thesis by (simp add: s1_def q_def)
  next
    case False
    then have m: "(2 * 64 - 1 - 8 - k) mod 64 = (63 - k) + 56" using k by simp
    have e: "sha1_buf r @ 0x80 # replicate ((2 * 64 - 1 - 8 - k) mod 64) 0 @ be64_bytes (sha1_bits r) = buf @ q @ be64_bytes (sha1_bits r)"
      unfolding m replicate_add buf_def q_def using False by simp
    show ?thesis unfolding e using lb False by (simp add: absorb_block s1_def transform_fips lw fips_f64_def)
  qed
  have "length (q @ be64_bytes (sha1_bits r)) = 64" using lq by (simp add: be64_bytes_def)
  then have "absorb 64 fips_f64 s1 (q @ be64_bytes (sha1_bits r)) = (fips_f64 s1 (q @ be64_bytes (sha1_bits r)), [])"
    using absorb_block [of 64 "q @ be64_bytes (sha1_bits r)" fips_f64 s1 "[]"] by (simp add: absorb_short)
  then show ?thesis unfolding F k_def [symmetric] A by (simp add: transform_fips lw fips_f64_def)
qed

subsection \<open>Correctness\<close>

lemma sha1_calculate_spec:
  "sha1_calculate sc M = sha1_hex (case absorb 64 (sha1_f64 sc) (sha1_chain sha1_clear) M of (H, r) \<Rightarrow>
     fst (absorb 64 fips_f64 H (r @ 0x80 # replicate ((2 * 64 - 1 - 8 - length r) mod 64) 0 @ be64_bytes (8 * of_nat (length M)))))"
proof -
  have c: "sha1_ok sha1_clear" "sha1_buf sha1_clear = []" "sha1_bits sha1_clear = 0"
    by (simp_all add: sha1_clear_def sha1_ok_def sha1_bits_def)
  from sha1_update_spec [OF c(1), of sc M] show ?thesis
    by (simp add: c(2,3) sha1_calculate_def sha1_final_spec)
qed

lemma sha1_word_unsigned:
  "sha1_word False a b c d = be32 a b c d"
  "a < 0x80 \<Longrightarrow> b < 0x80 \<Longrightarrow> c < 0x80 \<Longrightarrow> d < 0x80 \<Longrightarrow> sha1_word sc a b c d = be32 a b c d"
proof -
  have "char_int sc w = ucast w" if "w < 0x80" for w sc
  proof -
    have h: "n < 7" if "bit w n" for n
    proof -
      have "n < 8" using bit_imp_le_length [OF that] by simp
      moreover have "n \<noteq> 7" using that \<open>w < 0x80\<close> u8_high_bit [of w] by blast
      ultimately show ?thesis by simp
    qed
    have n7: "\<not> bit w 7" using h by blast
    show ?thesis
      unfolding char_int_def by (rule bit_word_eqI) (use n7 in \<open>auto simp: bit_simps min_def dest: h\<close>)
  qed
  then show "sha1_word False a b c d = be32 a b c d"
    "a < 0x80 \<Longrightarrow> b < 0x80 \<Longrightarrow> c < 0x80 \<Longrightarrow> d < 0x80 \<Longrightarrow> sha1_word sc a b c d = be32 a b c d"
    by (simp_all add: sha1_word_def be32_def) (simp add: char_int_def)
qed

lemma sha1_f64_fips:
  assumes "sc \<longrightarrow> (\<forall>x \<in> set b. x < 0x80)" "length b = 64"
  shows "sha1_f64 sc H b = fips_f64 H b"
proof -
  have "sha1_load sc b = be32_words 16 b"
    unfolding sha1_load_def be32_words_def
  proof (intro map_cong refl)
    fix i assume "i \<in> set [0..<16]"
    then have "4 * i + 3 < length b" using assms(2) by simp
    then have "sc \<longrightarrow> b ! (4 * i) < 0x80 \<and> b ! (4 * i + 1) < 0x80 \<and> b ! (4 * i + 2) < 0x80 \<and> b ! (4 * i + 3) < 0x80"
      using assms(1) by simp
    then show "sha1_word sc (b ! (4 * i)) (b ! (4 * i + 1)) (b ! (4 * i + 2)) (b ! (4 * i + 3))
      = be32 (b ! (4 * i)) (b ! (4 * i + 1)) (b ! (4 * i + 2)) (b ! (4 * i + 3))"
      by (cases sc) (simp_all add: sha1_word_unsigned)
  qed
  then show ?thesis by (simp add: sha1_f64_def fips_f64_def)
qed

lemma sha1_fips:
  assumes "sc \<longrightarrow> (\<forall>x \<in> set M. x < 0x80)"
  shows "sha1_calculate sc M = sha1_hex (fips_sha1 M)"
proof -
  obtain H r where a: "absorb 64 (sha1_f64 sc) (sha1_chain sha1_clear) M = (H, r)" by (rule prod.exhaust)
  have "absorb 64 (sha1_f64 sc) (sha1_chain sha1_clear) M = absorb 64 fips_f64 (sha1_chain sha1_clear) M"
    using assms by (intro absorb_cong sha1_f64_fips) auto
  with a have f: "absorb 64 fips_f64 (sha1_chain sha1_clear) M = (H, r)" by simp
  have "fips_sha1 M = fst (absorb 64 fips_f64 (sha1_chain sha1_clear) (std_pad 64 8 (be64_bytes (8 * of_nat (length M))) M))"
    by (simp add: fips_sha1_def fips_f64_def [abs_def] sha1_clear_def)
  then show ?thesis
    using absorb_append [OF _ f] absorb_rest [OF _ f] unfolding sha1_calculate_spec a by (simp add: std_pad_def)
qed

text \<open>The last byte of a word decides alone when it is 0x80 or above and \<^verbatim>\<open>char\<close> is signed.\<close>

lemma sha1_word_signed: "0x80 \<le> d \<Longrightarrow> sha1_word True a b c d = scast d"
proof -
  assume "0x80 \<le> d"
  then have "bit d 7" using u8_high_bit [of d] by (simp add: not_less [symmetric])
  then show ?thesis
    unfolding sha1_word_def char_int_def by (intro bit_word_eqI) (auto simp: bit_simps min_def)
qed

lemma sha1_load_signed:
  assumes "length b = 64" "i < 16" "0x80 \<le> b ! (4 * i + 3)"
  shows "sha1_load True (b[4 * i := x, 4 * i + 1 := y, 4 * i + 2 := z]) = sha1_load True b"
  unfolding sha1_load_def
proof (intro map_cong refl)
  fix j assume "j \<in> set [0..<16]"
  then have j: "j < 16" by simp
  let ?b = "b[4 * i := x, 4 * i + 1 := y, 4 * i + 2 := z]"
  have n: "4 * i \<noteq> 4 * j + 1" "4 * i \<noteq> 4 * j + 2" "4 * i \<noteq> 4 * j + 3" "4 * i + 1 \<noteq> 4 * j" "4 * i + 2 \<noteq> 4 * j"
    "4 * i + 1 \<noteq> 4 * j + 2" "4 * i + 1 \<noteq> 4 * j + 3" "4 * i + 2 \<noteq> 4 * j + 1" "4 * i + 2 \<noteq> 4 * j + 3"
    by presburger+
  show "sha1_word True (?b ! (4 * j)) (?b ! (4 * j + 1)) (?b ! (4 * j + 2)) (?b ! (4 * j + 3))
    = sha1_word True (b ! (4 * j)) (b ! (4 * j + 1)) (b ! (4 * j + 2)) (b ! (4 * j + 3))"
  proof (cases "j = i")
    case True
    have "?b ! (4 * i + 3) = b ! (4 * i + 3)" by simp
    with True assms(3) show ?thesis by (simp add: sha1_word_signed)
  next
    case False
    then have "4 * i \<noteq> 4 * j" "4 * i + 1 \<noteq> 4 * j + 1" "4 * i + 2 \<noteq> 4 * j + 2" by simp_all
    with n show ?thesis by (simp only: nth_list_update_neq not_False_eq_True)
  qed
qed

subsection \<open>Properties\<close>

text \<open>
  C32: on a platform where \<^verbatim>\<open>char\<close> is unsigned the class computes the SHA-1 digest of FIPS
  180-4 for every message, and where it is signed for every message of bytes below 0x80:
  the transformation with its ring of 16 schedule words is the one the standard states with
  80 words, and the padding is right for every length, with one or with two final blocks.
\<close>

theorem sha1_is_fips:
  assumes "sc \<Longrightarrow> \<forall>x \<in> set M. x < 0x80"
  shows "sha1_calculate sc M = sha1_hex (fips_sha1 M)"
  using assms by (intro sha1_fips) blast

theorem sha1_is_fips_witness:
  "sha1_calculate True [0x61, 0x62, 0x63] = sha1_hex (fips_sha1 [0x61, 0x62, 0x63])"
  using sha1_is_fips [of True "[0x61, 0x62, 0x63]"] by simp

text \<open>
  C34: where \<^verbatim>\<open>char\<close> is signed the digest ignores data: in a complete block, the last byte of
  a 4-byte word, when it is 0x80 or above, is sign extended over the other three, which
  can then be anything without changing the digest.
\<close>

theorem sha1_signed_char_collision:
  assumes "length pre mod 64 = 0" "length blk = 64" "i < 16" "0x80 \<le> blk ! (4 * i + 3)"
  shows "sha1_calculate True (pre @ blk[4 * i := x, 4 * i + 1 := y, 4 * i + 2 := z] @ post)
    = sha1_calculate True (pre @ blk @ post)"
proof -
  let ?b = "blk[4 * i := x, 4 * i + 1 := y, 4 * i + 2 := z]"
  obtain H r where a: "absorb 64 (sha1_f64 True) (sha1_chain sha1_clear) pre = (H, r)" by (rule prod.exhaust)
  have f: "sha1_f64 True H ?b = sha1_f64 True H blk" by (simp only: sha1_f64_def sha1_load_signed [OF assms(2-4)])
  have "r = []" using absorb_rest [OF _ a] assms(1) by simp
  then have "absorb 64 (sha1_f64 True) (sha1_chain sha1_clear) (pre @ b @ post) = absorb 64 (sha1_f64 True) (sha1_f64 True H b) post"
    if "length b = 64" for b
    using absorb_whole [of 64 _ _ pre H "b @ post"] a that by (simp add: absorb_block)
  from this [of blk] this [of ?b] assms(2) have
    "absorb 64 (sha1_f64 True) (sha1_chain sha1_clear) (pre @ ?b @ post)
      = absorb 64 (sha1_f64 True) (sha1_chain sha1_clear) (pre @ blk @ post)"
    by (simp only: f length_list_update)
  then show ?thesis by (simp add: sha1_calculate_spec)
qed

theorem sha1_signed_char_collision_witness:
  "sha1_calculate True ((replicate 64 0xff)[0 := 1, 1 := 2, 2 := 3]) = sha1_calculate True (replicate 64 0xff)"
proof -
  have "length (replicate 64 0xff :: u8 list) = 64" "0x80 \<le> (replicate 64 0xff :: u8 list) ! (4 * 0 + 3)" by simp_all
  from sha1_signed_char_collision [of "[]", OF _ this(1) _ this(2), of 1 2 3 "[]"] show ?thesis
    by (simp add: numeral_2_eq_2)
qed

end
