(* ===== verification/Sha512.thy ===== *)
theory Sha512
  imports Blockhash
begin

text \<open>
  The class \<^verbatim>\<open>basic_sha512\<close> of \<^verbatim>\<open>mod/mod.sys.hash.hh\<close>, with its 256-byte buffer, of which
  128 bytes are the current block and the rest the room for a second padding block.  It is
  shown to be the SHA-512 of FIPS 180-4 for messages below \<open>2 ^ 29\<close> bytes; beyond, the code
  stores only the low 32 bits of the message length.  The counters inside one call are of
  the 32-bit type \<^verbatim>\<open>unsigned\<close>; the pieces given to \<^verbatim>\<open>update\<close> are assumed to be smaller.
\<close>

subsection \<open>The code\<close>

type_synonym sha512_sum = "u64 \<times> u64 \<times> u64 \<times> u64 \<times> u64 \<times> u64 \<times> u64 \<times> u64"

record basic_sha512 =
  sha512_iterations :: u64
  sha512_chain :: sha512_sum
  sha512_sz :: nat
  sha512_block :: "u8 list"

definition sha512_clear :: basic_sha512 where
  "sha512_clear = \<lparr>sha512_iterations = 0,
     sha512_chain = (0x6a09e667f3bcc908, 0xbb67ae8584caa73b, 0x3c6ef372fe94f82b, 0xa54ff53a5f1d36f1,
       0x510e527fade682d1, 0x9b05688c2b3e6c1f, 0x1f83d9abfb41bd6b, 0x5be0cd19137e2179),
     sha512_sz = 0, sha512_block = replicate 256 0\<rparr>"

definition sha512_lut :: "u64 list" where
  "sha512_lut = concat [
    [0x428a2f98d728ae22, 0x7137449123ef65cd, 0xb5c0fbcfec4d3b2f, 0xe9b5dba58189dbbc],
    [0x3956c25bf348b538, 0x59f111f1b605d019, 0x923f82a4af194f9b, 0xab1c5ed5da6d8118],
    [0xd807aa98a3030242, 0x12835b0145706fbe, 0x243185be4ee4b28c, 0x550c7dc3d5ffb4e2],
    [0x72be5d74f27b896f, 0x80deb1fe3b1696b1, 0x9bdc06a725c71235, 0xc19bf174cf692694],
    [0xe49b69c19ef14ad2, 0xefbe4786384f25e3, 0x0fc19dc68b8cd5b5, 0x240ca1cc77ac9c65],
    [0x2de92c6f592b0275, 0x4a7484aa6ea6e483, 0x5cb0a9dcbd41fbd4, 0x76f988da831153b5],
    [0x983e5152ee66dfab, 0xa831c66d2db43210, 0xb00327c898fb213f, 0xbf597fc7beef0ee4],
    [0xc6e00bf33da88fc2, 0xd5a79147930aa725, 0x06ca6351e003826f, 0x142929670a0e6e70],
    [0x27b70a8546d22ffc, 0x2e1b21385c26c926, 0x4d2c6dfc5ac42aed, 0x53380d139d95b3df],
    [0x650a73548baf63de, 0x766a0abb3c77b2a8, 0x81c2c92e47edaee6, 0x92722c851482353b],
    [0xa2bfe8a14cf10364, 0xa81a664bbc423001, 0xc24b8b70d0f89791, 0xc76c51a30654be30],
    [0xd192e819d6ef5218, 0xd69906245565a910, 0xf40e35855771202a, 0x106aa07032bbd1b8],
    [0x19a4c116b8d2d0c8, 0x1e376c085141ab53, 0x2748774cdf8eeb99, 0x34b0bcb5e19b48a8],
    [0x391c0cb3c5c95a63, 0x4ed8aa4ae3418acb, 0x5b9cca4f7763e373, 0x682e6ff3d6b2b8a3],
    [0x748f82ee5defb2fc, 0x78a5636f43172f60, 0x84c87814a1f0ab72, 0x8cc702081a6439ec],
    [0x90befffa23631e28, 0xa4506cebde82bde9, 0xbef9a3f7b2c67915, 0xc67178f2e372532b],
    [0xca273eceea26619c, 0xd186b8c721c0c207, 0xeada7dd6cde0eb1e, 0xf57d4f7fee6ed178],
    [0x06f067aa72176fba, 0x0a637dc5a2c898a6, 0x113f9804bef90dae, 0x1b710b35131c471b],
    [0x28db77f523047d84, 0x32caab7b40c72493, 0x3c9ebe0a15c9bebc, 0x431d67c49c100d4c],
    [0x4cc5d4becb3e42b6, 0x597f299cfc657e2a, 0x5fcb6fab3ad6faec, 0x6c44198c4a475817]]"

definition sha512_RR :: "u64 \<Rightarrow> nat \<Rightarrow> u64" where
  "sha512_RR x n = drop_bit n x OR push_bit (64 - n) x"

definition sha512_CH :: "u64 \<Rightarrow> u64 \<Rightarrow> u64 \<Rightarrow> u64" where
  "sha512_CH x y z = (x AND y) XOR (NOT x AND z)"

definition sha512_MJ :: "u64 \<Rightarrow> u64 \<Rightarrow> u64 \<Rightarrow> u64" where
  "sha512_MJ x y z = (x AND y) XOR (x AND z) XOR (y AND z)"

definition sha512_F1 :: "u64 \<Rightarrow> u64" where
  "sha512_F1 x = sha512_RR x 28 XOR sha512_RR x 34 XOR sha512_RR x 39"

definition sha512_F2 :: "u64 \<Rightarrow> u64" where
  "sha512_F2 x = sha512_RR x 14 XOR sha512_RR x 18 XOR sha512_RR x 41"

definition sha512_F3 :: "u64 \<Rightarrow> u64" where
  "sha512_F3 x = sha512_RR x 1 XOR sha512_RR x 8 XOR drop_bit 7 x"

definition sha512_F4 :: "u64 \<Rightarrow> u64" where
  "sha512_F4 x = sha512_RR x 19 XOR sha512_RR x 61 XOR drop_bit 6 x"

definition sha512_BU64 :: "u8 list \<Rightarrow> nat \<Rightarrow> u64" where
  "sha512_BU64 b o8 =
     ucast (b ! (o8 + 7)) OR push_bit 8 (ucast (b ! (o8 + 6))) OR push_bit 16 (ucast (b ! (o8 + 5)))
     OR push_bit 24 (ucast (b ! (o8 + 4))) OR push_bit 32 (ucast (b ! (o8 + 3))) OR push_bit 40 (ucast (b ! (o8 + 2)))
     OR push_bit 48 (ucast (b ! (o8 + 1))) OR push_bit 56 (ucast (b ! o8))"

definition sha512_extend :: "u64 list \<Rightarrow> nat \<Rightarrow> u64 list" where
  "sha512_extend w j = w @ [sha512_F4 (w ! (j - 2)) + w ! (j - 7) + sha512_F3 (w ! (j - 15)) + w ! (j - 16)]"

definition sha512_w :: "u8 list \<Rightarrow> u64 list" where
  "sha512_w tblock = foldl sha512_extend (map (\<lambda>j. sha512_BU64 tblock (8 * j)) [0..<16]) [16..<80]"

fun sha512_round :: "u64 list \<Rightarrow> sha512_sum \<Rightarrow> nat \<Rightarrow> sha512_sum" where
  "sha512_round w (v0, v1, v2, v3, v4, v5, v6, v7) j =
     (let t = v7 + sha512_F2 v4 + sha512_CH v4 v5 v6 + sha512_lut ! j + w ! j;
          u = sha512_F1 v0 + sha512_MJ v0 v1 v2
      in (t + u, v0, v1, v2, v3 + t, v4, v5, v6))"

fun sha512_add :: "sha512_sum \<Rightarrow> sha512_sum \<Rightarrow> sha512_sum" where
  "sha512_add (s0, s1, s2, s3, s4, s5, s6, s7) (v0, v1, v2, v3, v4, v5, v6, v7) =
     (s0 + v0, s1 + v1, s2 + v2, s3 + v3, s4 + v4, s5 + v5, s6 + v6, s7 + v7)"

definition sha512_transform1 :: "sha512_sum \<Rightarrow> u8 list \<Rightarrow> sha512_sum" where
  "sha512_transform1 s tblock = sha512_add s (foldl (sha512_round (sha512_w tblock)) s [0..<80])"

fun sha512_transform :: "sha512_sum \<Rightarrow> u8 list \<Rightarrow> nat \<Rightarrow> sha512_sum" where
  "sha512_transform s data 0 = s"
| "sha512_transform s data (Suc n) = sha512_transform (sha512_transform1 s data) (drop 128 data) n"

definition sha512_update :: "basic_sha512 \<Rightarrow> u8 list \<Rightarrow> basic_sha512" where
  "sha512_update r data =
     (let n = 128 - sha512_sz r;
          n_tail = min (length data) n;
          block = blit (sha512_block r) (sha512_sz r) (take n_tail data)
      in if sha512_sz r + length data < 128
         then r\<lparr>sha512_sz := sha512_sz r + length data, sha512_block := block\<rparr>
         else
           (let n = length data - n_tail;
                nb = n div 128;
                p = drop n_tail data;
                s = sha512_transform (sha512_chain r) block 1;
                s = sha512_transform s p nb;
                n_tail = n mod 128;
                block = blit block 0 (take n_tail (drop (128 * nb) p))
            in \<lparr>sha512_iterations = sha512_iterations r + of_nat ((nb + 1) * 128), sha512_chain = s,
                sha512_sz = n_tail, sha512_block = block\<rparr>))"

definition be32_bytes :: "u64 \<Rightarrow> u8 list" where
  "be32_bytes x = [ucast (drop_bit 24 x), ucast (drop_bit 16 x), ucast (drop_bit 8 x), ucast x]"

definition sha512_final_data :: "basic_sha512 \<Rightarrow> string" where
  "sha512_final_data r =
     (let nb = 1 + (if 0x80 - 17 < sha512_sz r mod 128 then 1 else 0);
          n_total = push_bit 3 (sha512_iterations r + of_nat (sha512_sz r));
          n = nb * 128;
          block = blit (sha512_block r) (sha512_sz r) (replicate (n - sha512_sz r) 0);
          block = block[sha512_sz r := 0x80];
          block = blit block (n - 4) (be32_bytes n_total);
          (s0, s1, s2, s3, s4, s5, s6, s7) = sha512_transform (sha512_chain r) block nb
      in concat (map (\<lambda>w. hex_setw 16 (unat w)) [s0, s1, s2, s3, s4, s5, s6, s7]))"

definition sha512_calculate :: "u8 list \<Rightarrow> string" where
  "sha512_calculate data = sha512_final_data (sha512_update sha512_clear data)"

definition sha512_file :: "u8 list option \<Rightarrow> string" where
  "sha512_file is = calculate_stream sha512_clear sha512_update sha512_final_data is"

subsection \<open>FIPS 180-4\<close>

fun fips512_W :: "u8 list \<Rightarrow> nat \<Rightarrow> u64" where
  "fips512_W M t = (if t < 16 then word_rcat (map (\<lambda>i. M ! (8 * t + i)) [0..<8])
     else (let s0 = \<lambda>x. word_rotr 1 x XOR word_rotr 8 x XOR drop_bit 7 x;
               s1 = \<lambda>x. word_rotr 19 x XOR word_rotr 61 x XOR drop_bit 6 x
           in s1 (fips512_W M (t - 2)) + fips512_W M (t - 7) + s0 (fips512_W M (t - 15)) + fips512_W M (t - 16)))"

declare fips512_W.simps [simp del]

fun fips512_step :: "u8 list \<Rightarrow> sha512_sum \<Rightarrow> nat \<Rightarrow> sha512_sum" where
  "fips512_step M (a, b, c, d, e, f, g, h) t =
     (let S1 = word_rotr 14 e XOR word_rotr 18 e XOR word_rotr 41 e;
          S0 = word_rotr 28 a XOR word_rotr 34 a XOR word_rotr 39 a;
          T1 = h + S1 + ((e AND f) XOR (NOT e AND g)) + sha512_lut ! t + fips512_W M t;
          T2 = S0 + ((a AND b) XOR (a AND c) XOR (b AND c))
      in (T1 + T2, a, b, c, d + T1, e, f, g))"

definition fips512_compress :: "sha512_sum \<Rightarrow> u8 list \<Rightarrow> sha512_sum" where
  "fips512_compress H M = sha512_add H (foldl (fips512_step M) H [0..<80])"

definition be64_field :: "u64 \<Rightarrow> u8 list" where
  "be64_field w = map (\<lambda>i. ucast (drop_bit (8 * (7 - i)) w)) [0..<8]"

definition fips_sha512 :: "u8 list \<Rightarrow> sha512_sum" where
  "fips_sha512 M = fst (absorb 128 fips512_compress (sha512_chain sha512_clear)
     (std_pad 128 16 (replicate 8 0 @ be64_field (8 * of_nat (length M))) M))"

definition sha512_hex :: "sha512_sum \<Rightarrow> string" where
  "sha512_hex s = (case s of (s0, s1, s2, s3, s4, s5, s6, s7) \<Rightarrow>
     concat (map (\<lambda>w. hex_fixed 16 (unat w)) [s0, s1, s2, s3, s4, s5, s6, s7]))"

subsection \<open>The transformation\<close>

lemma sha512_RR_rotr: "0 < n \<Longrightarrow> n < 64 \<Longrightarrow> sha512_RR x n = word_rotr n x"
  using rotr_shift [of n x] by (simp add: sha512_RR_def)

lemma BU64_rcat: "sha512_BU64 b k = word_rcat (map (\<lambda>i. b ! (k + i)) [0..<8])"
proof (rule bit_word_eqI)
  fix n assume "n < LENGTH(64)"
  then have n: "n < 64" by simp
  define q m where "q = n div 8" and "m = n mod 8"
  have nm: "n = 8 * q + m" "m < 8" "q < 8" using n by (simp_all add: q_def m_def)
  have hs: "bit (horner_sum uint 256 ws) i \<longleftrightarrow> i div 8 < length ws \<and> bit (ws ! (i div 8)) (i mod 8)" for ws :: "u8 list" and i
    using bit_horner_sum_uint_exp_iff [of ws i] by simp
  have w: "bit (word_rcat (map (\<lambda>i. b ! (k + i)) [0..<8]) :: u64) n \<longleftrightarrow> bit (b ! (k + (7 - q))) m"
    using nm n hs by (simp add: word_rcat_def bit_word_of_int_iff bit_horner_sum_uint_exp_iff rev_nth q_def [symmetric] m_def [symmetric] del: horner_sum_simps upt_Suc)
  have h: "\<not> bit (c :: u8) j" if "8 \<le> j" for c j using bit_imp_le_length [of c j] that by auto
  consider "q = 0" | "q = 1" | "q = 2" | "q = 3" | "q = 4" | "q = 5" | "q = 6" | "q = 7" using nm(3) by linarith
  then show "bit (sha512_BU64 b k) n = bit (word_rcat (map (\<lambda>i. b ! (k + i)) [0..<8]) :: u64) n"
    unfolding w sha512_BU64_def by cases (use nm h in \<open>simp_all add: bit_simps\<close>)
qed

lemma sha512_w_prefix:
  "n \<le> 64 \<Longrightarrow> foldl sha512_extend (map (\<lambda>j. sha512_BU64 M (8 * j)) [0..<16]) [16..<16 + n] = map (fips512_W M) [0..<16 + n]"
proof (induction n)
  case 0
  show ?case by (simp add: fips512_W.simps [of M] BU64_rcat)
next
  case (Suc n)
  have u: "[16..<16 + Suc n] = [16..<16 + n] @ [16 + n]" "[0..<16 + Suc n] = [0..<16 + n] @ [16 + n]"
    by (simp_all only: add_Suc_right upt_Suc_append le_add1 le0)
  have n: "16 + n - 2 < 16 + n" "16 + n - 7 < 16 + n" "16 + n - 15 < 16 + n" "16 + n - 16 < 16 + n" "\<not> 16 + n < 16" by simp_all
  have "sha512_extend (map (fips512_W M) [0..<16 + n]) (16 + n) = map (fips512_W M) [0..<16 + n] @ [fips512_W M (16 + n)]"
    unfolding sha512_extend_def fips512_W.simps [of M "16 + n"] Let_def sha512_F4_def sha512_F3_def
    by (simp only: n nth_map_upt length_map length_upt if_False diff_zero add_0 sha512_RR_rotr)
  with Suc show ?case
    unfolding u foldl_append map_append by (simp only: foldl.simps Suc_leD list.map)
qed

lemma sha512_w_fips: "sha512_w M = map (fips512_W M) [0..<80]"
  using sha512_w_prefix [of 64 M] by (simp add: sha512_w_def)

lemma sha512_round_fips: "j < 80 \<Longrightarrow> sha512_round (map (fips512_W M) [0..<80]) st j = fips512_step M st j"
proof -
  assume "j < 80"
  obtain a b c d e f g h where "st = (a, b, c, d, e, f, g, h)" by (metis surj_pair)
  with \<open>j < 80\<close> show ?thesis
    by (simp add: Let_def sha512_F1_def sha512_F2_def sha512_CH_def sha512_MJ_def sha512_RR_rotr)
qed

lemma transform1_fips: "sha512_transform1 = fips512_compress"
proof (intro ext)
  fix s M
  have "foldl (sha512_round (map (fips512_W M) [0..<80])) s [0..<80] = foldl (fips512_step M) s [0..<80]"
    by (rule foldl_cong) (simp_all add: sha512_round_fips)
  then show "sha512_transform1 s M = fips512_compress s M"
    by (simp add: sha512_transform1_def fips512_compress_def sha512_w_fips)
qed

lemma transform1_take: "128 \<le> length p \<Longrightarrow> sha512_transform1 s (take 128 p) = sha512_transform1 s p"
proof -
  assume "128 \<le> length p"
  then have "sha512_BU64 (take 128 p) (8 * j) = sha512_BU64 p (8 * j)" if "j < 16" for j
    using that by (simp add: sha512_BU64_def)
  then have "map (\<lambda>j. sha512_BU64 (take 128 p) (8 * j)) [0..<16] = map (\<lambda>j. sha512_BU64 p (8 * j)) [0..<16]"
    by (intro map_cong refl) (simp only: set_upt atLeastLessThan_iff)
  then show ?thesis by (simp only: sha512_transform1_def sha512_w_def)
qed

lemma transform_absorb:
  "128 * n \<le> length p \<Longrightarrow> absorb 128 sha512_transform1 s p = absorb 128 sha512_transform1 (sha512_transform s p n) (drop (128 * n) p)"
proof (induction n arbitrary: s p)
  case (Suc n)
  then have "absorb 128 sha512_transform1 s p = absorb 128 sha512_transform1 (sha512_transform1 s p) (drop 128 p)"
    by (subst absorb.simps) (simp add: transform1_take)
  with Suc show ?case by (simp add: add.commute)
qed simp

subsection \<open>The incremental interface\<close>

definition sha512_pending :: "basic_sha512 \<Rightarrow> u8 list" where
  "sha512_pending r = take (sha512_sz r) (sha512_block r)"

definition sha512_bits :: "basic_sha512 \<Rightarrow> u64" where
  "sha512_bits r = push_bit 3 (sha512_iterations r + of_nat (sha512_sz r))"

definition sha512_ok :: "basic_sha512 \<Rightarrow> bool" where
  "sha512_ok r \<longleftrightarrow> length (sha512_block r) = 256 \<and> sha512_sz r < 128"

definition sha512_short :: "u8 list \<Rightarrow> bool" where
  "sha512_short xs \<longleftrightarrow> length xs < 2 ^ 32 - 128"

lemma sha512_update_spec:
  assumes "sha512_ok r"
  shows "sha512_ok (sha512_update r xs)
    \<and> absorb 128 sha512_transform1 (sha512_chain r) (sha512_pending r @ xs)
      = (sha512_chain (sha512_update r xs), sha512_pending (sha512_update r xs))
    \<and> sha512_bits (sha512_update r xs) = sha512_bits r + 8 * of_nat (length xs)"
proof -
  define k where "k = sha512_sz r"
  have k: "k < 128" "length (sha512_block r) = 256" "length (sha512_pending r) = k"
    using assms by (simp_all add: sha512_ok_def k_def sha512_pending_def)
  have b8: "push_bit 3 x = x * 8" for x :: u64 by (simp add: push_bit_eq_mult)
  show ?thesis
  proof (cases "k + length xs < 128")
    case True
    then have m: "min (length xs) (128 - k) = length xs" by simp
    have u: "sha512_update r xs = r\<lparr>sha512_sz := k + length xs, sha512_block := blit (sha512_block r) k xs\<rparr>"
      using True by (simp add: sha512_update_def Let_def k_def [symmetric] m)
    have "sha512_pending (sha512_update r xs) = sha512_pending r @ xs"
      using take_blit [of k "sha512_block r" xs] k by (simp add: u sha512_pending_def k_def)
    moreover have "absorb 128 sha512_transform1 (sha512_chain r) (sha512_pending r @ xs) = (sha512_chain r, sha512_pending r @ xs)"
      using True k by (intro absorb_short) simp
    ultimately show ?thesis using True k by (simp add: u sha512_ok_def sha512_bits_def b8 k_def [symmetric] algebra_simps)
  next
    case False
    then have m: "min (length xs) (128 - k) = 128 - k" by simp
    define p where "p = drop (128 - k) xs"
    define block where "block = blit (sha512_block r) k (take (128 - k) xs)"
    define nb where "nb = length p div 128"
    define s where "s = sha512_transform (sha512_transform (sha512_chain r) block 1) p nb"
    have u: "sha512_update r xs = \<lparr>sha512_iterations = sha512_iterations r + of_nat ((nb + 1) * 128), sha512_chain = s,
        sha512_sz = length p mod 128, sha512_block = blit block 0 (take (length p mod 128) (drop (128 * nb) p))\<rparr>"
      using False by (simp add: sha512_update_def Let_def k_def [symmetric] m p_def block_def nb_def s_def)
    have lb: "length block = 256" using k False by (simp add: block_def)
    have tb: "take 128 block = sha512_pending r @ take (128 - k) xs"
      using take_blit [of k "sha512_block r" "take (128 - k) xs"] k False by (simp add: block_def sha512_pending_def k_def)
    have r: "drop (128 * nb) p = take (length p mod 128) (drop (128 * nb) p)" "length (drop (128 * nb) p) = length p mod 128"
      by (simp_all add: nb_def minus_mult_div_eq_mod)
    have "sha512_pending r @ xs = take 128 block @ p" by (simp add: tb p_def)
    then have "absorb 128 sha512_transform1 (sha512_chain r) (sha512_pending r @ xs)
        = absorb 128 sha512_transform1 (sha512_transform (sha512_chain r) block 1) p"
      using lb by (simp add: absorb_block transform1_take)
    also have "\<dots> = absorb 128 sha512_transform1 s (drop (128 * nb) p)"
      unfolding s_def by (rule transform_absorb) (simp add: nb_def)
    also have "\<dots> = (s, drop (128 * nb) p)"
      using mod_less_divisor [of 128 "length p"] r(2) by (intro absorb_short) linarith
    finally have a: "absorb 128 sha512_transform1 (sha512_chain r) (sha512_pending r @ xs) = (s, drop (128 * nb) p)" .
    have pend: "sha512_pending (sha512_update r xs) = drop (128 * nb) p"
      using take_blit [of 0 block "drop (128 * nb) p"] r by (simp add: u sha512_pending_def)
    have l: "length xs = (128 - k) + length p" using False by (simp add: p_def)
    have "k + length xs = (nb + 1) * 128 + length p mod 128" using k(1) l by (simp add: nb_def)
    then have "(of_nat (k + length xs) :: u64) = of_nat ((nb + 1) * 128) + of_nat (length p mod 128)" by (simp only: of_nat_add)
    then have e: "of_nat ((nb + 1) * 128) + of_nat (length p mod 128) = (of_nat k + of_nat (length xs) :: u64)" by (simp only: of_nat_add)
    have "sha512_bits (sha512_update r xs) = (sha512_iterations r + (of_nat ((nb + 1) * 128) + of_nat (length p mod 128))) * 8"
      by (simp only: u sha512_bits_def b8 basic_sha512.simps add.assoc)
    then have bits: "sha512_bits (sha512_update r xs) = sha512_bits r + 8 * of_nat (length xs)"
      unfolding e by (simp add: sha512_bits_def b8 k_def [symmetric] algebra_simps)
    have m128: "length p mod 128 < 128" by simp
    then have "length (blit block 0 (take (length p mod 128) (drop (128 * nb) p))) = 256"
      using lb by (subst length_blit) (auto simp: min_def)
    with m128 have "sha512_ok (sha512_update r xs)" by (simp only: u sha512_ok_def basic_sha512.simps)
    with a pend bits show ?thesis by (simp add: u)
  qed
qed

interpretation sha512: block_hash 128 sha512_transform1 sha512_chain sha512_pending sha512_bits sha512_ok sha512_short sha512_update
  by unfold_locales (simp_all add: sha512_update_spec)

subsection \<open>The final padding\<close>

lemma sha512_final_spec:
  assumes "sha512_ok r"
  shows "sha512_final_data r = sha512_hex (fst (absorb 128 sha512_transform1 (sha512_chain r)
    (sha512_pending r @ 0x80 # replicate ((2 * 128 - 1 - 16 - sha512_sz r) mod 128) 0
      @ replicate 12 0 @ be32_bytes (sha512_bits r))))"
proof -
  define k where "k = sha512_sz r"
  have k: "k < 128" "length (sha512_block r) = 256" using assms by (simp_all add: sha512_ok_def k_def)
  define nb :: nat where "nb = 1 + (if 111 < k then 1 else 0)"
  define z where "z = (2 * 128 - 1 - 16 - k) mod 128"
  have z: "k + 1 + z + 16 = nb * 128"
  proof (cases "111 < k")
    case True
    then have "(2 * 128 - 1 - 16 - k) mod 128 = 239 - k" using k(1) by simp
    with True k(1) show ?thesis by (simp add: z_def nb_def)
  next
    case False
    then have "(2 * 128 - 1 - 16 - k) mod 128 = 111 - k" by (simp add: mod_if)
    with False show ?thesis by (simp add: z_def nb_def)
  qed
  have nb: "nb * 128 \<le> 256" by (simp add: nb_def)
  define b1 where "b1 = (blit (sha512_block r) k (replicate (nb * 128 - k) 0))[k := 0x80]"
  define b2 where "b2 = blit b1 (nb * 128 - 4) (be32_bytes (sha512_bits r))"
  have "nb * 128 - k = Suc (z + 12 + 4)" using z by simp
  then have r0: "replicate (nb * 128 - k) (0 :: u8) = 0 # replicate z 0 @ replicate 12 0 @ replicate 4 0"
    by (simp only: replicate_Suc replicate_add append_assoc)
  have l1: "length b1 = 256" using k nb by (simp add: b1_def)
  have "b1 = take k (sha512_block r) @ 0x80 # replicate z 0 @ replicate 12 0 @ replicate 4 0 @ drop (k + (nb * 128 - k)) (sha512_block r)"
  proof -
    have "length (replicate (nb * 128 - k) (0 :: u8)) = nb * 128 - k" by simp
    then have "blit (sha512_block r) k (replicate (nb * 128 - k) 0)
        = take k (sha512_block r) @ (0 # replicate z 0 @ replicate 12 0 @ replicate 4 0) @ drop (k + (nb * 128 - k)) (sha512_block r)"
      unfolding blit_def by (simp only: r0)
    moreover have "length (take k (sha512_block r)) = k" using k by simp
    ultimately show ?thesis unfolding b1_def by (simp only: append_Cons list_update_length append_assoc)
        (metis append_Cons list_update_length)
  qed
  then have t1: "take (nb * 128 - 4) b1 = take k (sha512_block r) @ 0x80 # replicate z 0 @ replicate 12 0"
  proof -
    assume b1: "b1 = take k (sha512_block r) @ 0x80 # replicate z 0 @ replicate 12 0 @ replicate 4 0 @ drop (k + (nb * 128 - k)) (sha512_block r)"
    define q where "q = take k (sha512_block r) @ 0x80 # replicate z 0 @ replicate 12 (0 :: u8)"
    have "length q = nb * 128 - 4" using k z by (simp add: q_def)
    moreover have "b1 = q @ replicate 4 0 @ drop (k + (nb * 128 - k)) (sha512_block r)" by (simp add: b1 q_def)
    ultimately show ?thesis unfolding q_def [symmetric] by simp
  qed
  have e4: "nb * 128 - 4 + length (be32_bytes x) = nb * 128" for x using z by (simp add: be32_bytes_def)
  have t2: "take (nb * 128) b2 = sha512_pending r @ 0x80 # replicate z 0 @ replicate 12 0 @ be32_bytes (sha512_bits r)"
    using take_blit [of "nb * 128 - 4" b1 "be32_bytes (sha512_bits r)"] l1 nb unfolding e4 t1
    by (simp add: b2_def sha512_pending_def k_def)
  have lb2: "length b2 = 256" using l1 nb z by (simp add: b2_def be32_bytes_def)
  have "sha512_transform (sha512_chain r) b2 nb = fst (absorb 128 sha512_transform1 (sha512_chain r) (take (nb * 128) b2))"
  proof -
    have tt: "sha512_transform s b n = sha512_transform s (take (n * 128) b) n" if "n * 128 \<le> length b" for s b n
      using that
    proof (induction n arbitrary: s b)
      case (Suc n)
      have "sha512_transform1 s (take (Suc n * 128) b) = sha512_transform1 s b"
      proof -
        have l: "128 \<le> length b" "128 \<le> length (take (Suc n * 128) b)" using Suc.prems by simp_all
        have "take 128 (take (Suc n * 128) b) = take 128 b" by simp
        then show ?thesis using transform1_take [OF l(1), of s] transform1_take [OF l(2), of s] by (simp only:)
      qed
      moreover have "drop 128 (take (Suc n * 128) b) = take (n * 128) (drop 128 b)" by (simp add: drop_take)
      moreover have "sha512_transform s1 (drop 128 b) n = sha512_transform s1 (take (n * 128) (drop 128 b)) n" for s1
        using Suc.prems by (intro Suc.IH) simp
      ultimately show ?case by (simp only: sha512_transform.simps)
    qed simp
    have "absorb 128 sha512_transform1 (sha512_chain r) (take (nb * 128) b2) = absorb 128 sha512_transform1 (sha512_transform (sha512_chain r) (take (nb * 128) b2) nb) []"
      using transform_absorb [of nb "take (nb * 128) b2" "sha512_chain r"] lb2 nb by (simp add: mult.commute)
    then show ?thesis using tt [of nb b2 "sha512_chain r"] lb2 nb by (simp add: absorb_short)
  qed
  moreover have "sha512_final_data r = sha512_hex (sha512_transform (sha512_chain r) b2 nb)"
  proof -
    have hex: "hex_setw 16 (unat w) = hex_fixed 16 (unat w)" for w :: u64
      by (rule hex_setw_fixed) (use unat_width_less(4) [of w] in simp_all)
    have n: "1 + (if 0x80 - 17 < k mod 128 then 1 else 0) = nb" using k by (simp add: nb_def)
    show ?thesis
      unfolding sha512_final_data_def Let_def k_def [symmetric] n sha512_bits_def [unfolded k_def [symmetric], symmetric] hex sha512_hex_def
      by (simp only: b1_def b2_def sha512_bits_def k_def)
  qed
  ultimately show ?thesis unfolding t2 z_def k_def by simp
qed

lemma sha512_calculate_spec:
  "sha512_calculate M = sha512_hex (fst (absorb 128 fips512_compress (sha512_chain sha512_clear)
     (std_pad 128 16 (replicate 12 0 @ be32_bytes (8 * of_nat (length M))) M)))"
proof -
  have c: "sha512_ok sha512_clear" "sha512_pending sha512_clear = []" "sha512_bits sha512_clear = 0"
    by (simp_all add: sha512_clear_def sha512_ok_def sha512_bits_def sha512_pending_def)
  define r where "r = sha512_update sha512_clear M"
  have u: "sha512_ok r" "absorb 128 sha512_transform1 (sha512_chain sha512_clear) M = (sha512_chain r, sha512_pending r)"
    "sha512_bits r = 8 * of_nat (length M)"
    using sha512_update_spec [OF c(1), of M] c(2,3) by (simp_all add: r_def)
  have "sha512_sz r = length (sha512_pending r)" using u(1) by (simp add: sha512_ok_def sha512_pending_def)
  then have k: "sha512_sz r = length M mod 128" using absorb_rest [OF _ u(2)] by simp
  show ?thesis
    unfolding sha512_calculate_def r_def [symmetric] sha512_final_spec [OF u(1)] u(3) k
    using absorb_append [OF _ u(2)] by (simp add: std_pad_def transform1_fips)
qed

lemma length_field: "n < 2 ^ 29 \<Longrightarrow> replicate 12 0 @ be32_bytes (8 * of_nat n) = replicate 8 0 @ be64_field (8 * of_nat n)"
proof -
  assume n: "n < 2 ^ 29"
  define w where "w = (8 * of_nat n :: u64)"
  have "unat w = 8 * n" using n by (simp add: w_def unat_mult_mod unat_of_nat)
  then have "unat w < 2 ^ 32" using n by simp
  then have h: "\<not> bit w i" if "32 \<le> i" for i
    using bit_nat_small [of "unat w" 32 i] that by (simp add: bit_unsigned_iff)
  have z: "ucast (drop_bit m w) = (0 :: u8)" if "32 \<le> m" for m
    by (rule bit_word_eqI) (use h that in \<open>simp add: bit_simps\<close>)
  have "be64_field w = replicate 4 0 @ be32_bytes w"
    by (simp add: be64_field_def upt8 be32_bytes_def z numeral_eq_Suc)
  then show ?thesis by (simp add: w_def numeral_eq_Suc)
qed

subsection \<open>Properties\<close>



text \<open>
  The length field of the code has only the low 32 bits of the message length: from
  512 MiB on, the padded message is not the one of the standard.
\<close>

lemma sha512_length_field:
  assumes "2 ^ 29 \<le> n" "n < 2 ^ 61"
  shows "replicate 12 0 @ be32_bytes (8 * of_nat n) \<noteq> replicate 8 0 @ be64_field (8 * of_nat n)"
proof
  define w where "w = (8 * of_nat n :: u64)"
  have u: "unat w = 8 * n" using assms(2) by (simp add: w_def unat_mult_mod unat_of_nat)
  assume e: "replicate 12 0 @ be32_bytes (8 * of_nat n) = replicate 8 0 @ be64_field (8 * of_nat n)"
  have z: "ucast (drop_bit (8 * m) w) = (0 :: u8)" if m: "4 \<le> m" "m < 8" for m
  proof -
    have "15 - m < 12" using m by linarith
    then have "(replicate 12 0 @ be32_bytes w) ! (15 - m) = 0" by (simp add: nth_append)
    moreover have "\<not> 15 - m < 8" "15 - m - 8 = 7 - m" using m by linarith+
    then have "(replicate 8 0 @ be64_field w) ! (15 - m) = be64_field w ! (7 - m)" by (simp add: nth_append)
    moreover have "be64_field w ! (7 - m) = ucast (drop_bit (8 * m) w)"
    proof -
      have "7 - m < 8" "7 - (7 - m) = m" using m by linarith+
      then show ?thesis by (simp only: be64_field_def nth_map_upt nth_map length_upt diff_zero nth_upt add_0)
    qed
    ultimately show ?thesis using e by (simp only: w_def)
  qed
  have "drop_bit 32 w = 0"
  proof (rule bit_word_eqI)
    fix i assume i: "i < LENGTH(64)"
    show "bit (drop_bit 32 w) i = bit 0 i"
    proof (cases "i < 32")
      case True
      have "bit (ucast (drop_bit (8 * (4 + i div 8)) w) :: u8) (i mod 8) = False"
        using z [of "4 + i div 8"] True by simp
      then show ?thesis by (simp add: bit_simps add.commute)
    qed (auto simp: bit_simps dest: bit_imp_le_length)
  qed
  then have "unat w div 2 ^ 32 = 0" by (metis unat_drop_bit unat_0)
  then show False using u assms(1) by (simp add: div_eq_0_iff)
qed

end
