(* ===== verification/Hashmod.thy ===== *)
theory Hashmod
  imports Crc Md5 Sha1 Sha512
begin

text \<open>
  The functions that \<^verbatim>\<open>mod/mod.sys.hash.hh\<close> defines in the script engine as \<^verbatim>\<open>sys.hash.*\<close>:
  their dispatch on the script arguments, and the agreement of the incremental interface,
  the calculation of a whole string and of a file, for the three digests.
\<close>

subsection \<open>The wrappers\<close>

text \<open>
  The first script argument, as far as the wrappers look at it: a string (its bytes), a
  buffer or buffer object (its bytes) or anything else; the second argument of the digests,
  \<open>isfile\<close>, is true only for the boolean value true.  Reading files is the parameter \<open>fs\<close>:
  the contents of the file of that name, \<open>None\<close> when it cannot be read.
\<close>

datatype js_arg = ArgString "u8 list" | ArgBuffer "u8 list" | ArgOther

datatype hash_error = NotStringOrBuffer | FileNameNotString | FileUnreadable

type_synonym file_system = "u8 list \<Rightarrow> u8 list option"

definition crc8_wrapper :: "js_arg \<Rightarrow> hash_error + u8" where
  "crc8_wrapper a =
     (case a of ArgString data \<Rightarrow> Inr (crc8 data (of_nat (length data)))
      | ArgBuffer data \<Rightarrow> Inr (crc8 data (of_nat (length data)))
      | ArgOther \<Rightarrow> Inl NotStringOrBuffer)"

definition crc16_wrapper :: "js_arg \<Rightarrow> hash_error + u16" where
  "crc16_wrapper a =
     (case a of ArgString data \<Rightarrow> Inr (crc16 data) | ArgBuffer data \<Rightarrow> Inr (crc16 data)
      | ArgOther \<Rightarrow> Inl NotStringOrBuffer)"

definition crc32_wrapper :: "js_arg \<Rightarrow> hash_error + u32" where
  "crc32_wrapper a =
     (case a of ArgString data \<Rightarrow> Inr (crc32 data) | ArgBuffer data \<Rightarrow> Inr (crc32 data)
      | ArgOther \<Rightarrow> Inl NotStringOrBuffer)"

text \<open>The three digest wrappers have the same shape; an empty digest means an unreadable file.\<close>

definition digest_wrapper :: "(u8 list \<Rightarrow> string) \<Rightarrow> (u8 list option \<Rightarrow> string) \<Rightarrow> file_system \<Rightarrow> js_arg \<Rightarrow> bool \<Rightarrow> hash_error + string" where
  "digest_wrapper calc file fs a isfile =
     (if isfile then
        (case a of ArgString path \<Rightarrow>
           (let cksum = file (fs path) in if cksum = [] then Inl FileUnreadable else Inr cksum)
         | _ \<Rightarrow> Inl FileNameNotString)
      else
        (case a of ArgString data \<Rightarrow> Inr (calc data) | ArgBuffer data \<Rightarrow> Inr (calc data)
         | ArgOther \<Rightarrow> Inl NotStringOrBuffer))"

definition md5_wrapper :: "file_system \<Rightarrow> js_arg \<Rightarrow> bool \<Rightarrow> hash_error + string" where
  "md5_wrapper = digest_wrapper md5_calculate md5_file"

definition sha1_wrapper :: "bool \<Rightarrow> file_system \<Rightarrow> js_arg \<Rightarrow> bool \<Rightarrow> hash_error + string" where
  "sha1_wrapper sc = digest_wrapper (sha1_calculate sc) (sha1_file sc)"

definition sha512_wrapper :: "file_system \<Rightarrow> js_arg \<Rightarrow> bool \<Rightarrow> hash_error + string" where
  "sha512_wrapper = digest_wrapper sha512_calculate sha512_file"

subsection \<open>Pieces and streams\<close>

lemma sha512_final_view:
  assumes "sha512_ok r" "sha512_ok r'" "sha512_chain r = sha512_chain r'" "sha512_pending r = sha512_pending r'" "sha512_bits r = sha512_bits r'"
  shows "sha512_final_data r = sha512_final_data r'"
proof -
  have "sha512_sz q = length (sha512_pending q)" if "sha512_ok q" for q
    using that by (simp add: sha512_ok_def sha512_pending_def)
  then show ?thesis using assms by (simp add: sha512_final_spec)
qed

lemma sha1_final_view:
  assumes "sha1_ok r" "sha1_ok r'" "sha1_chain r = sha1_chain r'" "sha1_buf r = sha1_buf r'" "sha1_bits r = sha1_bits r'"
  shows "sha1_final r = sha1_final r'"
  using assms by (simp add: sha1_final_spec)

lemma clear_ok:
  "sha1_ok sha1_clear" "sha512_ok sha512_clear" "sha1_buf sha1_clear = []" "sha512_pending sha512_clear = []"
  by (simp_all add: sha1_clear_def sha1_ok_def sha512_clear_def sha512_ok_def sha512_pending_def)

lemma sha1_updates_ok: "sha1_ok r \<Longrightarrow> sha1_ok (foldl (sha1_update sc) r xss)"
  by (induction xss arbitrary: r) (simp_all add: sha1_update_spec)

lemma sha512_updates_ok: "sha512_ok r \<Longrightarrow> sha512_ok (foldl sha512_update r xss)"
  by (induction xss arbitrary: r) (simp_all add: sha512_update_spec)

lemma sha1_pieces: "sha1_final (foldl (sha1_update sc) sha1_clear xss) = sha1_calculate sc (concat xss)"
proof (cases "xss = []")
  case True
  then show ?thesis by (simp add: sha1_calculate_def sha1_update_def)
next
  case False
  then show ?thesis
    unfolding sha1_calculate_def
    using sha1.chunking [OF clear_ok(1), of xss "[concat xss]" sc] sha1_updates_ok [OF clear_ok(1)] sha1_update_spec [OF clear_ok(1)]
    by (intro sha1_final_view) (simp_all add: list_all_iff)
qed

lemma sha512_pieces:
  assumes "list_all sha512_short xss" "sha512_short (concat xss)"
  shows "sha512_final_data (foldl sha512_update sha512_clear xss) = sha512_calculate (concat xss)"
proof (cases "xss = []")
  case True
  then show ?thesis
    using sha512_update_spec [OF clear_ok(2), of "[]"] clear_ok(2,4) unfolding sha512_calculate_def
    by (intro sha512_final_view) (simp_all add: absorb_short)
next
  case False
  then show ?thesis
    unfolding sha512_calculate_def
    using sha512.chunking [OF clear_ok(2) assms(1), of "[concat xss]"] sha512_updates_ok [OF clear_ok(2)]
      sha512_update_spec [OF clear_ok(2)] assms(2)
    by (intro sha512_final_view) simp_all
qed

lemma md5_pieces:
  assumes "list_all md5_short xss" "md5_short (concat xss)"
  shows "md5_final_result (foldl md5_update md5_clear xss) = md5_calculate (concat xss)"
proof -
  have one: "md5_ok (foldl md5_update md5_clear yss)
    \<and> md5_bits (foldl md5_update md5_clear yss) = 8 * of_nat (length (concat yss))
    \<and> absorb 64 md5_transform (md5_chain md5_clear) (concat yss)
      = (md5_chain (foldl md5_update md5_clear yss), md5_pending (foldl md5_update md5_clear yss))"
    if "list_all md5_short yss" for yss
    using md5.updates [OF md5_clear_ok(1) that] md5_clear_ok by (cases "yss = []") (simp_all add: absorb_short)
  have "md5_final_result (foldl md5_update md5_clear xss) = md5_final_result (foldl md5_update md5_clear [concat xss])"
    using one [OF assms(1)] one [of "[concat xss]"] assms(2)
      md5_final_spec [of "foldl md5_update md5_clear xss" "concat xss" "md5_chain md5_clear"]
      md5_final_spec [of "foldl md5_update md5_clear [concat xss]" "concat xss" "md5_chain md5_clear"] by simp
  then show ?thesis by (simp add: md5_calculate_def)
qed

lemma hex_setw_not_Nil: "hex_setw (Suc w) n \<noteq> []"
  by (simp add: hex_setw_Suc)

lemma digest_not_Nil:
  "md5_calculate data \<noteq> []" "sha1_calculate sc data \<noteq> []" "sha512_calculate data \<noteq> []"
proof -
  have "md5_final_result r \<noteq> []" for r
  proof -
    have ne: "concat (map (\<lambda>b. hex_setw 2 (unat b)) (concat (map le32_bytes [a, b, c, d]))) \<noteq> []" for a b c d
      using hex_setw_not_Nil [of 1] by (simp add: le32_bytes_def numeral_2_eq_2)
    show ?thesis unfolding md5_final_result_def Let_def prod.case_eq_if by (rule ne)
  qed
  then show "md5_calculate data \<noteq> []" by (simp add: md5_calculate_def)
  have f: "hex_fixed (Suc w) n \<noteq> []" for w n by simp
  have "sha1_hex h \<noteq> []" for h using f [of 7] by (cases h) (simp add: sha1_hex_def)
  then show "sha1_calculate sc data \<noteq> []" unfolding sha1_calculate_spec by blast
  have "sha512_hex h \<noteq> []" for h
  proof -
    obtain a b c d e f g i where "h = (a, b, c, d, e, f, g, i)" by (metis surj_pair)
    then show ?thesis using f [of 15] by (simp add: sha512_hex_def)
  qed
  then show "sha512_calculate data \<noteq> []" unfolding sha512_calculate_spec by blast
qed

lemma stream_short:
  "length data < 2 ^ 32 - 128 \<Longrightarrow> list_all sha512_short (stream_chunks data) \<and> list_all md5_short (stream_chunks data)
    \<and> sha512_short data \<and> md5_short data"
  using stream_chunks_concat [of data] by (fastforce simp: list_all_iff sha512_short_def md5_short_def)

subsection \<open>Properties\<close>

text \<open>
  C35: the digest of a readable file is the digest of its contents, for the three digests,
  although the file is read in pieces of 64 bytes (shorter than, or not a divisor of, the
  block of SHA-512) and a string at once; an unreadable file is the error it should be.
\<close>

theorem file_digest:
  assumes "\<And>data. fs path = Some data \<Longrightarrow> length data < 2 ^ 32 - 128"
  shows "md5_wrapper fs (ArgString path) True = (case fs path of None \<Rightarrow> Inl FileUnreadable | Some data \<Rightarrow> Inr (md5_calculate data))
    \<and> sha1_wrapper sc fs (ArgString path) True = (case fs path of None \<Rightarrow> Inl FileUnreadable | Some data \<Rightarrow> Inr (sha1_calculate sc data))
    \<and> sha512_wrapper fs (ArgString path) True = (case fs path of None \<Rightarrow> Inl FileUnreadable | Some data \<Rightarrow> Inr (sha512_calculate data))"
proof (cases "fs path")
  case None
  then show ?thesis
    by (simp add: md5_wrapper_def sha1_wrapper_def sha512_wrapper_def digest_wrapper_def md5_file_def sha1_file_def
        sha512_file_def calculate_stream_def)
next
  case (Some data)
  have c: "concat (stream_chunks data) = data" using stream_chunks_concat by blast
  note s = stream_short [OF assms [OF Some]]
  have "md5_file (Some data) = md5_calculate data" "sha1_file sc (Some data) = sha1_calculate sc data"
    "sha512_file (Some data) = sha512_calculate data"
    using md5_pieces [of "stream_chunks data"] sha1_pieces [of sc "stream_chunks data"] sha512_pieces [of "stream_chunks data"] s
    by (simp_all add: c md5_file_def sha1_file_def sha512_file_def calculate_stream_def)
  with Some digest_not_Nil show ?thesis
    by (simp add: md5_wrapper_def sha1_wrapper_def sha512_wrapper_def digest_wrapper_def Let_def)
qed

theorem file_digest_witness:
  "md5_wrapper (\<lambda>p. if p = [0x66] then Some [0x61] else None) (ArgString [0x66]) True = Inr (md5_calculate [0x61])"
  using file_digest [of "\<lambda>p. if p = [0x66] then Some [0x61] else None" "[0x66]" True] by simp

text \<open>
  C37: the size of the data given to CRC-8 is cut to 8 bits, so that only the first
  \<open>length mod 256\<close> bytes are checked, and every 256-byte input has the check value 0.
\<close>

theorem crc8_ignores_data:
  "crc8_wrapper (ArgString data) = Inr (crc8_ref 0 (take (length data mod 256) data))
   \<and> (length data = 256 \<longrightarrow> crc8_wrapper (ArgString data) = Inr 0)"
  using crc8_spec [of "of_nat (length data)" data] by (auto simp: crc8_wrapper_def unat_of_nat simp del: of_nat_numeral)

theorem crc8_ignores_data_witness: "crc8_wrapper (ArgString (replicate 256 0x55)) = Inr 0"
  using crc8_ignores_data [of "replicate 256 0x55"] by simp

end
