(* ===== verification/Heap.thy ===== *)
theory Heap
  imports Prelude "HOL-Library.Multiset" "HOL-Library.Monad_Syntax"
begin

text \<open>
  The garbage collected heap of \<^verbatim>\<open>src/duktape/duktape.c\<close>: tagged values (\<^verbatim>\<open>duk_tval.h\<close>),
  heap headers (\<^verbatim>\<open>duk_heaphdr.h\<close>), the parts of an object that hold references
  (\<^verbatim>\<open>duk_hobject.h\<close> and the subtypes that \<^verbatim>\<open>duk_hobject_refcount_finalize_norz\<close>
  distinguishes), the lists of \<open>struct duk_heap\<close>, and the invariant that every reference count
  is the number of references.

  A heap pointer is a number, the heap a partial map, freeing a cell removes it from the map, and
  an access to a freed cell is the value \<open>None\<close>: a theorem that an operation yields \<open>Some\<close>
  excludes every use after free.  The doubly linked lists \<open>heap_allocated\<close> and
  \<open>finalize_list\<close> are lists of pointers; \<open>refzero_list\<close>, which the source links through
  \<open>h_prev\<close> from the first queued element to the last, is kept in that order: the pointer
  \<open>heap->refzero_list\<close> is its last element, \<open>NULL\<close> the empty list.
\<close>

type_synonym haddr = nat

datatype duk_tval =
    Tv_unused
  | Tv_undefined
  | Tv_null
  | Tv_boolean bool
  | Tv_number u64
  | Tv_pointer u64
  | Tv_lightfunc u64 u16
  | Tv_string haddr
  | Tv_object haddr
  | Tv_buffer haddr

datatype duk_htype = DUK_HTYPE_STRING | DUK_HTYPE_OBJECT | DUK_HTYPE_BUFFER

text \<open>
  A property value is the union \<open>v\<close> or \<open>a\<close> (getter and setter); the flag
  \<open>DUK_PROPDESC_FLAG_ACCESSOR\<close> that selects it is the constructor.  A deleted entry has no key.
\<close>

datatype duk_propvalue =
    Prop_value duk_tval
  | Prop_accessor "haddr option" "haddr option"

record duk_activation =
  act_func :: "haddr option"
  act_var_env :: "haddr option"
  act_lex_env :: "haddr option"

text \<open>
  The subtypes of \<open>duk_hobject\<close>, each with the fields that hold references.  A compiled
  function keeps its constants and inner functions in its data buffer; a thread its value stack up to
  \<open>valstack_top\<close>, its call stack from the current activation on, and its builtins.
\<close>

datatype duk_hobject_kind =
    Ext_fastrefs
  | Ext_compfunc "duk_tval list" "haddr list" "haddr option" "haddr option" "haddr option"
  | Ext_decenv "haddr option" "haddr option"
  | Ext_objenv haddr
  | Ext_bufobj "haddr option" "haddr option"
  | Ext_boundfunc duk_tval duk_tval "duk_tval list"
  | Ext_proxy haddr haddr
  | Ext_thread "duk_tval list" "duk_activation list" "haddr option list" "haddr option"

record duk_hobject =
  o_entries :: "(haddr option \<times> duk_propvalue) list"
  o_array :: "duk_tval list"
  o_prototype :: "haddr option"
  o_have_finalizer :: bool
  o_ext :: duk_hobject_kind

datatype duk_hbody = Hstring | Hbuffer | Hobject duk_hobject

record duk_heaphdr =
  h_refcount :: u32
  h_finalizable :: bool
  h_finalized :: bool
  h_body :: duk_hbody

record duk_heap =
  cells :: "haddr \<Rightarrow> duk_heaphdr option"
  heap_allocated :: "haddr list"
  finalize_list :: "haddr list"
  refzero_list :: "haddr list"
  strtable :: "haddr list"
  strcache :: "haddr option list"
  ms_running :: bool
  pf_prevent_count :: nat
  pf_skip_finalizers :: bool

fun htype :: "duk_hbody \<Rightarrow> duk_htype" where
  "htype Hstring = DUK_HTYPE_STRING"
| "htype Hbuffer = DUK_HTYPE_BUFFER"
| "htype (Hobject _) = DUK_HTYPE_OBJECT"

text \<open>\<open>DUK_TVAL_IS_HEAP_ALLOCATED\<close> and \<open>DUK_TVAL_GET_HEAPHDR\<close>.\<close>

fun tval_heaphdr :: "duk_tval \<Rightarrow> haddr option" where
  "tval_heaphdr (Tv_string a) = Some a"
| "tval_heaphdr (Tv_object a) = Some a"
| "tval_heaphdr (Tv_buffer a) = Some a"
| "tval_heaphdr _ = None"

definition set_hdr :: "haddr \<Rightarrow> duk_heaphdr \<Rightarrow> duk_heap \<Rightarrow> duk_heap" where
  "set_hdr a hdr heap = heap\<lparr>cells := (cells heap)(a \<mapsto> hdr)\<rparr>"

text \<open>\<open>DUK_FREE\<close> of a heap object with its inner allocations.\<close>

definition free_hdr :: "haddr \<Rightarrow> duk_heap \<Rightarrow> duk_heap" where
  "free_hdr a heap = heap\<lparr>cells := (cells heap)(a := None)\<rparr>"

subsection \<open>References\<close>

text \<open>
  An edge is the type a pointer field expects and the pointer.  \<open>obj_edges\<close> lists the references
  of an object, which is what the reference counts count and mark-and-sweep follows.
\<close>

type_synonym edge = "duk_htype \<times> haddr"

fun tval_edges :: "duk_tval \<Rightarrow> edge list" where
  "tval_edges (Tv_string a) = [(DUK_HTYPE_STRING, a)]"
| "tval_edges (Tv_object a) = [(DUK_HTYPE_OBJECT, a)]"
| "tval_edges (Tv_buffer a) = [(DUK_HTYPE_BUFFER, a)]"
| "tval_edges _ = []"

fun opt_edges :: "duk_htype \<Rightarrow> haddr option \<Rightarrow> edge list" where
  "opt_edges t None = []"
| "opt_edges t (Some a) = [(t, a)]"

abbreviation obj_opt :: "haddr option \<Rightarrow> edge list" where
  "obj_opt \<equiv> opt_edges DUK_HTYPE_OBJECT"

fun entry_edges :: "haddr option \<times> duk_propvalue \<Rightarrow> edge list" where
  "entry_edges (None, _) = []"
| "entry_edges (Some key, Prop_value tv) = (DUK_HTYPE_STRING, key) # tval_edges tv"
| "entry_edges (Some key, Prop_accessor g s) = (DUK_HTYPE_STRING, key) # obj_opt g @ obj_opt s"

definition act_edges :: "duk_activation \<Rightarrow> edge list" where
  "act_edges act = obj_opt (act_func act) @ obj_opt (act_var_env act) @ obj_opt (act_lex_env act)"

fun ext_edges :: "duk_hobject_kind \<Rightarrow> edge list" where
  "ext_edges Ext_fastrefs = []"
| "ext_edges (Ext_compfunc consts funcs lexenv varenv data) =
    (if data = None then [] else concat (map tval_edges consts) @ map (Pair DUK_HTYPE_OBJECT) funcs)
     @ obj_opt lexenv @ obj_opt varenv @ opt_edges DUK_HTYPE_BUFFER data"
| "ext_edges (Ext_decenv thr varmap) = obj_opt thr @ obj_opt varmap"
| "ext_edges (Ext_objenv target) = [(DUK_HTYPE_OBJECT, target)]"
| "ext_edges (Ext_bufobj buf prop) = opt_edges DUK_HTYPE_BUFFER buf @ obj_opt prop"
| "ext_edges (Ext_boundfunc target this args) =
    tval_edges target @ tval_edges this @ concat (map tval_edges args)"
| "ext_edges (Ext_proxy target handler) = [(DUK_HTYPE_OBJECT, target), (DUK_HTYPE_OBJECT, handler)]"
| "ext_edges (Ext_thread valstack callstack builtins resumer) =
    concat (map tval_edges valstack) @ concat (map act_edges callstack)
     @ concat (map obj_opt builtins) @ obj_opt resumer"

definition obj_edges :: "duk_hobject \<Rightarrow> edge list" where
  "obj_edges obj = concat (map entry_edges (rev (o_entries obj)))
     @ concat (map tval_edges (rev (o_array obj))) @ obj_opt (o_prototype obj) @ ext_edges (o_ext obj)"

fun body_edges :: "duk_hbody \<Rightarrow> edge list" where
  "body_edges (Hobject obj) = obj_edges obj"
| "body_edges _ = []"

definition hdr_edges :: "duk_heaphdr \<Rightarrow> edge list" where
  "hdr_edges hdr = body_edges (h_body hdr)"

text \<open>What the program can still reach from the references \<open>ext\<close> held outside the heap.\<close>

inductive reachable :: "duk_heap \<Rightarrow> edge multiset \<Rightarrow> haddr \<Rightarrow> bool" for heap ext where
  reachable_root: "e \<in># ext \<Longrightarrow> reachable heap ext (snd e)"
| reachable_edge: "reachable heap ext x \<Longrightarrow> cells heap x = Some hdr \<Longrightarrow> e \<in> set (hdr_edges hdr) \<Longrightarrow>
    reachable heap ext (snd e)"

subsection \<open>The invariant\<close>

text \<open>
  \<open>own heap F\<close> collects the references of all cells but those of \<open>F\<close>, the cells whose
  references are being released one by one; the rest of those, and the references held outside the
  heap (the value stack of the running thread, C locals), are the multiset \<open>ext\<close>.
\<close>

definition own :: "duk_heap \<Rightarrow> haddr set \<Rightarrow> edge multiset" where
  "own heap F = (\<Sum>x \<in> dom (cells heap) - F. mset (hdr_edges (the (cells heap x))))"

definition refs_to :: "duk_heap \<Rightarrow> haddr set \<Rightarrow> edge multiset \<Rightarrow> haddr \<Rightarrow> nat" where
  "refs_to heap F ext a = count (image_mset snd (own heap F + ext)) a"

definition typed_edge :: "duk_heap \<Rightarrow> edge \<Rightarrow> bool" where
  "typed_edge heap e \<longleftrightarrow> (\<exists>hdr. cells heap (snd e) = Some hdr \<and> htype (h_body hdr) = fst e)"

definition cells_of :: "duk_htype set \<Rightarrow> duk_heap \<Rightarrow> haddr set" where
  "cells_of T heap = {a. \<exists>hdr. cells heap a = Some hdr \<and> htype (h_body hdr) \<in> T}"

text \<open>
  Every reference leads to a cell of its type; each count is the number of references, plus the
  artificial one of an object that waits for its finalizer; the lists partition the cells, and the
  weak references of the string cache lead to strings; a queued object and one that is being released
  have no references.
\<close>

definition heap_counts :: "duk_heap \<Rightarrow> haddr set \<Rightarrow> edge multiset \<Rightarrow> bool" where
  "heap_counts heap F ext \<longleftrightarrow> (\<forall>a hdr. cells heap a = Some hdr \<longrightarrow> a \<notin> F \<longrightarrow>
     unat (h_refcount hdr) = refs_to heap F ext a + (if a \<in> set (finalize_list heap) then 1 else 0))"

definition heap_typed :: "duk_heap \<Rightarrow> haddr set \<Rightarrow> edge multiset \<Rightarrow> bool" where
  "heap_typed heap F ext \<longleftrightarrow> (\<forall>e \<in># own heap F + ext. typed_edge heap e)"

definition heap_lists :: "duk_heap \<Rightarrow> haddr set \<Rightarrow> bool" where
  "heap_lists heap F \<longleftrightarrow>
     distinct (heap_allocated heap @ finalize_list heap @ refzero_list heap)
   \<and> set (heap_allocated heap) \<union> set (finalize_list heap) \<union> set (refzero_list heap) \<union> F
       = cells_of {DUK_HTYPE_OBJECT, DUK_HTYPE_BUFFER} heap
   \<and> set (finalize_list heap) \<union> set (refzero_list heap) \<union> F \<subseteq> cells_of {DUK_HTYPE_OBJECT} heap
   \<and> F \<inter> (set (heap_allocated heap) \<union> set (finalize_list heap)) = {}
   \<and> distinct (strtable heap) \<and> set (strtable heap) = cells_of {DUK_HTYPE_STRING} heap
   \<and> (\<forall>a. Some a \<in> set (strcache heap) \<longrightarrow> a \<in> cells_of {DUK_HTYPE_STRING} heap)"

definition heap_inv :: "haddr set \<Rightarrow> edge multiset \<Rightarrow> duk_heap \<Rightarrow> bool" where
  "heap_inv F ext heap \<longleftrightarrow> finite (dom (cells heap)) \<and> heap_counts heap F ext \<and> heap_typed heap F ext
   \<and> heap_lists heap F \<and> (\<forall>a \<in> set (refzero_list heap) \<union> F. refs_to heap F ext a = 0)"

text \<open>Between operations nothing is being released and the queue is empty.\<close>

definition heap_ok :: "edge multiset \<Rightarrow> duk_heap \<Rightarrow> bool" where
  "heap_ok ext heap \<longleftrightarrow> heap_inv {} ext heap \<and> refzero_list heap = []"

subsection \<open>Facts on the invariant\<close>

named_theorems heap_defs "the parts of the heap invariant"

lemmas [heap_defs] = heap_counts_def heap_typed_def heap_lists_def

lemma own_fields [simp]:
  "own (heap\<lparr>heap_allocated := l\<rparr>) F = own heap F" "own (heap\<lparr>finalize_list := l\<rparr>) F = own heap F"
  "own (heap\<lparr>refzero_list := l\<rparr>) F = own heap F" "own (heap\<lparr>strtable := l\<rparr>) F = own heap F"
  "own (heap\<lparr>strcache := c\<rparr>) F = own heap F" "own (heap\<lparr>pf_prevent_count := n\<rparr>) F = own heap F"
  by (simp_all add: own_def)

lemma refs_to_fields [simp]:
  "refs_to (heap\<lparr>heap_allocated := l\<rparr>) F ext = refs_to heap F ext"
  "refs_to (heap\<lparr>finalize_list := l\<rparr>) F ext = refs_to heap F ext"
  "refs_to (heap\<lparr>refzero_list := l\<rparr>) F ext = refs_to heap F ext"
  "refs_to (heap\<lparr>strtable := l\<rparr>) F ext = refs_to heap F ext"
  "refs_to (heap\<lparr>strcache := c\<rparr>) F ext = refs_to heap F ext"
  "refs_to (heap\<lparr>pf_prevent_count := n\<rparr>) F ext = refs_to heap F ext"
  by (simp_all add: refs_to_def fun_eq_iff)

lemma hdr_fields [simp]:
  "cells (set_hdr a hdr heap) = (cells heap)(a \<mapsto> hdr)" "cells (free_hdr a heap) = (cells heap)(a := None)"
  "heap_allocated (set_hdr a hdr heap) = heap_allocated heap" "heap_allocated (free_hdr a heap) = heap_allocated heap"
  "finalize_list (set_hdr a hdr heap) = finalize_list heap" "finalize_list (free_hdr a heap) = finalize_list heap"
  "refzero_list (set_hdr a hdr heap) = refzero_list heap" "refzero_list (free_hdr a heap) = refzero_list heap"
  "strtable (set_hdr a hdr heap) = strtable heap" "strtable (free_hdr a heap) = strtable heap"
  "strcache (set_hdr a hdr heap) = strcache heap" "strcache (free_hdr a heap) = strcache heap"
  "ms_running (set_hdr a hdr heap) = ms_running heap" "ms_running (free_hdr a heap) = ms_running heap"
  "pf_prevent_count (set_hdr a hdr heap) = pf_prevent_count heap"
  "pf_prevent_count (free_hdr a heap) = pf_prevent_count heap"
  "pf_skip_finalizers (set_hdr a hdr heap) = pf_skip_finalizers heap"
  "pf_skip_finalizers (free_hdr a heap) = pf_skip_finalizers heap"
  by (simp_all add: set_hdr_def free_hdr_def)

text \<open>Only the bodies of the cells matter for the references.\<close>

lemma own_set_hdr [simp]:
  assumes "cells heap a = Some hdr" "h_body hdr' = h_body hdr"
  shows "own (set_hdr a hdr' heap) F = own heap F"
  using assms unfolding own_def by (intro sum.cong) (auto simp: hdr_edges_def)

lemma refs_to_set_hdr [simp]:
  assumes "cells heap a = Some hdr" "h_body hdr' = h_body hdr"
  shows "refs_to (set_hdr a hdr' heap) = refs_to heap"
  using assms by (simp add: refs_to_def fun_eq_iff)

lemma own_free:
  assumes "finite (dom (cells heap))" "cells heap a = Some hdr" "a \<in> F \<or> hdr_edges hdr = []"
  shows "own (free_hdr a heap) F = own heap F"
proof -
  have "(\<Sum>x \<in> dom (cells heap) - F. mset (hdr_edges (the (cells heap x))))
      = (\<Sum>x \<in> dom (cells heap) - {a} - F. mset (hdr_edges (the (cells heap x))))"
    using assms by (intro sum.mono_neutral_right) auto
  then show ?thesis unfolding own_def by (auto intro!: sum.cong)
qed

lemma own_free_member:
  "own (free_hdr a heap) F = own heap (insert a F)"
  unfolding own_def by (intro sum.cong) auto

lemma own_release:
  assumes "finite (dom (cells heap))" "cells heap a = Some hdr" "a \<notin> F"
  shows "own heap F = own heap (insert a F) + mset (hdr_edges hdr)"
proof -
  have "dom (cells heap) - F = insert a (dom (cells heap) - insert a F)" using assms by auto
  then have "own heap F = (\<Sum>x \<in> insert a (dom (cells heap) - insert a F). mset (hdr_edges (the (cells heap x))))"
    unfolding own_def by (rule arg_cong)
  also have "\<dots> = own heap (insert a F) + mset (hdr_edges hdr)"
    using assms(1,2) by (subst sum.insert) (simp_all add: own_def union_commute)
  finally show ?thesis .
qed

lemma refs_to_add [simp]:
  "refs_to heap F (add_mset e ext) b = (if snd e = b then 1 else 0) + refs_to heap F ext b"
  by (simp add: refs_to_def)

lemma refs_to_zero: "refs_to heap F ext a = 0 \<longleftrightarrow> (\<forall>e \<in># own heap F + ext. snd e \<noteq> a)"
  unfolding refs_to_def count_eq_zero_iff by force

lemma own_memberI:
  assumes "finite (dom (cells heap))" "cells heap x = Some hdr" "x \<notin> F" "e \<in> set (hdr_edges hdr)"
  shows "e \<in># own heap F"
  using own_release [OF assms(1-3)] assms(4) by simp

lemma cells_of_set_hdr [simp]:
  assumes "cells heap a = Some hdr" "h_body hdr' = h_body hdr"
  shows "cells_of T (set_hdr a hdr' heap) = cells_of T heap"
  using assms by (auto simp: cells_of_def)

lemma cells_of_fields [simp]:
  "cells_of T (heap\<lparr>heap_allocated := l\<rparr>) = cells_of T heap" "cells_of T (heap\<lparr>finalize_list := l\<rparr>) = cells_of T heap"
  "cells_of T (heap\<lparr>refzero_list := l\<rparr>) = cells_of T heap" "cells_of T (heap\<lparr>strtable := l\<rparr>) = cells_of T heap"
  "cells_of T (heap\<lparr>strcache := c\<rparr>) = cells_of T heap" "cells_of T (heap\<lparr>pf_prevent_count := n\<rparr>) = cells_of T heap"
  by (simp_all add: cells_of_def)

lemma cells_of_free [simp]: "cells_of T (free_hdr a heap) = cells_of T heap - {a}"
  by (auto simp: cells_of_def)

lemma typed_edge_set_hdr [simp]:
  assumes "cells heap a = Some hdr" "h_body hdr' = h_body hdr"
  shows "typed_edge (set_hdr a hdr' heap) = typed_edge heap"
  using assms by (auto simp: typed_edge_def fun_eq_iff)

lemma typed_edge_fields [simp]:
  "typed_edge (heap\<lparr>heap_allocated := l\<rparr>) = typed_edge heap" "typed_edge (heap\<lparr>finalize_list := l\<rparr>) = typed_edge heap"
  "typed_edge (heap\<lparr>refzero_list := l\<rparr>) = typed_edge heap" "typed_edge (heap\<lparr>strtable := l\<rparr>) = typed_edge heap"
  "typed_edge (heap\<lparr>strcache := c\<rparr>) = typed_edge heap" "typed_edge (heap\<lparr>pf_prevent_count := n\<rparr>) = typed_edge heap"
  by (simp_all add: typed_edge_def fun_eq_iff)

lemma typed_edge_free [simp]: "typed_edge (free_hdr a heap) e \<longleftrightarrow> typed_edge heap e \<and> snd e \<noteq> a"
  by (auto simp: typed_edge_def)

lemma refs_to_own: "own heap' F' + ext' = own heap F + ext \<Longrightarrow> refs_to heap' F' ext' = refs_to heap F ext"
  by (simp add: refs_to_def fun_eq_iff)

end
