(* ===== verification/Refcount.thy ===== *)
theory Refcount
  imports Heap
begin

text \<open>
  Reference counting (\<^verbatim>\<open>src/duktape/duktape.c\<close>, \<^verbatim>\<open>duk_refcount.h\<close> and
  \<^verbatim>\<open>duk_heap_refcount.c\<close>): the INCREF and DECREF macros, the release of the references of
  an object, and the refzero cascade with its queue.  The operations take two arguments for the calls
  that close the recursion of the source: \<open>FP\<close> stands for \<open>duk__refcount_free_pending\<close>,
  which is defined at the end by recursion on a fuel, and \<open>PF\<close> for
  \<open>duk_heap_process_finalize_list\<close> (theory \<open>Finalize\<close>), which runs user code.

  The lemmas show that one DECREF keeps the heap invariant, that the cascade it may start ends after
  at most as many rounds as the heap has cells, never touches a freed cell, never frees a referenced
  one and leaves no new unreferenced one behind.
\<close>

type_synonym heap_op = "duk_heap \<Rightarrow> duk_heap option"

primrec mfold :: "('a \<Rightarrow> 's \<Rightarrow> 's option) \<Rightarrow> 'a list \<Rightarrow> 's \<Rightarrow> 's option" where
  "mfold f [] s = Some s"
| "mfold f (x # xs) s = do { s \<leftarrow> f x s; mfold f xs s }"

subsection \<open>Freeing and queueing\<close>

definition duk_heap_strcache_string_remove :: "haddr \<Rightarrow> duk_heap \<Rightarrow> duk_heap" where
  "duk_heap_strcache_string_remove h heap =
    heap\<lparr>strcache := map (\<lambda>c. if c = Some h then None else c) (strcache heap)\<rparr>"

definition refcount_refzero_hstring :: "haddr \<Rightarrow> heap_op" where
  "refcount_refzero_hstring str heap =
    (let heap = duk_heap_strcache_string_remove str heap;
         heap = heap\<lparr>strtable := remove1 str (strtable heap)\<rparr>
     in Some (free_hdr str heap))"

definition refcount_refzero_hbuffer :: "haddr \<Rightarrow> heap_op" where
  "refcount_refzero_hbuffer buf heap =
    Some (free_hdr buf (heap\<lparr>heap_allocated := remove1 buf (heap_allocated heap)\<rparr>))"

definition DUK_HOBJECT_PROTOTYPE_CHAIN_SANITY :: nat where
  "DUK_HOBJECT_PROTOTYPE_CHAIN_SANITY = 10000"

fun has_finalizer_fast :: "nat \<Rightarrow> duk_heap \<Rightarrow> haddr \<Rightarrow> bool option" where
  "has_finalizer_fast sanity heap a = do {
     hdr \<leftarrow> cells heap a;
     case h_body hdr of
       Hobject obj \<Rightarrow>
         if o_have_finalizer obj then Some True
         else if sanity = 0 then Some False
         else (case o_prototype obj of
             None \<Rightarrow> Some False
           | Some proto \<Rightarrow> has_finalizer_fast (sanity - 1) heap proto)
     | _ \<Rightarrow> None }"

declare has_finalizer_fast.simps [simp del]

definition refcount_refzero_hobject :: "heap_op \<Rightarrow> heap_op \<Rightarrow> bool \<Rightarrow> haddr \<Rightarrow> heap_op" where
  "refcount_refzero_hobject FP PF skip_free_pending a heap = do {
     let heap = heap\<lparr>heap_allocated := remove1 a (heap_allocated heap)\<rparr>;
     hdr \<leftarrow> cells heap a;
     fin \<leftarrow> has_finalizer_fast DUK_HOBJECT_PROTOTYPE_CHAIN_SANITY heap a;
     if fin \<and> \<not> h_finalized hdr then do {
       let heap = set_hdr a (hdr\<lparr>h_finalizable := True, h_refcount := h_refcount hdr + 1\<rparr>) heap;
       let heap = heap\<lparr>finalize_list := a # finalize_list heap\<rparr>;
       if \<not> skip_free_pending \<and> refzero_list heap = [] then PF heap else Some heap
     } else do {
       let root = refzero_list heap;
       let heap = heap\<lparr>refzero_list := refzero_list heap @ [a]\<rparr>;
       if root = [] then do {
         heap \<leftarrow> FP heap;
         if \<not> skip_free_pending \<and> finalize_list heap \<noteq> [] then PF heap else Some heap
       } else Some heap
     } }"

subsection \<open>DECREF\<close>

text \<open>
  The refzero helpers do nothing while mark-and-sweep runs.  The typed ones are called where the
  source knows the type of the pointer, the general one looks at the header.
\<close>

definition duk_hstring_refzero :: "haddr \<Rightarrow> heap_op" where
  "duk_hstring_refzero h heap = (if ms_running heap then Some heap else refcount_refzero_hstring h heap)"

definition duk_hbuffer_refzero :: "haddr \<Rightarrow> heap_op" where
  "duk_hbuffer_refzero h heap = (if ms_running heap then Some heap else refcount_refzero_hbuffer h heap)"

definition duk_hobject_refzero :: "heap_op \<Rightarrow> heap_op \<Rightarrow> bool \<Rightarrow> haddr \<Rightarrow> heap_op" where
  "duk_hobject_refzero FP PF skip h heap =
    (if ms_running heap then Some heap else refcount_refzero_hobject FP PF skip h heap)"

definition duk_heaphdr_refzero :: "heap_op \<Rightarrow> heap_op \<Rightarrow> bool \<Rightarrow> haddr \<Rightarrow> heap_op" where
  "duk_heaphdr_refzero FP PF skip h heap = do {
     hdr \<leftarrow> cells heap h;
     if ms_running heap then Some heap
     else (case htype (h_body hdr) of
         DUK_HTYPE_STRING \<Rightarrow> refcount_refzero_hstring h heap
       | DUK_HTYPE_OBJECT \<Rightarrow> refcount_refzero_hobject FP PF skip h heap
       | DUK_HTYPE_BUFFER \<Rightarrow> refcount_refzero_hbuffer h heap) }"

definition heaphdr_incref :: "haddr \<Rightarrow> heap_op" where
  "heaphdr_incref h heap = do {
     hdr \<leftarrow> cells heap h;
     Some (set_hdr h (hdr\<lparr>h_refcount := h_refcount hdr + 1\<rparr>) heap) }"

definition heaphdr_decref_raw :: "(haddr \<Rightarrow> heap_op) \<Rightarrow> haddr \<Rightarrow> heap_op" where
  "heaphdr_decref_raw rzcall h heap = do {
     hdr \<leftarrow> cells heap h;
     let rc = h_refcount hdr - 1;
     let heap = set_hdr h (hdr\<lparr>h_refcount := rc\<rparr>) heap;
     if rc = 0 then rzcall h heap else Some heap }"

definition tval_incref :: "duk_tval \<Rightarrow> heap_op" where
  "tval_incref tv heap = (case tval_heaphdr tv of None \<Rightarrow> Some heap | Some h \<Rightarrow> heaphdr_incref h heap)"

definition tval_decref :: "heap_op \<Rightarrow> heap_op \<Rightarrow> bool \<Rightarrow> duk_tval \<Rightarrow> heap_op" where
  "tval_decref FP PF skip tv heap = (case tval_heaphdr tv of
       None \<Rightarrow> Some heap
     | Some h \<Rightarrow> heaphdr_decref_raw (duk_heaphdr_refzero FP PF skip) h heap)"

fun allownull :: "(haddr \<Rightarrow> heap_op) \<Rightarrow> haddr option \<Rightarrow> heap_op" where
  "allownull f None heap = Some heap"
| "allownull f (Some h) heap = f h heap"

subsection \<open>Releasing the references of an object\<close>

definition decref_entry :: "heap_op \<Rightarrow> heap_op \<Rightarrow> haddr option \<times> duk_propvalue \<Rightarrow> heap_op" where
  "decref_entry FP PF e heap = (case e of
       (None, _) \<Rightarrow> Some heap
     | (Some key, v) \<Rightarrow> do {
         heap \<leftarrow> heaphdr_decref_raw duk_hstring_refzero key heap;
         case v of
           Prop_accessor getter setter \<Rightarrow> do {
             heap \<leftarrow> allownull (heaphdr_decref_raw (duk_hobject_refzero FP PF True)) getter heap;
             allownull (heaphdr_decref_raw (duk_hobject_refzero FP PF True)) setter heap }
         | Prop_value tv \<Rightarrow> tval_decref FP PF True tv heap })"

definition decref_activation :: "heap_op \<Rightarrow> heap_op \<Rightarrow> duk_activation \<Rightarrow> heap_op" where
  "decref_activation FP PF act heap = do {
     heap \<leftarrow> allownull (heaphdr_decref_raw (duk_hobject_refzero FP PF True)) (act_func act) heap;
     heap \<leftarrow> allownull (heaphdr_decref_raw (duk_hobject_refzero FP PF True)) (act_var_env act) heap;
     allownull (heaphdr_decref_raw (duk_hobject_refzero FP PF True)) (act_lex_env act) heap }"

text \<open>
  The last three DECREFs of a compiled function are not the NORZ variants: they may run finalizers
  where no cascade is running.
\<close>

definition decref_ext :: "heap_op \<Rightarrow> heap_op \<Rightarrow> duk_hobject_kind \<Rightarrow> heap_op" where
  "decref_ext FP PF ext heap =
    (let decref_obj = heaphdr_decref_raw (duk_hobject_refzero FP PF True);
         decref_buf = heaphdr_decref_raw duk_hbuffer_refzero;
         decref_tv = tval_decref FP PF True;
         decref_rz = heaphdr_decref_raw (duk_heaphdr_refzero FP PF False)
     in case ext of
       Ext_fastrefs \<Rightarrow> Some heap
     | Ext_compfunc consts funcs lexenv varenv data \<Rightarrow> do {
         heap \<leftarrow> (if data \<noteq> None then do { heap \<leftarrow> mfold decref_tv consts heap; mfold decref_obj funcs heap }
                  else Some heap);
         heap \<leftarrow> allownull decref_rz lexenv heap;
         heap \<leftarrow> allownull decref_rz varenv heap;
         allownull decref_rz data heap }
     | Ext_decenv thr varmap \<Rightarrow> do { heap \<leftarrow> allownull decref_obj thr heap; allownull decref_obj varmap heap }
     | Ext_objenv target \<Rightarrow> decref_obj target heap
     | Ext_bufobj buf prop \<Rightarrow> do { heap \<leftarrow> allownull decref_buf buf heap; allownull decref_obj prop heap }
     | Ext_boundfunc target this args \<Rightarrow> do {
         heap \<leftarrow> decref_tv target heap;
         heap \<leftarrow> decref_tv this heap;
         mfold decref_tv args heap }
     | Ext_proxy target handler \<Rightarrow> do { heap \<leftarrow> decref_obj target heap; decref_obj handler heap }
     | Ext_thread valstack callstack builtins resumer \<Rightarrow> do {
         heap \<leftarrow> mfold decref_tv valstack heap;
         heap \<leftarrow> mfold (decref_activation FP PF) callstack heap;
         heap \<leftarrow> mfold (allownull decref_obj) builtins heap;
         allownull decref_obj resumer heap })"

text \<open>\<open>duk_hobject_refcount_finalize_norz\<close>: entries and array part are walked downwards.\<close>

definition hobject_refcount_finalize_norz :: "heap_op \<Rightarrow> heap_op \<Rightarrow> haddr \<Rightarrow> heap_op" where
  "hobject_refcount_finalize_norz FP PF h heap = do {
     hdr \<leftarrow> cells heap h;
     case h_body hdr of
       Hobject obj \<Rightarrow> do {
         heap \<leftarrow> mfold (decref_entry FP PF) (rev (o_entries obj)) heap;
         heap \<leftarrow> mfold (tval_decref FP PF True) (rev (o_array obj)) heap;
         heap \<leftarrow> allownull (heaphdr_decref_raw (duk_hobject_refzero FP PF True)) (o_prototype obj) heap;
         decref_ext FP PF (o_ext obj) heap }
     | _ \<Rightarrow> None }"

definition heaphdr_refcount_finalize_norz :: "heap_op \<Rightarrow> heap_op \<Rightarrow> haddr \<Rightarrow> heap_op" where
  "heaphdr_refcount_finalize_norz FP PF h heap = do {
     hdr \<leftarrow> cells heap h;
     if htype (h_body hdr) = DUK_HTYPE_OBJECT then hobject_refcount_finalize_norz FP PF h heap else Some heap }"

text \<open>
  \<open>duk__refcount_free_pending\<close>.  The element that is processed stays at the front of the queue,
  so that DECREFs find it busy; the last round leaves it empty.
\<close>

primrec refcount_free_pending :: "heap_op \<Rightarrow> nat \<Rightarrow> heap_op" where
  "refcount_free_pending PF 0 heap = None"
| "refcount_free_pending PF (Suc n) heap = (case refzero_list heap of
       [] \<Rightarrow> None
     | cur # _ \<Rightarrow> do {
         heap \<leftarrow> hobject_refcount_finalize_norz (refcount_free_pending PF n) PF cur heap;
         let prev = tl (refzero_list heap);
         let heap = (free_hdr cur heap)\<lparr>refzero_list := prev\<rparr>;
         if prev = [] then Some heap else refcount_free_pending PF n heap })"

text \<open>The macros \<open>DUK_TVAL_DECREF\<close> and \<open>DUK_TVAL_DECREF_NORZ\<close> with the loop in place.\<close>

definition duk_tval_decref :: "heap_op \<Rightarrow> nat \<Rightarrow> duk_tval \<Rightarrow> heap_op" where
  "duk_tval_decref PF n = tval_decref (refcount_free_pending PF n) PF False"

definition duk_tval_decref_norz :: "heap_op \<Rightarrow> nat \<Rightarrow> duk_tval \<Rightarrow> heap_op" where
  "duk_tval_decref_norz PF n = tval_decref (refcount_free_pending PF n) PF True"

subsection \<open>One DECREF\<close>

definition zeros :: "duk_heap \<Rightarrow> haddr set" where
  "zeros heap = {x. \<exists>hdr. cells heap x = Some hdr \<and> h_refcount hdr = 0} - set (refzero_list heap)"

definition sub_cells :: "duk_heap \<Rightarrow> duk_heap \<Rightarrow> bool" where
  "sub_cells heap heap' \<longleftrightarrow> (\<forall>x hdr'. cells heap' x = Some hdr' \<longrightarrow>
     (\<exists>hdr. cells heap x = Some hdr \<and> h_body hdr' = h_body hdr \<and> h_finalized hdr' = h_finalized hdr))"

text \<open>An object that has been finalized is not queued for its finalizer again.\<close>

definition unfinalized :: "duk_heap \<Rightarrow> haddr set" where
  "unfinalized heap = {x. \<exists>hdr. cells heap x = Some hdr \<and> \<not> h_finalized hdr}"

definition waits :: "duk_heap \<Rightarrow> duk_heap \<Rightarrow> bool" where
  "waits heap heap' \<longleftrightarrow> set (finalize_list heap) \<subseteq> set (finalize_list heap')
   \<and> set (finalize_list heap') - set (finalize_list heap) \<subseteq> unfinalized heap'"

text \<open>
  What an operation may do to the cells: free some, change counts and the \<open>FINALIZABLE\<close> flag,
  move objects to the queue.  It creates no unreferenced cell.
\<close>

definition allocated :: "duk_heap \<Rightarrow> haddr set" where
  "allocated heap = set (refzero_list heap) \<union> set (heap_allocated heap)"

definition heap_frame :: "duk_heap \<Rightarrow> duk_heap \<Rightarrow> bool" where
  "heap_frame heap heap' \<longleftrightarrow> sub_cells heap heap' \<and> zeros heap' \<subseteq> zeros heap \<and> waits heap heap'
   \<and> allocated heap' \<subseteq> allocated heap
   \<and> ms_running heap' = ms_running heap
   \<and> pf_prevent_count heap' = pf_prevent_count heap \<and> pf_skip_finalizers heap' = pf_skip_finalizers heap"

lemma sub_cells_refl [simp]: "sub_cells heap heap"
  by (simp add: sub_cells_def)

lemma sub_cells_trans: "sub_cells h1 h2 \<Longrightarrow> sub_cells h2 h3 \<Longrightarrow> sub_cells h1 h3"
  unfolding sub_cells_def by metis

lemma sub_cells_dom: "sub_cells heap heap' \<Longrightarrow> dom (cells heap') \<subseteq> dom (cells heap)"
  unfolding sub_cells_def by blast

lemma waits_refl [simp]: "waits heap heap"
  by (simp add: waits_def)

lemma waits_trans:
  assumes "waits h1 h2" "waits h2 h3" "sub_cells h2 h3" "set (finalize_list h3) \<subseteq> dom (cells h3)"
  shows "waits h1 h3"
proof -
  have "x \<in> unfinalized h3" if "x \<in> set (finalize_list h3)" "x \<in> unfinalized h2" for x
    using that assms(3,4) unfolding unfinalized_def sub_cells_def by fastforce
  then show ?thesis using assms(1,2) unfolding waits_def by blast
qed

lemma hdr_lists [simp]:
  "waits heap (set_hdr a hdr heap)" "allocated (set_hdr a hdr heap) = allocated heap"
  by (simp_all add: waits_def allocated_def)

lemma heap_frame_refl [simp]: "heap_frame heap heap"
  by (simp add: heap_frame_def)

lemma unat_minus_1: "(x :: u32) \<noteq> 0 \<Longrightarrow> unat (x - 1) = unat x - 1"
  by (simp add: unat_minus_one)

lemma heap_inv_dest:
  assumes "heap_inv F ext heap"
  shows "finite (dom (cells heap))" "heap_counts heap F ext" "heap_typed heap F ext" "heap_lists heap F"
    "\<forall>a \<in> set (refzero_list heap) \<union> F. refs_to heap F ext a = 0"
  using assms by (simp_all add: heap_inv_def)

lemma waiting_cells: "heap_inv F ext heap \<Longrightarrow> set (finalize_list heap) \<subseteq> dom (cells heap)"
  by (auto simp: heap_inv_def heap_lists_def cells_of_def)

lemma heap_frame_trans:
  assumes "heap_frame h1 h2" "heap_frame h2 h3" "heap_inv F ext h3"
  shows "heap_frame h1 h3"
  using assms waits_trans [of h1 h2 h3] waiting_cells [OF assms(3)]
  unfolding heap_frame_def by (auto intro: sub_cells_trans)

lemma typed_cell:
  assumes "heap_inv F ext heap" "(t, a) \<in># own heap F + ext"
  obtains hdr where "cells heap a = Some hdr" "htype (h_body hdr) = t"
proof -
  have "typed_edge heap (t, a)" using assms unfolding heap_inv_def heap_typed_def by blast
  then show thesis using that by (auto simp: typed_edge_def)
qed

text \<open>Dropping one reference and its count.\<close>

lemma drop_ref:
  assumes "heap_inv F (add_mset (t, a) ext) heap" "cells heap a = Some hdr"
  shows "heap_inv F ext (set_hdr a (hdr\<lparr>h_refcount := h_refcount hdr - 1\<rparr>) heap)"
    and "h_refcount hdr \<noteq> 0" "a \<notin> set (refzero_list heap) \<union> F"
    and "htype (h_body hdr) = t"
proof -
  show aF: "a \<notin> set (refzero_list heap) \<union> F" using heap_inv_dest(5) [OF assms(1)] by force
  then have c: "unat (h_refcount hdr) = Suc (refs_to heap F ext a) + (if a \<in> set (finalize_list heap) then 1 else 0)"
    using assms by (simp add: heap_inv_def heap_counts_def)
  then show nz: "h_refcount hdr \<noteq> 0" by (metis unat_0 add_Suc nat.simps(3))
  show "htype (h_body hdr) = t" using assms by (auto elim: typed_cell)
  let ?h = "set_hdr a (hdr\<lparr>h_refcount := h_refcount hdr - 1\<rparr>) heap"
  have own: "own ?h F = own heap F" "\<And>e. refs_to ?h F e = refs_to heap F e"
    using assms(2) by (simp_all add: refs_to_def fun_eq_iff)
  show "heap_inv F ext ?h"
    using assms c nz aF
    by (simp add: heap_inv_def heap_defs own unat_minus_1)
qed

lemma zero_count:
  assumes "heap_inv F ext heap" "cells heap a = Some hdr" "h_refcount hdr = 0" "a \<notin> F"
  shows "refs_to heap F ext a = 0" "a \<notin> set (finalize_list heap)"
  using assms by (fastforce simp: heap_inv_def heap_counts_def split: if_splits)+

text \<open>Freeing an unreferenced cell without references of its own.\<close>

lemma heap_inv_free_leaf:
  assumes "heap_inv F ext heap" "cells heap a = Some hdr" "hdr_edges hdr = []" "refs_to heap F ext a = 0"
    and "heap' = (free_hdr a heap)\<lparr>heap_allocated := l, strtable := s, strcache := c\<rparr>"
    and "heap_lists heap' F"
  shows "heap_inv F ext heap'"
proof -
  have own: "own heap' F = own heap F"
    using assms(1-3,5) by (simp add: own_free heap_inv_def)
  then have refs: "refs_to heap' F ext = refs_to heap F ext" by (intro refs_to_own) simp
  have "heap_typed heap' F ext"
    using assms(1,4) heap_inv_dest(3) [OF assms(1)] unfolding heap_typed_def own refs_to_zero
    by (simp add: assms(5))
  moreover have "heap_counts heap' F ext"
    using heap_inv_dest(2) [OF assms(1)] by (simp add: heap_counts_def refs) (simp add: assms(5))
  ultimately show ?thesis
    using heap_inv_dest [OF assms(1)] assms(6) by (simp add: heap_inv_def refs) (simp add: assms(5))
qed

lemma set_remove1_conv: "distinct xs \<Longrightarrow> set (remove1 x xs) = set xs - {x}"
  by (rule set_remove1_eq)

text \<open>
  One operation that treats an unreferenced cell \<open>a\<close>: what it may change, and what becomes of
  the queue, which grows while a cascade runs and is empty again otherwise.
\<close>

definition queue_grows :: "duk_heap \<Rightarrow> duk_heap \<Rightarrow> bool" where
  "queue_grows heap heap' \<longleftrightarrow> (if refzero_list heap = [] then refzero_list heap' = []
     else (\<exists>more. refzero_list heap' = refzero_list heap @ more))"

definition zero_frame :: "haddr \<Rightarrow> duk_heap \<Rightarrow> duk_heap \<Rightarrow> bool" where
  "zero_frame a heap heap' \<longleftrightarrow> sub_cells heap heap' \<and> zeros heap' \<subseteq> zeros heap - {a} \<and> waits heap heap'
   \<and> allocated heap' \<subseteq> allocated heap
   \<and> ms_running heap' = ms_running heap
   \<and> pf_prevent_count heap' = pf_prevent_count heap \<and> pf_skip_finalizers heap' = pf_skip_finalizers heap"

lemma string_zero:
  assumes "heap_inv F ext heap" "cells heap a = Some hdr" "h_body hdr = Hstring" "h_refcount hdr = 0"
    and "a \<notin> set (refzero_list heap) \<union> F"
  shows "\<exists>heap'. refcount_refzero_hstring a heap = Some heap' \<and> heap_inv F ext heap'
    \<and> zero_frame a heap heap' \<and> refzero_list heap' = refzero_list heap \<and> finalize_list heap' = finalize_list heap"
proof -
  let ?h = "(free_hdr a heap)\<lparr>heap_allocated := heap_allocated heap, strtable := remove1 a (strtable heap),
    strcache := map (\<lambda>c. if c = Some a then None else c) (strcache heap)\<rparr>"
  have "refcount_refzero_hstring a heap = Some ?h"
    by (simp add: refcount_refzero_hstring_def duk_heap_strcache_string_remove_def free_hdr_def)
  moreover have "heap_lists ?h F"
    using heap_inv_dest(4) [OF assms(1)] assms(2,3)
    by (auto simp: heap_lists_def set_remove1_conv cells_of_def)
  then have "heap_inv F ext ?h"
    using assms zero_count(1) [OF assms(1,2,4)]
    by (intro heap_inv_free_leaf [OF assms(1,2) _ _ refl]) (simp_all add: hdr_edges_def)
  ultimately show ?thesis
    by (intro exI [of _ ?h]) (auto simp: zero_frame_def sub_cells_def zeros_def waits_def allocated_def dest!: set_remove1_subset [THEN subsetD] split: if_splits)
qed

lemma buffer_zero:
  assumes "heap_inv F ext heap" "cells heap a = Some hdr" "h_body hdr = Hbuffer" "h_refcount hdr = 0"
    and "a \<notin> set (refzero_list heap) \<union> F"
  shows "\<exists>heap'. refcount_refzero_hbuffer a heap = Some heap' \<and> heap_inv F ext heap'
    \<and> zero_frame a heap heap' \<and> refzero_list heap' = refzero_list heap \<and> finalize_list heap' = finalize_list heap"
proof -
  let ?h = "(free_hdr a heap)\<lparr>heap_allocated := remove1 a (heap_allocated heap), strtable := strtable heap,
    strcache := strcache heap\<rparr>"
  have "refcount_refzero_hbuffer a heap = Some ?h"
    by (simp add: refcount_refzero_hbuffer_def free_hdr_def)
  moreover have "a \<notin> set (finalize_list heap)" using zero_count(2) [OF assms(1,2,4)] assms(5) by simp
  then have "heap_lists ?h F"
    using heap_inv_dest(4) [OF assms(1)] assms(2,3,5)
    by (auto simp: heap_lists_def set_remove1_conv cells_of_def)
  then have "heap_inv F ext ?h"
    using assms zero_count(1) [OF assms(1,2,4)]
    by (intro heap_inv_free_leaf [OF assms(1,2) _ _ refl]) (simp_all add: hdr_edges_def)
  ultimately show ?thesis
    by (intro exI [of _ ?h]) (auto simp: zero_frame_def sub_cells_def zeros_def waits_def allocated_def dest!: set_remove1_subset [THEN subsetD] split: if_splits)
qed

text \<open>The prototype chain of a live object stays within live objects.\<close>

lemma has_finalizer_fast_some:
  assumes "heap_inv F ext heap" "cells heap a = Some hdr" "h_body hdr = Hobject obj" "a \<notin> F"
  shows "\<exists>fin. has_finalizer_fast n heap a = Some fin"
  using assms(2-)
proof (induction n arbitrary: a hdr obj)
  case 0
  then show ?case by (subst has_finalizer_fast.simps) (auto split: option.split)
next
  case (Suc n)
  show ?case
  proof (cases "o_prototype obj")
    case None
    with Suc.prems show ?thesis by (subst has_finalizer_fast.simps) auto
  next
    case (Some proto)
    then have "(DUK_HTYPE_OBJECT, proto) \<in> set (hdr_edges hdr)"
      using Suc.prems by (simp add: hdr_edges_def obj_edges_def)
    then have e: "(DUK_HTYPE_OBJECT, proto) \<in># own heap F"
      using own_memberI [OF heap_inv_dest(1) [OF assms(1)]] Suc.prems by blast
    then obtain hdr' where p: "cells heap proto = Some hdr'" "htype (h_body hdr') = DUK_HTYPE_OBJECT"
      using typed_cell [OF assms(1)] by (metis union_iff)
    then obtain obj' where "h_body hdr' = Hobject obj'" by (cases "h_body hdr'") simp_all
    moreover have "proto \<notin> F"
      using e heap_inv_dest(5) [OF assms(1)] unfolding refs_to_zero by force
    ultimately show ?thesis
      using Suc.IH [OF p(1)] Suc.prems Some by (subst has_finalizer_fast.simps) auto
  qed
qed


lemma has_finalizer_fast_cells: "cells heap' = cells heap \<Longrightarrow> has_finalizer_fast n heap' a = has_finalizer_fast n heap a"
proof (induction n arbitrary: a)
  case 0
  then show ?case by (subst (1 2) has_finalizer_fast.simps) (auto split: Option.bind_split duk_hbody.split)
next
  case (Suc n)
  then show ?case
    by (subst (1 2) has_finalizer_fast.simps)
      (auto split: Option.bind_split duk_hbody.split option.split intro!: arg_cong2 [where f = Option.bind] ext)
qed

text \<open>
  An unreferenced object goes to the list of objects that wait for their finalizer, with its count
  bumped, or to the refzero queue (\<open>more\<close>); what happens then depends on whether the queue was
  empty.
\<close>

lemma object_zero:
  assumes "heap_inv F ext heap" "cells heap a = Some hdr" "h_body hdr = Hobject obj" "h_refcount hdr = 0"
    and "a \<notin> set (refzero_list heap) \<union> F"
  shows "\<exists>heap' more. heap_inv F ext heap' \<and> zero_frame a heap heap'
    \<and> refzero_list heap' = refzero_list heap @ more
    \<and> dom (cells heap') = dom (cells heap) \<and> (more = [] \<and> finalize_list heap' \<noteq> [] \<or> more = [a])
    \<and> (\<forall>FP PF skip. refcount_refzero_hobject FP PF skip a heap =
        (if refzero_list heap \<noteq> [] then Some heap'
         else if more = [] then (if skip then Some heap' else PF heap')
         else do { h \<leftarrow> FP heap'; if \<not> skip \<and> finalize_list h \<noteq> [] then PF h else Some h }))"
proof -
  have aF: "a \<notin> F" using assms(5) by simp
  obtain fin where fin: "has_finalizer_fast DUK_HOBJECT_PROTOTYPE_CHAIN_SANITY heap a = Some fin"
    using has_finalizer_fast_some [OF assms(1-3) aF] by blast
  let ?h1 = "heap\<lparr>heap_allocated := remove1 a (heap_allocated heap)\<rparr>"
  have fin1: "has_finalizer_fast DUK_HOBJECT_PROTOTYPE_CHAIN_SANITY ?h1 a = Some fin"
    using has_finalizer_fast_cells [of ?h1 heap] fin by simp
  note z = zero_count [OF assms(1,2,4) aF]
  note i = heap_inv_dest [OF assms(1)]
  have al: "a \<in> cells_of {DUK_HTYPE_OBJECT} heap" "a \<in> cells_of {DUK_HTYPE_OBJECT, DUK_HTYPE_BUFFER} heap"
    using assms(2,3) by (simp_all add: cells_of_def)
  have "a \<in> set (heap_allocated heap)" using i(4) al(2) z(2) assms(5) by (auto simp: heap_lists_def)
  then have alloc: "insert a (set (remove1 a (heap_allocated heap)) \<union> q) \<subseteq> set (heap_allocated heap) \<union> q" for q
    by (auto dest: set_remove1_subset [THEN subsetD])
  show ?thesis
  proof (cases "fin \<and> \<not> h_finalized hdr")
    case True
    let ?hdr = "hdr\<lparr>h_finalizable := True, h_refcount := h_refcount hdr + 1\<rparr>"
    let ?h2 = "(set_hdr a ?hdr heap)\<lparr>heap_allocated := remove1 a (heap_allocated heap),
      finalize_list := a # finalize_list heap\<rparr>"
    have s: "own (set_hdr a ?hdr heap) G = own heap G" "cells_of T (set_hdr a ?hdr heap) = cells_of T heap"
      "typed_edge (set_hdr a ?hdr heap) = typed_edge heap" for G T
      using assms(2) by simp_all
    have r: "refs_to ?h2 F ext = refs_to heap F ext" by (intro refs_to_own) (simp add: s)
    have h2: "?h2 = (set_hdr a ?hdr ?h1)\<lparr>finalize_list := a # finalize_list heap\<rparr>" by (simp add: set_hdr_def)
    have "refcount_refzero_hobject FP PF skip a heap =
      (if refzero_list heap \<noteq> [] then Some ?h2 else if skip then Some ?h2 else PF ?h2)" for FP PF skip
      unfolding h2 using fin1 True assms(2) by (simp add: refcount_refzero_hobject_def Let_def)
    moreover have "heap_lists ?h2 F"
      using i(4) z(2) assms(5) al by (auto simp: heap_lists_def set_remove1_conv s)
    moreover have "heap_counts ?h2 F ext"
      using i(2) z assms(4) unfolding heap_counts_def r by simp
    moreover have "heap_typed ?h2 F ext" using i(3) by (simp add: heap_typed_def s)
    moreover have "zero_frame a heap ?h2"
      using assms(2,4) True by (auto simp: zero_frame_def sub_cells_def zeros_def waits_def allocated_def unfinalized_def dest!: set_remove1_subset [THEN subsetD] split: if_splits)
    ultimately show ?thesis
      using i assms(2) unfolding heap_inv_def
      by (intro exI [of _ ?h2] exI [of _ "[]"]) (auto simp: r)
  next
    case False
    let ?h2 = "heap\<lparr>heap_allocated := remove1 a (heap_allocated heap), refzero_list := refzero_list heap @ [a]\<rparr>"
    have r: "refs_to ?h2 F ext = refs_to heap F ext" by (intro refs_to_own) simp
    have "refcount_refzero_hobject FP PF skip a heap = (if refzero_list heap \<noteq> [] then Some ?h2
       else do { h \<leftarrow> FP ?h2; if \<not> skip \<and> finalize_list h \<noteq> [] then PF h else Some h })" for FP PF skip
      using fin1 False assms(2) by (auto simp: refcount_refzero_hobject_def Let_def)
    moreover have "heap_lists ?h2 F"
      using i(4) z(2) assms(5) al by (auto simp: heap_lists_def set_remove1_conv)
    moreover have "heap_counts ?h2 F ext" using i(2) unfolding heap_counts_def r by simp
    moreover have "heap_typed ?h2 F ext" using i(3) by (simp add: heap_typed_def)
    moreover have "allocated ?h2 \<subseteq> allocated heap" using alloc by (auto simp: allocated_def)
    then have "zero_frame a heap ?h2" by (auto simp: zero_frame_def sub_cells_def zeros_def waits_def)
    ultimately show ?thesis
      using i z(1) unfolding heap_inv_def
      by (intro exI [of _ ?h2] exI [of _ "[a]"]) (auto simp: r)
  qed
qed

definition rz_of :: "duk_htype \<Rightarrow> heap_op \<Rightarrow> heap_op \<Rightarrow> bool \<Rightarrow> haddr \<Rightarrow> heap_op" where
  "rz_of t FP PF skip = (case t of
     DUK_HTYPE_STRING \<Rightarrow> refcount_refzero_hstring
   | DUK_HTYPE_BUFFER \<Rightarrow> refcount_refzero_hbuffer
   | DUK_HTYPE_OBJECT \<Rightarrow> refcount_refzero_hobject FP PF skip)"

text \<open>Strings and buffers are freed at once, whatever the mode.\<close>

lemma refzero_leaf:
  assumes "heap_inv F ext heap" "cells heap a = Some hdr" "htype (h_body hdr) = t" "h_refcount hdr = 0"
    and "a \<notin> set (refzero_list heap) \<union> F" "t \<noteq> DUK_HTYPE_OBJECT"
  shows "\<exists>heap'. rz_of t FP PF skip a heap = Some heap' \<and> heap_inv F ext heap'
    \<and> zero_frame a heap heap' \<and> refzero_list heap' = refzero_list heap \<and> finalize_list heap' = finalize_list heap"
proof (cases "h_body hdr")
  case Hstring
  then show ?thesis using string_zero [OF assms(1,2) Hstring assms(4,5)] assms(3) by (auto simp: rz_of_def)
next
  case Hbuffer
  then show ?thesis using buffer_zero [OF assms(1,2) Hbuffer assms(4,5)] assms(3) by (auto simp: rz_of_def)
qed (use assms(3,6) in simp)

subsection \<open>Releasing references, in any mode\<close>

text \<open>
  The references of an object are released one by one in two situations: in a cascade, where a DECREF
  at most queues its target, and after a finalizer, where each DECREF runs its own cascade.  The locale
  states what both have in common, a mode \<open>M\<close> of the heap in which the treatment of an
  unreferenced cell succeeds and keeps the mode; the release of whole objects follows from it.
\<close>

definition queue_frame :: "duk_heap \<Rightarrow> duk_heap \<Rightarrow> bool" where
  "queue_frame heap heap' \<longleftrightarrow> heap_frame heap heap' \<and> queue_grows heap heap'"

lemma queue_frame_refl [simp]: "queue_frame heap heap"
  by (simp add: queue_frame_def queue_grows_def)

lemma queue_frame_trans:
  "queue_frame h1 h2 \<Longrightarrow> queue_frame h2 h3 \<Longrightarrow> heap_inv F ext h3 \<Longrightarrow> queue_frame h1 h3"
  using heap_frame_trans [of h1 h2 h3 F ext] unfolding queue_frame_def queue_grows_def by (auto split: if_splits)

named_theorems releases "operations that release the references of a list of fields"

locale release_mode =
  fixes M :: "duk_heap \<Rightarrow> bool" and FP PF :: heap_op
  assumes M_running: "M heap \<Longrightarrow> \<not> ms_running heap"
    and M_keep: "M heap \<Longrightarrow> finite (dom (cells heap)) \<Longrightarrow> queue_frame heap heap' \<Longrightarrow> M heap'"
    and M_hdr: "M heap \<Longrightarrow> cells heap a = Some hdr \<Longrightarrow> M (set_hdr a hdr' heap)"
    and M_zero: "M heap \<Longrightarrow> heap_inv F ext heap \<Longrightarrow> cells heap a = Some hdr \<Longrightarrow> h_body hdr = Hobject obj \<Longrightarrow>
      h_refcount hdr = 0 \<Longrightarrow> a \<notin> set (refzero_list heap) \<union> F \<Longrightarrow>
      \<exists>heap'. refcount_refzero_hobject FP PF skip a heap = Some heap' \<and> heap_inv F ext heap'
        \<and> zero_frame a heap heap' \<and> queue_grows heap heap'"
begin

definition frees :: "heap_op \<Rightarrow> edge list \<Rightarrow> bool" where
  "frees f es \<longleftrightarrow> (\<forall>F ext heap. heap_inv F (mset es + ext) heap \<longrightarrow> M heap \<longrightarrow>
     (\<exists>heap'. f heap = Some heap' \<and> heap_inv F ext heap' \<and> queue_frame heap heap'))"

lemma refzero_step:
  assumes "M heap" "heap_inv F ext heap" "cells heap a = Some hdr" "htype (h_body hdr) = t" "h_refcount hdr = 0"
    and "a \<notin> set (refzero_list heap) \<union> F"
  shows "\<exists>heap'. rz_of t FP PF skip a heap = Some heap' \<and> heap_inv F ext heap'
    \<and> zero_frame a heap heap' \<and> queue_grows heap heap'"
proof (cases "t = DUK_HTYPE_OBJECT")
  case True
  then obtain obj where "h_body hdr = Hobject obj" using assms(4) by (cases "h_body hdr") simp_all
  then show ?thesis using M_zero [OF assms(1-3) _ assms(5,6)] True by (simp add: rz_of_def)
next
  case False
  then obtain heap' where "rz_of t FP PF skip a heap = Some heap'" "heap_inv F ext heap'" "zero_frame a heap heap'"
    "refzero_list heap' = refzero_list heap"
    using refzero_leaf [OF assms(2-6)] by blast
  then show ?thesis by (intro exI [of _ heap']) (simp add: queue_grows_def)
qed

lemma decref_frees:
  assumes "\<And>heap hdr. cells heap a = Some hdr \<Longrightarrow> htype (h_body hdr) = t \<Longrightarrow> \<not> ms_running heap \<Longrightarrow>
    rz a heap = rz_of t FP PF skip a heap"
  shows "frees (heaphdr_decref_raw rz a) [(t, a)]"
  unfolding frees_def
proof (intro allI impI)
  fix F ext heap
  assume "heap_inv F (mset [(t, a)] + ext) heap" and c: "M heap"
  then have inv: "heap_inv F (add_mset (t, a) ext) heap" by simp
  obtain hdr where a: "cells heap a = Some hdr" by (rule typed_cell [OF inv, of t a]) simp
  note d = drop_ref [OF inv a]
  let ?hdr = "hdr\<lparr>h_refcount := h_refcount hdr - 1\<rparr>" and ?h1 = "set_hdr a (hdr\<lparr>h_refcount := h_refcount hdr - 1\<rparr>) heap"
  have sub: "sub_cells heap ?h1" using a by (auto simp: sub_cells_def)
  show "\<exists>heap'. heaphdr_decref_raw rz a heap = Some heap' \<and> heap_inv F ext heap' \<and> queue_frame heap heap'"
  proof (cases "h_refcount hdr - 1 = 0")
    case False
    then have "heaphdr_decref_raw rz a heap = Some ?h1" using a by (simp add: heaphdr_decref_raw_def)
    moreover have "queue_frame heap ?h1"
      using False sub by (auto simp: queue_frame_def heap_frame_def zeros_def queue_grows_def)
    ultimately show ?thesis using d(1) by blast
  next
    case True
    have M1: "M ?h1" using M_hdr [OF c a] .
    obtain heap' where h: "rz_of t FP PF skip a ?h1 = Some heap'" "heap_inv F ext heap'"
      "zero_frame a ?h1 heap'" "queue_grows ?h1 heap'"
      using refzero_step [OF M1 d(1), of a ?hdr t skip] d(3,4) True by auto
    have "heaphdr_decref_raw rz a heap = Some heap'"
      using a True assms [of ?h1 ?hdr] d(4) h(1) M_running [OF M1] by (simp add: heaphdr_decref_raw_def)
    moreover have "zeros ?h1 - {a} \<subseteq> zeros heap" by (auto simp: zeros_def)
    then have "queue_frame heap heap'"
      using h(3,4) sub_cells_trans [OF sub, of heap']
      by (auto simp: queue_frame_def heap_frame_def zero_frame_def waits_def allocated_def queue_grows_def)
    ultimately show ?thesis using h(2) by blast
  qed
qed

lemma rz_variants [releases]:
  "frees (heaphdr_decref_raw duk_hstring_refzero a) [(DUK_HTYPE_STRING, a)]"
  "frees (heaphdr_decref_raw duk_hbuffer_refzero a) [(DUK_HTYPE_BUFFER, a)]"
  "frees (heaphdr_decref_raw (duk_hobject_refzero FP PF skip) a) [(DUK_HTYPE_OBJECT, a)]"
  "frees (heaphdr_decref_raw (duk_heaphdr_refzero FP PF skip) a) [(t, a)]"
  by (rule decref_frees [where skip = skip];
      simp add: rz_of_def duk_hstring_refzero_def duk_hbuffer_refzero_def duk_hobject_refzero_def
        duk_heaphdr_refzero_def split: duk_htype.split)+

lemma releases_Some [releases]: "frees Some []"
  by (simp add: frees_def)

lemma releases_bind [releases]:
  assumes "frees f es" "frees g fs"
  shows "frees (\<lambda>heap. f heap \<bind> g) (es @ fs)"
  unfolding frees_def
proof (intro allI impI)
  fix F ext heap
  assume inv: "heap_inv F (mset (es @ fs) + ext) heap" and "M heap"
  then obtain h1 where h1: "f heap = Some h1" "heap_inv F (mset fs + ext) h1" "queue_frame heap h1"
    using assms(1) unfolding frees_def by (metis mset_append union_assoc)
  moreover have "M h1" using M_keep [OF \<open>M heap\<close> heap_inv_dest(1) [OF inv] h1(3)] .
  ultimately obtain h2 where "g h1 = Some h2" "heap_inv F ext h2" "queue_frame h1 h2"
    using assms(2) unfolding frees_def by blast
  then show "\<exists>heap'. f heap \<bind> g = Some heap' \<and> heap_inv F ext heap' \<and> queue_frame heap heap'"
    using h1(1,3) queue_frame_trans by fastforce
qed

lemma releases_mfold [releases]:
  assumes "\<And>x. frees (f x) (e x)"
  shows "frees (mfold f xs) (concat (map e xs))"
proof (induction xs)
  case Nil
  have "mfold f [] = Some" by (simp add: fun_eq_iff)
  then show ?case using releases_Some by simp
next
  case (Cons x xs)
  have "mfold f (x # xs) = (\<lambda>s. f x s \<bind> mfold f xs)" by (simp add: fun_eq_iff)
  then show ?case using releases_bind [OF assms Cons.IH] by simp
qed

lemma releases_allownull [releases]:
  assumes "\<And>a. frees (f a) [(t, a)]"
  shows "frees (allownull f x) (opt_edges t x)"
proof (cases x)
  case None
  then have "allownull f x = Some" by (simp add: fun_eq_iff)
  then show ?thesis using None releases_Some by simp
next
  case (Some a)
  then have "allownull f x = f a" by (simp add: fun_eq_iff)
  then show ?thesis using Some assms by simp
qed

lemma releases_tval [releases]: "frees (tval_decref FP PF skip tv) (tval_edges tv)"
proof -
  have *: "tval_decref FP PF skip tv = (case tval_heaphdr tv of
       None \<Rightarrow> Some | Some h \<Rightarrow> heaphdr_decref_raw (duk_heaphdr_refzero FP PF skip) h)"
    by (auto simp: tval_decref_def fun_eq_iff split: option.split)
  show ?thesis unfolding * by (cases tv) (auto intro: rz_variants releases_Some)
qed


lemma releases_cong: "frees f es \<Longrightarrow> f = g \<Longrightarrow> mset es = mset fs \<Longrightarrow> frees g fs"
  by (simp add: frees_def)

lemma releases_opt [releases]:
  "frees (allownull (heaphdr_decref_raw (duk_hobject_refzero FP PF skip)) x) (obj_opt x)"
  "frees (allownull (heaphdr_decref_raw duk_hbuffer_refzero) x) (opt_edges DUK_HTYPE_BUFFER x)"
  "frees (allownull (heaphdr_decref_raw (duk_heaphdr_refzero FP PF skip)) x) (opt_edges t x)"
  by (intro releases_allownull rz_variants)+

lemma releases_entry [releases]: "frees (decref_entry FP PF e) (entry_edges e)"
proof (cases e rule: entry_edges.cases)
  case (1 v)
  show ?thesis by (rule releases_cong [OF releases_Some]) (simp_all add: 1 decref_entry_def fun_eq_iff)
next
  case (2 key tv)
  show ?thesis
    by (rule releases_cong [OF releases_bind [OF rz_variants(1) [of key] releases_tval [of True tv]]])
      (simp_all add: 2 decref_entry_def fun_eq_iff)
next
  case (3 key g s)
  show ?thesis
    by (rule releases_cong [OF releases_bind [OF rz_variants(1) [of key]
          releases_bind [OF releases_opt(1) [of True g] releases_opt(1) [of True s]]]])
      (simp_all add: 3 decref_entry_def fun_eq_iff)
qed

lemma releases_activation [releases]: "frees (decref_activation FP PF act) (act_edges act)"
  unfolding decref_activation_def act_edges_def by (intro releases)

lemma releases_objs: "frees (mfold (heaphdr_decref_raw (duk_hobject_refzero FP PF True)) funcs)
    (map (Pair DUK_HTYPE_OBJECT) funcs)"
proof -
  have "concat (map (\<lambda>a. [(DUK_HTYPE_OBJECT, a)]) funcs) = map (Pair DUK_HTYPE_OBJECT) funcs"
    by (induction funcs) simp_all
  moreover have "frees (mfold (heaphdr_decref_raw (duk_hobject_refzero FP PF True)) funcs)
      (concat (map (\<lambda>a. [(DUK_HTYPE_OBJECT, a)]) funcs))"
    by (intro releases_mfold rz_variants(3))
  ultimately show ?thesis by (simp only:)
qed

lemma releases_ext [releases]: "frees (decref_ext FP PF ext) (ext_edges ext)"
proof (cases ext)
  case Ext_fastrefs
  show ?thesis by (rule releases_cong [OF releases_Some]) (simp_all add: Ext_fastrefs decref_ext_def fun_eq_iff)
next
  case (Ext_compfunc cs funcs lexenv varenv data)
  have d: "frees (\<lambda>heap. if data \<noteq> None then mfold (tval_decref FP PF True) cs heap
        \<bind> mfold (heaphdr_decref_raw (duk_hobject_refzero FP PF True)) funcs else Some heap)
     (if data = None then [] else concat (map tval_edges cs) @ map (Pair DUK_HTYPE_OBJECT) funcs)"
    using releases_bind [OF releases_mfold [OF releases_tval] releases_objs] releases_Some by (cases data) simp_all
  show ?thesis
    by (rule releases_cong [OF releases_bind [OF d releases_bind [OF
          releases_opt(3) [of False lexenv DUK_HTYPE_OBJECT] releases_bind [OF
          releases_opt(3) [of False varenv DUK_HTYPE_OBJECT]
          releases_opt(3) [of False data DUK_HTYPE_BUFFER]]]]])
      (simp_all add: Ext_compfunc decref_ext_def Let_def fun_eq_iff)
next
  case (Ext_decenv thr varmap)
  then show ?thesis unfolding decref_ext_def Let_def by simp (intro releases)
next
  case (Ext_objenv target)
  then show ?thesis unfolding decref_ext_def Let_def by simp (intro releases)
next
  case (Ext_bufobj buf bprop)
  then show ?thesis unfolding decref_ext_def Let_def by simp (intro releases)
next
  case (Ext_boundfunc target this args)
  then show ?thesis unfolding decref_ext_def Let_def by simp (intro releases)
next
  case (Ext_proxy target handler)
  show ?thesis
    by (rule releases_cong [OF releases_bind [OF rz_variants(3) [of True target] rz_variants(3) [of True handler]]])
      (simp_all add: Ext_proxy decref_ext_def Let_def fun_eq_iff)
next
  case (Ext_thread valstack callstack builtins resumer)
  then show ?thesis unfolding decref_ext_def Let_def by simp (intro releases)
qed

lemma finalize_frees:
  assumes "heap_inv F (mset (obj_edges obj) + ext) heap" "M heap"
    and "cells heap a = Some hdr" "h_body hdr = Hobject obj"
  shows "\<exists>heap'. hobject_refcount_finalize_norz FP PF a heap = Some heap' \<and> heap_inv F ext heap' \<and> queue_frame heap heap'"
proof -
  have "frees (\<lambda>heap. do {
         heap \<leftarrow> mfold (decref_entry FP PF) (rev (o_entries obj)) heap;
         heap \<leftarrow> mfold (tval_decref FP PF True) (rev (o_array obj)) heap;
         heap \<leftarrow> allownull (heaphdr_decref_raw (duk_hobject_refzero FP PF True)) (o_prototype obj) heap;
         decref_ext FP PF (o_ext obj) heap }) (obj_edges obj)"
    unfolding obj_edges_def by (intro releases)
  then show ?thesis
    using assms by (simp add: hobject_refcount_finalize_norz_def frees_def)
qed

end

subsection \<open>The cascade\<close>

definition cascading :: "duk_heap \<Rightarrow> bool" where
  "cascading heap \<longleftrightarrow> refzero_list heap \<noteq> [] \<and> \<not> ms_running heap"

interpretation cascade: release_mode cascading FP PF for FP PF
proof
  fix heap heap' :: duk_heap
  assume "cascading heap" "queue_frame heap heap'"
  then show "cascading heap'" by (auto simp: cascading_def queue_frame_def queue_grows_def heap_frame_def)
next
  fix heap :: duk_heap and F ext a hdr obj skip
  assume "cascading heap" "heap_inv F ext heap" "cells heap a = Some hdr" "h_body hdr = Hobject obj"
    "h_refcount hdr = 0" "a \<notin> set (refzero_list heap) \<union> F"
  then show "\<exists>heap'. refcount_refzero_hobject FP PF skip a heap = Some heap' \<and> heap_inv F ext heap'
      \<and> zero_frame a heap heap' \<and> queue_grows heap heap'"
    using object_zero [of F ext heap a hdr obj] by (auto simp: cascading_def queue_grows_def)
qed (simp_all add: cascading_def)

text \<open>One round frees the front of the queue for good.\<close>

lemma release_begin:
  assumes "heap_inv F ext heap" "cells heap a = Some hdr" "a \<in> set (refzero_list heap) - F"
  shows "heap_inv (insert a F) (mset (hdr_edges hdr) + ext) heap"
proof -
  have own: "own heap F + ext = own heap (insert a F) + (mset (hdr_edges hdr) + ext)"
    using own_release [OF heap_inv_dest(1) [OF assms(1)] assms(2), of F] assms(3) by simp
  then have r: "refs_to heap (insert a F) (mset (hdr_edges hdr) + ext) = refs_to heap F ext"
    by (intro refs_to_own) simp
  note i = heap_inv_dest [OF assms(1)]
  have "heap_lists heap (insert a F)" using i(4) assms(3) by (auto simp: heap_lists_def)
  then show ?thesis
    using i assms(3) own unfolding heap_inv_def heap_counts_def heap_typed_def r by simp
qed

lemma release_end:
  assumes "heap_inv (insert a F) ext heap" "refzero_list heap = a # rest" "a \<notin> F"
  shows "heap_inv F ext ((free_hdr a heap)\<lparr>refzero_list := rest\<rparr>)" (is "heap_inv F ext ?h")
proof -
  note i = heap_inv_dest [OF assms(1)]
  have z: "refs_to heap (insert a F) ext a = 0" using i(5) by simp
  have own: "own ?h F = own heap (insert a F)" by (simp add: own_free_member)
  then have refs: "refs_to (free_hdr a heap) F ext = refs_to heap (insert a F) ext" by (intro refs_to_own) simp
  have "heap_typed ?h F ext"
    using i(3) z unfolding heap_typed_def own refs_to_zero by simp
  moreover have "heap_counts ?h F ext" using i(2) by (simp add: heap_counts_def refs)
  moreover have o: "a \<in> cells_of {DUK_HTYPE_OBJECT} heap" using i(4) by (auto simp: heap_lists_def)
  then have "a \<notin> cells_of {DUK_HTYPE_STRING} heap" by (auto simp: cells_of_def)
  then have "heap_lists ?h F"
    using i(4) assms(2,3) o unfolding heap_lists_def by (simp add: insert_Diff_if) blast
  ultimately show ?thesis using i(1,5) assms(2) by (simp add: heap_inv_def refs)
qed

lemma queue_object:
  assumes "heap_inv F ext heap" "a \<in> set (refzero_list heap) \<union> F"
  obtains hdr obj where "cells heap a = Some hdr" "h_body hdr = Hobject obj"
proof -
  have "a \<in> cells_of {DUK_HTYPE_OBJECT} heap"
    using heap_inv_dest(4) [OF assms(1)] assms(2) by (auto simp: heap_lists_def)
  then obtain hdr where "cells heap a = Some hdr" "htype (h_body hdr) = DUK_HTYPE_OBJECT" by (auto simp: cells_of_def)
  then show thesis using that by (cases "h_body hdr") simp_all
qed

lemma free_pending_spec:
  assumes "heap_inv F ext heap" "cascading heap" "card (dom (cells heap)) \<le> n"
    and "F \<inter> set (refzero_list heap) = {}"
  shows "\<exists>heap'. refcount_free_pending PF n heap = Some heap' \<and> heap_inv F ext heap' \<and> refzero_list heap' = []
    \<and> heap_frame heap heap'"
  using assms
proof (induction n arbitrary: heap)
  case 0
  then obtain a rest where "refzero_list heap = a # rest" by (auto simp: cascading_def neq_Nil_conv)
  moreover from this obtain hdr obj where "cells heap a = Some hdr" "h_body hdr = Hobject obj"
    using queue_object [OF 0(1), of a] by auto
  ultimately show ?case using 0 by (auto simp: heap_inv_def)
next
  case (Suc n)
  let ?FP = "refcount_free_pending PF n"
  obtain a rest where q: "refzero_list heap = a # rest" using Suc.prems(2) by (auto simp: cascading_def neq_Nil_conv)
  obtain hdr obj where a: "cells heap a = Some hdr" "h_body hdr = Hobject obj"
    using queue_object [OF Suc.prems(1), of a] q by auto
  have aF: "a \<notin> F" using q Suc.prems(4) by auto
  then have "heap_inv (insert a F) (mset (obj_edges obj) + ext) heap"
    using release_begin [OF Suc.prems(1) a(1)] q a(2) by (simp add: hdr_edges_def)
  then obtain h1 where h1: "hobject_refcount_finalize_norz ?FP PF a heap = Some h1" "heap_inv (insert a F) ext h1"
    "queue_frame heap h1"
    using cascade.finalize_frees [OF _ Suc.prems(2) a] by blast
  from h1(3) q obtain more where q1: "refzero_list h1 = a # rest @ more" and f1: "heap_frame heap h1"
    by (auto simp: queue_frame_def queue_grows_def)
  let ?h2 = "(free_hdr a h1)\<lparr>refzero_list := rest @ more\<rparr>"
  have inv2: "heap_inv F ext ?h2" by (rule release_end [OF h1(2) q1 aF])
  have "a \<notin> set (finalize_list h1)" using heap_inv_dest(4) [OF h1(2)] by (auto simp: heap_lists_def)
  then have f2: "heap_frame h1 ?h2"
    using q1 by (auto simp: heap_frame_def sub_cells_def zeros_def waits_def unfinalized_def allocated_def)
  have f: "heap_frame heap ?h2" by (rule heap_frame_trans [OF f1 f2 inv2])
  have run: "refcount_free_pending PF (Suc n) heap = (if rest @ more = [] then Some ?h2 else refcount_free_pending PF n ?h2)"
    using q h1(1) q1 by (simp add: Let_def)
  show ?case
  proof (cases "rest @ more = []")
    case True
    then show ?thesis using run inv2 f by auto
  next
    case False
    have "dom (cells ?h2) \<subset> dom (cells heap)"
      using sub_cells_dom [of heap h1] f1 a(1) by (auto simp: heap_frame_def)
    then have "card (dom (cells ?h2)) < card (dom (cells heap))"
      by (rule psubset_card_mono [OF heap_inv_dest(1) [OF Suc.prems(1)]])
    then have "card (dom (cells ?h2)) \<le> n" using Suc.prems(3) by linarith
    moreover have "cascading ?h2" using False Suc.prems(2) f1 by (simp add: cascading_def heap_frame_def)
    moreover have "F \<inter> allocated heap = {}"
      using Suc.prems(4) heap_inv_dest(4) [OF Suc.prems(1)] by (auto simp: heap_lists_def allocated_def)
    then have "F \<inter> set (refzero_list ?h2) = {}" using f by (auto simp: heap_frame_def allocated_def)
    ultimately obtain heap' where h': "refcount_free_pending PF n ?h2 = Some heap'" "heap_inv F ext heap'"
      "refzero_list heap' = []" "heap_frame ?h2 heap'"
      using Suc.IH [OF inv2] by blast
    moreover have "refcount_free_pending PF (Suc n) heap = refcount_free_pending PF n ?h2"
      using run False by (simp only: if_False)
    ultimately show ?thesis using heap_frame_trans [OF f h'(4) h'(2)] by metis
  qed
qed

subsection \<open>DECREF and INCREF between operations\<close>

text \<open>
  The variant that may run finalizers differs from the NORZ variant only in a final call of
  \<open>duk_heap_process_finalize_list\<close>, on a well-formed heap, when objects wait for it.
\<close>

lemma zero_frame_trans: "zero_frame a h1 h2 \<Longrightarrow> heap_frame h2 h3 \<Longrightarrow> heap_inv F ext h3 \<Longrightarrow> zero_frame a h1 h3"
  using waits_trans [of h1 h2 h3] waiting_cells
  unfolding heap_frame_def zero_frame_def by (auto intro: sub_cells_trans)

lemma refzero_hobject_spec:
  assumes "heap_inv F ext heap" "refzero_list heap = []" "cells heap a = Some hdr" "h_body hdr = Hobject obj"
    and "h_refcount hdr = 0" "a \<notin> F" "\<not> ms_running heap" "card (dom (cells heap)) \<le> n"
  shows "\<exists>heap'. refcount_refzero_hobject (refcount_free_pending PF n) PF True a heap = Some heap'
    \<and> heap_inv F ext heap' \<and> refzero_list heap' = [] \<and> zero_frame a heap heap'
    \<and> refcount_refzero_hobject (refcount_free_pending PF n) PF False a heap
        = (if finalize_list heap' \<noteq> [] then PF heap' else Some heap')"
proof -
  obtain h1 more where h1: "heap_inv F ext h1" "zero_frame a heap h1" "refzero_list h1 = more"
    "dom (cells h1) = dom (cells heap)" "more = [] \<and> finalize_list h1 \<noteq> [] \<or> more = [a]"
    and run: "\<And>FP PF skip. refcount_refzero_hobject FP PF skip a heap =
        (if more = [] then (if skip then Some h1 else PF h1)
         else do { h \<leftarrow> FP h1; if \<not> skip \<and> finalize_list h \<noteq> [] then PF h else Some h })"
    using object_zero [OF assms(1,3-5)] assms(2,6) by auto
  show ?thesis
  proof (cases "more = []")
    case True
    then show ?thesis using h1 run by (intro exI [of _ h1]) simp
  next
    case False
    then have "cascading h1" using h1(2,3) assms(7) by (simp add: cascading_def zero_frame_def)
    moreover have "card (dom (cells h1)) \<le> n" using assms(8) h1(4) by simp
    moreover have "F \<inter> set (refzero_list h1) = {}" using h1(3,5) assms(6) by auto
    ultimately obtain h2 where h2: "refcount_free_pending PF n h1 = Some h2" "heap_inv F ext h2"
      "refzero_list h2 = []" "heap_frame h1 h2"
      using free_pending_spec [OF h1(1)] by metis
    then show ?thesis using zero_frame_trans [OF h1(2) h2(4,2)] run False by (intro exI [of _ h2]) simp
  qed
qed

lemma decref_spec:
  assumes "heap_ok (mset (tval_edges tv) + ext) heap" "\<not> ms_running heap" "card (dom (cells heap)) \<le> n"
  shows "\<exists>heap'. duk_tval_decref_norz PF n tv heap = Some heap' \<and> heap_ok ext heap' \<and> heap_frame heap heap'
    \<and> (duk_tval_decref PF n tv heap = Some heap' \<and> finalize_list heap' = finalize_list heap \<or>
       finalize_list heap' \<noteq> [] \<and> duk_tval_decref PF n tv heap = PF heap')"
proof (cases "tval_heaphdr tv")
  case None
  then have "tval_edges tv = []" by (cases tv) simp_all
  then show ?thesis
    using assms None by (intro exI [of _ heap]) (simp add: duk_tval_decref_norz_def duk_tval_decref_def tval_decref_def)
next
  case (Some a)
  then obtain t where t: "tval_edges tv = [(t, a)]" by (cases tv) simp_all
  then have ok: "heap_ok (add_mset (t, a) ext) heap" using assms(1) by simp
  then have inv: "heap_inv {} (add_mset (t, a) ext) heap" and q: "refzero_list heap = []"
    by (simp_all add: heap_ok_def)
  obtain hdr where a: "cells heap a = Some hdr" by (rule typed_cell [OF inv, of t a]) simp
  note d = drop_ref [OF inv a]
  let ?hdr = "hdr\<lparr>h_refcount := h_refcount hdr - 1\<rparr>" and ?h1 = "set_hdr a (hdr\<lparr>h_refcount := h_refcount hdr - 1\<rparr>) heap"
  have sub: "sub_cells heap ?h1" using a by (auto simp: sub_cells_def)
  have ok1: "heap_ok ext ?h1" using d(1) q by (simp add: heap_ok_def)
  have run: "tval_decref FP PF skip tv heap =
    (if h_refcount hdr - 1 = 0 then duk_heaphdr_refzero FP PF skip a ?h1 else Some ?h1)" for FP skip
    using Some a by (simp add: tval_decref_def heaphdr_decref_raw_def)
  show ?thesis
  proof (cases "h_refcount hdr - 1 = 0")
    case False
    then have "heap_frame heap ?h1" using sub by (auto simp: heap_frame_def zeros_def)
    then show ?thesis
      using False ok1 by (intro exI [of _ ?h1]) (simp add: duk_tval_decref_norz_def duk_tval_decref_def run)
  next
    case True
    let ?FP = "refcount_free_pending PF n"
    have z1: "zeros ?h1 - {a} \<subseteq> zeros heap" by (auto simp: zeros_def)
    have rz: "duk_heaphdr_refzero ?FP PF skip a ?h1 = rz_of t ?FP PF skip a ?h1" for skip
      using assms(2) d(4) by (cases t) (simp_all add: duk_heaphdr_refzero_def rz_of_def)
    have "\<exists>heap'. rz_of t ?FP PF True a ?h1 = Some heap' \<and> heap_inv {} ext heap' \<and> refzero_list heap' = []
      \<and> zero_frame a ?h1 heap' \<and> (rz_of t ?FP PF False a ?h1 = Some heap' \<and> finalize_list heap' = finalize_list heap
        \<or> finalize_list heap' \<noteq> [] \<and> rz_of t ?FP PF False a ?h1 = PF heap')"
    proof (cases "t = DUK_HTYPE_OBJECT")
      case False
      then show ?thesis
        using refzero_leaf [OF d(1), of a ?hdr t] d(3,4) True q by (cases t) (auto simp: rz_of_def)
    next
      case True
      then obtain obj where "h_body hdr = Hobject obj" using d(4) by (cases "h_body hdr") simp_all
      moreover have "card (dom (cells ?h1)) \<le> n" using assms(3) a by (simp add: insert_absorb domI)
      ultimately show ?thesis
        using refzero_hobject_spec [OF d(1), of a ?hdr obj n PF] True \<open>h_refcount hdr - 1 = 0\<close> assms(2) q
        by (auto simp: rz_of_def zero_frame_def waits_def)
    qed
    then obtain heap' where h: "rz_of t ?FP PF True a ?h1 = Some heap'" "heap_inv {} ext heap'" "refzero_list heap' = []"
      "zero_frame a ?h1 heap'"
      "rz_of t ?FP PF False a ?h1 = Some heap' \<and> finalize_list heap' = finalize_list heap \<or> finalize_list heap' \<noteq> [] \<and> rz_of t ?FP PF False a ?h1 = PF heap'"
      by blast
    have "heap_frame heap heap'"
      using h(4) sub_cells_trans [OF sub, of heap'] z1 by (auto simp: heap_frame_def zero_frame_def waits_def allocated_def)
    moreover have "heap_ok ext heap'" using h(2,3) by (simp add: heap_ok_def)
    ultimately show ?thesis
      unfolding duk_tval_decref_norz_def duk_tval_decref_def run rz using h(1,5) True by (intro exI [of _ heap']) simp
  qed
qed

lemma incref_spec:
  assumes "heap_ok ext heap" "\<forall>e \<in> set (tval_edges tv). typed_edge heap e"
    and "\<forall>e \<in> set (tval_edges tv). refs_to heap {} ext (snd e) + 1 < 2 ^ 32 - 1"
  shows "\<exists>heap'. tval_incref tv heap = Some heap' \<and> heap_ok (mset (tval_edges tv) + ext) heap' \<and> heap_frame heap heap'
    \<and> dom (cells heap') = dom (cells heap) \<and> typed_edge heap' = typed_edge heap"
proof (cases "tval_heaphdr tv")
  case None
  then have "tval_edges tv = []" by (cases tv) simp_all
  then show ?thesis using assms None by (simp add: tval_incref_def)
next
  case (Some a)
  then obtain t where t: "tval_edges tv = [(t, a)]" by (cases tv) simp_all
  then obtain hdr where a: "cells heap a = Some hdr" "htype (h_body hdr) = t"
    using assms(2) by (auto simp: typed_edge_def)
  let ?h1 = "set_hdr a (hdr\<lparr>h_refcount := h_refcount hdr + 1\<rparr>) heap"
  have inv: "heap_inv {} ext heap" and q: "refzero_list heap = []" using assms(1) by (simp_all add: heap_ok_def)
  have c: "unat (h_refcount hdr) = refs_to heap {} ext a + (if a \<in> set (finalize_list heap) then 1 else 0)"
    using inv a(1) by (simp add: heap_inv_def heap_counts_def)
  then have "unat (h_refcount hdr) + 1 < 2 ^ 32" using assms(3) t by (simp split: if_splits)
  then have u: "unat (h_refcount hdr + 1) = Suc (unat (h_refcount hdr))"
    using unat_add_lem [of "h_refcount hdr" 1] by simp
  have s: "own ?h1 {} = own heap {}" "cells_of T ?h1 = cells_of T heap" "typed_edge ?h1 = typed_edge heap"
    "refs_to ?h1 = refs_to heap" for T
    using a(1) by simp_all
  have "heap_ok (mset (tval_edges tv) + ext) ?h1"
    using inv q t a c u assms(2) by (simp add: heap_ok_def heap_inv_def heap_defs s)
  moreover have "tval_incref tv heap = Some ?h1" using Some a(1) by (simp add: tval_incref_def heaphdr_incref_def)
  moreover have "heap_frame heap ?h1"
    using a(1) u by (auto simp: heap_frame_def sub_cells_def zeros_def split: if_splits)
  moreover have "dom (cells ?h1) = dom (cells heap)" using a(1) by (auto split: if_splits)
  ultimately show ?thesis using s(3) by blast
qed

lemma own_empty_memberI: "finite (dom (cells heap)) \<Longrightarrow> cells heap x = Some hdr \<Longrightarrow> e \<in> set (hdr_edges hdr) \<Longrightarrow>
    e \<in># own heap {}"
  by (rule own_memberI) auto

text \<open>Whatever keeps the invariant for the references \<open>ext\<close> keeps all that they reach.\<close>

lemma reachable_survives:
  assumes "heap_ok ext heap'" "sub_cells heap heap'" "reachable heap ext x"
  shows "\<exists>hdr hdr'. cells heap x = Some hdr \<and> cells heap' x = Some hdr' \<and> h_body hdr' = h_body hdr"
proof -
  have cell: "\<exists>hdr hdr'. cells heap (snd e) = Some hdr \<and> cells heap' (snd e) = Some hdr' \<and> h_body hdr' = h_body hdr"
    if "e \<in># own heap' {} + ext" for e
    using assms(1,2) that unfolding heap_ok_def heap_inv_def heap_typed_def typed_edge_def sub_cells_def by metis
  from assms(3) show ?thesis
  proof induction
    case (reachable_root e)
    then show ?case by (intro cell) simp
  next
    case (reachable_edge x hdr e)
    then obtain hdr' where "cells heap' x = Some hdr'" "h_body hdr' = h_body hdr" by auto
    then have "e \<in># own heap' {}"
      using own_empty_memberI [of heap' x hdr' e] assms(1) reachable_edge.hyps(3)
      by (simp add: heap_ok_def heap_inv_def hdr_edges_def)
    then show ?case by (intro cell) simp
  qed
qed

subsection \<open>Properties\<close>

text \<open>
  C13: DECREF of a value (NORZ variant) on a well-formed heap always returns, with a fuel that is the
  number of cells: the refzero cascade ends and never touches a freed cell.  Afterwards the counts are
  exact again for one reference less, the queue is empty, no cell became unreferenced garbage, nothing
  new was created, and every cell reachable from the remaining references is still there, unchanged.
\<close>

theorem refcount_cascade:
  assumes "heap_ok (mset (tval_edges tv) + ext) heap" "\<not> ms_running heap" "card (dom (cells heap)) \<le> n"
  shows "\<exists>heap'. duk_tval_decref_norz PF n tv heap = Some heap' \<and> heap_ok ext heap'
    \<and> zeros heap' \<subseteq> zeros heap \<and> dom (cells heap') \<subseteq> dom (cells heap)
    \<and> (\<forall>x. reachable heap ext x \<longrightarrow> (\<exists>hdr hdr'. cells heap x = Some hdr \<and> cells heap' x = Some hdr'
          \<and> h_body hdr' = h_body hdr))"
proof -
  obtain heap' where "duk_tval_decref_norz PF n tv heap = Some heap'" "heap_ok ext heap'" "heap_frame heap heap'"
    using decref_spec [OF assms] by blast
  then show ?thesis using reachable_survives sub_cells_dom unfolding heap_frame_def by blast
qed

definition plain_object :: "(haddr option \<times> duk_propvalue) list \<Rightarrow> haddr option \<Rightarrow> duk_hbody" where
  "plain_object entries proto = Hobject \<lparr>o_entries = entries, o_array = [], o_prototype = proto,
     o_have_finalizer = False, o_ext = Ext_fastrefs\<rparr>"

definition cell :: "u32 \<Rightarrow> duk_hbody \<Rightarrow> duk_heaphdr" where
  "cell n b = \<lparr>h_refcount = n, h_finalizable = False, h_finalized = False, h_body = b\<rparr>"

text \<open>Object 1 has property 3 (a string) with value object 2, whose prototype is object 4, held elsewhere.\<close>

definition small_heap :: duk_heap where
  "small_heap = \<lparr>cells = [1 \<mapsto> cell 1 (plain_object [(Some 3, Prop_value (Tv_object 2))] None),
     2 \<mapsto> cell 1 (plain_object [] (Some 4)), 3 \<mapsto> cell 1 Hstring, 4 \<mapsto> cell 2 (plain_object [] None)],
     heap_allocated = [1, 2, 4], finalize_list = [], refzero_list = [], strtable = [3],
     strcache = [Some 3, None], ms_running = False, pf_prevent_count = 0, pf_skip_finalizers = False\<rparr>"

lemmas small_heap_defs = small_heap_def cell_def plain_object_def

lemma small_heap_own: "own small_heap {} = {#(DUK_HTYPE_STRING, 3), (DUK_HTYPE_OBJECT, 2), (DUK_HTYPE_OBJECT, 4)#}"
  by (simp add: own_def small_heap_defs hdr_edges_def obj_edges_def)

lemma small_heap_ok: "heap_ok {#(DUK_HTYPE_OBJECT, 1), (DUK_HTYPE_OBJECT, 4)#} small_heap"
  unfolding heap_ok_def heap_inv_def heap_defs refs_to_def small_heap_own
  by (auto simp: small_heap_defs cells_of_def typed_edge_def split: if_splits)

theorem refcount_cascade_witness:
  "\<exists>heap'. duk_tval_decref_norz Some 4 (Tv_object 1) small_heap = Some heap' \<and> 4 \<in> dom (cells heap')"
proof -
  have ok: "heap_ok (mset (tval_edges (Tv_object 1)) + {#(DUK_HTYPE_OBJECT, 4)#}) small_heap"
    using small_heap_ok by (simp add: add_mset_commute)
  have "\<not> ms_running small_heap" "card (dom (cells small_heap)) \<le> 4" by (simp_all add: small_heap_defs)
  from refcount_cascade [OF ok this, of Some]
  obtain heap' where "duk_tval_decref_norz Some 4 (Tv_object 1) small_heap = Some heap'"
    "reachable small_heap {#(DUK_HTYPE_OBJECT, 4)#} 4 \<longrightarrow> 4 \<in> dom (cells heap')" by blast
  moreover have "reachable small_heap {#(DUK_HTYPE_OBJECT, 4)#} 4"
    using reachable_root [of "(DUK_HTYPE_OBJECT, 4)" "{#(DUK_HTYPE_OBJECT, 4)#}" small_heap] by simp
  ultimately show ?thesis by blast
qed

end
