(* ===== verification/Finalize.thy ===== *)
theory Finalize
  imports Refcount
begin

text \<open>
  Finalizers (\<^verbatim>\<open>duk_heap_finalize.c\<close> of \<^verbatim>\<open>src/duktape/duktape.c\<close>): the call of one
  finalizer and the loop over \<open>finalize_list\<close>.  The JavaScript code of a finalizer, run by
  \<open>duk_safe_call\<close>, is the parameter \<open>call\<close>: it gets the object on top of the stack and
  leaves its result there.  \<open>N\<close> is the fuel of refzero cascades, \<open>n\<close> that of the loop, and
  \<open>d\<close> the depth of entries into \<open>duk_heap_process_finalize_list\<close>, which blocks its own
  recursion by \<open>pf_prevent_count\<close>.
\<close>

type_synonym finalizer_call = "haddr \<Rightarrow> duk_heap \<Rightarrow> (duk_tval \<times> duk_heap) option"

definition duk_heap_run_finalizer :: "finalizer_call \<Rightarrow> heap_op \<Rightarrow> nat \<Rightarrow> haddr \<Rightarrow> heap_op" where
  "duk_heap_run_finalizer call PF N obj heap = do {
     hdr \<leftarrow> cells heap obj;
     let heap = set_hdr obj (hdr\<lparr>h_finalized := True\<rparr>) heap;
     case h_body hdr of
       Hobject o' \<Rightarrow> (case o_ext o' of
           Ext_proxy _ _ \<Rightarrow> Some heap
         | _ \<Rightarrow> do {
             heap \<leftarrow> tval_incref (Tv_object obj) heap;
             (ret, heap) \<leftarrow> call obj heap;
             heap \<leftarrow> duk_tval_decref PF N ret heap;
             duk_tval_decref PF N (Tv_object obj) heap })
     | _ \<Rightarrow> None }"

text \<open>
  One round: the finalizer is run unless the heap is being destroyed; an object that only the
  artificial count keeps is freed, any other one goes back to the heap.
\<close>

definition finalize_round :: "finalizer_call \<Rightarrow> heap_op \<Rightarrow> nat \<Rightarrow> haddr \<Rightarrow> heap_op" where
  "finalize_round call PF N cur heap = do {
     hdr \<leftarrow> cells heap cur;
     let heap = set_hdr cur (hdr\<lparr>h_finalizable := False\<rparr>) heap;
     (queue_back, heap) \<leftarrow>
       (if \<not> pf_skip_finalizers heap then do {
          let had_zero_refcount = (h_refcount hdr = 1);
          heap \<leftarrow> duk_heap_run_finalizer call PF N cur heap;
          hdr \<leftarrow> cells heap cur;
          if h_refcount hdr = 1 then Some (False, heap)
          else if had_zero_refcount then Some (True, set_hdr cur (hdr\<lparr>h_finalized := False\<rparr>) heap)
          else Some (True, heap) }
        else Some (True, heap));
     let heap = heap\<lparr>finalize_list := remove1 cur (finalize_list heap)\<rparr>;
     if queue_back then do {
       hdr \<leftarrow> cells heap cur;
       let heap = set_hdr cur (hdr\<lparr>h_refcount := h_refcount hdr - 1, h_finalizable := False\<rparr>) heap;
       Some (heap\<lparr>heap_allocated := cur # heap_allocated heap\<rparr>) }
     else do {
       heap \<leftarrow> hobject_refcount_finalize_norz (refcount_free_pending PF N) PF cur heap;
       Some (free_hdr cur heap) } }"

primrec finalize_loop :: "finalizer_call \<Rightarrow> heap_op \<Rightarrow> nat \<Rightarrow> nat \<Rightarrow> heap_op" where
  "finalize_loop call PF N 0 heap = None"
| "finalize_loop call PF N (Suc n) heap = (case finalize_list heap of
       [] \<Rightarrow> Some heap
     | cur # _ \<Rightarrow> do { heap \<leftarrow> finalize_round call PF N cur heap; finalize_loop call PF N n heap })"

primrec duk_heap_process_finalize_list :: "finalizer_call \<Rightarrow> nat \<Rightarrow> nat \<Rightarrow> nat \<Rightarrow> heap_op" where
  "duk_heap_process_finalize_list call N n 0 heap = None"
| "duk_heap_process_finalize_list call N n (Suc d) heap =
    (if pf_prevent_count heap \<noteq> 0 then Some heap
     else do {
       let heap = heap\<lparr>pf_prevent_count := 1\<rparr>;
       heap \<leftarrow> finalize_loop call (duk_heap_process_finalize_list call N n d) N n heap;
       Some (heap\<lparr>pf_prevent_count := 0\<rparr>) })"

subsection \<open>The release after a finalizer\<close>

definition idle :: "nat \<Rightarrow> duk_heap \<Rightarrow> bool" where
  "idle n heap \<longleftrightarrow> refzero_list heap = [] \<and> \<not> ms_running heap \<and> card (dom (cells heap)) \<le> n
   \<and> pf_prevent_count heap \<noteq> 0"

text \<open>Processing is blocked: an entry does nothing.\<close>

definition blocked :: "heap_op \<Rightarrow> bool" where
  "blocked PF \<longleftrightarrow> (\<forall>heap. pf_prevent_count heap \<noteq> 0 \<longrightarrow> PF heap = Some heap)"

lemma process_blocked: "blocked (duk_heap_process_finalize_list call N n (Suc d))"
  by (simp add: blocked_def)

lemma idle_mode:
  assumes "blocked PF"
  shows "release_mode (idle n) (refcount_free_pending PF n) PF"
proof
  fix heap heap' :: duk_heap
  assume a: "idle n heap" "finite (dom (cells heap))" "queue_frame heap heap'"
  then have "card (dom (cells heap')) \<le> card (dom (cells heap))"
    by (intro card_mono sub_cells_dom) (simp_all add: queue_frame_def heap_frame_def)
  with a show "idle n heap'" by (simp add: idle_def queue_frame_def queue_grows_def heap_frame_def)
next
  fix heap :: duk_heap and a hdr hdr'
  assume "idle n heap" "cells heap a = Some hdr"
  then show "idle n (set_hdr a hdr' heap)" by (simp add: idle_def insert_absorb domI)
next
  fix heap :: duk_heap and F ext a hdr obj skip
  assume z: "idle n heap" "heap_inv F ext heap" "cells heap a = Some hdr" "h_body hdr = Hobject obj"
    "h_refcount hdr = 0" "a \<notin> set (refzero_list heap) \<union> F"
  then obtain heap' where h: "refcount_refzero_hobject (refcount_free_pending PF n) PF True a heap = Some heap'"
    "heap_inv F ext heap'" "refzero_list heap' = []" "zero_frame a heap heap'"
    "refcount_refzero_hobject (refcount_free_pending PF n) PF False a heap
        = (if finalize_list heap' \<noteq> [] then PF heap' else Some heap')"
    using refzero_hobject_spec [of F ext heap a hdr obj n PF] by (auto simp: idle_def)
  moreover have "PF heap' = Some heap'"
    using assms z(1) h(4) by (simp add: blocked_def idle_def zero_frame_def)
  ultimately have "refcount_refzero_hobject (refcount_free_pending PF n) PF skip a heap = Some heap'"
    by (cases skip) simp_all
  then show "\<exists>heap'. refcount_refzero_hobject (refcount_free_pending PF n) PF skip a heap = Some heap'
      \<and> heap_inv F ext heap' \<and> zero_frame a heap heap' \<and> queue_grows heap heap'"
    using h(2-4) z(1) by (auto simp: queue_grows_def idle_def)
qed (simp add: idle_def)

interpretation after_finalizer: release_mode "idle n"
  "refcount_free_pending (duk_heap_process_finalize_list call N m (Suc d)) n"
  "duk_heap_process_finalize_list call N m (Suc d)" for n call N m d
  by (rule idle_mode) (rule process_blocked)

subsection \<open>The contract of a finalizer\<close>

text \<open>
  A step that only drops references: it allocates nothing, keeps the finalized flags, and new objects
  in the list have not been finalized.
\<close>

definition gentle :: "duk_heap \<Rightarrow> duk_heap \<Rightarrow> bool" where
  "gentle heap heap' \<longleftrightarrow> own heap' {} \<subseteq># own heap {} \<and> dom (cells heap') \<subseteq> dom (cells heap)
   \<and> unfinalized heap' = unfinalized heap \<inter> dom (cells heap') \<and> waits heap heap'
   \<and> ms_running heap' = ms_running heap \<and> pf_prevent_count heap' = pf_prevent_count heap
   \<and> pf_skip_finalizers heap' = pf_skip_finalizers heap"

definition gentle_finalizer :: "finalizer_call \<Rightarrow> bool" where
  "gentle_finalizer call \<longleftrightarrow> (\<forall>obj ext heap.
     heap_ok ext heap \<and> (DUK_HTYPE_OBJECT, obj) \<in># ext \<and> \<not> ms_running heap \<and> pf_prevent_count heap \<noteq> 0 \<longrightarrow>
     (\<exists>ret heap'. call obj heap = Some (ret, heap') \<and> heap_ok (mset (tval_edges ret) + ext) heap' \<and> gentle heap heap'))"

lemma gentle_trans:
  assumes "gentle h1 h2" "gentle h2 h3" "heap_ok ext h3"
  shows "gentle h1 h3"
proof -
  have w: "set (finalize_list h3) \<subseteq> dom (cells h3)" using assms(3) unfolding heap_ok_def by (blast dest: waiting_cells)
  have sets: "A \<subseteq> C \<and> C - A \<subseteq> V"
    if "A \<subseteq> B" "B - A \<subseteq> U" "B \<subseteq> C" "C - B \<subseteq> V" "V = U \<inter> D" "C \<subseteq> D" for A B C U V D :: "haddr set"
    using that by blast
  have f: "set (finalize_list h1) \<subseteq> set (finalize_list h2)" "set (finalize_list h2) - set (finalize_list h1) \<subseteq> unfinalized h2"
    "set (finalize_list h2) \<subseteq> set (finalize_list h3)" "set (finalize_list h3) - set (finalize_list h2) \<subseteq> unfinalized h3"
    "unfinalized h3 = unfinalized h2 \<inter> dom (cells h3)"
    using assms(1,2) unfolding gentle_def waits_def by - (elim conjE, assumption)+
  have "waits h1 h3" unfolding waits_def by (rule sets [OF f w])
  moreover have d: "dom (cells h2) \<subseteq> dom (cells h1)" "dom (cells h3) \<subseteq> dom (cells h2)"
    "unfinalized h2 = unfinalized h1 \<inter> dom (cells h2)" "unfinalized h3 = unfinalized h2 \<inter> dom (cells h3)"
    using assms(1,2) by (simp_all only: gentle_def)
  then have "unfinalized h3 = unfinalized h1 \<inter> dom (cells h3)" by blast
  moreover have "own h3 {} \<subseteq># own h2 {}" "own h2 {} \<subseteq># own h1 {}" using assms(1,2) by (simp_all only: gentle_def)
  then have "own h3 {} \<subseteq># own h1 {}" by (rule subset_mset.order_trans)
  moreover have "ms_running h3 = ms_running h1" "pf_prevent_count h3 = pf_prevent_count h1"
    "pf_skip_finalizers h3 = pf_skip_finalizers h1"
    using assms(1,2) by (simp_all only: gentle_def)
  ultimately show ?thesis
    using order_trans [OF d(2,1)] unfolding gentle_def by (intro conjI)
qed

lemma own_sub_cells:
  assumes "finite (dom (cells heap))" "sub_cells heap heap'"
  shows "own heap' {} \<subseteq># own heap {}"
proof -
  have sub: "dom (cells heap') \<subseteq> dom (cells heap)" by (rule sub_cells_dom [OF assms(2)])
  have "own heap' {} = (\<Sum>x \<in> dom (cells heap'). mset (hdr_edges (the (cells heap x))))"
    using assms(2) unfolding own_def sub_cells_def by (intro sum.cong) (fastforce simp: hdr_edges_def)+
  then show ?thesis
    using sum.subset_diff [OF sub assms(1), of "\<lambda>x. mset (hdr_edges (the (cells heap x)))"]
    by (simp add: own_def)
qed

lemma frame_gentle:
  assumes "finite (dom (cells heap))" "heap_frame heap heap'"
  shows "gentle heap heap'"
proof -
  have s: "sub_cells heap heap'" using assms(2) by (simp add: heap_frame_def)
  then have "unfinalized heap' = unfinalized heap \<inter> dom (cells heap')"
    unfolding unfinalized_def sub_cells_def by fastforce
  then show ?thesis
    using own_sub_cells [OF assms(1) s] sub_cells_dom [OF s] assms(2) by (simp add: gentle_def heap_frame_def)
qed

lemma gentle_refs: "gentle heap heap' \<Longrightarrow> refs_to heap' {} ext a \<le> refs_to heap {} ext a"
  unfolding gentle_def refs_to_def
  by (simp add: mset_subset_eq_count image_mset_subseteq_mono)

lemma heap_ok_flags:
  assumes "heap_ok ext heap" "cells heap a = Some hdr" "h_body hdr' = h_body hdr" "h_refcount hdr' = h_refcount hdr"
  shows "heap_ok ext (set_hdr a hdr' heap)"
  using assms unfolding heap_ok_def heap_inv_def by (auto simp: heap_defs)

text \<open>DECREF where finalizers are blocked.\<close>

lemma decref_blocked:
  assumes "blocked PF" "heap_ok (mset (tval_edges tv) + ext) heap" "\<not> ms_running heap"
    and "pf_prevent_count heap \<noteq> 0" "card (dom (cells heap)) \<le> n"
  shows "\<exists>heap'. duk_tval_decref PF n tv heap = Some heap' \<and> heap_ok ext heap' \<and> gentle heap heap'"
proof -
  obtain heap' where h: "heap_ok ext heap'" "heap_frame heap heap'"
    "duk_tval_decref PF n tv heap = Some heap' \<or> finalize_list heap' \<noteq> [] \<and> duk_tval_decref PF n tv heap = PF heap'"
    using decref_spec [OF assms(2,3,5)] by blast
  moreover have "PF heap' = Some heap'" using assms(1,4) h(2) by (simp add: blocked_def heap_frame_def)
  moreover have "gentle heap heap'" using frame_gentle h(2) assms(2) by (simp add: heap_ok_def heap_inv_def)
  ultimately show ?thesis by auto
qed

text \<open>One finalizer call: the flag is set, the references are balanced.\<close>

lemma run_finalizer_spec:
  assumes "gentle_finalizer call" "blocked PF" "heap_ok ext heap" "\<not> ms_running heap" "pf_prevent_count heap \<noteq> 0"
    and "card (dom (cells heap)) \<le> N" "cells heap obj = Some hdr" "h_body hdr = Hobject o'"
    and "refs_to heap {} ext obj + 1 < 2 ^ 32 - 1"
  shows "\<exists>heap'. duk_heap_run_finalizer call PF N obj heap = Some heap' \<and> heap_ok ext heap'
    \<and> gentle (set_hdr obj (hdr\<lparr>h_finalized := True\<rparr>) heap) heap'"
proof -
  let ?h1 = "set_hdr obj (hdr\<lparr>h_finalized := True\<rparr>) heap"
  have ok1: "heap_ok ext ?h1" using assms(3,7) by (rule heap_ok_flags) simp_all
  have fin1: "finite (dom (cells ?h1))" using ok1 by (simp only: heap_ok_def heap_inv_def)
  have card1: "card (dom (cells ?h1)) \<le> N" using assms(6,7) by (simp add: insert_absorb domI)
  show ?thesis
  proof (cases "\<exists>target handler. o_ext o' = Ext_proxy target handler")
    case True
    then show ?thesis
      using assms(7,8) ok1 frame_gentle [OF fin1 heap_frame_refl]
      by (intro exI [of _ ?h1]) (auto simp: duk_heap_run_finalizer_def)
  next
    case False
    have "refs_to ?h1 {} ext obj + 1 < 2 ^ 32 - 1" using assms(7,9) by simp
    then obtain h2 where h2: "tval_incref (Tv_object obj) ?h1 = Some h2"
      "heap_ok (add_mset (DUK_HTYPE_OBJECT, obj) ext) h2" "heap_frame ?h1 h2" "dom (cells h2) = dom (cells ?h1)"
      using incref_spec [OF ok1, of "Tv_object obj"] assms(7,8) by (auto simp: typed_edge_def)
    have g2: "gentle ?h1 h2" by (rule frame_gentle [OF fin1 h2(3)])
    obtain ret h3 where h3: "call obj h2 = Some (ret, h3)"
      "heap_ok (mset (tval_edges ret) + add_mset (DUK_HTYPE_OBJECT, obj) ext) h3" "gentle h2 h3"
      using assms(1,4,5) h2(2) g2 unfolding gentle_finalizer_def gentle_def by (metis hdr_fields(13,15) union_single_eq_member)
    have s3: "\<not> ms_running h3" "pf_prevent_count h3 \<noteq> 0" using assms(4,5) g2 h3(3) by (simp_all add: gentle_def)
    have card: "card (dom (cells h)) \<le> N" if "dom (cells h) \<subseteq> dom (cells ?h1)" for h
      using that card1 card_mono [OF fin1 that] by linarith
    have d3: "dom (cells h3) \<subseteq> dom (cells ?h1)" using h2(4) h3(3) by (simp add: gentle_def)
    obtain h4 where h4: "duk_tval_decref PF N ret h3 = Some h4" "heap_ok (add_mset (DUK_HTYPE_OBJECT, obj) ext) h4"
      "gentle h3 h4"
      using decref_blocked [OF assms(2) h3(2) s3 card [OF d3]] by blast
    have s4: "\<not> ms_running h4" "pf_prevent_count h4 \<noteq> 0" using s3 h4(3) by (simp_all add: gentle_def)
    have d4: "dom (cells h4) \<subseteq> dom (cells ?h1)" by (rule order_trans [OF _ d3]) (use h4(3) in \<open>simp add: gentle_def\<close>)
    have ok4: "heap_ok (mset (tval_edges (Tv_object obj)) + ext) h4" using h4(2) by simp
    obtain h5 where h5: "duk_tval_decref PF N (Tv_object obj) h4 = Some h5" "heap_ok ext h5" "gentle h4 h5"
      using decref_blocked [OF assms(2) ok4 s4 card [OF d4]] by blast
    have "duk_heap_run_finalizer call PF N obj heap = Some h5"
      using False assms(7,8) h2(1) h3(1) h4(1) h5(1)
      by (simp add: duk_heap_run_finalizer_def Let_def split: duk_hobject_kind.split)
    moreover have "gentle ?h1 h5"
      by (rule gentle_trans [OF gentle_trans [OF gentle_trans [OF g2 h3(3,2)] h4(3,2)] h5(3,2)])
    ultimately show ?thesis using h5(2) by blast
  qed
qed

subsection \<open>One round\<close>

lemma waiting_object:
  assumes "heap_ok ext heap" "a \<in> set (finalize_list heap)"
  obtains hdr obj where "cells heap a = Some hdr" "h_body hdr = Hobject obj"
    "unat (h_refcount hdr) = refs_to heap {} ext a + 1"
proof -
  have i: "heap_inv {} ext heap" using assms(1) by (simp add: heap_ok_def)
  then have "a \<in> cells_of {DUK_HTYPE_OBJECT} heap" using assms(2) by (auto simp: heap_inv_def heap_lists_def)
  then obtain hdr where "cells heap a = Some hdr" "htype (h_body hdr) = DUK_HTYPE_OBJECT" by (auto simp: cells_of_def)
  then show thesis using that i assms(2) by (cases "h_body hdr") (auto simp: heap_inv_def heap_counts_def)
qed

lemma release_waiting:
  assumes "heap_ok ext heap" "a \<in> set (finalize_list heap)" "cells heap a = Some hdr" "refs_to heap {} ext a = 0"
  shows "heap_inv {a} (mset (hdr_edges hdr) + ext) (heap\<lparr>finalize_list := remove1 a (finalize_list heap)\<rparr>)"
    (is "heap_inv {a} ?ext ?h")
proof -
  have inv: "heap_inv {} ext heap" and q: "refzero_list heap = []" using assms(1) by (simp_all add: heap_ok_def)
  note i = heap_inv_dest [OF inv]
  have own: "own heap {} + ext = own ?h {a} + ?ext" using own_release [OF i(1) assms(3), of "{}"] by simp
  then have r: "refs_to heap {a} ?ext = refs_to heap {} ext" by (intro refs_to_own) simp
  have "heap_lists ?h {a}"
    using i(4) assms(2) by (auto simp: heap_lists_def set_remove1_conv)
  moreover have "heap_counts ?h {a} ?ext"
    using i(2,4) by (auto simp: heap_counts_def heap_lists_def r set_remove1_conv)
  moreover have "heap_typed ?h {a} ?ext" using i(3) own by (simp add: heap_typed_def)
  ultimately show ?thesis using i(1) q assms(4) by (simp add: heap_inv_def r)
qed

lemma release_free:
  assumes "heap_inv {a} ext heap" "refzero_list heap = []"
  shows "heap_ok ext (free_hdr a heap)"
proof -
  note i = heap_inv_dest [OF assms(1)]
  have z: "refs_to heap {a} ext a = 0" using i(5) by simp
  have own: "own (free_hdr a heap) {} = own heap {a}" by (simp add: own_free_member)
  then have refs: "refs_to (free_hdr a heap) {} ext = refs_to heap {a} ext" by (intro refs_to_own) simp
  have o: "a \<in> cells_of {DUK_HTYPE_OBJECT} heap" using i(4) by (auto simp: heap_lists_def)
  then have "a \<notin> cells_of {DUK_HTYPE_STRING} heap" by (auto simp: cells_of_def)
  then have "heap_lists (free_hdr a heap) {}"
    using i(4) o assms(2) by (auto simp: heap_lists_def)
  moreover have "heap_typed (free_hdr a heap) {} ext" using i(3) z unfolding heap_typed_def own refs_to_zero by simp
  moreover have "heap_counts (free_hdr a heap) {} ext" using i(2) by (simp add: heap_counts_def refs)
  ultimately show ?thesis using i(1) assms(2) by (simp add: heap_ok_def heap_inv_def)
qed

lemma queue_back_ok:
  assumes "heap_ok ext heap" "a \<in> set (finalize_list heap)" "cells heap a = Some hdr"
  shows "heap_ok ext ((set_hdr a (hdr\<lparr>h_refcount := h_refcount hdr - 1, h_finalizable := False\<rparr>)
    (heap\<lparr>finalize_list := remove1 a (finalize_list heap)\<rparr>))\<lparr>heap_allocated := a # heap_allocated heap\<rparr>)"
    (is "heap_ok ext ?h")
proof -
  let ?hdr = "hdr\<lparr>h_refcount := h_refcount hdr - 1, h_finalizable := False\<rparr>"
  have h: "?h = (set_hdr a ?hdr heap)\<lparr>finalize_list := remove1 a (finalize_list heap), heap_allocated := a # heap_allocated heap\<rparr>"
    by (simp add: set_hdr_def)
  have inv: "heap_inv {} ext heap" and q: "refzero_list heap = []" using assms(1) by (simp_all add: heap_ok_def)
  note i = heap_inv_dest [OF inv]
  have c: "unat (h_refcount hdr) = refs_to heap {} ext a + 1"
    using i(2) assms(2,3) by (simp add: heap_counts_def)
  then have "h_refcount hdr \<noteq> 0" by (metis unat_0 add_is_0 one_neq_zero)
  then have u: "unat (h_refcount hdr - 1) = refs_to heap {} ext a" using c by (simp add: unat_minus_1)
  have s: "own (set_hdr a ?hdr heap) {} = own heap {}" "cells_of T (set_hdr a ?hdr heap) = cells_of T heap"
    "typed_edge (set_hdr a ?hdr heap) = typed_edge heap" "refs_to (set_hdr a ?hdr heap) = refs_to heap" for T
    using assms(3) by simp_all
  have "heap_lists ?h {}" unfolding h using i(4) assms(2) by (auto simp: heap_lists_def set_remove1_conv s)
  moreover have "heap_counts ?h {} ext"
    unfolding h using i(2,4) u by (auto simp: heap_counts_def heap_lists_def set_remove1_conv s)
  moreover have "heap_typed ?h {} ext" unfolding h using i(3) by (simp add: heap_typed_def s)
  ultimately show ?thesis
    using i(1) q by (simp add: heap_ok_def heap_inv_def)
qed

text \<open>What is left after a round: fewer references, and no less finalized objects.\<close>

definition round_frame :: "duk_heap \<Rightarrow> duk_heap \<Rightarrow> bool" where
  "round_frame heap heap' \<longleftrightarrow> own heap' {} \<subseteq># own heap {} \<and> dom (cells heap') \<subseteq> dom (cells heap)
   \<and> set (finalize_list heap') \<subseteq> unfinalized heap' \<and> ms_running heap' = ms_running heap
   \<and> pf_prevent_count heap' = pf_prevent_count heap \<and> pf_skip_finalizers heap' = pf_skip_finalizers heap"

lemma round_skip:
  assumes "heap_ok ext heap" "finalize_list heap = cur # rest" "set (finalize_list heap) \<subseteq> unfinalized heap"
    and "pf_skip_finalizers heap"
  shows "\<exists>heap'. finalize_round call PF N cur heap = Some heap' \<and> heap_ok ext heap' \<and> round_frame heap heap'
    \<and> finalize_list heap' = rest"
proof -
  obtain hdr obj where hdr: "cells heap cur = Some hdr" "h_body hdr = Hobject obj"
    using waiting_object [OF assms(1)] assms(2) by (metis list.set_intros(1))
  let ?h1 = "set_hdr cur (hdr\<lparr>h_finalizable := False\<rparr>) heap"
  let ?hdr = "hdr\<lparr>h_finalizable := False, h_refcount := h_refcount hdr - 1, h_finalizable := False\<rparr>"
  let ?h = "(set_hdr cur ?hdr (?h1\<lparr>finalize_list := remove1 cur (finalize_list ?h1)\<rparr>))\<lparr>heap_allocated := cur # heap_allocated ?h1\<rparr>"
  have ok1: "heap_ok ext ?h1" using assms(1) hdr(1) by (rule heap_ok_flags) simp_all
  have "heap_ok ext ?h" using queue_back_ok [OF ok1, of cur "hdr\<lparr>h_finalizable := False\<rparr>"] assms(2) by simp
  moreover have "finalize_round call PF N cur heap = Some ?h"
    using hdr assms(4) by (simp add: finalize_round_def)
  moreover have "unfinalized ?h = unfinalized heap" using hdr(1) by (auto simp: unfinalized_def)
  then have "round_frame heap ?h"
    using hdr(1) assms(2,3) own_set_hdr [of ?h1 cur _ ?hdr] by (simp add: round_frame_def insert_absorb domI)
  moreover have "finalize_list ?h = rest" using assms(2) by simp
  ultimately show ?thesis by blast
qed

lemma round_run:
  assumes "gentle_finalizer call" "blocked PF" "heap_ok ext heap" "\<not> ms_running heap" "pf_prevent_count heap \<noteq> 0"
    and "card (dom (cells heap)) \<le> N" "finalize_list heap = cur # rest" "set (finalize_list heap) \<subseteq> unfinalized heap"
    and "\<not> pf_skip_finalizers heap" "refs_to heap {} ext cur + 1 < 2 ^ 32 - 1"
  shows "\<exists>heap'. finalize_round call PF N cur heap = Some heap' \<and> heap_ok ext heap' \<and> round_frame heap heap'
    \<and> unfinalized heap' \<subseteq> unfinalized heap - {cur}"
proof -
  obtain hdr obj where hdr: "cells heap cur = Some hdr" "h_body hdr = Hobject obj"
    "unat (h_refcount hdr) = refs_to heap {} ext cur + 1"
    using waiting_object [OF assms(3)] assms(7) by (metis list.set_intros(1))
  let ?hdr1 = "hdr\<lparr>h_finalizable := False\<rparr>"
  let ?h1 = "set_hdr cur ?hdr1 heap" and ?hf = "set_hdr cur (?hdr1\<lparr>h_finalized := True\<rparr>) (set_hdr cur ?hdr1 heap)"
  have fin: "finite (dom (cells heap))" using assms(3) by (simp add: heap_ok_def heap_inv_def)
  have ok1: "heap_ok ext ?h1" using assms(3) hdr(1) by (rule heap_ok_flags) simp_all
  have card1: "card (dom (cells ?h1)) \<le> N" using assms(6) hdr(1) by (simp add: insert_absorb domI)
  have ofs: "own ?hf {} = own heap {}" using hdr(1) own_set_hdr [of ?h1 cur ?hdr1 "?hdr1\<lparr>h_finalized := True\<rparr>"] by simp
  have rfs: "refs_to ?hf {} ext cur = refs_to heap {} ext cur" by (intro arg_cong [OF refs_to_own, THEN fun_cong]) (simp add: ofs)
  have uf: "unfinalized ?hf = unfinalized heap - {cur}" by (auto simp: unfinalized_def)
  have df: "dom (cells ?hf) = dom (cells heap)" using hdr(1) by auto
  obtain h2 where h2: "duk_heap_run_finalizer call PF N cur ?h1 = Some h2" "heap_ok ext h2" "gentle ?hf h2"
    using run_finalizer_spec [OF assms(1,2) ok1 _ _ card1, of cur ?hdr1 obj] assms(4,5,10) hdr(1,2) by auto
  have u2: "unfinalized h2 = (unfinalized heap - {cur}) \<inter> dom (cells h2)" using h2(3) by (simp only: gentle_def uf)
  have d2: "dom (cells h2) \<subseteq> dom (cells heap)" "own h2 {} \<subseteq># own heap {}" using h2(3) by (simp_all only: gentle_def df ofs)
  have s2: "ms_running h2 = ms_running heap" "pf_prevent_count h2 = pf_prevent_count heap"
    "pf_skip_finalizers h2 = pf_skip_finalizers heap"
    using h2(3) by (simp_all add: gentle_def)
  have l2: "set (finalize_list heap) \<subseteq> set (finalize_list h2)" "set (finalize_list h2) - set (finalize_list heap) \<subseteq> unfinalized h2"
  proof -
    have "waits ?hf h2" using h2(3) by (simp only: gentle_def)
    then show "set (finalize_list heap) \<subseteq> set (finalize_list h2)"
      "set (finalize_list h2) - set (finalize_list heap) \<subseteq> unfinalized h2"
      by (simp_all add: waits_def)
  qed
  have dl2: "set (finalize_list h2) \<subseteq> dom (cells h2)" "distinct (finalize_list h2)" "refzero_list h2 = []"
    using h2(2) waiting_cells unfolding heap_ok_def heap_inv_def by (auto simp: heap_lists_def cells_of_def)
  have cur2: "cur \<in> set (finalize_list h2)" using l2(1) assms(7) by auto
  have l2u: "set (finalize_list h2) - {cur} \<subseteq> unfinalized h2" using l2(2) dl2(1) assms(8) u2 by blast
  obtain hdr2 obj2 where hdr2: "cells h2 cur = Some hdr2" "h_body hdr2 = Hobject obj2"
    "unat (h_refcount hdr2) = refs_to h2 {} ext cur + 1"
    using waiting_object [OF h2(2) cur2] by metis
  have r2: "refs_to h2 {} ext cur \<le> refs_to heap {} ext cur" using gentle_refs [OF h2(3), of ext cur] rfs by simp
  show ?thesis
  proof (cases "h_refcount hdr2 = 1")
    case True
    then have z2: "refs_to h2 {} ext cur = 0" using hdr2(3) by simp
    let ?h3 = "h2\<lparr>finalize_list := remove1 cur (finalize_list h2)\<rparr>"
    have inv3: "heap_inv {cur} (mset (obj_edges obj2) + ext) ?h3"
      using release_waiting [OF h2(2) cur2 hdr2(1) z2] hdr2(2) by (simp add: hdr_edges_def)
    have "card (dom (cells h2)) \<le> N" using card_mono [OF fin d2(1)] assms(6) by linarith
    then have "idle N ?h3" using assms(4,5) s2 dl2(3) by (simp add: idle_def)
    then obtain h4 where h4: "hobject_refcount_finalize_norz (refcount_free_pending PF N) PF cur ?h3 = Some h4"
      "heap_inv {cur} ext h4" "queue_frame ?h3 h4"
      using release_mode.finalize_frees [OF idle_mode [OF assms(2)] inv3, of N cur hdr2] hdr2 by auto
    have q4: "refzero_list h4 = []" and f4: "heap_frame ?h3 h4" using h4(3) dl2(3) by (simp_all add: queue_frame_def queue_grows_def)
    have g4: "gentle ?h3 h4" using frame_gentle [OF _ f4] inv3 by (simp add: heap_inv_def)
    have u4: "unfinalized (free_hdr cur h4) = unfinalized h4 - {cur}" by (auto simp: unfinalized_def)
    have u3: "unfinalized ?h3 = unfinalized h2" by (simp add: unfinalized_def)
    have u: "unfinalized h4 = unfinalized h2 \<inter> dom (cells h4)" using g4 by (simp only: gentle_def u3)
    have cur4: "cur \<notin> set (finalize_list h4)" using heap_inv_dest(4) [OF h4(2)] by (simp add: heap_lists_def)
    have l4: "set (finalize_list h4) - set (finalize_list ?h3) \<subseteq> unfinalized h4" using g4 unfolding gentle_def waits_def by blast
    have "set (finalize_list ?h3) = set (finalize_list h2) - {cur}" using dl2(2) by simp
    then have l3: "set (finalize_list ?h3) \<subseteq> unfinalized h2" using l2u by simp
    have "set (finalize_list h4) \<subseteq> unfinalized h4"
    proof
      fix x
      assume x: "x \<in> set (finalize_list h4)"
      show "x \<in> unfinalized h4"
      proof (cases "x \<in> set (finalize_list ?h3)")
        case True
        then show ?thesis using x l3 waiting_cells [OF h4(2)] unfolding u by (intro IntI) (erule (1) subsetD [rotated])+
      qed (use x l4 in blast)
    qed
    then have lu: "set (finalize_list h4) \<subseteq> unfinalized h4 - {cur}" using cur4 by (intro subset_Diff_insert [THEN iffD2] conjI) simp_all
    have "own (free_hdr cur h4) {} \<subseteq># own h4 {}"
      by (rule own_sub_cells) (use h4(2) in \<open>auto simp: heap_inv_def sub_cells_def split: if_splits\<close>)
    moreover have "own h4 {} \<subseteq># own h2 {}" using g4 by (simp add: gentle_def)
    ultimately have o4: "own (free_hdr cur h4) {} \<subseteq># own heap {}" using d2(2) by (meson subset_mset.order_trans)
    have d4: "dom (cells (free_hdr cur h4)) \<subseteq> dom (cells heap)" using g4 d2(1) by (simp add: gentle_def) blast
    have "finalize_round call PF N cur heap = Some (free_hdr cur h4)"
      using hdr(1) assms(9) h2(1) hdr2(1) True h4(1) by (simp add: finalize_round_def)
    moreover have "heap_ok ext (free_hdr cur h4)" by (rule release_free [OF h4(2) q4])
    moreover have "round_frame heap (free_hdr cur h4)"
      using o4 d4 lu s2 g4 unfolding round_frame_def u4 by (simp add: gentle_def)
    moreover have "unfinalized (free_hdr cur h4) \<subseteq> unfinalized heap - {cur}" using u4 u u2 by blast
    ultimately show ?thesis by blast
  next
    case False
    have "h_refcount hdr \<noteq> 1"
    proof
      assume "h_refcount hdr = 1"
      then have "unat (h_refcount hdr2) = 1" using hdr(3) hdr2(3) r2 by simp
      then show False using False by (metis unat_1 word_unat_eq_iff)
    qed
    let ?hdr3 = "hdr2\<lparr>h_refcount := h_refcount hdr2 - 1, h_finalizable := False\<rparr>"
    let ?h = "(set_hdr cur ?hdr3 (h2\<lparr>finalize_list := remove1 cur (finalize_list h2)\<rparr>))\<lparr>heap_allocated := cur # heap_allocated h2\<rparr>"
    have "finalize_round call PF N cur heap = Some ?h"
      using hdr(1) assms(9) h2(1) hdr2(1) False \<open>h_refcount hdr \<noteq> 1\<close> by (simp add: finalize_round_def)
    moreover have "heap_ok ext ?h" by (rule queue_back_ok [OF h2(2) cur2 hdr2(1)])
    moreover have u: "unfinalized ?h = unfinalized h2" using hdr2(1) by (auto simp: unfinalized_def)
    then have "set (finalize_list ?h) \<subseteq> unfinalized ?h" using l2u dl2(2) by simp
    then have "round_frame heap ?h"
      using d2 s2 hdr2(1) own_set_hdr [of "h2\<lparr>finalize_list := remove1 cur (finalize_list h2)\<rparr>" cur hdr2 ?hdr3]
      unfolding round_frame_def by (simp add: insert_absorb domI)
    moreover have "unfinalized ?h \<subseteq> unfinalized heap - {cur}" using u u2 by blast
    ultimately show ?thesis by blast
  qed
qed

lemma round_frame_trans:
  assumes "round_frame h1 h2" "round_frame h2 h3"
  shows "round_frame h1 h3"
proof -
  have "own h3 {} \<subseteq># own h2 {}" "own h2 {} \<subseteq># own h1 {}" "dom (cells h3) \<subseteq> dom (cells h2)"
    "dom (cells h2) \<subseteq> dom (cells h1)"
    using assms by (simp_all only: round_frame_def)
  then have "own h3 {} \<subseteq># own h1 {}" "dom (cells h3) \<subseteq> dom (cells h1)"
    by (meson subset_mset.order_trans, meson order_trans)
  then show ?thesis using assms by (simp add: round_frame_def)
qed

text \<open>The loop ends: each round finalizes or frees one more object.\<close>

definition room :: "edge multiset \<Rightarrow> duk_heap \<Rightarrow> bool" where
  "room ext heap \<longleftrightarrow> (\<forall>a. refs_to heap {} ext a + 1 < 2 ^ 32 - 1)"

lemma room_frame: "room ext heap \<Longrightarrow> round_frame heap heap' \<Longrightarrow> room ext heap'"
proof -
  assume r: "room ext heap" and "round_frame heap heap'"
  then have "own heap' {} \<subseteq># own heap {}" by (simp add: round_frame_def)
  then have "refs_to heap' {} ext a \<le> refs_to heap {} ext a" for a
    unfolding refs_to_def by (simp add: mset_subset_eq_count image_mset_subseteq_mono)
  with r show ?thesis unfolding room_def by (meson add_le_mono1 le_less_trans)
qed

lemma finalize_loop_skip:
  assumes "heap_ok ext heap" "set (finalize_list heap) \<subseteq> unfinalized heap" "pf_skip_finalizers heap"
    and "length (finalize_list heap) < n"
  shows "\<exists>heap'. finalize_loop call PF N n heap = Some heap' \<and> heap_ok ext heap' \<and> finalize_list heap' = []
    \<and> round_frame heap heap'"
  using assms
proof (induction n arbitrary: heap)
  case (Suc n)
  show ?case
  proof (cases "finalize_list heap")
    case Nil
    with Suc.prems show ?thesis by (simp add: round_frame_def)
  next
    case (Cons cur rest)
    obtain h1 where h1: "finalize_round call PF N cur heap = Some h1" "heap_ok ext h1" "round_frame heap h1"
      "finalize_list h1 = rest"
      using round_skip [OF Suc.prems(1) Cons Suc.prems(2,3)] by blast
    then obtain h2 where "finalize_loop call PF N n h1 = Some h2" "heap_ok ext h2" "finalize_list h2 = []" "round_frame h1 h2"
      using Suc.IH [OF h1(2)] Suc.prems(3,4) Cons by (auto simp: round_frame_def)
    then show ?thesis using Cons h1(1) round_frame_trans [OF h1(3)] by auto
  qed
qed simp

lemma finalize_loop_run:
  assumes "gentle_finalizer call" "blocked PF" "heap_ok ext heap" "\<not> ms_running heap" "pf_prevent_count heap \<noteq> 0"
    and "card (dom (cells heap)) \<le> N" "set (finalize_list heap) \<subseteq> unfinalized heap"
    and "\<not> pf_skip_finalizers heap" "room ext heap" "card (unfinalized heap) < n"
  shows "\<exists>heap'. finalize_loop call PF N n heap = Some heap' \<and> heap_ok ext heap' \<and> finalize_list heap' = []
    \<and> round_frame heap heap'"
  using assms(3-10)
proof (induction n arbitrary: heap)
  case (Suc n)
  show ?case
  proof (cases "finalize_list heap")
    case Nil
    with Suc.prems show ?thesis by (simp add: round_frame_def)
  next
    case (Cons cur rest)
    have "refs_to heap {} ext cur + 1 < 2 ^ 32 - 1" using Suc.prems(7) unfolding room_def by blast
    then obtain h1 where h1: "finalize_round call PF N cur heap = Some h1" "heap_ok ext h1" "round_frame heap h1"
      "unfinalized h1 \<subseteq> unfinalized heap - {cur}"
      using round_run [OF assms(1,2) Suc.prems(1-4) Cons Suc.prems(5,6)] by blast
    have fin: "finite (dom (cells heap))" using Suc.prems(1) by (simp add: heap_ok_def heap_inv_def)
    then have "finite (unfinalized heap)" by (rule finite_subset [rotated]) (auto simp: unfinalized_def)
    moreover have "cur \<in> unfinalized heap" using Suc.prems(5) Cons by simp
    then have "unfinalized h1 \<subset> unfinalized heap" using h1(4) by blast
    ultimately have "card (unfinalized h1) < card (unfinalized heap)" by (rule psubset_card_mono)
    then have c: "card (unfinalized h1) < n" using Suc.prems(8) by linarith
    have "dom (cells h1) \<subseteq> dom (cells heap)" using h1(3) by (simp add: round_frame_def)
    then have card: "card (dom (cells h1)) \<le> N" using card_mono [OF fin] Suc.prems(4) le_trans by blast
    have s: "\<not> ms_running h1" "pf_prevent_count h1 \<noteq> 0" "set (finalize_list h1) \<subseteq> unfinalized h1"
      "\<not> pf_skip_finalizers h1"
      using h1(3) Suc.prems(2,3,6) by (simp_all add: round_frame_def)
    obtain h2 where "finalize_loop call PF N n h1 = Some h2" "heap_ok ext h2" "finalize_list h2 = []" "round_frame h1 h2"
      using Suc.IH [OF h1(2) s(1,2) card s(3,4) room_frame [OF Suc.prems(7) h1(3)] c] by blast
    then show ?thesis using Cons h1(1) round_frame_trans [OF h1(3)] by auto
  qed
qed simp

subsection \<open>Properties\<close>

lemma heap_ok_pf [simp]: "heap_ok ext (heap\<lparr>pf_prevent_count := k\<rparr>) = heap_ok ext heap"
  by (simp add: heap_ok_def heap_inv_def heap_defs)

lemma process_completes:
  assumes "heap_ok ext heap" "\<not> ms_running heap" "pf_prevent_count heap = 0" "gentle_finalizer call"
    and "set (finalize_list heap) \<subseteq> unfinalized heap" "room ext heap"
    and "card (dom (cells heap)) \<le> N" "card (dom (cells heap)) < n"
  shows "\<exists>heap'. duk_heap_process_finalize_list call N n (Suc (Suc d)) heap = Some heap' \<and> heap_ok ext heap'
    \<and> finalize_list heap' = [] \<and> pf_prevent_count heap' = 0 \<and> dom (cells heap') \<subseteq> dom (cells heap)
    \<and> own heap' {} \<subseteq># own heap {} \<and> \<not> ms_running heap'"
proof -
  let ?PF = "duk_heap_process_finalize_list call N n (Suc d)" and ?h = "heap\<lparr>pf_prevent_count := 1\<rparr>"
  have fin: "finite (dom (cells heap))" using assms(1) by (simp add: heap_ok_def heap_inv_def)
  have ok: "heap_ok ext ?h" using assms(1) by simp
  have u: "unfinalized ?h = unfinalized heap" and r: "room ext ?h" using assms(6) by (simp_all add: unfinalized_def room_def)
  have c: "card (unfinalized ?h) \<le> card (dom (cells heap))"
    unfolding u by (rule card_mono [OF fin]) (auto simp: unfinalized_def)
  have "length (finalize_list ?h) = card (set (finalize_list heap))"
    using assms(1) by (simp add: heap_ok_def heap_inv_def heap_lists_def distinct_card)
  also have "\<dots> \<le> card (unfinalized ?h)" unfolding u
    by (rule card_mono [OF finite_subset [OF _ fin] assms(5)]) (auto simp: unfinalized_def)
  finally have l: "length (finalize_list ?h) < n" using c assms(8) by linarith
  have "\<exists>h1. finalize_loop call ?PF N n ?h = Some h1 \<and> heap_ok ext h1 \<and> finalize_list h1 = [] \<and> round_frame ?h h1"
  proof (cases "pf_skip_finalizers heap")
    case True
    then show ?thesis using finalize_loop_skip [OF ok _ _ l] assms(5) u by simp
  next
    case False
    then show ?thesis
      using finalize_loop_run [OF assms(4) process_blocked ok _ _ _ _ _ r] assms(2,5,7,8) u c by simp
  qed
  then obtain h1 where h1: "finalize_loop call ?PF N n ?h = Some h1" "heap_ok ext h1" "finalize_list h1 = []"
    "round_frame ?h h1" by blast
  let ?h' = "h1\<lparr>pf_prevent_count := 0\<rparr>"
  have "heap_ok ext ?h'" using h1(2) by simp
  moreover have "duk_heap_process_finalize_list call N n (Suc (Suc d)) heap = Some ?h'"
    using assms(3) h1(1) by simp
  ultimately show ?thesis using h1(3,4) assms(2) by (simp add: round_frame_def)
qed


text \<open>A finalizer that does nothing, and an object with a finalizer that refers to another object.\<close>

definition idle_finalizer :: finalizer_call where
  "idle_finalizer obj heap = Some (Tv_undefined, heap)"

lemma idle_finalizer_gentle: "gentle_finalizer idle_finalizer"
  by (auto simp: gentle_finalizer_def idle_finalizer_def gentle_def unfinalized_def)

definition fin_heap :: duk_heap where
  "fin_heap = \<lparr>cells = [1 \<mapsto> cell 1 (Hobject \<lparr>o_entries = [], o_array = [Tv_object 2], o_prototype = None,
       o_have_finalizer = True, o_ext = Ext_fastrefs\<rparr>), 2 \<mapsto> cell 1 (plain_object [] None)],
     heap_allocated = [2, 1], finalize_list = [], refzero_list = [], strtable = [], strcache = [],
     ms_running = False, pf_prevent_count = 0, pf_skip_finalizers = False\<rparr>"

lemma fin_heap_own: "own fin_heap {} = {#(DUK_HTYPE_OBJECT, 2)#}"
  by (simp add: own_def fin_heap_def cell_def plain_object_def hdr_edges_def obj_edges_def)

lemma fin_heap_ok: "heap_ok {#(DUK_HTYPE_OBJECT, 1)#} fin_heap" "room {#} fin_heap"
  unfolding heap_ok_def heap_inv_def heap_defs refs_to_def room_def fin_heap_own
  by (auto simp: fin_heap_def cell_def plain_object_def cells_of_def typed_edge_def split: if_splits)


end
