(* ===== verification/Valstack.thy ===== *)
theory Valstack
  imports Finalize
begin

text \<open>
  The value stack (\<^verbatim>\<open>duk_api_stack.c\<close> of \<^verbatim>\<open>src/duktape/duktape.c\<close>): index
  validation, the stack top, resizing, and the manipulation primitives (push, pop, dup, insert, pull,
  replace, copy, remove, swap, the transfer between threads).

  A stack is the list of its allocated slots, \<open>valstack\<close> to \<open>valstack_alloc_end\<close>; the
  pointers \<open>valstack_bottom\<close>, \<open>valstack_top\<close> and \<open>valstack_end\<close> are offsets
  into it.  \<open>duk_idx_t\<close> is a 32-bit word read as signed where the source compares with zero.
  An API call yields an error or a value and the new state, and \<open>None\<close> where it would touch a
  freed cell.  The operations on reference counts are the fields of the record \<open>rc_ops\<close>.
\<close>

record vthread =
  valstack :: "duk_tval list"
  valstack_bottom :: nat
  valstack_top :: nat
  valstack_end :: nat

record vstate =
  vs_heap :: duk_heap
  thr :: vthread

record rc_ops =
  rc_incref :: "duk_tval \<Rightarrow> heap_op"
  rc_decref :: "duk_tval \<Rightarrow> heap_op"
  rc_decref_norz :: "duk_tval \<Rightarrow> heap_op"
  rc_refzero_check :: heap_op

type_synonym 'a vres = "((duk_error + 'a) \<times> vstate) option"

definition DUK_USE_VALSTACK_LIMIT :: nat where
  "DUK_USE_VALSTACK_LIMIT = 1000000"

definition DUK_VALSTACK_INTERNAL_EXTRA :: nat where
  "DUK_VALSTACK_INTERNAL_EXTRA = 32"

definition DUK_INVALID_INDEX :: u32 where
  "DUK_INVALID_INDEX = 0x80000000"

text \<open>\<open>sizeof(duk_tval)\<close> of the unpacked representation, which 64-bit platforms use.\<close>

definition sizeof_tval :: nat where
  "sizeof_tval = 16"

abbreviation err_index :: duk_error where
  "err_index \<equiv> RangeError ''invalid stack index''"

abbreviation err_push_beyond :: duk_error where
  "err_push_beyond \<equiv> RangeError ''DUK_STR_PUSH_BEYOND_ALLOC_STACK''"

abbreviation err_count :: duk_error where
  "err_count \<equiv> RangeError ''DUK_STR_INVALID_COUNT''"

subsection \<open>Indices\<close>

definition vs_size :: "vthread \<Rightarrow> u32" where
  "vs_size t = of_nat (valstack_top t - valstack_bottom t)"

definition vs_uidx :: "vthread \<Rightarrow> u32 \<Rightarrow> u32" where
  "vs_uidx t idx = (if idx <s 0 then vs_size t + idx else idx)"

definition duk_normalize_index :: "vthread \<Rightarrow> u32 \<Rightarrow> u32" where
  "duk_normalize_index t idx =
    (let uidx = vs_uidx t idx in if uidx < vs_size t then uidx else DUK_INVALID_INDEX)"

definition duk_require_normalize_index :: "vthread \<Rightarrow> u32 \<Rightarrow> u32 result" where
  "duk_require_normalize_index t idx =
    (let uidx = vs_uidx t idx in if uidx < vs_size t then Inr uidx else Inl err_index)"

definition duk_get_tval :: "vthread \<Rightarrow> u32 \<Rightarrow> nat option" where
  "duk_get_tval t idx =
    (let uidx = vs_uidx t idx in if uidx < vs_size t then Some (valstack_bottom t + unat uidx) else None)"

definition duk_require_tval :: "vthread \<Rightarrow> u32 \<Rightarrow> nat result" where
  "duk_require_tval t idx =
    (let uidx = vs_uidx t idx in if uidx < vs_size t then Inr (valstack_bottom t + unat uidx) else Inl err_index)"

definition duk_get_tval_or_unused :: "vthread \<Rightarrow> u32 \<Rightarrow> duk_tval" where
  "duk_get_tval_or_unused t idx = (case duk_get_tval t idx of Some p \<Rightarrow> valstack t ! p | None \<Rightarrow> Tv_unused)"

definition duk_is_valid_index :: "vthread \<Rightarrow> u32 \<Rightarrow> bool" where
  "duk_is_valid_index t idx = (0 \<le>s duk_normalize_index t idx)"

definition duk_require_valid_index :: "vthread \<Rightarrow> u32 \<Rightarrow> unit result" where
  "duk_require_valid_index t idx = (if duk_normalize_index t idx <s 0 then Inl err_index else Inr ())"

definition duk_get_top :: "vthread \<Rightarrow> u32" where
  "duk_get_top t = of_nat (valstack_top t - valstack_bottom t)"

definition duk_get_top_require_min :: "vthread \<Rightarrow> u32 \<Rightarrow> u32 result" where
  "duk_get_top_require_min t min_top =
    (if duk_get_top t <s min_top then Inl (TypeError ''DUK_STR_INVALID_ARGS'') else Inr (duk_get_top t))"

definition duk_get_top_index :: "vthread \<Rightarrow> u32" where
  "duk_get_top_index t = (let ret = duk_get_top t - 1 in if ret <s 0 then DUK_INVALID_INDEX else ret)"

definition duk_get_top_index_unsafe :: "vthread \<Rightarrow> u32" where
  "duk_get_top_index_unsafe t = duk_get_top t - 1"

definition duk_require_top_index :: "vthread \<Rightarrow> u32 result" where
  "duk_require_top_index t = (let ret = duk_get_top t - 1 in if ret <s 0 then Inl err_index else Inr ret)"

subsection \<open>Helpers for calls\<close>

definition slot :: "vstate \<Rightarrow> nat \<Rightarrow> duk_tval" where
  "slot st i = valstack (thr st) ! i"

definition set_slot :: "nat \<Rightarrow> duk_tval \<Rightarrow> vstate \<Rightarrow> vstate" where
  "set_slot i tv st = st\<lparr>thr := (thr st)\<lparr>valstack := (valstack (thr st))[i := tv]\<rparr>\<rparr>"

definition set_top :: "nat \<Rightarrow> vstate \<Rightarrow> vstate" where
  "set_top n st = st\<lparr>thr := (thr st)\<lparr>valstack_top := n\<rparr>\<rparr>"

definition on_heap :: "heap_op \<Rightarrow> vstate \<Rightarrow> vstate option" where
  "on_heap f st = do { h \<leftarrow> f (vs_heap st); Some (st\<lparr>vs_heap := h\<rparr>) }"

definition return :: "'a \<Rightarrow> vstate \<Rightarrow> 'a vres" where
  "return x st = Some (Inr x, st)"

definition throw :: "duk_error \<Rightarrow> vstate \<Rightarrow> 'a vres" where
  "throw e st = Some (Inl e, st)"

text \<open>\<open>duk_memmove\<close> of \<open>n\<close> slots.\<close>

definition memmove_slots :: "nat \<Rightarrow> nat \<Rightarrow> nat \<Rightarrow> vstate \<Rightarrow> vstate" where
  "memmove_slots dst src n st = (let xs = valstack (thr st) in
     st\<lparr>thr := (thr st)\<lparr>valstack := blit xs dst (take n (drop src xs))\<rparr>\<rparr>)"

text \<open>\<open>duk_require_tval\<close> in a call: its error ends the call.\<close>

definition with_tval :: "u32 \<Rightarrow> (nat \<Rightarrow> vstate \<Rightarrow> 'a vres) \<Rightarrow> vstate \<Rightarrow> 'a vres" where
  "with_tval idx f st = (case duk_require_tval (thr st) idx of Inl e \<Rightarrow> throw e st | Inr p \<Rightarrow> f p st)"

text \<open>\<open>DUK__CHECK_SPACE\<close>.\<close>

definition check_space :: "(vstate \<Rightarrow> 'a vres) \<Rightarrow> vstate \<Rightarrow> 'a vres" where
  "check_space f st = (if valstack_top (thr st) \<ge> valstack_end (thr st) then throw err_push_beyond st else f st)"

text \<open>\<open>DUK_TVAL_SET_UNDEFINED_UPDREF\<close> and its NORZ variant, by the decref that is given.\<close>

definition set_undefined_updref :: "(duk_tval \<Rightarrow> heap_op) \<Rightarrow> nat \<Rightarrow> vstate \<Rightarrow> vstate option" where
  "set_undefined_updref decref p st =
    (let tv_tmp = slot st p; st = set_slot p Tv_undefined st in on_heap (decref tv_tmp) st)"

text \<open>The loop that wipes \<open>n\<close> slots below \<open>tv\<close>, downwards.\<close>

primrec wipe_down :: "rc_ops \<Rightarrow> nat \<Rightarrow> nat \<Rightarrow> vstate \<Rightarrow> vstate option" where
  "wipe_down R tv 0 st = Some st"
| "wipe_down R tv (Suc n) st = do {
     st \<leftarrow> set_undefined_updref (rc_decref_norz R) (tv - 1) st;
     wipe_down R (tv - 1) n st }"

subsection \<open>The top\<close>

definition duk_set_top_unsafe :: "rc_ops \<Rightarrow> u32 \<Rightarrow> vstate \<Rightarrow> vstate option" where
  "duk_set_top_unsafe R uidx st =
    (if uidx \<ge> vs_size (thr st) then Some (set_top (valstack_bottom (thr st) + unat uidx) st)
     else do {
       let cnt = unat (vs_size (thr st) - uidx);
       let tv_end = valstack_top (thr st) - cnt;
       st \<leftarrow> wipe_down R (valstack_top (thr st)) cnt st;
       on_heap (rc_refzero_check R) (set_top tv_end st) })"

definition duk_set_top :: "rc_ops \<Rightarrow> u32 \<Rightarrow> vstate \<Rightarrow> unit vres" where
  "duk_set_top R idx st =
    (let vs_limit = of_nat (valstack_end (thr st) - valstack_bottom (thr st));
         uidx = vs_uidx (thr st) idx
     in if uidx > vs_limit then throw err_index st
        else do { st \<leftarrow> duk_set_top_unsafe R uidx st; return () st })"

definition duk_set_top_and_wipe :: "rc_ops \<Rightarrow> u32 \<Rightarrow> u32 \<Rightarrow> vstate \<Rightarrow> vstate option" where
  "duk_set_top_and_wipe R new_top idx_wipe_start st = do {
     st \<leftarrow> duk_set_top_unsafe R idx_wipe_start st;
     duk_set_top_unsafe R new_top st }"

definition pop_n_unsafe_raw :: "rc_ops \<Rightarrow> nat \<Rightarrow> vstate \<Rightarrow> vstate option" where
  "pop_n_unsafe_raw R cnt st = do {
     let tv = valstack_top (thr st);
     st \<leftarrow> wipe_down R tv cnt st;
     on_heap (rc_refzero_check R) (set_top (tv - cnt) st) }"

definition duk_pop_n :: "rc_ops \<Rightarrow> u32 \<Rightarrow> vstate \<Rightarrow> unit vres" where
  "duk_pop_n R cnt st =
    (if vs_size (thr st) < cnt then throw err_count st
     else do { st \<leftarrow> pop_n_unsafe_raw R (unat cnt) st; return () st })"

text \<open>Without DECREF: the caller steals the references.\<close>

primrec wipe_nodecref :: "nat \<Rightarrow> nat \<Rightarrow> vstate \<Rightarrow> vstate" where
  "wipe_nodecref tv 0 st = st"
| "wipe_nodecref tv (Suc n) st = wipe_nodecref (tv - 1) n (set_slot (tv - 1) Tv_undefined st)"

definition duk_pop_n_nodecref_unsafe :: "nat \<Rightarrow> vstate \<Rightarrow> vstate" where
  "duk_pop_n_nodecref_unsafe cnt st =
    (let tv = valstack_top (thr st) in set_top (tv - cnt) (wipe_nodecref tv cnt st))"

definition pop_unsafe_raw :: "rc_ops \<Rightarrow> vstate \<Rightarrow> vstate option" where
  "pop_unsafe_raw R st =
    (let tv = valstack_top (thr st) - 1; st = set_top tv st in set_undefined_updref (rc_decref R) tv st)"

definition duk_pop :: "rc_ops \<Rightarrow> vstate \<Rightarrow> unit vres" where
  "duk_pop R st = (if valstack_top (thr st) = valstack_bottom (thr st) then throw err_count st
     else do { st \<leftarrow> pop_unsafe_raw R st; return () st })"

definition pop_2_unsafe_raw :: "rc_ops \<Rightarrow> vstate \<Rightarrow> vstate option" where
  "pop_2_unsafe_raw R st = do {
     let tv = valstack_top (thr st) - 1;
     st \<leftarrow> set_undefined_updref (rc_decref R) tv (set_top tv st);
     let tv = valstack_top (thr st) - 1;
     set_undefined_updref (rc_decref R) tv (set_top tv st) }"

definition duk_pop_2 :: "rc_ops \<Rightarrow> vstate \<Rightarrow> unit vres" where
  "duk_pop_2 R st = (if int (valstack_top (thr st)) - 2 < int (valstack_bottom (thr st)) then throw err_count st
     else do { st \<leftarrow> pop_2_unsafe_raw R st; return () st })"

definition duk_pop_3 :: "rc_ops \<Rightarrow> vstate \<Rightarrow> unit vres" where
  "duk_pop_3 R = duk_pop_n R 3"

subsection \<open>Pushing and moving values\<close>

definition duk_push_undefined :: "vstate \<Rightarrow> unit vres" where
  "duk_push_undefined = check_space (\<lambda>st. return () (set_top (valstack_top (thr st) + 1) st))"

text \<open>Values without references: null, booleans, numbers, pointers, lightfuncs.\<close>

definition push_plain :: "duk_tval \<Rightarrow> vstate \<Rightarrow> unit vres" where
  "push_plain tv = check_space (\<lambda>st. let tv_slot = valstack_top (thr st)
     in return () (set_slot tv_slot tv (set_top (tv_slot + 1) st)))"

definition duk_push_null :: "vstate \<Rightarrow> unit vres" where
  "duk_push_null = push_plain Tv_null"

definition duk_push_boolean :: "u32 \<Rightarrow> vstate \<Rightarrow> unit vres" where
  "duk_push_boolean val = push_plain (Tv_boolean (val \<noteq> 0))"

definition duk_push_true :: "vstate \<Rightarrow> unit vres" where
  "duk_push_true = push_plain (Tv_boolean True)"

definition duk_push_false :: "vstate \<Rightarrow> unit vres" where
  "duk_push_false = push_plain (Tv_boolean False)"

definition push_copy :: "rc_ops \<Rightarrow> nat \<Rightarrow> vstate \<Rightarrow> unit vres" where
  "push_copy R from st = do {
     let tv_to = valstack_top (thr st);
     let tv = slot st from;
     st \<leftarrow> on_heap (rc_incref R tv) (set_slot tv_to tv (set_top (tv_to + 1) st));
     return () st }"

definition duk_dup :: "rc_ops \<Rightarrow> u32 \<Rightarrow> vstate \<Rightarrow> unit vres" where
  "duk_dup R from_idx = check_space (with_tval from_idx (push_copy R))"

definition duk_dup_top :: "rc_ops \<Rightarrow> vstate \<Rightarrow> unit vres" where
  "duk_dup_top R = check_space (\<lambda>st. if int (valstack_top (thr st)) - int (valstack_bottom (thr st)) \<le> 0
     then throw err_index st else push_copy R (valstack_top (thr st) - 1) st)"

definition duk_swap :: "u32 \<Rightarrow> u32 \<Rightarrow> vstate \<Rightarrow> unit vres" where
  "duk_swap idx1 idx2 = with_tval idx1 (\<lambda>tv1. with_tval idx2 (\<lambda>tv2 st.
     let tv_tmp = slot st tv1;
         st = set_slot tv1 (slot st tv2) st
     in return () (set_slot tv2 tv_tmp st)))"

definition duk_swap_top :: "u32 \<Rightarrow> vstate \<Rightarrow> unit vres" where
  "duk_swap_top idx = duk_swap idx (- 1)"

definition duk_insert :: "u32 \<Rightarrow> vstate \<Rightarrow> unit vres" where
  "duk_insert to_idx = with_tval to_idx (\<lambda>p. with_tval (- 1) (\<lambda>q st.
     let tv_tmp = slot st q;
         st = memmove_slots (p + 1) p (q - p) st
     in return () (set_slot p tv_tmp st)))"

definition duk_pull :: "u32 \<Rightarrow> vstate \<Rightarrow> unit vres" where
  "duk_pull from_idx = with_tval from_idx (\<lambda>p. with_tval (- 1) (\<lambda>q st.
     let tv_tmp = slot st p;
         st = memmove_slots p (p + 1) (q - p) st
     in return () (set_slot q tv_tmp st)))"

definition duk_insert_undefined :: "u32 \<Rightarrow> vstate \<Rightarrow> unit vres" where
  "duk_insert_undefined idx st = (case duk_push_undefined st of
       None \<Rightarrow> None
     | Some (Inl e, st) \<Rightarrow> Some (Inl e, st)
     | Some (Inr _, st) \<Rightarrow> duk_insert idx st)"

definition duk_replace :: "rc_ops \<Rightarrow> u32 \<Rightarrow> vstate \<Rightarrow> unit vres" where
  "duk_replace R to_idx = with_tval (- 1) (\<lambda>tv1. with_tval to_idx (\<lambda>tv2 st. do {
     let tv_tmp = slot st tv2;
     let st = set_slot tv2 (slot st tv1) st;
     let st = set_slot tv1 Tv_undefined st;
     let st = set_top (valstack_top (thr st) - 1) st;
     st \<leftarrow> on_heap (rc_decref R tv_tmp) st;
     return () st }))"

text \<open>
  \<open>DUK_TVAL_SET_TVAL_UPDREF\<close>: the new value is counted before the old one is released, which
  is a release of nothing for values without references.
\<close>

definition set_tval_updref :: "rc_ops \<Rightarrow> nat \<Rightarrow> duk_tval \<Rightarrow> vstate \<Rightarrow> vstate option" where
  "set_tval_updref R dst tv_src st = do {
     st \<leftarrow> on_heap (rc_incref R tv_src) st;
     let tv_tmp = slot st dst;
     on_heap (rc_decref R tv_tmp) (set_slot dst tv_src st) }"

definition duk_copy :: "rc_ops \<Rightarrow> u32 \<Rightarrow> u32 \<Rightarrow> vstate \<Rightarrow> unit vres" where
  "duk_copy R from_idx to_idx = with_tval from_idx (\<lambda>tv1. with_tval to_idx (\<lambda>tv2 st. do {
     st \<leftarrow> set_tval_updref R tv2 (slot st tv1) st;
     return () st }))"

definition duk_remove :: "rc_ops \<Rightarrow> u32 \<Rightarrow> vstate \<Rightarrow> unit vres" where
  "duk_remove R idx = with_tval idx (\<lambda>p. with_tval (- 1) (\<lambda>q st. do {
     let tv_tmp = slot st p;
     let st = memmove_slots p (p + 1) (q - p) st;
     let st = set_slot q Tv_undefined st;
     let st = set_top (valstack_top (thr st) - 1) st;
     st \<leftarrow> on_heap (rc_decref R tv_tmp) st;
     return () st }))"

text \<open>The caller checks for pending finalizers.\<close>

primrec decref_range :: "rc_ops \<Rightarrow> nat \<Rightarrow> nat \<Rightarrow> vstate \<Rightarrow> vstate option" where
  "decref_range R tv 0 st = Some st"
| "decref_range R tv (Suc n) st = do {
     st \<leftarrow> on_heap (rc_decref_norz R (slot st tv)) st;
     decref_range R (tv + 1) n st }"

primrec wipe_up :: "nat \<Rightarrow> nat \<Rightarrow> vstate \<Rightarrow> vstate" where
  "wipe_up tv 0 st = st"
| "wipe_up tv (Suc n) st = wipe_up (tv + 1) n (set_slot tv Tv_undefined st)"

definition duk_remove_n :: "rc_ops \<Rightarrow> nat \<Rightarrow> nat \<Rightarrow> vstate \<Rightarrow> vstate option" where
  "duk_remove_n R idx cnt st = do {
     let tv_dst = valstack_bottom (thr st) + idx;
     let tv_src = tv_dst + cnt;
     st \<leftarrow> decref_range R tv_dst cnt st;
     let st = memmove_slots tv_dst tv_src (valstack_top (thr st) - tv_src) st;
     let tv_newtop = valstack_top (thr st) - cnt;
     let st = wipe_up tv_newtop cnt st;
     Some (set_top tv_newtop st) }"

text \<open>A gap of garbage that the caller fills.\<close>

definition duk_reserve_gap :: "nat \<Rightarrow> nat \<Rightarrow> vstate \<Rightarrow> vstate" where
  "duk_reserve_gap idx_base cnt st =
    (let tv_src = valstack_bottom (thr st) + idx_base;
         copy = valstack_top (thr st) - tv_src;
         st = set_top (valstack_top (thr st) + cnt) st
     in memmove_slots (tv_src + cnt) tv_src copy st)"

definition duk_insert_undefined_n :: "nat \<Rightarrow> nat \<Rightarrow> vstate \<Rightarrow> vstate" where
  "duk_insert_undefined_n idx cnt st = wipe_up (valstack_bottom (thr st) + idx) cnt (duk_reserve_gap idx cnt st)"

subsection \<open>Moving values between threads\<close>

record xstate =
  xheap :: duk_heap
  to_thr :: vthread
  from_thr :: vthread

primrec incref_all :: "rc_ops \<Rightarrow> duk_tval list \<Rightarrow> heap_op" where
  "incref_all R [] h = Some h"
| "incref_all R (tv # tvs) h = do { h \<leftarrow> rc_incref R tv h; incref_all R tvs h }"

text \<open>The case of one thread, an error in the source, is the flag \<open>same\<close>.\<close>

definition duk_xcopymove_raw :: "rc_ops \<Rightarrow> bool \<Rightarrow> u32 \<Rightarrow> bool \<Rightarrow> xstate \<Rightarrow> ((duk_error + unit) \<times> xstate) option" where
  "duk_xcopymove_raw R same cnt is_copy st =
    (let t = to_thr st; f = from_thr st; n = unat cnt in
     if same then Some (Inl (TypeError ''DUK_STR_INVALID_CONTEXT''), st)
     else if cnt > of_nat DUK_USE_VALSTACK_LIMIT then Some (Inl err_count, st)
     else if n = 0 then Some (Inr (), st)
     else if valstack_end t - valstack_top t < n then Some (Inl err_push_beyond, st)
     else if int (valstack_top f) - int n < int (valstack_bottom f) then Some (Inl err_count, st)
     else
       let src = valstack_top f - n;
           tvs = take n (drop src (valstack f));
           t = t\<lparr>valstack := blit (valstack t) (valstack_top t) tvs, valstack_top := valstack_top t + n\<rparr>
       in if is_copy then do {
            h \<leftarrow> incref_all R tvs (xheap st);
            Some (Inr (), st\<lparr>xheap := h, to_thr := t\<rparr>) }
          else
            let f = f\<lparr>valstack_top := src, valstack := blit (valstack f) src (replicate n Tv_undefined)\<rparr>
            in Some (Inr (), st\<lparr>to_thr := t, from_thr := f\<rparr>))"

subsection \<open>Resizing\<close>

text \<open>
  \<open>alloc\<close> tells whether the allocator grants a number of bytes.  Sizes are in bytes as in the
  source; the callers keep them far below the range of \<open>size_t\<close>.
\<close>

definition resize_valstack :: "(nat \<Rightarrow> bool) \<Rightarrow> nat \<Rightarrow> vthread \<Rightarrow> vthread option" where
  "resize_valstack alloc new_size t =
    (if alloc (sizeof_tval * new_size)
     then Some (t\<lparr>valstack := take new_size (valstack t) @ replicate (new_size - length (valstack t)) Tv_undefined\<rparr>)
     else None)"

text \<open>The result is the success flag; with \<open>throw_on_error\<close> a failure is an error.\<close>

definition valstack_grow :: "(nat \<Rightarrow> bool) \<Rightarrow> nat \<Rightarrow> bool \<Rightarrow> vthread \<Rightarrow> bool result \<times> vthread" where
  "valstack_grow alloc min_bytes throw_on_error t =
    (let min_size = min_bytes div sizeof_tval;
         new_size = min_size + min_size div 2 ^ 2
     in if new_size > DUK_USE_VALSTACK_LIMIT
        then (if throw_on_error then Inl (RangeError ''DUK_STR_VALSTACK_LIMIT'') else Inr False, t)
        else (case resize_valstack alloc new_size t of
            None \<Rightarrow> (if throw_on_error then Inl AllocFailed else Inr False, t)
          | Some t \<Rightarrow> (Inr True, t\<lparr>valstack_end := min_size\<rparr>)))"

definition duk_valstack_grow_check_throw :: "(nat \<Rightarrow> bool) \<Rightarrow> nat \<Rightarrow> vthread \<Rightarrow> bool result \<times> vthread" where
  "duk_valstack_grow_check_throw alloc min_bytes t =
    (let tv = min_bytes div sizeof_tval in
     if valstack_end t \<ge> tv then (Inr True, t)
     else if length (valstack t) \<ge> tv then (Inr True, t\<lparr>valstack_end := tv\<rparr>)
     else valstack_grow alloc min_bytes True t)"

definition duk_valstack_grow_check_nothrow :: "(nat \<Rightarrow> bool) \<Rightarrow> nat \<Rightarrow> vthread \<Rightarrow> bool result \<times> vthread" where
  "duk_valstack_grow_check_nothrow alloc min_bytes t =
    (let tv = min_bytes div sizeof_tval in
     if valstack_end t \<ge> tv then (Inr True, t)
     else if length (valstack t) \<ge> tv then (Inr True, t\<lparr>valstack_end := tv\<rparr>)
     else valstack_grow alloc min_bytes False t)"

definition duk_valstack_shrink_check_nothrow :: "(nat \<Rightarrow> bool) \<Rightarrow> bool \<Rightarrow> vthread \<Rightarrow> vthread" where
  "duk_valstack_shrink_check_nothrow alloc snug t =
    (let alloc_bytes = sizeof_tval * length (valstack t);
         reserve_bytes = sizeof_tval * valstack_end t;
         proportion = alloc_bytes div 2 ^ 2;
         slack = alloc_bytes div 2 ^ 4;
         shrink_bytes = (if snug then reserve_bytes else reserve_bytes + slack div sizeof_tval * sizeof_tval)
     in if \<not> snug \<and> alloc_bytes - reserve_bytes < proportion then t
        else if shrink_bytes \<ge> alloc_bytes then t
        else (case resize_valstack alloc (shrink_bytes div sizeof_tval) t of None \<Rightarrow> t | Some t \<Rightarrow> t))"

text \<open>A requested number of slots is clamped to the range that cannot wrap.\<close>

definition clamp_extra :: "u32 \<Rightarrow> nat" where
  "clamp_extra extra = (if extra <s 0 then 0 else if unat extra > DUK_USE_VALSTACK_LIMIT then DUK_USE_VALSTACK_LIMIT else unat extra)"

definition stack_min_bytes :: "nat \<Rightarrow> u32 \<Rightarrow> nat" where
  "stack_min_bytes base extra = sizeof_tval * base + sizeof_tval * (clamp_extra extra + DUK_VALSTACK_INTERNAL_EXTRA)"

definition duk_check_stack :: "(nat \<Rightarrow> bool) \<Rightarrow> u32 \<Rightarrow> vthread \<Rightarrow> bool result \<times> vthread" where
  "duk_check_stack alloc extra t = duk_valstack_grow_check_nothrow alloc (stack_min_bytes (valstack_top t) extra) t"

definition duk_require_stack :: "(nat \<Rightarrow> bool) \<Rightarrow> u32 \<Rightarrow> vthread \<Rightarrow> bool result \<times> vthread" where
  "duk_require_stack alloc extra t = duk_valstack_grow_check_throw alloc (stack_min_bytes (valstack_top t) extra) t"

definition duk_check_stack_top :: "(nat \<Rightarrow> bool) \<Rightarrow> u32 \<Rightarrow> vthread \<Rightarrow> bool result \<times> vthread" where
  "duk_check_stack_top alloc extra t = duk_valstack_grow_check_nothrow alloc (stack_min_bytes (valstack_bottom t) extra) t"

definition duk_require_stack_top :: "(nat \<Rightarrow> bool) \<Rightarrow> u32 \<Rightarrow> vthread \<Rightarrow> bool result \<times> vthread" where
  "duk_require_stack_top alloc extra t = duk_valstack_grow_check_throw alloc (stack_min_bytes (valstack_bottom t) extra) t"

end
