(* ===== verification/Valcalls.thy ===== *)
theory Valcalls
  imports Valstack
begin

text \<open>
  The value stack API as an abstract machine on a list.  \<open>list_call\<close> says what each call
  does to the values of the current frame, indexed by integers that count from the end when negative;
  \<open>exec\<close> runs the code of theory \<open>Valstack\<close>.  The refinement holds for every
  provider of reference counting that keeps the laws of the locale \<open>refcounted\<close>; the model of
  \<^verbatim>\<open>duk_heap_refcount.c\<close> is one.
\<close>

datatype vcall =
    Set_top u32 | Pop_n u32 | Pop | Pop_2 | Pop_3
  | Push_undefined | Push_null | Push_boolean u32 | Push_true | Push_false
  | Dup u32 | Dup_top | Swap u32 u32 | Swap_top u32 | Insert u32 | Pull u32 | Insert_undefined u32
  | Replace u32 | Copy u32 u32 | Remove u32

fun exec :: "rc_ops \<Rightarrow> vcall \<Rightarrow> vstate \<Rightarrow> unit vres" where
  "exec R (Set_top i) = duk_set_top R i"
| "exec R (Pop_n n) = duk_pop_n R n"
| "exec R Pop = duk_pop R"
| "exec R Pop_2 = duk_pop_2 R"
| "exec R Pop_3 = duk_pop_3 R"
| "exec R Push_undefined = duk_push_undefined"
| "exec R Push_null = duk_push_null"
| "exec R (Push_boolean b) = duk_push_boolean b"
| "exec R Push_true = duk_push_true"
| "exec R Push_false = duk_push_false"
| "exec R (Dup i) = duk_dup R i"
| "exec R Dup_top = duk_dup_top R"
| "exec R (Swap i j) = duk_swap i j"
| "exec R (Swap_top i) = duk_swap_top i"
| "exec R (Insert i) = duk_insert i"
| "exec R (Pull i) = duk_pull i"
| "exec R (Insert_undefined i) = duk_insert_undefined i"
| "exec R (Replace i) = duk_replace R i"
| "exec R (Copy i j) = duk_copy R i j"
| "exec R (Remove i) = duk_remove R i"

subsection \<open>The abstract machine\<close>

definition resolve :: "nat \<Rightarrow> int \<Rightarrow> nat option" where
  "resolve len i = (let j = if i < 0 then i + int len else i in if 0 \<le> j \<and> j < int len then Some (nat j) else None)"

type_synonym vlist_res = "unit result \<times> duk_tval list"

definition at_index :: "u32 \<Rightarrow> (nat \<Rightarrow> duk_tval list \<Rightarrow> vlist_res) \<Rightarrow> duk_tval list \<Rightarrow> vlist_res" where
  "at_index i f xs = (case resolve (length xs) (sint i) of None \<Rightarrow> (Inl err_index, xs) | Some k \<Rightarrow> f k xs)"

definition push_list :: "nat \<Rightarrow> (duk_tval list \<Rightarrow> vlist_res) \<Rightarrow> duk_tval list \<Rightarrow> vlist_res" where
  "push_list cap f xs = (if cap \<le> length xs then (Inl err_push_beyond, xs) else f xs)"

definition drop_last :: "nat \<Rightarrow> duk_tval list \<Rightarrow> vlist_res" where
  "drop_last n xs = (if length xs < n then (Inl err_count, xs) else (Inr (), take (length xs - n) xs))"

definition insert_last :: "nat \<Rightarrow> duk_tval list \<Rightarrow> vlist_res" where
  "insert_last k xs = (Inr (), take k xs @ [last xs] @ drop k (butlast xs))"

definition set_length :: "nat \<Rightarrow> int \<Rightarrow> duk_tval list \<Rightarrow> vlist_res" where
  "set_length cap i xs = (let j = if i < 0 then i + int (length xs) else i in
     if 0 \<le> j \<and> j \<le> int cap then (Inr (), take (nat j) xs @ replicate (nat j - length xs) Tv_undefined)
     else (Inl err_index, xs))"

text \<open>\<open>cap\<close> is the number of slots reserved for the frame.\<close>

fun list_call :: "nat \<Rightarrow> vcall \<Rightarrow> duk_tval list \<Rightarrow> vlist_res" where
  "list_call cap (Set_top i) = set_length cap (sint i)"
| "list_call cap (Pop_n n) = drop_last (unat n)"
| "list_call cap Pop = drop_last 1"
| "list_call cap Pop_2 = drop_last 2"
| "list_call cap Pop_3 = drop_last 3"
| "list_call cap Push_undefined = push_list cap (\<lambda>xs. (Inr (), xs @ [Tv_undefined]))"
| "list_call cap Push_null = push_list cap (\<lambda>xs. (Inr (), xs @ [Tv_null]))"
| "list_call cap (Push_boolean b) = push_list cap (\<lambda>xs. (Inr (), xs @ [Tv_boolean (b \<noteq> 0)]))"
| "list_call cap Push_true = push_list cap (\<lambda>xs. (Inr (), xs @ [Tv_boolean True]))"
| "list_call cap Push_false = push_list cap (\<lambda>xs. (Inr (), xs @ [Tv_boolean False]))"
| "list_call cap (Dup i) = push_list cap (at_index i (\<lambda>k xs. (Inr (), xs @ [xs ! k])))"
| "list_call cap Dup_top = push_list cap (at_index (- 1) (\<lambda>k xs. (Inr (), xs @ [xs ! k])))"
| "list_call cap (Swap i j) = at_index i (\<lambda>a. at_index j (\<lambda>b xs. (Inr (), xs[a := xs ! b, b := xs ! a])))"
| "list_call cap (Swap_top i) = at_index i (\<lambda>a xs. (Inr (), xs[a := last xs, length xs - 1 := xs ! a]))"
| "list_call cap (Insert i) = at_index i insert_last"
| "list_call cap (Pull i) = at_index i (\<lambda>a xs. (Inr (), take a xs @ drop (a + 1) xs @ [xs ! a]))"
| "list_call cap (Insert_undefined i) = push_list cap (\<lambda>xs. at_index i insert_last (xs @ [Tv_undefined]))"
| "list_call cap (Replace i) = at_index i (\<lambda>a xs. (Inr (), butlast (xs[a := last xs])))"
| "list_call cap (Copy i j) = at_index i (\<lambda>a. at_index j (\<lambda>b xs. (Inr (), xs[b := xs ! a])))"
| "list_call cap (Remove i) = at_index i (\<lambda>a xs. (Inr (), take a xs @ drop (a + 1) xs))"

subsection \<open>Frames\<close>

definition vs_inv :: "vthread \<Rightarrow> bool" where
  "vs_inv t \<longleftrightarrow> valstack_bottom t \<le> valstack_top t \<and> valstack_top t \<le> valstack_end t
   \<and> valstack_end t \<le> length (valstack t) \<and> length (valstack t) \<le> DUK_USE_VALSTACK_LIMIT
   \<and> drop (valstack_top t) (valstack t) = replicate (length (valstack t) - valstack_top t) Tv_undefined"

definition vs_frame :: "vthread \<Rightarrow> duk_tval list" where
  "vs_frame t = take (valstack_top t - valstack_bottom t) (drop (valstack_bottom t) (valstack t))"

text \<open>What a call keeps: everything below the frame, the reserve and the allocation.\<close>

definition same_base :: "vthread \<Rightarrow> vthread \<Rightarrow> bool" where
  "same_base t t' \<longleftrightarrow> valstack_bottom t' = valstack_bottom t \<and> valstack_end t' = valstack_end t
   \<and> length (valstack t') = length (valstack t)
   \<and> take (valstack_bottom t) (valstack t') = take (valstack_bottom t) (valstack t)"

definition mk_thr :: "duk_tval list \<Rightarrow> nat \<Rightarrow> nat \<Rightarrow> duk_tval list \<Rightarrow> vthread" where
  "mk_thr pre cap n xs = \<lparr>valstack = pre @ xs @ replicate (n - length pre - length xs) Tv_undefined,
     valstack_bottom = length pre, valstack_top = length pre + length xs, valstack_end = length pre + cap\<rparr>"

definition mk :: "duk_tval list \<Rightarrow> nat \<Rightarrow> nat \<Rightarrow> duk_heap \<Rightarrow> duk_tval list \<Rightarrow> vstate" where
  "mk pre cap n h xs = \<lparr>vs_heap = h, thr = mk_thr pre cap n xs\<rparr>"

named_theorems vs "operations on a frame"

lemma mk_fields [simp]:
  "vs_heap (mk pre cap n h xs) = h" "thr (mk pre cap n h xs) = mk_thr pre cap n xs"
  "valstack_bottom (mk_thr pre cap n xs) = length pre" "valstack_top (mk_thr pre cap n xs) = length pre + length xs"
  "valstack_end (mk_thr pre cap n xs) = length pre + cap"
  by (simp_all add: mk_def mk_thr_def)

lemma vs_inv_mk:
  assumes "vs_inv t"
  shows "t = mk_thr (take (valstack_bottom t) (valstack t)) (valstack_end t - valstack_bottom t) (length (valstack t)) (vs_frame t)"
proof -
  let ?b = "valstack_bottom t" and ?e = "valstack_top t" and ?l = "valstack t"
  have i: "?b \<le> ?e" "?e \<le> valstack_end t" "valstack_end t \<le> length ?l"
    "drop ?e ?l = replicate (length ?l - ?e) Tv_undefined"
    using assms by (simp_all add: vs_inv_def)
  have "take (?e - ?b) (drop ?b ?l) @ drop ?e ?l = drop ?b ?l"
    using append_take_drop_id [of "?e - ?b" "drop ?b ?l"] i(1) by simp
  then have "?l = take ?b ?l @ take (?e - ?b) (drop ?b ?l) @ drop ?e ?l" by (metis append_take_drop_id)
  then show ?thesis using i by (simp add: mk_thr_def vs_frame_def)
qed

lemma mk_inv:
  "length xs \<le> cap \<Longrightarrow> length pre + cap \<le> n \<Longrightarrow> n \<le> DUK_USE_VALSTACK_LIMIT \<Longrightarrow> vs_inv (mk_thr pre cap n xs)"
  by (simp add: vs_inv_def mk_thr_def)

lemma mk_frame [simp]: "length pre + length xs \<le> n \<Longrightarrow> vs_frame (mk_thr pre cap n xs) = xs"
  by (simp add: vs_frame_def mk_thr_def)

lemma mk_base: "length xs \<le> cap \<Longrightarrow> length ys \<le> cap \<Longrightarrow> length pre + cap \<le> n \<Longrightarrow>
    same_base (mk_thr pre cap n xs) (mk_thr pre cap n ys)"
  by (simp add: same_base_def mk_thr_def)

lemma mk_slot [vs]: "k < length xs \<Longrightarrow> slot (mk pre cap n h xs) (length pre + k) = xs ! k"
  by (simp add: slot_def mk_def mk_thr_def nth_append)

lemma mk_slot_last [vs]:
  assumes "xs \<noteq> []"
  shows "slot (mk pre cap n h xs) (length pre + (length xs - 1)) = last xs"
    and "slot (mk pre cap n h xs) (length pre + length xs - Suc 0) = last xs"
  using assms mk_slot [of "length xs - 1" xs pre cap n h] by (simp_all add: last_conv_nth Suc_le_eq)

lemma mk_set_slot [vs]: "k < length xs \<Longrightarrow> set_slot (length pre + k) v (mk pre cap n h xs) = mk pre cap n h (xs[k := v])"
  by (simp add: set_slot_def mk_def mk_thr_def list_update_append)

lemma mk_push [vs]:
  assumes "length xs < cap" "length pre + cap \<le> n"
  shows "set_top (length pre + length xs + 1) (mk pre cap n h xs) = mk pre cap n h (xs @ [Tv_undefined])"
proof -
  obtain m where "n - length pre - length xs = Suc m" "n - length pre - Suc (length xs) = m" using assms
    by (cases "n - length pre - length xs") simp_all
  then show ?thesis by (simp add: set_top_def mk_def mk_thr_def)
qed

lemma mk_pop [vs]:
  assumes "length pre + length xs + k \<le> n"
  shows "set_top (length pre + length xs) (mk pre cap n h (xs @ replicate k Tv_undefined)) = mk pre cap n h xs"
  using assms by (simp add: set_top_def mk_def mk_thr_def replicate_add [symmetric])

lemma blit_infix: "d + length zs \<le> length xs \<Longrightarrow> blit (pre @ xs @ post) (length pre + d) zs = pre @ blit xs d zs @ post"
  by (simp add: blit_def)

lemma mk_memmove [vs]:
  assumes "d + k \<le> length xs" "s + k \<le> length xs"
  shows "memmove_slots (length pre + d) (length pre + s) k (mk pre cap n h xs)
    = mk pre cap n h (blit xs d (take k (drop s xs)))"
proof -
  have "length (take k (drop s xs)) = k" using assms(2) by simp
  then show ?thesis using assms blit_infix [of d "take k (drop s xs)" xs pre]
    by (simp add: memmove_slots_def mk_def mk_thr_def)
qed

subsection \<open>Indices\<close>

lemma sint_cases:
  fixes x :: u32
  obtains "sint x < 0" "sint x = uint x - 2 ^ 32" "2 ^ 31 \<le> uint x" "uint x < 2 ^ 32"
  | "0 \<le> sint x" "sint x = uint x" "uint x < 2 ^ 31"
proof -
  have split: "s < 0 \<and> s = u - 2 ^ 32 \<and> 2 ^ 31 \<le> u \<and> u < 2 ^ 32 \<or> 0 \<le> s \<and> s = u \<and> u < 2 ^ 31"
    if "u < 2 ^ 32" "u = int n" "s = (if n < 2 ^ 31 then int n else int n - 2 ^ 32)" for s u :: int and n
    using that by (simp split: if_splits)
  have "sint x < 0 \<and> sint x = uint x - 2 ^ 32 \<and> 2 ^ 31 \<le> uint x \<and> uint x < 2 ^ 32
    \<or> 0 \<le> sint x \<and> sint x = uint x \<and> uint x < 2 ^ 31"
    by (rule split [of _ "unat x"]) (use uint_lt2p [of x] in simp, simp, rule sint_u32)
  then show ?thesis using that by blast
qed

lemma uidx_uint:
  assumes "len < 2 ^ 31"
  shows "uint (if (idx :: u32) <s 0 then of_nat len + idx else idx)
    = (let j = if sint idx < 0 then sint idx + int len else sint idx in if 0 \<le> j then j else j + 2 ^ 32)"
proof -
  have l: "uint (of_nat len :: u32) = int len" using assms by (simp add: unsigned_of_nat take_bit_nat_eq_self)
  show ?thesis
  proof (cases idx rule: sint_cases)
    case 1
    have "uint (of_nat len + idx) = (int len + uint idx) mod 2 ^ 32" by (simp add: uint_word_ariths l)
    also have "\<dots> = (if 2 ^ 32 \<le> int len + uint idx then int len + sint idx else int len + uint idx)"
    proof (cases "2 ^ 32 \<le> int len + uint idx")
      case True
      have "int len + uint idx = (int len + sint idx) + 2 ^ 32" using 1 by simp
      then have "(int len + uint idx) mod 2 ^ 32 = (int len + sint idx) mod 2 ^ 32" by (simp only: mod_add_self2)
      then show ?thesis using True 1 assms by simp
    qed (use 1 assms in simp)
    finally show ?thesis using 1 by (simp add: word_sless_alt Let_def)
  next
    case 2
    have "\<not> idx <s 0" using 2(1) by (simp add: word_sless_alt not_less)
    then show ?thesis using 2(1) unfolding 2(2) by simp
  qed
qed

lemma nat_of_word: "unat x = nat j" "x < of_nat m \<longleftrightarrow> j < int m" "of_nat m < x \<longleftrightarrow> int m < j"
  if "uint (x :: u32) = j" "m < 2 ^ 31" for x j m
proof -
  have "uint (of_nat m :: u32) = int m" using that(2) by (simp add: unsigned_of_nat take_bit_nat_eq_self)
  then show "x < of_nat m \<longleftrightarrow> j < int m" "of_nat m < x \<longleftrightarrow> int m < j"
    unfolding that(1) [symmetric] word_less_def by simp_all
  show "unat x = nat j" unfolding that(1) [symmetric] by simp
qed

lemma uidx_resolve:
  assumes "len < 2 ^ 31"
  shows "(let u = if (idx :: u32) <s 0 then of_nat len + idx else idx in if u < of_nat len then Some (unat u) else None)
    = resolve len (sint idx)"
proof -
  have "- (2 ^ 31) \<le> sint idx" using sint_greater_eq [of idx] by simp
  then show ?thesis using nat_of_word(1,2) [OF uidx_uint [OF assms, of idx] assms] assms
    by (simp add: resolve_def Let_def)
qed

definition fits :: "nat \<Rightarrow> nat \<Rightarrow> nat \<Rightarrow> duk_tval list \<Rightarrow> bool" where
  "fits b cap n xs \<longleftrightarrow> length xs \<le> cap \<and> b + cap \<le> n \<and> n \<le> DUK_USE_VALSTACK_LIMIT"

lemma fits_small: "fits b cap n xs \<Longrightarrow> length xs < 2 ^ 31" "fits b cap n xs \<Longrightarrow> length xs \<le> cap"
    "fits b cap n xs \<Longrightarrow> b + cap \<le> n" "fits b cap n xs \<Longrightarrow> b + length xs \<le> n" "fits b cap n xs \<Longrightarrow> cap < 2 ^ 31"
  by (auto simp: fits_def DUK_USE_VALSTACK_LIMIT_def)

lemma mk_size [vs]: "vs_size (mk_thr pre cap n xs) = of_nat (length xs)"
  by (simp add: vs_size_def)

lemma mk_require [vs]:
  assumes "fits (length pre) cap n xs"
  shows "duk_require_tval (mk_thr pre cap n xs) idx
    = (case resolve (length xs) (sint idx) of None \<Rightarrow> Inl err_index | Some k \<Rightarrow> Inr (length pre + k))"
  using uidx_resolve [OF fits_small(1) [OF assms], of idx, symmetric]
  by (simp add: duk_require_tval_def vs_uidx_def mk_size Let_def)

lemma resolve_bound: "resolve len i = Some k \<Longrightarrow> k < len"
  by (auto simp: resolve_def Let_def split: if_splits)

lemma resolve_0 [simp]: "resolve 0 i = None"
  by (auto simp: resolve_def Let_def)

lemma resolve_last [simp]: "resolve len (- 1) = (if len = 0 then None else Some (len - 1))"
  by (auto simp: resolve_def Let_def)

subsection \<open>References of a list of values\<close>

definition vedges :: "duk_tval list \<Rightarrow> edge multiset" where
  "vedges xs = (\<Sum>tv \<leftarrow> xs. mset (tval_edges tv))"

lemma vedges_simps [simp]:
  "vedges [] = {#}" "vedges (x # xs) = mset (tval_edges x) + vedges xs" "vedges (xs @ ys) = vedges xs + vedges ys"
  "vedges (replicate k Tv_undefined) = {#}"
  by (simp_all add: vedges_def, induction k) simp_all

lemma vedges_perm: "mset ys = mset xs \<Longrightarrow> vedges ys = vedges xs"
  unfolding vedges_def by (metis mset_map sum_mset_sum_list)

lemma vedges_nth: "k < length xs \<Longrightarrow> mset (tval_edges (xs ! k)) + vedges (take k xs @ drop (Suc k) xs) = vedges xs"
  by (subst (4) id_take_nth_drop [of k]) simp_all

lemma vedges_update: "k < length xs \<Longrightarrow> vedges (xs[k := v]) = mset (tval_edges v) + vedges (take k xs @ drop (Suc k) xs)"
  by (simp add: upd_conv_take_nth_drop)

lemma size_edges: "length (tval_edges tv) \<le> 1"
  by (cases tv) simp_all

lemma size_vedges: "size (vedges xs) \<le> length xs"
proof (induction xs)
  case (Cons x xs)
  then show ?case using size_edges [of x] by simp
qed simp

subsection \<open>Lists and frames\<close>

lemma insert_shift:
  assumes "k < length xs"
  shows "(blit xs (k + 1) (take (length xs - 1 - k) (drop k xs)))[k := last xs] = take k xs @ [last xs] @ drop k (butlast xs)"
proof -
  obtain ys z where "xs = ys @ [z]" using assms by (cases xs rule: rev_cases) simp_all
  then show ?thesis using assms by (cases "k = length ys") (simp_all add: blit_def upd_conv_take_nth_drop)
qed

lemma pull_shift:
  assumes "k < length xs"
  shows "(blit xs k (take (length xs - 1 - k) (drop (k + 1) xs)))[length xs - 1 := v] = take k xs @ drop (k + 1) xs @ [v]"
proof (cases "k = length xs - 1")
  case False
  then have "k < length xs - 1" using assms by simp
  then show ?thesis by (simp add: blit_def upd_conv_take_nth_drop)
qed (use assms in \<open>simp add: blit_def upd_conv_take_nth_drop\<close>)

lemma mset_replace: "k < length xs \<Longrightarrow> mset (xs ! k # butlast (xs[k := last xs])) = mset xs"
  by (cases xs rule: rev_cases) (auto simp: list_update_append butlast_append mset_update less_Suc_eq nth_append)

lemma mset_insert_last:
  assumes "k < length xs"
  shows "mset (take k xs @ [last xs] @ drop k (butlast xs)) = mset xs"
proof -
  obtain ys z where xs: "xs = ys @ [z]" using assms by (cases xs rule: rev_cases) simp_all
  have "mset (take k ys) + mset (drop k ys) = mset ys" by (metis append_take_drop_id mset_append)
  then show ?thesis using assms xs by simp
qed

lemma mset_copy: "b < length xs \<Longrightarrow> mset (xs ! b # xs[b := v]) = mset (v # xs)"
  by (simp add: mset_update)

lemma mset_remove: "k < length xs \<Longrightarrow> mset (xs ! k # take k xs @ drop (k + 1) xs) = mset xs"
  by (subst (4) id_take_nth_drop [of k]) simp_all

lemma mk_shift:
  assumes "k < length xs"
  shows "set_slot (length pre + k) (last xs) (memmove_slots (length pre + k + 1) (length pre + k) (length xs - 1 - k) (mk pre cap n h xs))
      = mk pre cap n h (take k xs @ [last xs] @ drop k (butlast xs))"
    and "set_slot (length pre + (length xs - 1)) v (memmove_slots (length pre + k) (length pre + k + 1) (length xs - 1 - k) (mk pre cap n h xs))
      = mk pre cap n h (take k xs @ drop (k + 1) xs @ [v])"
proof -
  show "set_slot (length pre + k) (last xs) (memmove_slots (length pre + k + 1) (length pre + k) (length xs - 1 - k) (mk pre cap n h xs))
      = mk pre cap n h (take k xs @ [last xs] @ drop k (butlast xs))"
    using assms mk_memmove [of "k + 1" "length xs - 1 - k" xs k] insert_shift [OF assms]
    by (simp add: mk_set_slot)
  let ?ys = "blit xs k (take (length xs - 1 - k) (drop (k + 1) xs))"
  have "length pre + (length xs - 1) = length pre + (length ?ys - 1)" "length ?ys - 1 < length ?ys" using assms by simp_all
  then have "set_slot (length pre + (length xs - 1)) v (mk pre cap n h ?ys) = mk pre cap n h (?ys[length xs - 1 := v])"
    using assms by (metis mk_set_slot add_left_cancel)
  then show "set_slot (length pre + (length xs - 1)) v (memmove_slots (length pre + k) (length pre + k + 1) (length xs - 1 - k) (mk pre cap n h xs))
      = mk pre cap n h (take k xs @ drop (k + 1) xs @ [v])"
    using assms mk_memmove [of k "length xs - 1 - k" xs "k + 1" pre cap n h] pull_shift [OF assms, of v]
    by (simp add: add.assoc)
qed

lemma mk_grow:
  assumes "length xs \<le> m" "m \<le> cap" "length pre + cap \<le> n"
  shows "set_top (length pre + m) (mk pre cap n h xs) = mk pre cap n h (xs @ replicate (m - length xs) Tv_undefined)"
  using assms by (simp add: set_top_def mk_def mk_thr_def replicate_add [symmetric])

lemma mk_pop1:
  assumes "length pre + length xs < n"
  shows "set_top (length pre + length xs) (mk pre cap n h (xs @ [Tv_undefined])) = mk pre cap n h xs"
  using mk_pop [of pre xs 1] assms by simp

text \<open>\<open>duk_pop\<close> lowers the top before it wipes the slot.\<close>

lemma mk_pop_slot:
  assumes "length pre + length xs < n"
  shows "set_slot (length pre + length xs) Tv_undefined (set_top (length pre + length xs) (mk pre cap n h (xs @ [z]))) = mk pre cap n h xs"
    and "slot (set_top (length pre + length xs) (mk pre cap n h (xs @ [z]))) (length pre + length xs) = z"
proof -
  obtain m where "n - (length pre + length xs) = Suc m" "n - Suc (length pre + length xs) = m" using assms
    by (cases "n - (length pre + length xs)") simp_all
  then show "set_slot (length pre + length xs) Tv_undefined (set_top (length pre + length xs) (mk pre cap n h (xs @ [z]))) = mk pre cap n h xs"
    "slot (set_top (length pre + length xs) (mk pre cap n h (xs @ [z]))) (length pre + length xs) = z"
    by (simp_all add: set_slot_def set_top_def slot_def mk_def mk_thr_def nth_append list_update_append)
qed

subsection \<open>The contract of reference counting\<close>

text \<open>
  A provider keeps \<open>ok ext\<close>: \<open>ext\<close> are the references held outside the heap.  An
  increment is for a value that is already referenced, and the number of references stays below
  \<open>K\<close>.
\<close>

locale refcounted =
  fixes ok :: "edge multiset \<Rightarrow> duk_heap \<Rightarrow> bool" and R :: rc_ops and K :: nat
  assumes inc: "ok ext h \<Longrightarrow> mset (tval_edges tv) \<subseteq># ext \<Longrightarrow> size ext < K \<Longrightarrow>
      \<exists>h'. rc_incref R tv h = Some h' \<and> ok (mset (tval_edges tv) + ext) h'"
    and dec: "ok (mset (tval_edges tv) + ext) h \<Longrightarrow> \<exists>h'. rc_decref R tv h = Some h' \<and> ok ext h'"
    and dec_norz: "ok (mset (tval_edges tv) + ext) h \<Longrightarrow> \<exists>h'. rc_decref_norz R tv h = Some h' \<and> ok ext h'"
    and check: "ok ext h \<Longrightarrow> \<exists>h'. rc_refzero_check R h = Some h' \<and> ok ext h'"

definition yields :: "(edge multiset \<Rightarrow> duk_heap \<Rightarrow> bool) \<Rightarrow> edge multiset \<Rightarrow> duk_tval list \<Rightarrow> nat \<Rightarrow> nat \<Rightarrow>
    unit vres \<Rightarrow> vlist_res \<Rightarrow> bool" where
  "yields ok other pre cap n r p \<longleftrightarrow> (\<exists>h'. r = Some (fst p, mk pre cap n h' (snd p))
     \<and> ok (vedges (snd p) + other) h' \<and> length (snd p) \<le> cap)"

context refcounted
begin

lemma yields_throw:
  "fits (length pre) cap n xs \<Longrightarrow> ok (vedges xs + other) h \<Longrightarrow> yields ok other pre cap n (throw e (mk pre cap n h xs)) (Inl e, xs)"
  by (auto simp: yields_def throw_def fits_def)

lemma yields_return:
  "length xs \<le> cap \<Longrightarrow> ok (vedges xs + other) h \<Longrightarrow> yields ok other pre cap n (return () (mk pre cap n h xs)) (Inr (), xs)"
  by (auto simp: yields_def return_def)

lemma yields_perm:
  "ok (vedges xs + other) h \<Longrightarrow> mset ys = mset xs \<Longrightarrow> length xs \<le> cap \<Longrightarrow>
    yields ok other pre cap n (return () (mk pre cap n h ys)) (Inr (), ys)"
  using vedges_perm [of ys xs] mset_eq_length [of ys xs] by (simp add: yields_return)

lemma yields_with_tval:
  assumes "fits (length pre) cap n xs" "ok (vedges xs + other) h"
    and "\<And>k. k < length xs \<Longrightarrow> resolve (length xs) (sint idx) = Some k \<Longrightarrow>
      yields ok other pre cap n (f (length pre + k) (mk pre cap n h xs)) (g k xs)"
  shows "yields ok other pre cap n (with_tval idx f (mk pre cap n h xs)) (at_index idx g xs)"
  using assms(3) resolve_bound [of "length xs" "sint idx"] yields_throw [OF assms(1,2), of err_index]
  by (simp add: with_tval_def at_index_def mk_require [OF assms(1)] split: option.split)

lemma yields_with_last:
  assumes "fits (length pre) cap n xs" "0 < length xs"
    and "yields ok other pre cap n (f (length pre + (length xs - 1)) (mk pre cap n h xs)) p"
  shows "yields ok other pre cap n (with_tval (- 1) f (mk pre cap n h xs)) p"
  using assms by (simp add: with_tval_def mk_require [OF assms(1)])

lemma yields_check_space:
  assumes "fits (length pre) cap n xs" "ok (vedges xs + other) h"
    and "length xs < cap \<Longrightarrow> yields ok other pre cap n (f (mk pre cap n h xs)) (g xs)"
  shows "yields ok other pre cap n (check_space f (mk pre cap n h xs)) (push_list cap g xs)"
  using assms(3) yields_throw [OF assms(1,2), of err_push_beyond]
  by (simp add: check_space_def push_list_def)

text \<open>Calls that keep the heap.\<close>

lemma on_heap_mk [simp]:
  "on_heap f (mk pre cap n h xs) = (case f h of None \<Rightarrow> None | Some h' \<Rightarrow> Some (mk pre cap n h' xs))"
  by (simp add: on_heap_def mk_def split: option.split)

lemma plain_calls:
  assumes "fits (length pre) cap n xs" "ok (vedges xs + other) h"
  shows "tval_edges tv = [] \<Longrightarrow>
      yields ok other pre cap n (push_plain tv (mk pre cap n h xs)) (push_list cap (\<lambda>xs. (Inr (), xs @ [tv])) xs)"
    and "yields ok other pre cap n (duk_push_undefined (mk pre cap n h xs))
      (push_list cap (\<lambda>xs. (Inr (), xs @ [Tv_undefined])) xs)"
proof -
  note b = fits_small [OF assms(1)]
  show "yields ok other pre cap n (push_plain tv (mk pre cap n h xs)) (push_list cap (\<lambda>xs. (Inr (), xs @ [tv])) xs)"
    if "tval_edges tv = []"
    unfolding push_plain_def using that assms(2) b(3) mk_set_slot [of "length xs" "xs @ [Tv_undefined]"]
    by (intro yields_check_space [OF assms]) (auto simp: Let_def mk_push [simplified] intro!: yields_return)
  show "yields ok other pre cap n (duk_push_undefined (mk pre cap n h xs))
      (push_list cap (\<lambda>xs. (Inr (), xs @ [Tv_undefined])) xs)"
    unfolding duk_push_undefined_def using assms(2) b(3)
    by (intro yields_check_space [OF assms]) (auto simp: mk_push [simplified] intro!: yields_return)
qed

lemma swap_call:
  assumes "fits (length pre) cap n xs" "ok (vedges xs + other) h"
  shows "yields ok other pre cap n (duk_swap i j (mk pre cap n h xs))
    (at_index i (\<lambda>a. at_index j (\<lambda>b xs. (Inr (), xs[a := xs ! b, b := xs ! a]))) xs)"
  unfolding duk_swap_def using fits_small(2) [OF assms(1)] assms(2)
  by (intro yields_with_tval [OF assms]) (auto simp: Let_def vs mset_swap intro!: yields_perm)

lemma insert_call:
  assumes "fits (length pre) cap n xs" "ok (vedges xs + other) h"
  shows "yields ok other pre cap n (duk_insert i (mk pre cap n h xs)) (at_index i insert_last xs)"
  unfolding duk_insert_def
proof (intro yields_with_tval [OF assms] yields_with_last [OF assms(1)])
  fix k assume k: "k < length xs"
  have "mset (take k xs @ [last xs] @ drop k (butlast xs)) = mset xs" "length xs \<le> cap"
    using mset_insert_last [OF k] fits_small [OF assms(1)] by simp_all
  then show "yields ok other pre cap n
      (let tv_tmp = slot (mk pre cap n h xs) (length pre + (length xs - 1));
           st = memmove_slots (length pre + k + 1) (length pre + k) (length pre + (length xs - 1) - (length pre + k)) (mk pre cap n h xs)
       in return () (set_slot (length pre + k) tv_tmp st)) (insert_last k xs)"
    using k length_greater_0_conv [of xs] mk_shift(1) [OF k, of pre cap n h] yields_perm [OF assms(2)]
    by (cases "xs = []") (auto simp: insert_last_def mk_slot_last)
qed auto

lemma pull_call:
  assumes "fits (length pre) cap n xs" "ok (vedges xs + other) h"
  shows "yields ok other pre cap n (duk_pull i (mk pre cap n h xs))
    (at_index i (\<lambda>a xs. (Inr (), take a xs @ drop (a + 1) xs @ [xs ! a])) xs)"
  unfolding duk_pull_def
proof (intro yields_with_tval [OF assms] yields_with_last [OF assms(1)])
  fix k assume k: "k < length xs"
  have "mset (take k xs @ drop (k + 1) xs @ [xs ! k]) = mset xs" "length xs \<le> cap"
    using mset_remove [OF k] fits_small [OF assms(1)] by simp_all
  then show "yields ok other pre cap n
      (let tv_tmp = slot (mk pre cap n h xs) (length pre + k);
           st = memmove_slots (length pre + k) (length pre + k + 1) (length pre + (length xs - 1) - (length pre + k)) (mk pre cap n h xs)
       in return () (set_slot (length pre + (length xs - 1)) tv_tmp st)) (Inr (), take k xs @ drop (k + 1) xs @ [xs ! k])"
    using k mk_shift(2) [OF k, of pre "xs ! k" cap n h] yields_perm [OF assms(2)]
    by (simp add: mk_slot)
qed auto

lemma swap_top_call:
  assumes "fits (length pre) cap n xs" "ok (vedges xs + other) h"
  shows "yields ok other pre cap n (duk_swap_top i (mk pre cap n h xs))
    (at_index i (\<lambda>a xs. (Inr (), xs[a := last xs, length xs - 1 := xs ! a])) xs)"
proof -
  have "at_index i (\<lambda>a. at_index (- 1) (\<lambda>b xs. (Inr (), xs[a := xs ! b, b := xs ! a]))) xs
    = at_index i (\<lambda>a xs. (Inr (), xs[a := last xs, length xs - 1 := xs ! a])) xs"
    using resolve_bound [of "length xs" "sint i"] by (auto simp: at_index_def last_conv_nth split: option.split)
  then show ?thesis using swap_call [OF assms, of i "- 1"] by (simp only: duk_swap_top_def)
qed

lemma insert_undefined_call:
  assumes "fits (length pre) cap n xs" "ok (vedges xs + other) h"
  shows "yields ok other pre cap n (duk_insert_undefined i (mk pre cap n h xs))
    (push_list cap (\<lambda>xs. at_index i insert_last (xs @ [Tv_undefined])) xs)"
proof (cases "cap \<le> length xs")
  case True
  then have "duk_push_undefined (mk pre cap n h xs) = throw err_push_beyond (mk pre cap n h xs)"
    by (simp add: duk_push_undefined_def check_space_def)
  then show ?thesis
    using True yields_throw [OF assms, of err_push_beyond] by (simp add: duk_insert_undefined_def push_list_def throw_def)
next
  case False
  then have f: "fits (length pre) cap n (xs @ [Tv_undefined])" using assms(1) by (simp add: fits_def)
  have "duk_push_undefined (mk pre cap n h xs) = return () (mk pre cap n h (xs @ [Tv_undefined]))"
    using False fits_small [OF assms(1)] by (simp add: duk_push_undefined_def check_space_def mk_push [simplified])
  then show ?thesis
    using False insert_call [OF f, of other h i] assms(2) by (simp add: duk_insert_undefined_def push_list_def return_def)
qed

text \<open>Calls that count references.\<close>

lemma take_ref:
  assumes "ok (vedges xs + other) h" "mset (v # ys) = mset xs"
  shows "ok (mset (tval_edges v) + (vedges ys + other)) h"
  using assms(1) unfolding vedges_perm [OF assms(2), symmetric] by (simp add: add.assoc)

lemma push_copy_call:
  assumes "fits (length pre) cap n xs" "ok (vedges xs + other) h" "size other + n < K"
    and "k < length xs" "length xs < cap"
  shows "yields ok other pre cap n (push_copy R (length pre + k) (mk pre cap n h xs)) (Inr (), xs @ [xs ! k])"
proof -
  have "mset (tval_edges (xs ! k)) \<subseteq># vedges xs + other"
    using vedges_nth [OF assms(4)] by (metis mset_subset_eq_add_left add.assoc)
  moreover have "size (vedges xs + other) < K"
    using size_vedges [of xs] assms(3) fits_small(4) [OF assms(1)] by simp
  ultimately obtain h' where "rc_incref R (xs ! k) h = Some h'" "ok (mset (tval_edges (xs ! k)) + (vedges xs + other)) h'"
    using inc [OF assms(2)] by blast
  moreover from this have "ok (vedges (xs @ [xs ! k]) + other) h'" by (simp add: ac_simps)
  ultimately show ?thesis
    using assms(4,5) fits_small(3) [OF assms(1)] mk_set_slot [of "length xs" "xs @ [Tv_undefined]" pre "xs ! k" cap n h]
    by (simp add: push_copy_def mk_push [simplified] mk_slot yields_return)
qed

lemma dup_calls:
  assumes "fits (length pre) cap n xs" "ok (vedges xs + other) h" "size other + n < K"
  shows "yields ok other pre cap n (duk_dup R i (mk pre cap n h xs))
      (push_list cap (at_index i (\<lambda>k xs. (Inr (), xs @ [xs ! k]))) xs)"
    and "yields ok other pre cap n (duk_dup_top R (mk pre cap n h xs))
      (push_list cap (at_index (- 1) (\<lambda>k xs. (Inr (), xs @ [xs ! k]))) xs)"
proof -
  show "yields ok other pre cap n (duk_dup R i (mk pre cap n h xs))
      (push_list cap (at_index i (\<lambda>k xs. (Inr (), xs @ [xs ! k]))) xs)"
    unfolding duk_dup_def
    by (intro yields_check_space [OF assms(1,2)] yields_with_tval [OF assms(1,2)] push_copy_call [OF assms])
  have "yields ok other pre cap n (if int (valstack_top (thr (mk pre cap n h xs))) - int (valstack_bottom (thr (mk pre cap n h xs))) \<le> 0
       then throw err_index (mk pre cap n h xs) else push_copy R (valstack_top (thr (mk pre cap n h xs)) - 1) (mk pre cap n h xs))
     (at_index (- 1) (\<lambda>k xs. (Inr (), xs @ [xs ! k])) xs)" if "length xs < cap"
    using push_copy_call [OF assms, of "length xs - 1"] that yields_throw [OF assms(1,2), of err_index]
    by (cases "xs = []") (simp_all add: at_index_def Suc_le_eq)
  then show "yields ok other pre cap n (duk_dup_top R (mk pre cap n h xs))
      (push_list cap (at_index (- 1) (\<lambda>k xs. (Inr (), xs @ [xs ! k]))) xs)"
    unfolding duk_dup_top_def by (intro yields_check_space [OF assms(1,2)]) simp
qed

lemma replace_call:
  assumes "fits (length pre) cap n xs" "ok (vedges xs + other) h"
  shows "yields ok other pre cap n (duk_replace R i (mk pre cap n h xs))
    (at_index i (\<lambda>a xs. (Inr (), butlast (xs[a := last xs]))) xs)"
proof (cases "xs = []")
  case True
  then show ?thesis using yields_throw [OF assms, of err_index]
    by (simp add: duk_replace_def with_tval_def at_index_def mk_require [OF assms(1) [unfolded True]])
next
  case False
  let ?f = "\<lambda>tv1 tv2 st. do {
     let tv_tmp = slot st tv2;
     let st = set_slot tv2 (slot st tv1) st;
     let st = set_slot tv1 Tv_undefined st;
     let st = set_top (valstack_top (thr st) - 1) st;
     st \<leftarrow> on_heap (rc_decref R tv_tmp) st;
     return () st }"
  have "yields ok other pre cap n (?f (length pre + (length xs - 1)) (length pre + k) (mk pre cap n h xs))
      (Inr (), butlast (xs[k := last xs]))" if k: "k < length xs" for k
  proof -
    let ?ys = "butlast (xs[k := last xs])"
    have "ok (mset (tval_edges (xs ! k)) + (vedges ?ys + other)) h"
      by (rule take_ref [OF assms(2) mset_replace [OF k]])
    then obtain h' where h: "rc_decref R (xs ! k) h = Some h'" "ok (vedges ?ys + other) h'" using dec by blast
    have l: "xs[k := last xs, length xs - 1 := Tv_undefined] = ?ys @ [Tv_undefined]"
      using False by (cases "xs[k := last xs]" rule: rev_cases) (auto simp: list_update_append dest: arg_cong [of _ _ length])
    have "set_slot (length pre + (length xs - 1)) Tv_undefined (set_slot (length pre + k) (last xs) (mk pre cap n h xs))
      = mk pre cap n h (?ys @ [Tv_undefined])"
      using k mk_set_slot [of "length xs - 1" "xs[k := last xs]" pre Tv_undefined cap n h] False
      by (simp add: mk_set_slot l [simplified])
    moreover have "set_top (length pre + length ?ys) (mk pre cap n h (?ys @ [Tv_undefined])) = mk pre cap n h ?ys"
      using False fits_small(4) [OF assms(1)] by (intro mk_pop1) (auto simp: neq_Nil_conv)
    ultimately show ?thesis
      using k False h fits_small(2) [OF assms(1)] by (simp add: mk_slot mk_slot_last Suc_le_eq yields_return)
  qed
  then show ?thesis using False unfolding duk_replace_def
    by (intro yields_with_last [OF assms(1)] yields_with_tval [OF assms]) simp_all
qed

lemma copy_call:
  assumes "fits (length pre) cap n xs" "ok (vedges xs + other) h" "size other + n < K"
  shows "yields ok other pre cap n (duk_copy R i j (mk pre cap n h xs))
    (at_index i (\<lambda>a. at_index j (\<lambda>b xs. (Inr (), xs[b := xs ! a]))) xs)"
  unfolding duk_copy_def
proof (intro yields_with_tval [OF assms(1,2)])
  fix a b assume k: "a < length xs" "b < length xs"
  let ?ys = "xs[b := xs ! a]"
  have "mset (tval_edges (xs ! a)) \<subseteq># vedges xs + other"
    using vedges_nth [OF k(1)] by (metis mset_subset_eq_add_left add.assoc)
  moreover have "size (vedges xs + other) < K"
    using size_vedges [of xs] assms(3) fits_small(4) [OF assms(1)] by simp
  ultimately obtain h1 where h1: "rc_incref R (xs ! a) h = Some h1" "ok (mset (tval_edges (xs ! a)) + (vedges xs + other)) h1"
    using inc [OF assms(2)] by blast
  have "mset (tval_edges (xs ! a)) + (vedges xs + other) = mset (tval_edges (xs ! b)) + (vedges ?ys + other)"
    using vedges_perm [OF mset_copy [OF k(2), of "xs ! a"]] by (simp add: add.assoc [symmetric])
  then obtain h2 where "rc_decref R (xs ! b) h1 = Some h2" "ok (vedges ?ys + other) h2"
    using dec h1(2) by metis
  then show "yields ok other pre cap n (do {
       st \<leftarrow> set_tval_updref R (length pre + b) (slot (mk pre cap n h xs) (length pre + a)) (mk pre cap n h xs);
       return () st }) (Inr (), ?ys)"
    using k h1(1) fits_small(2) [OF assms(1)]
    by (simp add: set_tval_updref_def mk_slot mk_set_slot yields_return)
qed

lemma remove_call:
  assumes "fits (length pre) cap n xs" "ok (vedges xs + other) h"
  shows "yields ok other pre cap n (duk_remove R i (mk pre cap n h xs))
    (at_index i (\<lambda>a xs. (Inr (), take a xs @ drop (a + 1) xs)) xs)"
  unfolding duk_remove_def
proof (intro yields_with_tval [OF assms] yields_with_last [OF assms(1)])
  fix k assume k: "k < length xs"
  let ?ys = "take k xs @ drop (k + 1) xs"
  have "ok (mset (tval_edges (xs ! k)) + (vedges ?ys + other)) h"
    by (rule take_ref [OF assms(2) mset_remove [OF k]])
  then obtain h' where h: "rc_decref R (xs ! k) h = Some h'" "ok (vedges ?ys + other) h'" using dec by blast
  have l: "length ?ys = length xs - 1" "length ?ys \<le> cap" using k fits_small(2) [OF assms(1)] by simp_all
  then have "set_top (length pre + (length xs - 1)) (mk pre cap n h (?ys @ [Tv_undefined])) = mk pre cap n h ?ys"
    using mk_pop1 [of pre ?ys n cap h] k fits_small(4) [OF assms(1)] by simp
  moreover have "set_slot (length pre + (length xs - 1)) Tv_undefined
      (memmove_slots (length pre + k) (length pre + k + 1) (length xs - 1 - k) (mk pre cap n h xs))
    = mk pre cap n h (?ys @ [Tv_undefined])"
    using mk_shift(2) [OF k] by simp
  moreover have "valstack_top (mk_thr pre cap n (?ys @ [Tv_undefined])) - 1 = length pre + (length xs - 1)"
    using l k by simp
  moreover have "length pre + (length xs - 1) - (length pre + k) = length xs - 1 - k" by simp
  ultimately show "yields ok other pre cap n (do {
     let tv_tmp = slot (mk pre cap n h xs) (length pre + k);
     let st = memmove_slots (length pre + k) (length pre + k + 1) (length pre + (length xs - 1) - (length pre + k)) (mk pre cap n h xs);
     let st = set_slot (length pre + (length xs - 1)) Tv_undefined st;
     let st = set_top (valstack_top (thr st) - 1) st;
     st \<leftarrow> on_heap (rc_decref R tv_tmp) st;
     return () st }) (Inr (), ?ys)"
    using h yields_return [OF l(2) h(2)] by (simp only: Let_def mk_slot [OF k] mk_fields on_heap_mk option.case bind.bind_lunit)
qed auto

lemma wipe_down_spec:
  assumes "k \<le> length ys" "ok (vedges ys + other) h" "length pre + length ys + j \<le> n"
  shows "\<exists>h'. wipe_down R (length pre + length ys) k (mk pre cap n h (ys @ replicate j Tv_undefined))
      = Some (mk pre cap n h' (take (length ys - k) ys @ replicate (k + j) Tv_undefined))
    \<and> ok (vedges (take (length ys - k) ys) + other) h'"
  using assms
proof (induction k arbitrary: ys h j)
  case (Suc k)
  obtain zs z where ys: "ys = zs @ [z]" using Suc.prems(1) by (cases ys rule: rev_cases) simp_all
  have "ok (mset (tval_edges z) + (vedges zs + other)) h" using Suc.prems(2) ys by (simp add: ac_simps)
  then obtain h1 where h1: "rc_decref_norz R z h = Some h1" "ok (vedges zs + other) h1" using dec_norz by blast
  have "set_undefined_updref (rc_decref_norz R) (length pre + length zs) (mk pre cap n h (ys @ replicate j Tv_undefined))
    = Some (mk pre cap n h1 (zs @ replicate (Suc j) Tv_undefined))"
    using h1(1) mk_slot [of "length zs" "ys @ replicate j Tv_undefined" pre cap n h]
      mk_set_slot [of "length zs" "ys @ replicate j Tv_undefined" pre Tv_undefined cap n h]
    by (simp add: set_undefined_updref_def ys nth_append list_update_append)
  then show ?case using Suc.IH [of zs h1 "Suc j"] Suc.prems h1(2) ys by simp
qed auto

text \<open>Popping several values: the check for pending finalizers comes last.\<close>

lemma wipe_and_check:
  assumes "fits (length pre) cap n xs" "ok (vedges xs + other) h" "k \<le> length xs"
  shows "\<exists>h'. (do { st \<leftarrow> wipe_down R (length pre + length xs) k (mk pre cap n h xs);
       on_heap (rc_refzero_check R) (set_top (length pre + length xs - k) st) })
      = Some (mk pre cap n h' (take (length xs - k) xs))
    \<and> ok (vedges (take (length xs - k) xs) + other) h'"
proof -
  obtain h1 where h1: "wipe_down R (length pre + length xs) k (mk pre cap n h xs)
      = Some (mk pre cap n h1 (take (length xs - k) xs @ replicate k Tv_undefined))"
    "ok (vedges (take (length xs - k) xs) + other) h1"
    using wipe_down_spec [OF assms(3,2), of pre 0 n cap] fits_small(4) [OF assms(1)] by auto
  have "length pre + length xs - k = length pre + length (take (length xs - k) xs)" using assms(3) by simp
  then have "set_top (length pre + length xs - k) (mk pre cap n h1 (take (length xs - k) xs @ replicate k Tv_undefined))
    = mk pre cap n h1 (take (length xs - k) xs)"
    using mk_pop [of pre "take (length xs - k) xs" k n cap h1] fits_small(4) [OF assms(1)] assms(3) by simp
  then show ?thesis using check [OF h1(2)] h1(1) by auto
qed

lemma pop_n_call:
  assumes "fits (length pre) cap n xs" "ok (vedges xs + other) h"
  shows "yields ok other pre cap n (duk_pop_n R k (mk pre cap n h xs)) (drop_last (unat k) xs)"
proof (cases "length xs < unat k")
  case True
  then have "of_nat (length xs) < k" using fits_small(1) [OF assms(1)]
    by (simp add: word_less_nat_alt unsigned_of_nat take_bit_nat_eq_self)
  then show ?thesis using True yields_throw [OF assms, of err_count] by (simp add: duk_pop_n_def mk_size drop_last_def)
next
  case False
  then have "\<not> of_nat (length xs) < k" using fits_small(1) [OF assms(1)]
    by (simp add: word_less_nat_alt unsigned_of_nat take_bit_nat_eq_self)
  moreover obtain h' where "pop_n_unsafe_raw R (unat k) (mk pre cap n h xs) = Some (mk pre cap n h' (take (length xs - unat k) xs))"
    "ok (vedges (take (length xs - unat k) xs) + other) h'"
    using wipe_and_check [OF assms, of "unat k"] False by (auto simp: pop_n_unsafe_raw_def)
  ultimately show ?thesis
    using False fits_small(2) [OF assms(1)] by (simp add: duk_pop_n_def mk_size drop_last_def yields_return)
qed

lemma pop_raw:
  assumes "fits (length pre) cap n (xs @ [z])" "ok (vedges (xs @ [z]) + other) h"
  shows "\<exists>h'. pop_unsafe_raw R (mk pre cap n h (xs @ [z])) = Some (mk pre cap n h' xs) \<and> ok (vedges xs + other) h'"
proof -
  have "ok (mset (tval_edges z) + (vedges xs + other)) h" by (rule take_ref [OF assms(2)]) simp
  then obtain h' where "rc_decref R z h = Some h'" "ok (vedges xs + other) h'" using dec by blast
  then show ?thesis using mk_pop_slot [of pre xs n cap h z] fits_small(4) [OF assms(1)]
    by (auto simp: pop_unsafe_raw_def set_undefined_updref_def)
qed

lemma pop_2_raw: "pop_2_unsafe_raw R st = do { st \<leftarrow> pop_unsafe_raw R st; pop_unsafe_raw R st }"
  by (simp add: pop_2_unsafe_raw_def pop_unsafe_raw_def Let_def)

lemma pop_calls:
  assumes "fits (length pre) cap n xs" "ok (vedges xs + other) h"
  shows "yields ok other pre cap n (duk_pop R (mk pre cap n h xs)) (drop_last 1 xs)"
    and "yields ok other pre cap n (duk_pop_2 R (mk pre cap n h xs)) (drop_last 2 xs)"
proof -
  show "yields ok other pre cap n (duk_pop R (mk pre cap n h xs)) (drop_last 1 xs)"
  proof (cases xs rule: rev_cases)
    case Nil
    then show ?thesis using yields_throw [OF assms, of err_count] by (simp add: duk_pop_def drop_last_def)
  next
    case (snoc ys z)
    then show ?thesis using pop_raw [of pre cap n ys z other h] assms fits_small(2) [OF assms(1)]
      by (auto simp: duk_pop_def drop_last_def intro!: yields_return)
  qed
  show "yields ok other pre cap n (duk_pop_2 R (mk pre cap n h xs)) (drop_last 2 xs)"
  proof (cases "length xs < 2")
    case True
    then show ?thesis using yields_throw [OF assms, of err_count] by (simp add: duk_pop_2_def drop_last_def)
  next
    case False
    obtain ws z where ws: "xs = ws @ [z]" using False by (cases xs rule: rev_cases) simp_all
    obtain ys y where "ws = ys @ [y]" using False ws by (cases ws rule: rev_cases) simp_all
    then have xs: "xs = (ys @ [y]) @ [z]" using ws by simp
    then obtain h1 where h1: "pop_unsafe_raw R (mk pre cap n h xs) = Some (mk pre cap n h1 (ys @ [y]))" "ok (vedges (ys @ [y]) + other) h1"
      using pop_raw [of pre cap n "ys @ [y]" z other h] assms by blast
    moreover have "fits (length pre) cap n (ys @ [y])" using assms(1) xs by (simp add: fits_def)
    then obtain h2 where "pop_unsafe_raw R (mk pre cap n h1 (ys @ [y])) = Some (mk pre cap n h2 ys)" "ok (vedges ys + other) h2"
      using pop_raw h1(2) by blast
    ultimately show ?thesis using False fits_small(2) [OF assms(1)] xs
      by (simp add: duk_pop_2_def pop_2_raw drop_last_def yields_return)
  qed
qed

lemma set_top_call:
  assumes "fits (length pre) cap n xs" "ok (vedges xs + other) h"
  shows "yields ok other pre cap n (duk_set_top R i (mk pre cap n h xs)) (set_length cap (sint i) xs)"
proof -
  note b = fits_small [OF assms(1)]
  let ?u = "vs_uidx (mk_thr pre cap n xs) i"
  obtain j where j: "j = (if sint i < 0 then sint i + int (length xs) else sint i)" by blast
  have sl: "set_length cap (sint i) xs = (if 0 \<le> j \<and> j \<le> int cap
      then (Inr (), take (nat j) xs @ replicate (nat j - length xs) Tv_undefined) else (Inl err_index, xs))"
    unfolding set_length_def Let_def j by (rule refl)
  have jb: "- (2 ^ 31) \<le> j" using sint_greater_eq [of i] by (simp add: j)
  have u: "uint ?u = (if 0 \<le> j then j else j + 2 ^ 32)"
    unfolding vs_uidx_def mk_size j using uidx_uint [OF b(1), of i] by (simp only: Let_def)
  have lim: "of_nat cap < ?u \<longleftrightarrow> \<not> (0 \<le> j \<and> j \<le> int cap)" using nat_of_word(3) [OF u b(5)] jb b(5) by auto
  show ?thesis
  proof (cases "0 \<le> j \<and> j \<le> int cap")
    case False
    then have "set_length cap (sint i) xs = (Inl err_index, xs)" unfolding sl by (simp only: if_False)
    then show ?thesis using False lim yields_throw [OF assms, of err_index] by (simp add: duk_set_top_def Let_def)
  next
    case True
    then have n: "unat ?u = nat j" "?u < of_nat (length xs) \<longleftrightarrow> j < int (length xs)"
      using nat_of_word(1,2) [OF u b(1)] by simp_all
    let ?m = "nat j"
    have "\<exists>h'. duk_set_top_unsafe R ?u (mk pre cap n h xs)
        = Some (mk pre cap n h' (take ?m xs @ replicate (?m - length xs) Tv_undefined))
      \<and> ok (vedges (take ?m xs) + other) h'"
    proof (cases "j < int (length xs)")
      case True
      then have "unat (of_nat (length xs) - ?u) = length xs - ?m"
        using n b(1) by (simp add: unat_sub word_le_nat_alt unsigned_of_nat take_bit_nat_eq_self)
      then show ?thesis
        using True n wipe_and_check [OF assms, of "length xs - ?m"] by (auto simp: duk_set_top_unsafe_def mk_size Let_def)
    next
      case False
      then have "length xs \<le> ?m" "?m \<le> cap" using True by linarith+
      then show ?thesis
        using False n mk_grow [of xs ?m cap pre n h] b(3) assms(2) by (auto simp: duk_set_top_unsafe_def mk_size not_le)
    qed
    then obtain h' where h: "duk_set_top_unsafe R ?u (mk pre cap n h xs)
        = Some (mk pre cap n h' (take ?m xs @ replicate (?m - length xs) Tv_undefined))"
      "ok (vedges (take ?m xs) + other) h'" by blast
    have "length (take ?m xs @ replicate (?m - length xs) Tv_undefined) \<le> cap" using True b(2) by auto
    then show ?thesis using True lim h by (auto simp: duk_set_top_def sl Let_def intro!: yields_return)
  qed
qed

lemma exec_yields:
  assumes "fits (length pre) cap n xs" "ok (vedges xs + other) h" "size other + n < K"
  shows "yields ok other pre cap n (exec R c (mk pre cap n h xs)) (list_call cap c xs)"
  using plain_calls [OF assms(1,2)] swap_call [OF assms(1,2)] swap_top_call [OF assms(1,2)] insert_call [OF assms(1,2)]
    pull_call [OF assms(1,2)] insert_undefined_call [OF assms(1,2)] dup_calls [OF assms] replace_call [OF assms(1,2)]
    copy_call [OF assms] remove_call [OF assms(1,2)] pop_n_call [OF assms(1,2)] pop_calls [OF assms(1,2)]
    set_top_call [OF assms(1,2)] pop_n_call [OF assms(1,2), of 3]
  by (cases c) (simp_all add: duk_push_null_def duk_push_boolean_def duk_push_true_def duk_push_false_def duk_pop_3_def)

end

text \<open>The invariant of a state, and a client that goes on after each error.\<close>

definition vs_ok :: "(edge multiset \<Rightarrow> duk_heap \<Rightarrow> bool) \<Rightarrow> edge multiset \<Rightarrow> vstate \<Rightarrow> bool" where
  "vs_ok ok other st \<longleftrightarrow> vs_inv (thr st) \<and> ok (vedges (valstack (thr st)) + other) (vs_heap st)"

primrec run_calls :: "rc_ops \<Rightarrow> vcall list \<Rightarrow> vstate \<Rightarrow> (unit result list \<times> vstate) option" where
  "run_calls R [] st = Some ([], st)"
| "run_calls R (c # cs) st = do {
     (r, st) \<leftarrow> exec R c st;
     (rs, st) \<leftarrow> run_calls R cs st;
     Some (r # rs, st) }"

primrec list_calls :: "nat \<Rightarrow> vcall list \<Rightarrow> duk_tval list \<Rightarrow> unit result list \<times> duk_tval list" where
  "list_calls cap [] xs = ([], xs)"
| "list_calls cap (c # cs) xs =
    (let (r, ys) = list_call cap c xs; (rs, zs) = list_calls cap cs ys in (r # rs, zs))"

definition reserve :: "vstate \<Rightarrow> nat" where
  "reserve st = valstack_end (thr st) - valstack_bottom (thr st)"

lemma same_base_trans: "same_base t1 t2 \<Longrightarrow> same_base t2 t3 \<Longrightarrow> same_base t1 t3"
  by (simp add: same_base_def)

context refcounted
begin

lemma exec_refines:
  assumes "vs_ok ok other st" "size other + 2 * DUK_USE_VALSTACK_LIMIT < K"
  shows "\<exists>st'. exec R c st = Some (fst (list_call (reserve st) c (vs_frame (thr st))), st')
    \<and> vs_frame (thr st') = snd (list_call (reserve st) c (vs_frame (thr st)))
    \<and> vs_ok ok other st' \<and> same_base (thr st) (thr st')"
proof -
  let ?t = "thr st" and ?p = "list_call (reserve st) c (vs_frame (thr st))"
  let ?pre = "take (valstack_bottom ?t) (valstack ?t)" and ?n = "length (valstack ?t)"
  have inv: "vs_inv ?t" using assms(1) by (simp add: vs_ok_def)
  have st: "st = mk ?pre (reserve st) ?n (vs_heap st) (vs_frame ?t)"
    using vs_inv_mk [OF inv] by (simp add: mk_def reserve_def)
  have fits: "fits (length ?pre) (reserve st) ?n (vs_frame ?t)"
    using inv by (auto simp: fits_def vs_inv_def vs_frame_def reserve_def min_def)
  have v: "vedges (valstack (mk_thr pre cap n xs)) = vedges pre + vedges xs" for pre cap n xs
    by (simp add: mk_thr_def)
  have "valstack ?t = valstack (mk_thr ?pre (reserve st) ?n (vs_frame ?t))" using st by (metis mk_fields(2))
  then have ok: "ok (vedges (vs_frame ?t) + (vedges ?pre + other)) (vs_heap st)"
    using assms(1) v [of ?pre "reserve st" ?n "vs_frame ?t"] by (simp add: vs_ok_def ac_simps)
  have "length ?pre \<le> DUK_USE_VALSTACK_LIMIT" "?n \<le> DUK_USE_VALSTACK_LIMIT" using inv by (auto simp: vs_inv_def)
  then have "size (vedges ?pre + other) + ?n < K" using assms(2) size_vedges [of ?pre] by simp
  then obtain h' where h: "exec R c st = Some (fst ?p, mk ?pre (reserve st) ?n h' (snd ?p))"
    "ok (vedges (snd ?p) + (vedges ?pre + other)) h'" "length (snd ?p) \<le> reserve st"
    using exec_yields [OF fits ok, of c] st unfolding yields_def by metis
  have b: "length ?pre + reserve st \<le> ?n" "?n \<le> DUK_USE_VALSTACK_LIMIT" using fits by (simp_all only: fits_def)
  have "vs_ok ok other (mk ?pre (reserve st) ?n h' (snd ?p))"
    using h(2) mk_inv [OF h(3) b] by (simp add: vs_ok_def v ac_simps)
  moreover have "same_base ?t (thr (mk ?pre (reserve st) ?n h' (snd ?p)))"
    using mk_base [OF _ h(3) b(1), of "vs_frame ?t"] fits vs_inv_mk [OF inv] by (simp add: fits_def reserve_def)
  moreover have "vs_frame (thr (mk ?pre (reserve st) ?n h' (snd ?p))) = snd ?p" using h(3) b(1) by simp
  ultimately show ?thesis using h(1) by blast
qed

lemma run_calls_refines:
  assumes "vs_ok ok other st" "size other + 2 * DUK_USE_VALSTACK_LIMIT < K"
  shows "\<exists>st'. run_calls R cs st = Some (fst (list_calls (reserve st) cs (vs_frame (thr st))), st')
    \<and> vs_frame (thr st') = snd (list_calls (reserve st) cs (vs_frame (thr st)))
    \<and> vs_ok ok other st' \<and> same_base (thr st) (thr st')"
  using assms(1)
proof (induction cs arbitrary: st)
  case (Cons c cs)
  obtain st1 where s1: "exec R c st = Some (fst (list_call (reserve st) c (vs_frame (thr st))), st1)"
    "vs_frame (thr st1) = snd (list_call (reserve st) c (vs_frame (thr st)))"
    "vs_ok ok other st1" "same_base (thr st) (thr st1)"
    using exec_refines [OF Cons.prems assms(2), of c] by blast
  have r: "reserve st1 = reserve st" using s1(4) by (simp add: reserve_def same_base_def)
  obtain st2 where "run_calls R cs st1 = Some (fst (list_calls (reserve st1) cs (vs_frame (thr st1))), st2)"
    "vs_frame (thr st2) = snd (list_calls (reserve st1) cs (vs_frame (thr st1)))"
    "vs_ok ok other st2" "same_base (thr st1) (thr st2)"
    using Cons.IH [OF s1(3)] by blast
  then show ?case using s1 same_base_trans [OF s1(4)] by (simp add: r split: prod.split)
qed (simp add: same_base_def)

end

subsection \<open>The reference counts of the engine\<close>

definition refcounting :: "finalizer_call \<Rightarrow> nat \<Rightarrow> nat \<Rightarrow> rc_ops" where
  "refcounting call N n = (let PF = duk_heap_process_finalize_list call N n 2 in
     \<lparr>rc_incref = tval_incref, rc_decref = duk_tval_decref PF N, rc_decref_norz = duk_tval_decref_norz PF N,
      rc_refzero_check = (\<lambda>heap. if finalize_list heap \<noteq> [] then PF heap else Some heap)\<rparr>)"

text \<open>
  A heap in normal operation: well-formed, no collector and no finalizer loop running, at most
  \<open>N\<close> cells, few enough references for 32-bit counts, and finalizers that return.
\<close>

definition live_heap :: "finalizer_call \<Rightarrow> nat \<Rightarrow> nat \<Rightarrow> edge multiset \<Rightarrow> duk_heap \<Rightarrow> bool" where
  "live_heap call N n ext heap \<longleftrightarrow> heap_ok ext heap \<and> gentle_finalizer call
   \<and> \<not> ms_running heap \<and> pf_prevent_count heap = 0 \<and> set (finalize_list heap) \<subseteq> unfinalized heap
   \<and> card (dom (cells heap)) \<le> N \<and> N < n \<and> size (own heap {}) < 2 ^ 31 - 2 \<and> size ext \<le> 2 ^ 31"

lemma refs_to_size: "refs_to heap {} ext a \<le> size (own heap {}) + size ext"
  unfolding refs_to_def by (metis count_le_size size_image_mset size_union)

lemma live_room: "live_heap call N n ext heap \<Longrightarrow> room ext heap"
  using refs_to_size [of heap ext] unfolding live_heap_def room_def
  by (fastforce intro: le_less_trans [OF add_right_mono])

lemma live_dest:
  assumes "live_heap call N n ext heap"
  shows "heap_ok ext heap" "gentle_finalizer call" "\<not> ms_running heap" "pf_prevent_count heap = 0"
    "set (finalize_list heap) \<subseteq> unfinalized heap" "card (dom (cells heap)) \<le> N" "N < n" "size (own heap {}) < 2 ^ 31 - 2"
    "size ext \<le> 2 ^ 31" "finite (dom (cells heap))"
proof -
  show "heap_ok ext heap" "gentle_finalizer call" "\<not> ms_running heap" "pf_prevent_count heap = 0"
    "set (finalize_list heap) \<subseteq> unfinalized heap" "card (dom (cells heap)) \<le> N" "N < n" "size (own heap {}) < 2 ^ 31 - 2"
    "size ext \<le> 2 ^ 31"
    using assms unfolding live_heap_def by - (elim conjE, assumption)+
  then show "finite (dom (cells heap))" unfolding heap_ok_def heap_inv_def by - (elim conjE, assumption)
qed

lemma live_frame:
  assumes "live_heap call N n ext heap" "heap_frame heap heap'" "heap_ok ext' heap'" "size ext' \<le> 2 ^ 31"
  shows "live_heap call N n ext' heap'"
proof -
  note l = live_dest [OF assms(1)]
  have g: "gentle heap heap'" by (rule frame_gentle [OF l(10) assms(2)])
  have "own heap' {} \<subseteq># own heap {}" "dom (cells heap') \<subseteq> dom (cells heap)" "waits heap heap'"
    "unfinalized heap' = unfinalized heap \<inter> dom (cells heap')"
    "ms_running heap' = ms_running heap" "pf_prevent_count heap' = pf_prevent_count heap"
    using g by (simp_all only: gentle_def)
  moreover have "set (finalize_list heap') \<subseteq> dom (cells heap')"
    using assms(3) unfolding heap_ok_def by (intro waiting_cells) (elim conjE)
  then have "set (finalize_list heap') \<subseteq> unfinalized heap'"
    using l(5) \<open>waits heap heap'\<close> \<open>unfinalized heap' = unfinalized heap \<inter> dom (cells heap')\<close> unfolding waits_def by blast
  moreover have "size (own heap' {}) \<le> size (own heap {})" using \<open>own heap' {} \<subseteq># own heap {}\<close> by (rule size_mset_mono)
  moreover have "card (dom (cells heap')) \<le> card (dom (cells heap))"
    using card_mono [OF l(10) \<open>dom (cells heap') \<subseteq> dom (cells heap)\<close>] .
  ultimately show ?thesis using l assms(3,4) unfolding live_heap_def by linarith
qed

lemma live_process:
  assumes "live_heap call N n ext heap"
  shows "\<exists>heap'. duk_heap_process_finalize_list call N n 2 heap = Some heap' \<and> live_heap call N n ext heap'"
proof -
  note l = live_dest [OF assms]
  have "card (dom (cells heap)) < n" using l(6,7) by linarith
  then obtain heap' where h: "duk_heap_process_finalize_list call N n 2 heap = Some heap'" "heap_ok ext heap'"
    "finalize_list heap' = []" "pf_prevent_count heap' = 0" "dom (cells heap') \<subseteq> dom (cells heap)"
    "own heap' {} \<subseteq># own heap {}" "\<not> ms_running heap'"
    using process_completes [OF l(1,3,4,2,5) live_room [OF assms] l(6), of n 0] by (auto simp: numeral_2_eq_2)
  have "card (dom (cells heap')) \<le> N" using card_mono [OF l(10) h(5)] l(6) by linarith
  moreover have "size (own heap' {}) < 2 ^ 31 - 2" using size_mset_mono [OF h(6)] l(8) by linarith
  ultimately have "live_heap call N n ext heap'" using h(2-4,7) l(2,7,9) by (simp add: live_heap_def)
  then show ?thesis using h(1) by blast
qed

lemma live_inc:
  assumes "live_heap call N n ext heap" "mset (tval_edges tv) \<subseteq># ext" "size ext < 2 ^ 31"
  shows "\<exists>heap'. tval_incref tv heap = Some heap' \<and> live_heap call N n (mset (tval_edges tv) + ext) heap'"
proof -
  note l = live_dest [OF assms(1)]
  have "\<forall>e \<in> set (tval_edges tv). e \<in># ext" using assms(2) by (auto dest: mset_subset_eqD)
  then have "\<forall>e \<in> set (tval_edges tv). typed_edge heap e"
    using l(1) by (simp add: heap_ok_def heap_inv_def heap_typed_def)
  moreover have "\<forall>e \<in> set (tval_edges tv). refs_to heap {} ext (snd e) + 1 < 2 ^ 32 - 1"
    using live_room [OF assms(1)] unfolding room_def by blast
  ultimately obtain heap' where h: "tval_incref tv heap = Some heap'" "heap_ok (mset (tval_edges tv) + ext) heap'"
    "heap_frame heap heap'"
    using incref_spec [OF l(1)] by blast
  have "size (mset (tval_edges tv) + ext) \<le> 2 ^ 31" using size_edges [of tv] assms(3) by simp
  then show ?thesis using live_frame [OF assms(1) h(3,2)] h(1) by blast
qed

lemma live_dec:
  assumes "live_heap call N n (mset (tval_edges tv) + ext) heap"
  shows "\<exists>heap'. duk_tval_decref_norz (duk_heap_process_finalize_list call N n 2) N tv heap = Some heap'
      \<and> live_heap call N n ext heap'"
    and "\<exists>heap'. duk_tval_decref (duk_heap_process_finalize_list call N n 2) N tv heap = Some heap'
      \<and> live_heap call N n ext heap'"
proof -
  note l = live_dest [OF assms]
  let ?PF = "duk_heap_process_finalize_list call N n 2"
  obtain heap' where h: "duk_tval_decref_norz ?PF N tv heap = Some heap'" "heap_ok ext heap'" "heap_frame heap heap'"
    "duk_tval_decref ?PF N tv heap = Some heap' \<or> duk_tval_decref ?PF N tv heap = ?PF heap'"
    using decref_spec [OF l(1,3,6), of ?PF] by blast
  have "size ext \<le> 2 ^ 31" using l(9) by simp
  then have live: "live_heap call N n ext heap'" by (rule live_frame [OF assms h(3,2)])
  then show "\<exists>heap'. duk_tval_decref_norz ?PF N tv heap = Some heap' \<and> live_heap call N n ext heap'" using h(1) by blast
  show "\<exists>heap'. duk_tval_decref ?PF N tv heap = Some heap' \<and> live_heap call N n ext heap'"
    using h(4) live live_process [OF live] by auto
qed

interpretation api: refcounted "live_heap call N n" "refcounting call N n" "2 ^ 31" for call N n
proof
  fix ext heap tv
  show "live_heap call N n ext heap \<Longrightarrow> mset (tval_edges tv) \<subseteq># ext \<Longrightarrow> size ext < 2 ^ 31 \<Longrightarrow>
      \<exists>h'. rc_incref (refcounting call N n) tv heap = Some h' \<and> live_heap call N n (mset (tval_edges tv) + ext) h'"
    using live_inc by (simp add: refcounting_def Let_def)
  show "live_heap call N n (mset (tval_edges tv) + ext) heap \<Longrightarrow>
      \<exists>h'. rc_decref (refcounting call N n) tv heap = Some h' \<and> live_heap call N n ext h'"
    using live_dec(2) by (simp add: refcounting_def Let_def)
  show "live_heap call N n (mset (tval_edges tv) + ext) heap \<Longrightarrow>
      \<exists>h'. rc_decref_norz (refcounting call N n) tv heap = Some h' \<and> live_heap call N n ext h'"
    using live_dec(1) by (simp add: refcounting_def Let_def)
  show "live_heap call N n ext heap \<Longrightarrow>
      \<exists>h'. rc_refzero_check (refcounting call N n) heap = Some h' \<and> live_heap call N n ext h'"
    using live_process by (simp add: refcounting_def Let_def)
qed

subsection \<open>Properties\<close>

text \<open>
  C3: The value stack API.  On a thread whose slots above the top are undefined and a heap in normal
  operation, every sequence of API calls, with any indices and counts, behaves as the abstract
  machine on the list of the values in the frame: the same calls fail with the same errors, and the
  frame holds the same values.  No call uses a freed cell, each one returns, nothing below the frame
  changes, and the reference counts stay exact.
\<close>

theorem value_stack_refines:
  assumes "vs_ok (live_heap call N n) other st" "size other \<le> 2 ^ 30"
  shows "\<exists>st'. run_calls (refcounting call N n) cs st = Some (fst (list_calls (reserve st) cs (vs_frame (thr st))), st')
    \<and> vs_frame (thr st') = snd (list_calls (reserve st) cs (vs_frame (thr st)))
    \<and> vs_ok (live_heap call N n) other st' \<and> same_base (thr st) (thr st')"
  using api.run_calls_refines [OF assms(1)] assms(2) by (simp add: DUK_USE_VALSTACK_LIMIT_def)

text \<open>A stack that holds the object with a finalizer.\<close>

definition fin_state :: vstate where
  "fin_state = \<lparr>vs_heap = fin_heap, thr = \<lparr>valstack = [Tv_null, Tv_object 1, Tv_undefined, Tv_undefined, Tv_undefined],
     valstack_bottom = 1, valstack_top = 2, valstack_end = 4\<rparr>\<rparr>"

lemma fin_state_ok: "vs_ok (live_heap idle_finalizer 2 3) {#} fin_state"
proof -
  have "vs_inv (thr fin_state)" by (simp add: vs_inv_def fin_state_def DUK_USE_VALSTACK_LIMIT_def)
  moreover have "live_heap idle_finalizer 2 3 {#(DUK_HTYPE_OBJECT, 1)#} fin_heap"
    unfolding live_heap_def fin_heap_own using fin_heap_ok(1) idle_finalizer_gentle by (simp add: fin_heap_def)
  ultimately show ?thesis by (simp add: vs_ok_def fin_state_def)
qed

theorem value_stack_refines_witness:
  "\<exists>st'. run_calls (refcounting idle_finalizer 2 3) [Dup 0, Remove 0, Pop_2, Pop, Push_true, Swap 0 5] fin_state
      = Some ([Inr (), Inr (), Inl err_count, Inr (), Inr (), Inl err_index], st')
    \<and> vs_frame (thr st') = [Tv_boolean True]"
proof -
  have "list_calls (reserve fin_state) [Dup 0, Remove 0, Pop_2, Pop, Push_true, Swap 0 5] (vs_frame (thr fin_state))
    = ([Inr (), Inr (), Inl err_count, Inr (), Inr (), Inl err_index], [Tv_boolean True])"
    by (simp add: fin_state_def vs_frame_def reserve_def push_list_def at_index_def drop_last_def resolve_def)
  then show ?thesis
    using value_stack_refines [OF fin_state_ok, of "[Dup 0, Remove 0, Pop_2, Pop, Push_true, Swap 0 5]"] by auto
qed

end
