(* ===== verification/Valresize.thy ===== *)
theory Valresize
  imports Valcalls
begin

text \<open>
  Resizing of the value stack, the operations that open and close gaps in a frame, and the transfer
  of values between threads.
\<close>

subsection \<open>Resizing\<close>

text \<open>The values and the frame are those of before.\<close>

definition same_values :: "vthread \<Rightarrow> vthread \<Rightarrow> bool" where
  "same_values t t' \<longleftrightarrow> valstack_bottom t' = valstack_bottom t \<and> valstack_top t' = valstack_top t
   \<and> take (valstack_top t) (valstack t') = take (valstack_top t) (valstack t)"

definition limit_size :: "nat \<Rightarrow> nat" where
  "limit_size need = need + need div 4"

lemma resize_inv:
  assumes "vs_inv t" "valstack_top t \<le> e" "e \<le> m" "m \<le> DUK_USE_VALSTACK_LIMIT"
    and "t' = t\<lparr>valstack := take m (valstack t) @ replicate (m - length (valstack t)) Tv_undefined, valstack_end := e\<rparr>"
  shows "vs_inv t'" "same_values t t'" "valstack_end t' = e"
proof -
  have "drop (valstack_top t) (take m (valstack t)) = take (m - valstack_top t) (drop (valstack_top t) (valstack t))"
    by (simp add: drop_take)
  also have "\<dots> = replicate (min (m - valstack_top t) (length (valstack t) - valstack_top t)) Tv_undefined"
    using assms(1) by (simp add: vs_inv_def)
  finally have d: "drop (valstack_top t) (take m (valstack t))
    = replicate (min (m - valstack_top t) (length (valstack t) - valstack_top t)) Tv_undefined" .
  have b: "valstack_top t \<le> length (valstack t)" "valstack_top t \<le> m" "valstack_bottom t \<le> valstack_top t"
    using assms(1-3) by (auto simp: vs_inv_def)
  then show "vs_inv t'" "same_values t t'" "valstack_end t' = e"
    using assms(2-5) d by (auto simp: vs_inv_def same_values_def replicate_add [symmetric] min_def)
qed

lemma raise_end:
  assumes "vs_inv t" "valstack_end t \<le> e" "e \<le> length (valstack t)"
  shows "vs_inv (t\<lparr>valstack_end := e\<rparr>)" "same_values t (t\<lparr>valstack_end := e\<rparr>)"
  using assms by (auto simp: vs_inv_def same_values_def)

lemma same_values_refl [simp]: "same_values t t"
  by (simp add: same_values_def)

text \<open>What a request for \<open>need\<close> slots may yield; \<open>fail\<close> tells the results of a failure.\<close>

definition reserved :: "(nat \<Rightarrow> bool) \<Rightarrow> (bool result \<Rightarrow> bool) \<Rightarrow> nat \<Rightarrow> vthread \<Rightarrow> bool result \<times> vthread \<Rightarrow> bool" where
  "reserved alloc fail need t p \<longleftrightarrow> (let (r, t') = p in
     vs_inv t' \<and> same_values t t'
     \<and> (r = Inr True \<and> max need (valstack_end t) = valstack_end t'
      \<or> fail r \<and> t' = t \<and> length (valstack t) < need
        \<and> (limit_size need > DUK_USE_VALSTACK_LIMIT \<or> \<not> alloc (sizeof_tval * limit_size need))))"

lemma grow_reserved:
  assumes "vs_inv t" "length (valstack t) < need"
  shows "reserved alloc (\<lambda>r. r \<noteq> Inr True \<and> (isl r \<longleftrightarrow> strict)) need t (valstack_grow alloc (sizeof_tval * need) strict t)"
proof -
  have n: "sizeof_tval * need div sizeof_tval = need" by (simp add: sizeof_tval_def)
  have e: "valstack_top t \<le> valstack_end t" "valstack_end t \<le> length (valstack t)" using assms(1) by (simp_all add: vs_inv_def)
  show ?thesis
  proof (cases "limit_size need \<le> DUK_USE_VALSTACK_LIMIT \<and> alloc (sizeof_tval * limit_size need)")
    case True
    let ?t = "t\<lparr>valstack := take (limit_size need) (valstack t)
        @ replicate (limit_size need - length (valstack t)) Tv_undefined, valstack_end := need\<rparr>"
    have "vs_inv ?t" "same_values t ?t"
      using resize_inv [OF assms(1) _ _ _ refl, of need "limit_size need"] True assms(2) e by (simp_all add: limit_size_def)
    moreover have "valstack_grow alloc (sizeof_tval * need) strict t = (Inr True, ?t)"
      using True by (simp add: valstack_grow_def n limit_size_def resize_valstack_def Let_def)
    ultimately show ?thesis using assms(2) e by (simp add: reserved_def)
  next
    case False
    then show ?thesis using assms by (auto simp: reserved_def valstack_grow_def n limit_size_def resize_valstack_def Let_def)
  qed
qed

lemma check_reserved:
  assumes "vs_inv t"
  shows "reserved alloc (\<lambda>r. r = Inr False) need t (duk_valstack_grow_check_nothrow alloc (sizeof_tval * need) t)"
    and "reserved alloc isl need t (duk_valstack_grow_check_throw alloc (sizeof_tval * need) t)"
proof -
  have n: "sizeof_tval * need div sizeof_tval = need" by (simp add: sizeof_tval_def)
  have weaken: "reserved alloc g need t p" if "reserved alloc f need t p" "\<And>r. f r \<Longrightarrow> g r" for f g p
    using that by (auto simp: reserved_def)
  have f: "r = Inr False" if "r \<noteq> Inr True \<and> (isl r \<longleftrightarrow> False)" for r :: "bool result"
    using that by (cases r) simp_all
  have g: "reserved alloc (\<lambda>r. r = Inr False) need t (valstack_grow alloc (sizeof_tval * need) False t)"
    "reserved alloc isl need t (valstack_grow alloc (sizeof_tval * need) True t)" if "length (valstack t) < need"
    by (rule weaken [OF grow_reserved [OF assms that]], erule f) (rule weaken [OF grow_reserved [OF assms that]], simp)
  have "reserved alloc f need t (Inr True, t)" if "need \<le> valstack_end t" for f
    using that assms by (simp add: reserved_def max_def)
  moreover have "reserved alloc f need t (Inr True, t\<lparr>valstack_end := need\<rparr>)"
    if "valstack_end t < need" "need \<le> length (valstack t)" for f
    using that raise_end [OF assms, of need] by (simp add: reserved_def)
  ultimately show "reserved alloc (\<lambda>r. r = Inr False) need t (duk_valstack_grow_check_nothrow alloc (sizeof_tval * need) t)"
    "reserved alloc isl need t (duk_valstack_grow_check_throw alloc (sizeof_tval * need) t)"
    using g by (auto simp: duk_valstack_grow_check_nothrow_def duk_valstack_grow_check_throw_def n)
qed

lemma min_bytes: "stack_min_bytes base extra = sizeof_tval * (base + clamp_extra extra + DUK_VALSTACK_INTERNAL_EXTRA)"
  by (simp add: stack_min_bytes_def algebra_simps)

lemma same_values_edges:
  assumes "vs_inv t" "vs_inv t'" "same_values t t'"
  shows "vedges (valstack t') = vedges (valstack t)" "vs_frame t' = vs_frame t"
proof -
  have v: "vedges (valstack u) = vedges (take (valstack_top u) (valstack u))" if "vs_inv u" for u
  proof -
    have "vedges (valstack u) = vedges (take (valstack_top u) (valstack u)) + vedges (drop (valstack_top u) (valstack u))"
      by (metis append_take_drop_id vedges_simps(3))
    then show ?thesis using that by (simp add: vs_inv_def)
  qed
  show "vedges (valstack t') = vedges (valstack t)" using v [OF assms(1)] v [OF assms(2)] assms(3) by (simp add: same_values_def)
  have "vs_frame u = drop (valstack_bottom u) (take (valstack_top u) (valstack u))" for u
    by (simp add: vs_frame_def drop_take)
  then show "vs_frame t' = vs_frame t" using assms(3) by (simp add: same_values_def)
qed

subsection \<open>Gaps\<close>

lemma mk_wipe_up:
  "k + c \<le> length xs \<Longrightarrow> wipe_up (length pre + k) c (mk pre cap n h xs)
    = mk pre cap n h (take k xs @ replicate c Tv_undefined @ drop (k + c) xs)"
proof (induction c arbitrary: k xs)
  case (Suc c)
  have "wipe_up (length pre + Suc k) c (mk pre cap n h (xs[k := Tv_undefined]))
    = mk pre cap n h (take (Suc k) (xs[k := Tv_undefined]) @ replicate c Tv_undefined @ drop (Suc k + c) (xs[k := Tv_undefined]))"
    using Suc.prems by (intro Suc.IH) simp
  then show ?case using Suc.prems by (simp add: mk_set_slot take_Suc_conv_app_nth)
qed simp

context refcounted
begin

lemma decref_range_spec:
  assumes "k + c \<le> length xs" "ok (vedges (take c (drop k xs)) + ext) h"
  shows "\<exists>h'. decref_range R (length pre + k) c (mk pre cap n h xs) = Some (mk pre cap n h' xs) \<and> ok ext h'"
  using assms
proof (induction c arbitrary: k h)
  case (Suc c)
  have "take (Suc c) (drop k xs) = xs ! k # take c (drop (Suc k) xs)"
    using Suc.prems(1) by (simp add: Cons_nth_drop_Suc [symmetric])
  then have "ok (mset (tval_edges (xs ! k)) + (vedges (take c (drop (Suc k) xs)) + ext)) h"
    using Suc.prems(2) by (simp add: add.assoc)
  then obtain h1 where h1: "rc_decref_norz R (xs ! k) h = Some h1" "ok (vedges (take c (drop (Suc k) xs)) + ext) h1"
    using dec_norz by blast
  then show ?case using Suc.IH [of "Suc k" h1] Suc.prems(1) by (simp add: mk_slot)
qed auto

text \<open>\<open>duk_remove_n\<close> removes \<open>c\<close> values, \<open>duk_insert_undefined_n\<close> inserts as many.\<close>

lemma remove_n_yields:
  assumes "fits (length pre) cap n xs" "ok (vedges xs + other) h" "k + c \<le> length xs"
  shows "\<exists>h'. duk_remove_n R k c (mk pre cap n h xs) = Some (mk pre cap n h' (take k xs @ drop (k + c) xs))
    \<and> ok (vedges (take k xs @ drop (k + c) xs) + other) h'"
proof -
  let ?ys = "take k xs @ drop (k + c) xs" and ?m = "length xs - (k + c)"
  have "xs = take k xs @ take c (drop k xs) @ drop c (drop k xs)" by (simp only: append_take_drop_id)
  then have "vedges xs = vedges (take c (drop k xs)) + vedges ?ys"
    by (metis vedges_simps(3) drop_drop add.commute add.left_commute)
  then have "ok (vedges (take c (drop k xs)) + (vedges ?ys + other)) h" using assms(2) by (simp add: add.assoc)
  then obtain h' where h: "decref_range R (length pre + k) c (mk pre cap n h xs) = Some (mk pre cap n h' xs)"
    "ok (vedges ?ys + other) h'" using decref_range_spec [OF assms(3)] by blast
  let ?zs = "blit xs k (take ?m (drop (k + c) xs))"
  have z: "length ?zs = length xs" "take (length xs - c) ?zs = ?ys" using assms(3) by (simp_all add: blit_def)
  have m: "memmove_slots (length pre + k) (length pre + k + c) ?m (mk pre cap n h' xs) = mk pre cap n h' ?zs"
    using mk_memmove [of k ?m xs "k + c" pre cap n h'] assms(3) by (simp add: add.assoc)
  have w: "wipe_up (length pre + length xs - c) c (mk pre cap n h' ?zs) = mk pre cap n h' (?ys @ replicate c Tv_undefined)"
    using mk_wipe_up [of "length xs - c" c ?zs pre cap n h'] z assms(3) by simp
  have p: "set_top (length pre + length xs - c) (mk pre cap n h' (?ys @ replicate c Tv_undefined)) = mk pre cap n h' ?ys"
    using mk_pop [of pre ?ys c n cap h'] fits_small(4) [OF assms(1)] assms(3) by simp
  have "length pre + length xs - (length pre + k + c) = ?m" by simp
  then show ?thesis using h m w p z(1)
    by (auto simp: duk_remove_n_def Let_def simp del: length_blit)
qed

end

lemma insert_undefined_n:
  assumes "length xs + c \<le> cap" "length pre + cap \<le> n" "k \<le> length xs"
  shows "duk_insert_undefined_n k c (mk pre cap n h xs) = mk pre cap n h (take k xs @ replicate c Tv_undefined @ drop k xs)"
proof -
  let ?ys = "xs @ replicate c Tv_undefined" and ?m = "length xs - k"
  have g: "set_top (length pre + length xs + c) (mk pre cap n h xs) = mk pre cap n h ?ys"
    using mk_grow [of xs "length xs + c" cap pre n h] assms by (simp add: add.assoc)
  have "memmove_slots (length pre + k + c) (length pre + k) ?m (mk pre cap n h ?ys) = mk pre cap n h (blit ?ys (k + c) (drop k xs))"
    using mk_memmove [of "k + c" ?m ?ys k pre cap n h] assms(3) by (simp add: add.assoc)
  moreover have "length pre + length xs - (length pre + k) = ?m" by simp
  ultimately have "duk_reserve_gap k c (mk pre cap n h xs) = mk pre cap n h (blit ?ys (k + c) (drop k xs))"
    using g by (simp add: duk_reserve_gap_def Let_def)
  moreover obtain zs where zs: "zs = take (k + c) ?ys" by blast
  have "blit ?ys (k + c) (drop k xs) = zs @ drop k xs" using assms(3) by (simp add: blit_def zs)
  moreover have "length zs = k + c" "take k zs = take k xs" using assms(3) by (simp_all add: zs)
  ultimately show ?thesis using mk_wipe_up [of k c "zs @ drop k xs" pre cap n h]
    by (simp add: duk_insert_undefined_n_def)
qed

subsection \<open>The transfer between threads\<close>

definition xs_ok :: "(edge multiset \<Rightarrow> duk_heap \<Rightarrow> bool) \<Rightarrow> edge multiset \<Rightarrow> xstate \<Rightarrow> bool" where
  "xs_ok ok other st \<longleftrightarrow> vs_inv (to_thr st) \<and> vs_inv (from_thr st)
   \<and> ok (vedges (valstack (to_thr st)) + vedges (valstack (from_thr st)) + other) (xheap st)"

text \<open>What the transfer of \<open>n\<close> values does to the two frames.\<close>

definition xcopymove_list :: "bool \<Rightarrow> nat \<Rightarrow> bool \<Rightarrow> nat \<Rightarrow> duk_tval list \<times> duk_tval list \<Rightarrow>
    unit result \<times> duk_tval list \<times> duk_tval list" where
  "xcopymove_list same n is_copy cap p = (let (ys, xs) = p in
     if same then (Inl (TypeError ''DUK_STR_INVALID_CONTEXT''), p)
     else if n > DUK_USE_VALSTACK_LIMIT then (Inl err_count, p)
     else if n = 0 then (Inr (), p)
     else if cap < length ys + n then (Inl err_push_beyond, p)
     else if length xs < n then (Inl err_count, p)
     else (Inr (), ys @ drop (length xs - n) xs, if is_copy then xs else take (length xs - n) xs))"

lemma mk_thr_append:
  assumes "length ys + length tvs \<le> cap" "length pre + cap \<le> n"
  shows "(mk_thr pre cap n ys)\<lparr>valstack := blit (valstack (mk_thr pre cap n ys)) (length pre + length ys) tvs,
      valstack_top := length pre + length ys + length tvs\<rparr> = mk_thr pre cap n (ys @ tvs)"
  using assms by (simp add: mk_thr_def blit_def)

lemma mk_thr_cut:
  assumes "k \<le> length xs" "length pre + length xs \<le> n"
  shows "(mk_thr pre cap n xs)\<lparr>valstack_top := length pre + (length xs - k),
      valstack := blit (valstack (mk_thr pre cap n xs)) (length pre + (length xs - k)) (replicate k Tv_undefined)\<rparr>
    = mk_thr pre cap n (take (length xs - k) xs)"
  using assms by (simp add: mk_thr_def blit_def replicate_add [symmetric])

context refcounted
begin

lemma incref_all_spec:
  assumes "ok ext h" "vedges tvs \<subseteq># ext" "size ext + length tvs \<le> K"
  shows "\<exists>h'. incref_all R tvs h = Some h' \<and> ok (vedges tvs + ext) h'"
  using assms
proof (induction tvs arbitrary: ext h)
  case (Cons tv tvs)
  have s: "mset (tval_edges tv) \<subseteq># ext" "vedges tvs \<subseteq># ext" using Cons.prems(2)
    by (auto elim: subset_mset.order_trans [rotated])
  obtain h1 where h1: "rc_incref R tv h = Some h1" "ok (mset (tval_edges tv) + ext) h1"
    using inc [OF Cons.prems(1) s(1)] Cons.prems(3) by auto
  have "vedges tvs \<subseteq># mset (tval_edges tv) + ext" using s(2) by (simp add: subset_mset.add_increasing)
  moreover have "size (mset (tval_edges tv) + ext) + length tvs \<le> K" using size_edges [of tv] Cons.prems(3) by simp
  ultimately obtain h2 where "incref_all R tvs h1 = Some h2" "ok (vedges tvs + (mset (tval_edges tv) + ext)) h2"
    using Cons.IH [OF h1(2)] by blast
  then show ?case using h1(1) by (auto simp: ac_simps)
qed simp

lemma xcopymove_mk:
  assumes "fits (length pt) ct nt ys" "fits (length pf) cf nf xs" "ok (vedges ys + vedges xs + other) h"
    and "size other + 3 * DUK_USE_VALSTACK_LIMIT < K"
    and st: "st = (\<lambda>h ys xs. \<lparr>xheap = h, to_thr = mk_thr pt ct nt ys, from_thr = mk_thr pf cf nf xs\<rparr>)"
  shows "\<exists>r h' ys' xs'. xcopymove_list same (unat cnt) is_copy ct (ys, xs) = (r, ys', xs')
    \<and> duk_xcopymove_raw R same cnt is_copy (st h ys xs) = Some (r, st h' ys' xs')
    \<and> ok (vedges ys' + vedges xs' + other) h' \<and> length ys' \<le> ct \<and> length xs' \<le> cf"
proof -
  let ?n = "unat cnt"
  have b: "length ys \<le> ct" "length xs \<le> cf" "length pt + ct \<le> nt" "length pf + length xs \<le> nf"
    using assms(1,2) fits_small by blast+
  have lim: "of_nat DUK_USE_VALSTACK_LIMIT < cnt \<longleftrightarrow> DUK_USE_VALSTACK_LIMIT < ?n"
    by (simp add: DUK_USE_VALSTACK_LIMIT_def word_less_nat_alt)
  have room: "length pt + ct - (length pt + length ys) < ?n \<longleftrightarrow> ct < length ys + ?n"
    "int (length xs) < uint cnt \<longleftrightarrow> length xs < ?n"
    using b by (auto, simp_all only: unat_eq_nat_uint zless_nat_eq_int_zless)
  show ?thesis
  proof (cases "\<not> same \<and> \<not> DUK_USE_VALSTACK_LIMIT < ?n \<and> ?n \<noteq> 0 \<and> \<not> ct < length ys + ?n \<and> \<not> length xs < ?n")
    case False
    then have "\<exists>r. duk_xcopymove_raw R same cnt is_copy (st h ys xs) = Some (r, st h ys xs)
      \<and> xcopymove_list same ?n is_copy ct (ys, xs) = (r, ys, xs)"
      by (auto simp: duk_xcopymove_raw_def xcopymove_list_def Let_def lim room st)
    then show ?thesis using assms(3) b by blast
  next
    case True
    let ?k = "length xs - ?n"
    let ?tvs = "drop ?k xs"
    have src: "length pf + length xs - ?n = length pf + ?k"
      using True by (intro Nat.diff_add_assoc) simp
    have room_ok: "length ys + ?n \<le> ct" using True by simp
    have "?n \<le> length xs" using True by simp
    then have tvs: "take ?n (drop (length pf + ?k) (valstack (mk_thr pf cf nf xs))) = ?tvs" "length ?tvs = ?n"
      by (simp_all add: mk_thr_def)
    have t: "(mk_thr pt ct nt ys)\<lparr>valstack := blit (valstack (mk_thr pt ct nt ys)) (length pt + length ys) ?tvs,
        valstack_top := length pt + length ys + ?n\<rparr> = mk_thr pt ct nt (ys @ ?tvs)"
      using mk_thr_append [of ys ?tvs ct pt nt] True b(3) tvs(2) by simp
    have f: "(mk_thr pf cf nf xs)\<lparr>valstack_top := length pf + ?k,
        valstack := blit (valstack (mk_thr pf cf nf xs)) (length pf + ?k) (replicate ?n Tv_undefined)\<rparr>
      = mk_thr pf cf nf (take ?k xs)"
      using mk_thr_cut [of ?n xs pf nf cf] True b(4) by simp
    have spec: "xcopymove_list same ?n is_copy ct (ys, xs) = (Inr (), ys @ ?tvs, if is_copy then xs else take ?k xs)"
      using True by (simp add: xcopymove_list_def)
    have split: "vedges xs = vedges (take ?k xs) + vedges ?tvs" by (metis append_take_drop_id vedges_simps(3))
    have run: "duk_xcopymove_raw R same cnt is_copy (st h ys xs) =
      (if is_copy then do { h \<leftarrow> incref_all R ?tvs h; Some (Inr (), st h (ys @ ?tvs) xs) }
       else Some (Inr (), st h (ys @ ?tvs) (take ?k xs)))"
    proof -
      have c: "same = False" "(of_nat DUK_USE_VALSTACK_LIMIT < cnt) = False" "(?n = 0) = False"
        "(length pt + ct - (length pt + length ys) < ?n) = False"
        "(int (length pf + length xs) - int ?n < int (length pf)) = False"
        using True room by (simp_all add: lim)
      show ?thesis
        by (simp only: duk_xcopymove_raw_def Let_def st xstate.select_convs xstate.update_convs mk_fields c src tvs t f
          if_False)
    qed
    show ?thesis
    proof (cases is_copy)
      case True
      have "vedges ?tvs \<subseteq># vedges ys + vedges xs + other" unfolding split
        by (intro mset_subset_eq_exists_conv [THEN iffD2] exI [of _ "vedges ys + vedges (take ?k xs) + other"]) (simp add: ac_simps)
      moreover have "length ys \<le> DUK_USE_VALSTACK_LIMIT" "length xs \<le> DUK_USE_VALSTACK_LIMIT" "?n \<le> length xs"
        using assms(1,2) \<open>?n \<le> length xs\<close> by (simp_all add: fits_def)
      then have "size (vedges ys + vedges xs + other) + length ?tvs \<le> K"
        using size_vedges [of ys] size_vedges [of xs] assms(4) unfolding tvs(2) size_union by linarith
      ultimately obtain h' where "incref_all R ?tvs h = Some h'" "ok (vedges ?tvs + (vedges ys + vedges xs + other)) h'"
        using incref_all_spec [OF assms(3)] by blast
      moreover from this have "ok (vedges (ys @ ?tvs) + vedges xs + other) h'" by (simp only: vedges_simps(3) ac_simps)
      moreover have "length (ys @ ?tvs) \<le> ct" using room_ok tvs(2) by simp
      ultimately show ?thesis using True spec run b(2)
        by (intro exI [of _ "Inr ()"] exI [of _ h'] exI [of _ "ys @ ?tvs"] exI [of _ xs]) simp
    next
      case False
      moreover have "ok (vedges (ys @ ?tvs) + vedges (take ?k xs) + other) h" using assms(3) unfolding split by (simp add: ac_simps)
      moreover have "length (ys @ ?tvs) \<le> ct" "length (take ?k xs) \<le> cf" using room_ok tvs(2) b(2) by simp_all
      ultimately show ?thesis using spec run
        by (intro exI [of _ "Inr ()"] exI [of _ h] exI [of _ "ys @ ?tvs"] exI [of _ "take ?k xs"]) simp
    qed
  qed
qed

lemma xcopymove_refines:
  assumes "xs_ok ok other st" "size other + 6 * DUK_USE_VALSTACK_LIMIT < K"
  shows "\<exists>r st'. duk_xcopymove_raw R same cnt is_copy st = Some (r, st')
    \<and> xcopymove_list same (unat cnt) is_copy (valstack_end (to_thr st) - valstack_bottom (to_thr st))
        (vs_frame (to_thr st), vs_frame (from_thr st)) = (r, vs_frame (to_thr st'), vs_frame (from_thr st'))
    \<and> xs_ok ok other st' \<and> same_base (to_thr st) (to_thr st') \<and> same_base (from_thr st) (from_thr st')"
proof -
  let ?t = "to_thr st" and ?f = "from_thr st"
  let ?pt = "take (valstack_bottom ?t) (valstack ?t)" and ?pf = "take (valstack_bottom ?f) (valstack ?f)"
  let ?ct = "valstack_end ?t - valstack_bottom ?t" and ?cf = "valstack_end ?f - valstack_bottom ?f"
  let ?ys = "vs_frame ?t" and ?xs = "vs_frame ?f" and ?nt = "length (valstack ?t)" and ?nf = "length (valstack ?f)"
  have inv: "vs_inv ?t" "vs_inv ?f" using assms(1) by (simp_all only: xs_ok_def)
  note t = vs_inv_mk [OF inv(1)] and f = vs_inv_mk [OF inv(2)]
  have fits: "fits (length ?pt) ?ct ?nt ?ys" "fits (length ?pf) ?cf ?nf ?xs"
    using inv by (auto simp: fits_def vs_inv_def vs_frame_def min_def)
  have v: "vedges (valstack (mk_thr pre cap n zs)) = vedges pre + vedges zs" for pre cap n zs by (simp add: mk_thr_def)
  have "vedges (valstack ?t) = vedges ?pt + vedges ?ys" "vedges (valstack ?f) = vedges ?pf + vedges ?xs"
    using v t f by metis+
  then have ok: "ok (vedges ?ys + vedges ?xs + (vedges ?pt + vedges ?pf + other)) (xheap st)"
    using assms(1) by (simp add: xs_ok_def ac_simps)
  have "length ?pt \<le> DUK_USE_VALSTACK_LIMIT" "length ?pf \<le> DUK_USE_VALSTACK_LIMIT" using inv by (auto simp: vs_inv_def)
  then have "size (vedges ?pt) \<le> DUK_USE_VALSTACK_LIMIT" "size (vedges ?pf) \<le> DUK_USE_VALSTACK_LIMIT"
    using le_trans [OF size_vedges] by blast+
  then have size: "size (vedges ?pt + vedges ?pf + other) + 3 * DUK_USE_VALSTACK_LIMIT < K"
    using assms(2) by simp
  let ?st = "\<lambda>h ys xs. \<lparr>xheap = h, to_thr = mk_thr ?pt ?ct ?nt ys, from_thr = mk_thr ?pf ?cf ?nf xs\<rparr>"
  have st: "st = ?st (xheap st) ?ys ?xs" using t f by simp
  obtain r h' ys' xs' where h: "xcopymove_list same (unat cnt) is_copy ?ct (?ys, ?xs) = (r, ys', xs')"
    "duk_xcopymove_raw R same cnt is_copy st = Some (r, ?st h' ys' xs')"
    "ok (vedges ys' + vedges xs' + (vedges ?pt + vedges ?pf + other)) h'" "length ys' \<le> ?ct" "length xs' \<le> ?cf"
    using xcopymove_mk [OF fits ok size refl, of same cnt is_copy] st by metis
  note b = fits_small(3) [OF fits(1)] fits_small(3) [OF fits(2)] fits_small(2) [OF fits(1)] fits_small(2) [OF fits(2)]
  have n: "?nt \<le> DUK_USE_VALSTACK_LIMIT" "?nf \<le> DUK_USE_VALSTACK_LIMIT" using inv by (simp_all add: vs_inv_def)
  have "xs_ok ok other (?st h' ys' xs')" using h(3) mk_inv [OF h(4) b(1) n(1)] mk_inv [OF h(5) b(2) n(2)]
    by (simp add: xs_ok_def v ac_simps)
  moreover have "same_base ?t (mk_thr ?pt ?ct ?nt ys')" "same_base ?f (mk_thr ?pf ?cf ?nf xs')"
    using mk_base [OF b(3) h(4) b(1)] mk_base [OF b(4) h(5) b(2)] t f by simp_all
  moreover have "vs_frame (mk_thr ?pt ?ct ?nt ys') = ys'" "vs_frame (mk_thr ?pf ?cf ?nf xs') = xs'"
    using h(4,5) b by simp_all
  ultimately show ?thesis using h(1,2) by (intro exI [of _ r] exI [of _ "?st h' ys' xs'"]) simp
qed

end

subsection \<open>Properties\<close>



text \<open>
  C38: Shrinking keeps the values, the frame and the reserve, never enlarges the allocation, and with
  \<open>snug\<close> it leaves exactly the reserve when the allocator agrees.
\<close>

theorem stack_shrink:
  assumes "vs_inv t"
  shows "let t' = duk_valstack_shrink_check_nothrow alloc snug t in
    vs_inv t' \<and> same_values t t' \<and> valstack_end t' = valstack_end t \<and> length (valstack t') \<le> length (valstack t)
    \<and> (snug \<and> alloc (sizeof_tval * valstack_end t) \<longrightarrow> length (valstack t') = valstack_end t)"
proof -
  let ?l = "length (valstack t)" and ?e = "valstack_end t"
  have i: "valstack_top t \<le> ?e" "?e \<le> ?l" "?l \<le> DUK_USE_VALSTACK_LIMIT" using assms by (simp_all add: vs_inv_def)
  have r: "vs_inv u \<and> same_values t u \<and> valstack_end u = ?e \<and> length (valstack u) \<le> ?l \<and> length (valstack u) = m"
    if "resize_valstack alloc m t = Some u" "?e \<le> m" "m \<le> ?l" for m u
  proof -
    have u: "u = t\<lparr>valstack := take m (valstack t) @ replicate (m - ?l) Tv_undefined, valstack_end := ?e\<rparr>"
      using that(1) by (simp add: resize_valstack_def split: if_splits)
    then show ?thesis using resize_inv [OF assms i(1) that(2) _ u] that(3) i(3) by simp
  qed
  have slack: "sizeof_tval * ?e + s div sizeof_tval * sizeof_tval = sizeof_tval * (?e + s div sizeof_tval)" for s
    by (simp add: algebra_simps)
  have d: "sizeof_tval * m div sizeof_tval = m" "sizeof_tval * m < sizeof_tval * ?l \<longleftrightarrow> m < ?l" for m
    by (simp_all add: sizeof_tval_def)
  have z: "0 < sizeof_tval" by (simp add: sizeof_tval_def)
  let ?m = "if snug then ?e else ?e + sizeof_tval * ?l div 2 ^ 4 div sizeof_tval"
  have run: "duk_valstack_shrink_check_nothrow alloc snug t =
    (if \<not> snug \<and> sizeof_tval * ?l - sizeof_tval * ?e < sizeof_tval * ?l div 2 ^ 2 \<or> ?l \<le> ?m then t
     else (case resize_valstack alloc ?m t of None \<Rightarrow> t | Some u \<Rightarrow> u))"
    unfolding duk_valstack_shrink_check_nothrow_def Let_def slack using z by (simp add: d not_less [symmetric] del: not_less)
  show ?thesis
  proof (cases "?l \<le> ?m \<or> duk_valstack_shrink_check_nothrow alloc snug t = t \<and> \<not> snug \<or> resize_valstack alloc ?m t = None")
    case True
    then have "duk_valstack_shrink_check_nothrow alloc snug t = t" unfolding run by auto
    moreover have "snug \<and> alloc (sizeof_tval * ?e) \<Longrightarrow> ?l = ?e"
      using True i(2) by (auto simp: resize_valstack_def split: if_splits)
    ultimately show ?thesis using assms by (simp add: Let_def)
  next
    case False
    then obtain u where u: "resize_valstack alloc ?m t = Some u" by auto
    then have "vs_inv u \<and> same_values t u \<and> valstack_end u = ?e \<and> length (valstack u) \<le> ?l \<and> length (valstack u) = ?m"
      using False by (intro r) simp_all
    moreover have "duk_valstack_shrink_check_nothrow alloc snug t = t \<or> duk_valstack_shrink_check_nothrow alloc snug t = u"
      unfolding run using u by auto
    moreover have "snug \<Longrightarrow> duk_valstack_shrink_check_nothrow alloc snug t = u" unfolding run using u False by auto
    ultimately show ?thesis using assms by (auto simp: Let_def)
  qed
qed

theorem stack_shrink_witness:
  "length (valstack (duk_valstack_shrink_check_nothrow (\<lambda>_. True) True (thr fin_state))) = 4"
proof -
  have "vs_inv (thr fin_state)" using fin_state_ok by (simp add: vs_ok_def)
  then show ?thesis using stack_shrink [of "thr fin_state" "\<lambda>_. True" True] by (simp add: Let_def fin_state_def)
qed

text \<open>
  C4: Moving and copying values between threads.  \<open>duk_xcopymove_raw\<close> transfers the last values of
  one frame to the end of the other one and keeps all reference counts exact; it fails, with both
  stacks unchanged, for one and the same thread, an invalid count, or when the receiver has not
  reserved enough slots.
\<close>

theorem xcopymove_transfers:
  assumes "xs_ok (live_heap call N n) other st" "size other \<le> 2 ^ 30"
  shows "\<exists>r st'. duk_xcopymove_raw (refcounting call N n) same cnt is_copy st = Some (r, st')
    \<and> xcopymove_list same (unat cnt) is_copy (valstack_end (to_thr st) - valstack_bottom (to_thr st))
        (vs_frame (to_thr st), vs_frame (from_thr st)) = (r, vs_frame (to_thr st'), vs_frame (from_thr st'))
    \<and> xs_ok (live_heap call N n) other st'
    \<and> same_base (to_thr st) (to_thr st') \<and> same_base (from_thr st) (from_thr st')"
  using api.xcopymove_refines [OF assms(1)] assms(2) by (simp add: DUK_USE_VALSTACK_LIMIT_def)

definition fin_xstate :: xstate where
  "fin_xstate = \<lparr>xheap = fin_heap, to_thr = \<lparr>valstack = [Tv_null, Tv_undefined], valstack_bottom = 0,
     valstack_top = 1, valstack_end = 2\<rparr>, from_thr = thr fin_state\<rparr>"

theorem xcopymove_transfers_witness:
  "\<exists>st'. duk_xcopymove_raw (refcounting idle_finalizer 2 3) False 1 False fin_xstate = Some (Inr (), st')
    \<and> vs_frame (to_thr st') = [Tv_null, Tv_object 1] \<and> vs_frame (from_thr st') = []"
proof -
  have "xs_ok (live_heap idle_finalizer 2 3) {#} fin_xstate"
    using fin_state_ok by (simp add: xs_ok_def vs_ok_def fin_xstate_def fin_state_def vs_inv_def DUK_USE_VALSTACK_LIMIT_def)
  then have "\<exists>r st'. duk_xcopymove_raw (refcounting idle_finalizer 2 3) False 1 False fin_xstate = Some (r, st')
    \<and> xcopymove_list False 1 False 2 ([Tv_null], [Tv_object 1]) = (r, vs_frame (to_thr st'), vs_frame (from_thr st'))"
    using xcopymove_transfers [of idle_finalizer 2 3 "{#}" fin_xstate False 1 False]
    by (auto simp: fin_xstate_def fin_state_def vs_frame_def)
  then show ?thesis by (auto simp: xcopymove_list_def DUK_USE_VALSTACK_LIMIT_def)
qed

end
