(* ===== verification/Marksweep.thy ===== *)
theory Marksweep
  imports Finalize
begin

text \<open>
  Mark-and-sweep (\<^verbatim>\<open>duk_heap_markandsweep.c\<close> of \<^verbatim>\<open>src/duktape/duktape.c\<close>):
  marking with a bounded recursion depth and the heap scans that resume it, the treatment of
  finalizable objects, the correction of the reference counts, the sweep, and the whole collection.

  The flags \<open>REACHABLE\<close> and \<open>TEMPROOT\<close> of the headers, which only a collection uses, are
  the sets of pointers of the record \<open>ms_state\<close>.  The lemmas show that marking reaches exactly
  the closure of the roots whatever the depth limit, that the scans end, and that a collection frees
  exactly what neither the program nor a waiting finalizer can reach, cycles included, while all
  reference counts stay exact.
\<close>

record ms_state =
  ms_reachable :: "haddr set"
  ms_temproot :: "haddr set"
  ms_reclimit_reached :: bool

text \<open>The pointers of \<open>struct duk_heap\<close> that \<open>duk__mark_roots_heap\<close> marks.\<close>

record duk_roots =
  heap_thread :: "haddr option"
  heap_object :: "haddr option"
  heap_strs :: "haddr list"
  lj_value1 :: duk_tval
  lj_value2 :: duk_tval

type_synonym ms_op = "ms_state \<Rightarrow> ms_state option"

definition DUK_USE_MARK_AND_SWEEP_RECLIMIT :: nat where
  "DUK_USE_MARK_AND_SWEEP_RECLIMIT = 256"

subsection \<open>Marking\<close>

text \<open>The argument \<open>mark\<close> is \<open>duk__mark_heaphdr\<close> one level down.\<close>

definition duk__mark_tval :: "(haddr \<Rightarrow> ms_op) \<Rightarrow> duk_tval \<Rightarrow> ms_op" where
  "duk__mark_tval mark tv ms = (case tval_heaphdr tv of None \<Rightarrow> Some ms | Some h \<Rightarrow> mark h ms)"

fun mark_null :: "(haddr \<Rightarrow> ms_op) \<Rightarrow> haddr option \<Rightarrow> ms_op" where
  "mark_null mark None ms = Some ms"
| "mark_null mark (Some h) ms = mark h ms"

definition mark_entry :: "(haddr \<Rightarrow> ms_op) \<Rightarrow> haddr option \<times> duk_propvalue \<Rightarrow> ms_op" where
  "mark_entry mark e ms = (case e of
       (None, _) \<Rightarrow> Some ms
     | (Some key, v) \<Rightarrow> do {
         ms \<leftarrow> mark key ms;
         case v of
           Prop_accessor getter setter \<Rightarrow> do { ms \<leftarrow> mark_null mark getter ms; mark_null mark setter ms }
         | Prop_value tv \<Rightarrow> duk__mark_tval mark tv ms })"

definition mark_activation :: "(haddr \<Rightarrow> ms_op) \<Rightarrow> duk_activation \<Rightarrow> ms_op" where
  "mark_activation mark act ms = do {
     ms \<leftarrow> mark_null mark (act_func act) ms;
     ms \<leftarrow> mark_null mark (act_var_env act) ms;
     mark_null mark (act_lex_env act) ms }"

fun mark_ext :: "(haddr \<Rightarrow> ms_op) \<Rightarrow> duk_hobject_kind \<Rightarrow> ms_op" where
  "mark_ext mark Ext_fastrefs ms = Some ms"
| "mark_ext mark (Ext_compfunc consts funcs lexenv varenv data) ms = do {
     ms \<leftarrow> mark_null mark data ms;
     ms \<leftarrow> mark_null mark lexenv ms;
     ms \<leftarrow> mark_null mark varenv ms;
     if data \<noteq> None then do { ms \<leftarrow> mfold (duk__mark_tval mark) consts ms; mfold mark funcs ms } else Some ms }"
| "mark_ext mark (Ext_decenv thr varmap) ms = do { ms \<leftarrow> mark_null mark thr ms; mark_null mark varmap ms }"
| "mark_ext mark (Ext_objenv target) ms = mark target ms"
| "mark_ext mark (Ext_bufobj buf prop) ms = do { ms \<leftarrow> mark_null mark buf ms; mark_null mark prop ms }"
| "mark_ext mark (Ext_boundfunc target this args) ms = do {
     ms \<leftarrow> duk__mark_tval mark target ms;
     ms \<leftarrow> duk__mark_tval mark this ms;
     mfold (duk__mark_tval mark) args ms }"
| "mark_ext mark (Ext_proxy target handler) ms = do { ms \<leftarrow> mark target ms; mark handler ms }"
| "mark_ext mark (Ext_thread valstack callstack builtins resumer) ms = do {
     ms \<leftarrow> mfold (duk__mark_tval mark) valstack ms;
     ms \<leftarrow> mfold (mark_activation mark) callstack ms;
     ms \<leftarrow> mark_null mark resumer ms;
     mfold (mark_null mark) builtins ms }"

definition duk__mark_hobject :: "(haddr \<Rightarrow> ms_op) \<Rightarrow> duk_hobject \<Rightarrow> ms_op" where
  "duk__mark_hobject mark obj ms = do {
     ms \<leftarrow> mfold (mark_entry mark) (o_entries obj) ms;
     ms \<leftarrow> mfold (duk__mark_tval mark) (o_array obj) ms;
     ms \<leftarrow> mark_null mark (o_prototype obj) ms;
     mark_ext mark (o_ext obj) ms }"

text \<open>
  The number is how many levels are left: \<open>DUK_USE_MARK_AND_SWEEP_RECLIMIT\<close> less
  \<open>ms_recursion_depth\<close>.  At the limit a header becomes a temporary root.
\<close>

primrec duk__mark_heaphdr :: "duk_heap \<Rightarrow> nat \<Rightarrow> haddr \<Rightarrow> ms_op" where
  "duk__mark_heaphdr heap 0 h ms = do {
     _ \<leftarrow> cells heap h;
     if h \<in> ms_reachable ms then Some ms
     else Some (ms\<lparr>ms_reachable := insert h (ms_reachable ms), ms_reclimit_reached := True,
       ms_temproot := insert h (ms_temproot ms)\<rparr>) }"
| "duk__mark_heaphdr heap (Suc n) h ms = do {
     hdr \<leftarrow> cells heap h;
     if h \<in> ms_reachable ms then Some ms
     else (let ms = ms\<lparr>ms_reachable := insert h (ms_reachable ms)\<rparr> in
       case h_body hdr of
         Hobject obj \<Rightarrow> duk__mark_hobject (duk__mark_heaphdr heap n) obj ms
       | _ \<Rightarrow> Some ms) }"

definition duk__mark_roots_heap :: "nat \<Rightarrow> duk_roots \<Rightarrow> duk_heap \<Rightarrow> ms_op" where
  "duk__mark_roots_heap n roots heap ms = do {
     let mark = duk__mark_heaphdr heap n;
     ms \<leftarrow> mark_null mark (heap_thread roots) ms;
     ms \<leftarrow> mark_null mark (heap_object roots) ms;
     ms \<leftarrow> mfold mark (heap_strs roots) ms;
     ms \<leftarrow> duk__mark_tval mark (lj_value1 roots) ms;
     duk__mark_tval mark (lj_value2 roots) ms }"

definition duk__handle_temproot :: "nat \<Rightarrow> duk_heap \<Rightarrow> haddr \<Rightarrow> ms_op" where
  "duk__handle_temproot n heap hdr ms =
    (if hdr \<notin> ms_temproot ms then Some ms
     else duk__mark_heaphdr heap n hdr
       (ms\<lparr>ms_temproot := ms_temproot ms - {hdr}, ms_reachable := ms_reachable ms - {hdr}\<rparr>))"

text \<open>The scan of the two lists, and its repetition with a fuel.\<close>

definition temproots_scan :: "nat \<Rightarrow> duk_heap \<Rightarrow> ms_op" where
  "temproots_scan n heap ms = do {
     let ms = ms\<lparr>ms_reclimit_reached := False\<rparr>;
     ms \<leftarrow> mfold (duk__handle_temproot n heap) (heap_allocated heap) ms;
     mfold (duk__handle_temproot n heap) (finalize_list heap) ms }"

primrec duk__mark_temproots_by_heap_scan :: "nat \<Rightarrow> nat \<Rightarrow> duk_heap \<Rightarrow> ms_op" where
  "duk__mark_temproots_by_heap_scan n 0 heap ms = None"
| "duk__mark_temproots_by_heap_scan n (Suc fuel) heap ms =
    (if ms_reclimit_reached ms then do { ms \<leftarrow> temproots_scan n heap ms; duk__mark_temproots_by_heap_scan n fuel heap ms }
     else Some ms)"

definition is_finalizable :: "duk_heap \<Rightarrow> ms_state \<Rightarrow> haddr \<Rightarrow> bool option" where
  "is_finalizable heap ms a = do {
     hdr \<leftarrow> cells heap a;
     if a \<notin> ms_reachable ms \<and> htype (h_body hdr) = DUK_HTYPE_OBJECT \<and> \<not> h_finalized hdr
     then has_finalizer_fast DUK_HOBJECT_PROTOTYPE_CHAIN_SANITY heap a else Some False }"

definition set_finalizable :: "ms_state \<Rightarrow> haddr \<Rightarrow> duk_heap \<times> nat \<Rightarrow> (duk_heap \<times> nat) option" where
  "set_finalizable ms a = (\<lambda>(heap, count_finalizable). do {
     fin \<leftarrow> is_finalizable heap ms a;
     hdr \<leftarrow> cells heap a;
     Some (if fin then (set_hdr a (hdr\<lparr>h_finalizable := True\<rparr>) heap, count_finalizable + 1)
       else (heap, count_finalizable)) })"

definition mark_if_finalizable :: "nat \<Rightarrow> duk_heap \<Rightarrow> haddr \<Rightarrow> ms_op" where
  "mark_if_finalizable n heap a ms = do {
     hdr \<leftarrow> cells heap a;
     if h_finalizable hdr then duk__mark_heaphdr heap n a ms else Some ms }"

definition duk__mark_finalizable :: "nat \<Rightarrow> duk_heap \<Rightarrow> ms_state \<Rightarrow> (duk_heap \<times> ms_state) option" where
  "duk__mark_finalizable n heap ms = do {
     (heap, count_finalizable) \<leftarrow> mfold (set_finalizable ms) (heap_allocated heap) (heap, 0);
     if count_finalizable = 0 then Some (heap, ms)
     else do { ms \<leftarrow> mfold (mark_if_finalizable n heap) (heap_allocated heap) ms; Some (heap, ms) } }"

definition duk__mark_finalize_list :: "nat \<Rightarrow> duk_heap \<Rightarrow> ms_op" where
  "duk__mark_finalize_list n heap = mfold (duk__mark_heaphdr heap n) (finalize_list heap)"

subsection \<open>Sweeping\<close>

text \<open>No refzero processing takes place while \<open>ms_running\<close> is set, so the cascade arguments are idle.\<close>

definition duk__finalize_refcounts :: "ms_state \<Rightarrow> heap_op" where
  "duk__finalize_refcounts ms heap =
    mfold (\<lambda>a. if a \<notin> ms_reachable ms then heaphdr_refcount_finalize_norz Some Some a else Some)
      (heap_allocated heap) heap"

definition sweep_one :: "bool \<Rightarrow> haddr \<Rightarrow> duk_heap \<times> ms_state \<times> nat \<Rightarrow> (duk_heap \<times> ms_state \<times> nat) option" where
  "sweep_one postpone_rescue cur = (\<lambda>(heap, ms, count_keep). do {
     hdr \<leftarrow> cells heap cur;
     if cur \<in> ms_reachable ms then
       (let (heap, count_keep) =
          (if h_finalizable hdr then
             ((set_hdr cur (hdr\<lparr>h_refcount := h_refcount hdr + 1\<rparr>) heap)\<lparr>finalize_list := cur # finalize_list heap\<rparr>,
              count_keep)
           else
             (let (hdr, count_keep) =
                (if h_finalized hdr then
                   (if postpone_rescue then (hdr, count_keep + 1) else (hdr\<lparr>h_finalized := False\<rparr>, count_keep))
                 else (hdr, count_keep + 1))
              in ((set_hdr cur hdr heap)\<lparr>heap_allocated := heap_allocated heap @ [cur]\<rparr>, count_keep)))
        in Some (heap, ms\<lparr>ms_reachable := ms_reachable ms - {cur}\<rparr>, count_keep))
     else Some (free_hdr cur heap, ms\<lparr>ms_temproot := ms_temproot ms - {cur}\<rparr>, count_keep) })"

definition duk__sweep_heap :: "bool \<Rightarrow> duk_heap \<Rightarrow> ms_state \<Rightarrow> (duk_heap \<times> ms_state \<times> nat) option" where
  "duk__sweep_heap postpone_rescue heap ms =
    mfold (sweep_one postpone_rescue) (heap_allocated heap) (heap\<lparr>heap_allocated := []\<rparr>, ms, 0)"

definition sweep_string :: "haddr \<Rightarrow> duk_heap \<times> ms_state \<times> nat \<Rightarrow> (duk_heap \<times> ms_state \<times> nat) option" where
  "sweep_string h = (\<lambda>(heap, ms, count_keep). do {
     _ \<leftarrow> cells heap h;
     if h \<in> ms_reachable ms then Some (heap, ms\<lparr>ms_reachable := ms_reachable ms - {h}\<rparr>, count_keep + 1)
     else do {
       heap \<leftarrow> refcount_refzero_hstring h heap;
       Some (heap, ms\<lparr>ms_temproot := ms_temproot ms - {h}\<rparr>, count_keep) } })"

definition duk__sweep_stringtable :: "duk_heap \<Rightarrow> ms_state \<Rightarrow> (duk_heap \<times> ms_state \<times> nat) option" where
  "duk__sweep_stringtable heap ms = mfold sweep_string (strtable heap) (heap, ms, 0)"

definition duk__clear_finalize_list_flags :: "duk_heap \<Rightarrow> ms_state \<Rightarrow> ms_state" where
  "duk__clear_finalize_list_flags heap ms = ms\<lparr>ms_reachable := ms_reachable ms - set (finalize_list heap)\<rparr>"

subsection \<open>The collection\<close>

definition DUK_HEAP_MARK_AND_SWEEP_TRIGGER_MULT :: nat where
  "DUK_HEAP_MARK_AND_SWEEP_TRIGGER_MULT = 12800"

definition DUK_HEAP_MARK_AND_SWEEP_TRIGGER_ADD :: nat where
  "DUK_HEAP_MARK_AND_SWEEP_TRIGGER_ADD = 1024"

definition ms_trigger :: "nat \<Rightarrow> nat \<Rightarrow> nat" where
  "ms_trigger count_keep_obj count_keep_str =
    (count_keep_obj + count_keep_str) div 256 * DUK_HEAP_MARK_AND_SWEEP_TRIGGER_MULT
     + DUK_HEAP_MARK_AND_SWEEP_TRIGGER_ADD"

text \<open>
  \<open>duk_heap_mark_and_sweep\<close> without the emergency measures.  The depth limit, the fuel of the
  scans and the caller's \<open>DUK_MS_FLAG_POSTPONE_RESCUE\<close> (with \<open>ms_base_flags\<close>) are arguments;
  \<open>ms_prevent_count\<close> and the trigger counter are part of the state.
\<close>

record gc_state =
  gc_heap :: duk_heap
  gc_ms :: ms_state
  ms_prevent_count :: nat
  ms_trigger_counter :: nat

definition ms_collect :: "nat \<Rightarrow> nat \<Rightarrow> duk_roots \<Rightarrow> bool \<Rightarrow> duk_heap \<Rightarrow> ms_state \<Rightarrow>
    (duk_heap \<times> ms_state \<times> nat) option" where
  "ms_collect n fuel roots postpone_rescue heap ms = do {
     ms \<leftarrow> duk__mark_roots_heap n roots heap ms;
     ms \<leftarrow> duk__mark_temproots_by_heap_scan n fuel heap ms;
     (heap, ms) \<leftarrow> duk__mark_finalizable n heap ms;
     ms \<leftarrow> duk__mark_finalize_list n heap ms;
     ms \<leftarrow> duk__mark_temproots_by_heap_scan n fuel heap ms;
     heap \<leftarrow> duk__finalize_refcounts ms heap;
     (heap, ms, count_keep_obj) \<leftarrow> duk__sweep_heap postpone_rescue heap ms;
     (heap, ms, count_keep_str) \<leftarrow> duk__sweep_stringtable heap ms;
     Some (heap, duk__clear_finalize_list_flags heap ms, ms_trigger count_keep_obj count_keep_str) }"

definition duk_heap_mark_and_sweep :: "nat \<Rightarrow> nat \<Rightarrow> heap_op \<Rightarrow> duk_roots \<Rightarrow> bool \<Rightarrow> gc_state \<Rightarrow> gc_state option" where
  "duk_heap_mark_and_sweep n fuel PF roots postpone_rescue gc =
    (if ms_prevent_count gc \<noteq> 0 then Some gc
     else do {
       let heap = gc_heap gc;
       let postpone_rescue = (postpone_rescue \<or> finalize_list heap \<noteq> []);
       (heap, ms, trigger) \<leftarrow> ms_collect n fuel roots postpone_rescue (heap\<lparr>ms_running := True\<rparr>) (gc_ms gc);
       heap \<leftarrow> PF (heap\<lparr>ms_running := False\<rparr>);
       Some \<lparr>gc_heap = heap, gc_ms = ms, ms_prevent_count = 0, ms_trigger_counter = trigger\<rparr> })"

subsection \<open>Marking as a walk over the references\<close>

lemma mfold_append: "mfold f (xs @ ys) = (\<lambda>s. mfold f xs s \<bind> mfold f ys)"
proof (induction xs)
  case (Cons x xs)
  then show ?case by (simp add: fun_eq_iff split: Option.bind_split)
qed (simp add: fun_eq_iff)

lemma mfold_concat: "(\<And>x. x \<in> set xs \<Longrightarrow> f x = mfold g (e x)) \<Longrightarrow> mfold f xs = mfold g (concat (map e xs))"
proof (induction xs)
  case (Cons x xs)
  then show ?case by (simp add: fun_eq_iff mfold_append)
qed (simp add: fun_eq_iff)

text \<open>The targets of the references of an object, in the order they are marked.\<close>

definition mark_list :: "duk_hobject \<Rightarrow> haddr list" where
  "mark_list obj = map snd (concat (map entry_edges (o_entries obj)) @ concat (map tval_edges (o_array obj))
     @ obj_opt (o_prototype obj) @
     (case o_ext obj of
        Ext_compfunc consts funcs lexenv varenv data \<Rightarrow>
          opt_edges DUK_HTYPE_BUFFER data @ obj_opt lexenv @ obj_opt varenv
          @ (if data = None then [] else concat (map tval_edges consts) @ map (Pair DUK_HTYPE_OBJECT) funcs)
      | Ext_thread valstack callstack builtins resumer \<Rightarrow>
          concat (map tval_edges valstack) @ concat (map act_edges callstack) @ obj_opt resumer
          @ concat (map obj_opt builtins)
      | ext \<Rightarrow> ext_edges ext))"

lemma mark_list_set: "set (mark_list obj) = snd ` set (obj_edges obj)"
proof -
  have sets: "set (concat (map f (rev xs))) = set (concat (map f xs))" for f :: "'a \<Rightarrow> edge list" and xs by simp
  show ?thesis
    unfolding mark_list_def obj_edges_def set_map set_append sets
    by (cases "o_ext obj") (simp_all add: image_Un ac_simps)
qed

lemma mark_tval_walk: "duk__mark_tval mark tv = mfold mark (map snd (tval_edges tv))"
  by (cases tv) (simp_all add: fun_eq_iff duk__mark_tval_def)

lemma mark_null_walk: "mark_null mark x = mfold mark (map snd (obj_opt x))"
  by (cases x) (simp_all add: fun_eq_iff)

lemma opt_targets: "map snd (opt_edges DUK_HTYPE_BUFFER x) = map snd (obj_opt x)"
  by (cases x) simp_all

lemma mfold_Nil: "mfold f [] = Some"
  by (simp add: fun_eq_iff)

lemma mark_entry_walk: "mark_entry mark e = mfold mark (map snd (entry_edges e))"
  by (cases e rule: entry_edges.cases)
    (simp_all add: fun_eq_iff mark_entry_def mfold_append mark_tval_walk mark_null_walk)

lemma mark_activation_walk: "mark_activation mark act = mfold mark (map snd (act_edges act))"
  by (simp add: fun_eq_iff mark_activation_def act_edges_def mfold_append mark_null_walk)

lemma mark_lists_walk:
  "mfold (duk__mark_tval mark) tvs = mfold mark (map snd (concat (map tval_edges tvs)))"
  "mfold (mark_null mark) ps = mfold mark (map snd (concat (map obj_opt ps)))"
  "mfold (mark_entry mark) es = mfold mark (map snd (concat (map entry_edges es)))"
  "mfold (mark_activation mark) acts = mfold mark (map snd (concat (map act_edges acts)))"
  by (simp_all add: mfold_concat mark_tval_walk mark_null_walk mark_entry_walk
      mark_activation_walk map_concat comp_def)

lemma mark_hobject_walk: "duk__mark_hobject mark obj = mfold mark (mark_list obj)"
proof -
  have "mark_ext mark (o_ext obj) = mfold mark (map snd
     (case o_ext obj of
        Ext_compfunc consts funcs lexenv varenv data \<Rightarrow>
          opt_edges DUK_HTYPE_BUFFER data @ obj_opt lexenv @ obj_opt varenv
          @ (if data = None then [] else concat (map tval_edges consts) @ map (Pair DUK_HTYPE_OBJECT) funcs)
      | Ext_thread valstack callstack builtins resumer \<Rightarrow>
          concat (map tval_edges valstack) @ concat (map act_edges callstack) @ obj_opt resumer
          @ concat (map obj_opt builtins)
      | ext \<Rightarrow> ext_edges ext))"
    by (cases "o_ext obj")
      (simp_all add: fun_eq_iff mfold_append mark_tval_walk mark_lists_walk comp_def opt_targets mfold_Nil
        mark_null_walk)
  then show ?thesis
    by (simp add: fun_eq_iff duk__mark_hobject_def mark_list_def mfold_append mark_lists_walk
        mark_null_walk)
qed

definition root_edges :: "duk_roots \<Rightarrow> edge list" where
  "root_edges roots = obj_opt (heap_thread roots) @ obj_opt (heap_object roots)
     @ map (Pair DUK_HTYPE_STRING) (heap_strs roots) @ tval_edges (lj_value1 roots) @ tval_edges (lj_value2 roots)"

lemma mark_roots_walk:
  "duk__mark_roots_heap n roots heap = mfold (duk__mark_heaphdr heap n) (map snd (root_edges roots))"
  by (simp add: fun_eq_iff duk__mark_roots_heap_def root_edges_def mfold_append mark_tval_walk comp_def
      mark_null_walk Let_def)

subsection \<open>What marking reaches\<close>

definition kids :: "duk_heap \<Rightarrow> haddr \<Rightarrow> haddr set" where
  "kids heap x = (case cells heap x of None \<Rightarrow> {} | Some hdr \<Rightarrow> snd ` set (hdr_edges hdr))"

definition closed :: "duk_heap \<Rightarrow> haddr set \<Rightarrow> bool" where
  "closed heap C \<longleftrightarrow> C \<subseteq> dom (cells heap) \<and> (\<forall>x \<in> C. kids heap x \<subseteq> C)"

text \<open>One call of the marking functions, within a closed set \<open>C\<close>.\<close>

definition marks :: "duk_heap \<Rightarrow> haddr set \<Rightarrow> ms_state \<Rightarrow> ms_state \<Rightarrow> bool" where
  "marks heap C ms ms' \<longleftrightarrow> ms_reachable ms \<subseteq> ms_reachable ms' \<and> ms_reachable ms' \<subseteq> C
   \<and> ms_temproot ms \<subseteq> ms_temproot ms' \<and> ms_temproot ms' - ms_temproot ms \<subseteq> ms_reachable ms' - ms_reachable ms
   \<and> (\<forall>x \<in> ms_reachable ms' - ms_reachable ms. x \<notin> ms_temproot ms' \<longrightarrow> kids heap x \<subseteq> ms_reachable ms')
   \<and> (ms_reclimit_reached ms \<or> ms_temproot ms' \<noteq> ms_temproot ms \<longrightarrow> ms_reclimit_reached ms')"

lemma marks_refl: "ms_reachable ms \<subseteq> C \<Longrightarrow> marks heap C ms ms"
  by (simp add: marks_def)

lemma marks_trans:
  assumes "marks heap C m1 m2" "marks heap C m2 m3"
  shows "marks heap C m1 m3"
proof -
  have a: "ms_reachable m1 \<subseteq> ms_reachable m2" "ms_reachable m2 \<subseteq> ms_reachable m3" "ms_reachable m3 \<subseteq> C"
    "ms_temproot m1 \<subseteq> ms_temproot m2" "ms_temproot m2 \<subseteq> ms_temproot m3"
    "ms_temproot m2 - ms_temproot m1 \<subseteq> ms_reachable m2 - ms_reachable m1"
    "ms_temproot m3 - ms_temproot m2 \<subseteq> ms_reachable m3 - ms_reachable m2"
    "\<forall>x \<in> ms_reachable m2 - ms_reachable m1. x \<notin> ms_temproot m2 \<longrightarrow> kids heap x \<subseteq> ms_reachable m2"
    "\<forall>x \<in> ms_reachable m3 - ms_reachable m2. x \<notin> ms_temproot m3 \<longrightarrow> kids heap x \<subseteq> ms_reachable m3"
    "ms_reclimit_reached m1 \<or> ms_temproot m2 \<noteq> ms_temproot m1 \<longrightarrow> ms_reclimit_reached m2"
    "ms_reclimit_reached m2 \<or> ms_temproot m3 \<noteq> ms_temproot m2 \<longrightarrow> ms_reclimit_reached m3"
    using assms unfolding marks_def by - (elim conjE, assumption)+
  have k: "kids heap x \<subseteq> ms_reachable m3" if "x \<in> ms_reachable m3 - ms_reachable m1" "x \<notin> ms_temproot m3" for x
  proof (cases "x \<in> ms_reachable m2")
    case True
    then have "kids heap x \<subseteq> ms_reachable m2" using a(5,8) that by blast
    then show ?thesis using a(2) by blast
  next
    case False
    then show ?thesis using a(9) that by blast
  qed
  have "ms_temproot m3 - ms_temproot m1 \<subseteq> ms_reachable m3 - ms_reachable m1" using a(1,2,6,7) by blast
  moreover have "ms_reclimit_reached m1 \<or> ms_temproot m3 \<noteq> ms_temproot m1 \<longrightarrow> ms_reclimit_reached m3" using a(10,11) by auto
  ultimately show ?thesis using a(1-5) k unfolding marks_def by blast
qed

lemma mfold_marks:
  assumes "\<And>h ms. h \<in> set hs \<Longrightarrow> ms_reachable ms \<subseteq> C \<Longrightarrow>
      \<exists>ms'. f h ms = Some ms' \<and> marks heap C ms ms' \<and> h \<in> ms_reachable ms'"
    and "ms_reachable ms \<subseteq> C"
  shows "\<exists>ms'. mfold f hs ms = Some ms' \<and> marks heap C ms ms' \<and> set hs \<subseteq> ms_reachable ms'"
  using assms
proof (induction hs arbitrary: ms)
  case Nil
  then show ?case by (simp add: marks_refl)
next
  case (Cons h hs)
  obtain m1 where m1: "f h ms = Some m1" "marks heap C ms m1" "h \<in> ms_reachable m1"
    using Cons.prems(1) [of h ms] Cons.prems(2) by auto
  then have "ms_reachable m1 \<subseteq> C" by (simp add: marks_def)
  then obtain m2 where m2: "mfold f hs m1 = Some m2" "marks heap C m1 m2" "set hs \<subseteq> ms_reachable m2"
    using Cons.IH [of m1] Cons.prems(1) by auto
  have "h \<in> ms_reachable m2" using m1(3) m2(2) by (auto simp: marks_def)
  then show ?case using m1 m2 marks_trans [OF m1(2) m2(2)] by simp
qed

lemma kids_object: "cells heap h = Some hdr \<Longrightarrow> h_body hdr = Hobject obj \<Longrightarrow> kids heap h = set (mark_list obj)"
  by (simp add: kids_def hdr_edges_def mark_list_set)

lemma kids_leaf: "cells heap h = Some hdr \<Longrightarrow> h_body hdr = Hstring \<or> h_body hdr = Hbuffer \<Longrightarrow> kids heap h = {}"
  by (auto simp: kids_def hdr_edges_def)

lemma marks_insert:
  assumes "marks heap C (ms\<lparr>ms_reachable := insert h (ms_reachable ms)\<rparr>) m'" "h \<notin> ms_reachable ms"
    and "kids heap h \<subseteq> ms_reachable m'"
  shows "marks heap C ms m'"
proof -
  let ?m = "ms\<lparr>ms_reachable := insert h (ms_reachable ms)\<rparr>"
  have m: "insert h (ms_reachable ms) \<subseteq> ms_reachable m'" "ms_reachable m' \<subseteq> C" "ms_temproot ms \<subseteq> ms_temproot m'"
    "ms_temproot m' - ms_temproot ms \<subseteq> ms_reachable m' - insert h (ms_reachable ms)"
    "\<forall>x \<in> ms_reachable m' - insert h (ms_reachable ms). x \<notin> ms_temproot m' \<longrightarrow> kids heap x \<subseteq> ms_reachable m'"
    "ms_reclimit_reached ms \<or> ms_temproot m' \<noteq> ms_temproot ms \<longrightarrow> ms_reclimit_reached m'"
    using assms(1) unfolding marks_def by simp_all
  have "kids heap x \<subseteq> ms_reachable m'" if "x \<in> ms_reachable m' - ms_reachable ms" "x \<notin> ms_temproot m'" for x
    using that m(5) assms(3) by (cases "x = h") blast+
  moreover have "ms_temproot m' - ms_temproot ms \<subseteq> ms_reachable m' - ms_reachable ms" using m(4) by blast
  ultimately show ?thesis using m(1-3,6) unfolding marks_def by blast
qed

lemma mark_heaphdr_spec:
  assumes "closed heap C" "h \<in> C" "ms_reachable ms \<subseteq> C"
  shows "\<exists>ms'. duk__mark_heaphdr heap n h ms = Some ms' \<and> marks heap C ms ms' \<and> h \<in> ms_reachable ms'
    \<and> (n > 0 \<and> h \<notin> ms_temproot ms \<longrightarrow> h \<notin> ms_temproot ms')"
  using assms(2,3)
proof (induction n arbitrary: h ms)
  case 0
  then obtain hdr where "cells heap h = Some hdr" using assms(1) by (auto simp: closed_def)
  then show ?case using 0 by (auto simp: marks_def)
next
  case (Suc n)
  obtain hdr where h: "cells heap h = Some hdr" using assms(1) Suc.prems(1) by (auto simp: closed_def)
  show ?case
  proof (cases "h \<in> ms_reachable ms")
    case True
    then show ?thesis using h Suc.prems(2) marks_refl by auto
  next
    case False
    let ?m = "ms\<lparr>ms_reachable := insert h (ms_reachable ms)\<rparr>"
    have k: "kids heap h \<subseteq> C" using assms(1) Suc.prems(1) by (auto simp: closed_def)
    show ?thesis
    proof (cases "h_body hdr")
      case (Hobject obj)
      have s: "set (mark_list obj) \<subseteq> C" using k kids_object [OF h Hobject] by simp
      obtain m' where m': "mfold (duk__mark_heaphdr heap n) (mark_list obj) ?m = Some m'" "marks heap C ?m m'"
        "set (mark_list obj) \<subseteq> ms_reachable m'"
      proof -
        have "\<exists>m'. mfold (duk__mark_heaphdr heap n) (mark_list obj) ?m = Some m' \<and> marks heap C ?m m'
            \<and> set (mark_list obj) \<subseteq> ms_reachable m'"
        proof (rule mfold_marks)
          fix k and m :: ms_state
          assume "k \<in> set (mark_list obj)" "ms_reachable m \<subseteq> C"
          then show "\<exists>m'. duk__mark_heaphdr heap n k m = Some m' \<and> marks heap C m m' \<and> k \<in> ms_reachable m'"
            using Suc.IH [of k m] s by blast
        qed (use Suc.prems in simp)
        then show thesis using that by blast
      qed
      have m: "h \<in> ms_reachable m'" "ms_temproot m' - ms_temproot ms \<subseteq> ms_reachable m' - insert h (ms_reachable ms)"
        using m'(2) by (auto simp: marks_def)
      have "marks heap C ms m'"
        using marks_insert [OF m'(2) False] m'(3) kids_object [OF h Hobject] by simp
      then show ?thesis using h Hobject False m'(1) m by (auto simp: mark_hobject_walk Let_def)
    qed (use h False Suc.prems kids_leaf [OF h] in \<open>auto simp: marks_def Let_def\<close>)
  qed
qed

subsection \<open>The scans\<close>

text \<open>
  The invariant of the marking phase: what is reachable and expanded has its references reachable; a
  temporary root that is no string is reachable, and either the limit flag is set or the root is still
  ahead (in \<open>L\<close>) of the scan.
\<close>

definition is_string :: "duk_heap \<Rightarrow> haddr \<Rightarrow> bool" where
  "is_string heap x \<longleftrightarrow> (\<exists>hdr. cells heap x = Some hdr \<and> h_body hdr = Hstring)"

definition mark_inv :: "duk_heap \<Rightarrow> haddr set \<Rightarrow> haddr set \<Rightarrow> ms_state \<Rightarrow> bool" where
  "mark_inv heap C L ms \<longleftrightarrow> ms_reachable ms \<subseteq> C
   \<and> (\<forall>x \<in> ms_reachable ms - ms_temproot ms. kids heap x \<subseteq> ms_reachable ms)
   \<and> (\<forall>x \<in> ms_temproot ms. \<not> is_string heap x \<longrightarrow> x \<in> ms_reachable ms \<and> (ms_reclimit_reached ms \<or> x \<in> L))"

lemma mark_inv_marks:
  assumes "mark_inv heap C L ms" "marks heap C ms ms'"
  shows "mark_inv heap C L ms'"
proof -
  have k: "kids heap x \<subseteq> ms_reachable ms'" if "x \<in> ms_reachable ms' - ms_temproot ms'" for x
  proof (cases "x \<in> ms_reachable ms")
    case True
    then have "kids heap x \<subseteq> ms_reachable ms" using that assms unfolding mark_inv_def marks_def by blast
    then show ?thesis using assms(2) unfolding marks_def by blast
  next
    case False
    then show ?thesis using that assms(2) unfolding marks_def by blast
  qed
  have t: "x \<in> ms_reachable ms' \<and> (ms_reclimit_reached ms' \<or> x \<in> L)" if "x \<in> ms_temproot ms'" "\<not> is_string heap x" for x
  proof (cases "x \<in> ms_temproot ms")
    case True
    then show ?thesis using that assms unfolding mark_inv_def marks_def by blast
  next
    case False
    then show ?thesis using that assms(2) unfolding marks_def by blast
  qed
  show ?thesis using k t assms(2) unfolding mark_inv_def marks_def by blast
qed

text \<open>Expanded cells stay expanded, and a step that is not idle expands one more.\<close>

definition black :: "ms_state \<Rightarrow> haddr set" where
  "black ms = ms_reachable ms - ms_temproot ms"

lemma handle_temproot_spec:
  assumes "closed heap C" "mark_inv heap C (insert h L) ms" "n > 0" "h \<in> dom (cells heap)" "\<not> is_string heap h"
  shows "\<exists>ms'. duk__handle_temproot n heap h ms = Some ms' \<and> mark_inv heap C L ms'
    \<and> ms_reachable ms \<subseteq> ms_reachable ms' \<and> black ms \<subseteq> black ms' \<and> (ms' = ms \<or> black ms \<noteq> black ms')"
proof (cases "h \<in> ms_temproot ms")
  case False
  then have "mark_inv heap C L ms" using assms(2) unfolding mark_inv_def by blast
  then show ?thesis using False by (simp add: duk__handle_temproot_def)
next
  case True
  let ?m = "ms\<lparr>ms_temproot := ms_temproot ms - {h}, ms_reachable := ms_reachable ms - {h}\<rparr>"
  have i: "ms_reachable ms \<subseteq> C" "\<forall>x \<in> ms_reachable ms - ms_temproot ms. kids heap x \<subseteq> ms_reachable ms"
    "\<And>x. x \<in> ms_temproot ms \<Longrightarrow> \<not> is_string heap x \<Longrightarrow> x \<in> ms_reachable ms"
    "\<And>x. x \<in> ms_temproot ms \<Longrightarrow> \<not> is_string heap x \<Longrightarrow> ms_reclimit_reached ms \<or> x \<in> insert h L"
    using assms(2) unfolding mark_inv_def by blast+
  have hr: "h \<in> ms_reachable ms" using i(3) True assms(5) by blast
  obtain m' where m': "duk__mark_heaphdr heap n h ?m = Some m'" "marks heap C ?m m'" "h \<in> ms_reachable m'"
    "h \<notin> ms_temproot m'"
    using mark_heaphdr_spec [OF assms(1), of h ?m n] hr i(1) assms(3) by auto
  have c: "ms_reachable ms - {h} \<subseteq> ms_reachable m'" "ms_reachable m' \<subseteq> C" "ms_temproot ms - {h} \<subseteq> ms_temproot m'"
    "ms_temproot m' - (ms_temproot ms - {h}) \<subseteq> ms_reachable m' - (ms_reachable ms - {h})"
    "\<forall>x \<in> ms_reachable m' - (ms_reachable ms - {h}). x \<notin> ms_temproot m' \<longrightarrow> kids heap x \<subseteq> ms_reachable m'"
    "ms_reclimit_reached ms \<or> ms_temproot m' \<noteq> ms_temproot ms - {h} \<longrightarrow> ms_reclimit_reached m'"
    using m'(2) unfolding marks_def by simp_all
  have sub: "ms_reachable ms \<subseteq> ms_reachable m'" using c(1) m'(3) by blast
  have k: "kids heap x \<subseteq> ms_reachable m'" if "x \<in> ms_reachable m' - ms_temproot m'" for x
  proof (cases "x \<in> ms_reachable ms - {h}")
    case True
    then have "kids heap x \<subseteq> ms_reachable ms" using that c(3) i(2) by blast
    then show ?thesis using sub by blast
  next
    case False
    then show ?thesis using that c(5) by blast
  qed
  have t: "x \<in> ms_reachable m' \<and> (ms_reclimit_reached m' \<or> x \<in> L)" if "x \<in> ms_temproot m'" "\<not> is_string heap x" for x
  proof (cases "x \<in> ms_temproot ms - {h}")
    case True
    then show ?thesis using that sub c(6) i(3,4) by blast
  next
    case False
    then show ?thesis using that c(4,6) by blast
  qed
  have "mark_inv heap C L m'" using c(2) k t unfolding mark_inv_def by blast
  moreover have "black ms \<subseteq> black m'" using sub c(1,4) True unfolding black_def by blast
  moreover have "h \<in> black m' - black ms" using m'(3,4) True unfolding black_def by blast
  ultimately show ?thesis using True m'(1) sub by (auto simp: duk__handle_temproot_def)
qed

lemma handle_temproots_spec:
  assumes "closed heap C" "mark_inv heap C (set hs \<union> L) ms" "n > 0"
    and "\<And>h. h \<in> set hs \<Longrightarrow> h \<in> dom (cells heap) \<and> \<not> is_string heap h"
  shows "\<exists>ms'. mfold (duk__handle_temproot n heap) hs ms = Some ms' \<and> mark_inv heap C L ms'
    \<and> ms_reachable ms \<subseteq> ms_reachable ms' \<and> black ms \<subseteq> black ms' \<and> (ms' = ms \<or> black ms \<noteq> black ms')"
  using assms(2,4)
proof (induction hs arbitrary: ms)
  case Nil
  then show ?case by simp
next
  case (Cons h hs)
  obtain m1 where m1: "duk__handle_temproot n heap h ms = Some m1" "mark_inv heap C (set hs \<union> L) m1"
    "ms_reachable ms \<subseteq> ms_reachable m1" "black ms \<subseteq> black m1" "m1 = ms \<or> black ms \<noteq> black m1"
    using handle_temproot_spec [OF assms(1) _ assms(3), of h "set hs \<union> L" ms] Cons.prems by auto
  obtain m2 where m2: "mfold (duk__handle_temproot n heap) hs m1 = Some m2" "mark_inv heap C L m2"
    "ms_reachable m1 \<subseteq> ms_reachable m2" "black m1 \<subseteq> black m2" "m2 = m1 \<or> black m1 \<noteq> black m2"
    using Cons.IH [OF m1(2)] Cons.prems(2) by auto
  have "m2 = ms \<or> black ms \<noteq> black m2" using m1(4,5) m2(4,5) by blast
  then show ?case using m1 m2 by auto
qed

text \<open>Every cell but the strings is on one of the two lists.\<close>

definition lists_cover :: "duk_heap \<Rightarrow> bool" where
  "lists_cover heap \<longleftrightarrow> set (heap_allocated heap) \<union> set (finalize_list heap)
     = {x \<in> dom (cells heap). \<not> is_string heap x}"

lemma temproots_scan_spec:
  assumes "closed heap C" "mark_inv heap C {} ms" "n > 0" "lists_cover heap"
  shows "\<exists>ms'. temproots_scan n heap ms = Some ms' \<and> mark_inv heap C {} ms' \<and> ms_reachable ms \<subseteq> ms_reachable ms'
    \<and> black ms \<subseteq> black ms' \<and> (ms' = ms\<lparr>ms_reclimit_reached := False\<rparr> \<or> black ms \<noteq> black ms')"
proof -
  let ?m = "ms\<lparr>ms_reclimit_reached := False\<rparr>"
  have cover: "\<And>h. h \<in> set (heap_allocated heap) \<union> set (finalize_list heap) \<longleftrightarrow> h \<in> dom (cells heap) \<and> \<not> is_string heap h"
    using assms(4) by (auto simp: lists_cover_def)
  have "x \<in> dom (cells heap)" if "x \<in> ms_temproot ms" "\<not> is_string heap x" for x
    using that assms(1,2) unfolding mark_inv_def closed_def by blast
  then have "mark_inv heap C (set (heap_allocated heap) \<union> (set (finalize_list heap) \<union> {})) ?m"
    using assms(2) cover unfolding mark_inv_def by fastforce
  then obtain m1 where m1: "mfold (duk__handle_temproot n heap) (heap_allocated heap) ?m = Some m1"
    "mark_inv heap C (set (finalize_list heap) \<union> {}) m1" "ms_reachable ?m \<subseteq> ms_reachable m1" "black ?m \<subseteq> black m1"
    "m1 = ?m \<or> black ?m \<noteq> black m1"
    using handle_temproots_spec [OF assms(1) _ assms(3)] cover by blast
  obtain m2 where m2: "mfold (duk__handle_temproot n heap) (finalize_list heap) m1 = Some m2"
    "mark_inv heap C {} m2" "ms_reachable m1 \<subseteq> ms_reachable m2" "black m1 \<subseteq> black m2" "m2 = m1 \<or> black m1 \<noteq> black m2"
    using handle_temproots_spec [OF assms(1) m1(2) assms(3)] cover by blast
  have b: "black ?m = black ms" "ms_reachable ?m = ms_reachable ms" by (simp_all add: black_def)
  have "m2 = ?m \<or> black ms \<noteq> black m2" using m1(4,5) m2(4,5) unfolding b by blast
  then show ?thesis using m1 m2 b by (auto simp: temproots_scan_def)
qed

lemma mark_temproots_spec:
  assumes "closed heap C" "mark_inv heap C {} ms" "n > 0" "lists_cover heap" "finite C" "card (C - black ms) + 1 < fuel"
  shows "\<exists>ms'. duk__mark_temproots_by_heap_scan n fuel heap ms = Some ms' \<and> mark_inv heap C {} ms'
    \<and> ms_reachable ms \<subseteq> ms_reachable ms' \<and> \<not> ms_reclimit_reached ms'"
  using assms(2,6)
proof (induction fuel arbitrary: ms)
  case (Suc fuel)
  show ?case
  proof (cases "ms_reclimit_reached ms")
    case True
    obtain m1 where m1: "temproots_scan n heap ms = Some m1" "mark_inv heap C {} m1" "ms_reachable ms \<subseteq> ms_reachable m1"
      "black ms \<subseteq> black m1" "m1 = ms\<lparr>ms_reclimit_reached := False\<rparr> \<or> black ms \<noteq> black m1"
      using temproots_scan_spec [OF assms(1) Suc.prems(1) assms(3,4)] by blast
    from m1(5) show ?thesis
    proof
      assume "m1 = ms\<lparr>ms_reclimit_reached := False\<rparr>"
      then have "duk__mark_temproots_by_heap_scan n fuel heap m1 = Some m1" "\<not> ms_reclimit_reached m1"
        using Suc.prems(2) by (cases fuel; simp)+
      then show ?thesis using True m1(1-3) by simp
    next
      assume "black ms \<noteq> black m1"
      moreover have "black m1 \<subseteq> C" using m1(2) unfolding mark_inv_def black_def by blast
      ultimately have "C - black m1 \<subset> C - black ms" using m1(4) by blast
      then have "card (C - black m1) < card (C - black ms)" using assms(5) by (intro psubset_card_mono) simp_all
      then obtain m2 where "duk__mark_temproots_by_heap_scan n fuel heap m1 = Some m2" "mark_inv heap C {} m2"
        "ms_reachable m1 \<subseteq> ms_reachable m2" "\<not> ms_reclimit_reached m2"
        using Suc.IH [OF m1(2)] Suc.prems(2) by auto
      then show ?thesis using True m1(1,3) by auto
    qed
  qed (use Suc.prems(1) in simp)
qed simp

lemma kids_string: "is_string heap x \<Longrightarrow> kids heap x = {}"
  unfolding is_string_def by (auto simp: kids_leaf)

text \<open>A finished marking reaches exactly the closed set that its roots generate.\<close>

lemma marking_complete:
  assumes "closed heap C" "mark_inv heap C {} ms" "n > 0" "lists_cover heap" "finite C" "card C + 1 < fuel"
    and "S \<subseteq> ms_reachable ms" "\<And>X. S \<subseteq> X \<Longrightarrow> (\<And>x. x \<in> X \<Longrightarrow> kids heap x \<subseteq> X) \<Longrightarrow> C \<subseteq> X"
  shows "\<exists>ms'. duk__mark_temproots_by_heap_scan n fuel heap ms = Some ms' \<and> mark_inv heap C {} ms'
    \<and> ms_reachable ms' = C \<and> ms_temproot ms' \<subseteq> {x. is_string heap x} \<and> \<not> ms_reclimit_reached ms'"
proof -
  have "card (C - black ms) \<le> card C" using assms(5) by (intro card_mono) auto
  then have "card (C - black ms) + 1 < fuel" using assms(6) by linarith
  from mark_temproots_spec [OF assms(1-5) this]
  obtain m' where m': "duk__mark_temproots_by_heap_scan n fuel heap ms = Some m'" "mark_inv heap C {} m'"
    "ms_reachable ms \<subseteq> ms_reachable m'" "\<not> ms_reclimit_reached m'" by blast
  have t: "ms_temproot m' \<subseteq> {x. is_string heap x}" using m'(2,4) unfolding mark_inv_def by blast
  then have "kids heap x \<subseteq> ms_reachable m'" if "x \<in> ms_reachable m'" for x
    using that m'(2) kids_string [of heap x] unfolding mark_inv_def by blast
  then have "C \<subseteq> ms_reachable m'" using assms(7) m'(3) by (intro assms(8)) blast+
  then have "ms_reachable m' = C" using m'(2) unfolding mark_inv_def by blast
  then show ?thesis using m' t by blast
qed

text \<open>The closed sets at hand.\<close>

definition reach :: "duk_heap \<Rightarrow> edge list \<Rightarrow> haddr set" where
  "reach heap es = {x. reachable heap (mset es) x}"

lemma reach_roots: "e \<in> set es \<Longrightarrow> snd e \<in> reach heap es"
  unfolding reach_def using reachable_root [of e "mset es" heap] by simp

lemma reach_kids: "x \<in> reach heap es \<Longrightarrow> kids heap x \<subseteq> reach heap es"
  by (auto simp: reach_def kids_def split: option.splits intro: reachable_edge)

lemma reach_least:
  assumes "snd ` set es \<subseteq> X" "\<And>x. x \<in> X \<Longrightarrow> kids heap x \<subseteq> X"
  shows "reach heap es \<subseteq> X"
proof
  fix x
  assume "x \<in> reach heap es"
  then have "reachable heap (mset es) x" by (simp add: reach_def)
  then show "x \<in> X"
  proof induction
    case (reachable_edge x hdr e)
    then have "snd e \<in> kids heap x" by (simp add: kids_def)
    then show ?case using assms(2) [OF reachable_edge.IH] by blast
  qed (use assms(1) in auto)
qed

lemma reach_mono: "set es \<subseteq> set fs \<Longrightarrow> reach heap es \<subseteq> reach heap fs"
  by (rule reach_least) (use reach_roots reach_kids in blast)+

lemma reach_closed:
  assumes "\<And>e. e \<in> set es \<Longrightarrow> snd e \<in> dom (cells heap)" "\<And>x. kids heap x \<subseteq> dom (cells heap)"
  shows "closed heap (reach heap es)"
  using reach_least [of es "dom (cells heap)" heap] assms reach_kids unfolding closed_def by blast

subsection \<open>Finalizable objects\<close>

definition flagged :: "haddr set \<Rightarrow> duk_heap \<Rightarrow> duk_heap" where
  "flagged Q heap = heap\<lparr>cells := \<lambda>a. map_option (\<lambda>hdr. if a \<in> Q then hdr\<lparr>h_finalizable := True\<rparr> else hdr) (cells heap a)\<rparr>"

lemma flagged_empty: "flagged {} heap = heap"
  by (simp add: flagged_def option.map_ident)

lemma flagged_bodies: "map_option h_body (cells (flagged Q heap) a) = map_option h_body (cells heap a)"
  by (cases "cells heap a") (simp_all add: flagged_def)

lemma kids_bodies: "kids heap x = (case map_option h_body (cells heap x) of None \<Rightarrow> {} | Some b \<Rightarrow> snd ` set (body_edges b))"
  by (cases "cells heap x") (simp_all add: kids_def hdr_edges_def)

lemma is_string_bodies: "is_string heap x \<longleftrightarrow> map_option h_body (cells heap x) = Some Hstring"
  by (cases "cells heap x") (simp_all add: is_string_def)

lemma dom_bodies: "dom (cells heap) = {a. map_option h_body (cells heap a) \<noteq> None}"
  by auto

text \<open>Everything that marking looks at depends on the bodies only.\<close>

lemma marking_bodies:
  assumes "\<And>a. map_option h_body (cells heap' a) = map_option h_body (cells heap a)"
  shows "kids heap' = kids heap" "is_string heap' = is_string heap" "dom (cells heap') = dom (cells heap)"
    "closed heap' = closed heap" "mark_inv heap' = mark_inv heap"
  by (simp_all add: assms kids_bodies is_string_bodies dom_bodies closed_def mark_inv_def fun_eq_iff)

lemma reach_bodies:
  assumes "\<And>a. map_option h_body (cells heap' a) = map_option h_body (cells heap a)"
  shows "reach heap' es = reach heap es"
proof (rule subset_antisym)
  have k: "kids heap' x = kids heap x" for x by (simp add: marking_bodies(1) [OF assms])
  show "reach heap' es \<subseteq> reach heap es"
    by (rule reach_least) (use reach_roots [of _ es heap] reach_kids [of _ heap es] k in auto)
  show "reach heap es \<subseteq> reach heap' es"
    by (rule reach_least) (use reach_roots [of _ es heap'] reach_kids [of _ heap' es] k in auto)
qed

lemma has_finalizer_fast_bodies:
  assumes "\<And>a. map_option h_body (cells heap' a) = map_option h_body (cells heap a)"
  shows "has_finalizer_fast n heap' a = has_finalizer_fast n heap a"
proof (induction n arbitrary: a)
  case 0
  show ?case using assms [of a]
    by (subst (1 2) has_finalizer_fast.simps) (cases "cells heap' a"; cases "cells heap a"; auto split: duk_hbody.split)
next
  case (Suc n)
  show ?case using assms [of a] Suc.IH
    by (subst (1 2) has_finalizer_fast.simps)
      (cases "cells heap' a"; cases "cells heap a"; auto split: duk_hbody.split option.split)
qed

lemma is_finalizable_flagged: "is_finalizable (flagged Q heap) ms a = is_finalizable heap ms a"
  unfolding is_finalizable_def has_finalizer_fast_bodies [OF flagged_bodies]
  by (cases "cells heap a"; cases "a \<in> Q") (simp_all add: flagged_def)

lemma set_finalizable_step:
  assumes "cells heap a = Some hdr" "is_finalizable heap ms a = Some fin"
  shows "set_finalizable ms a (flagged P heap, k)
    = Some (if fin then (flagged (insert a P) heap, k + 1) else (flagged P heap, k))"
proof -
  have "set_hdr a (hdr'\<lparr>h_finalizable := True\<rparr>) (flagged P heap) = flagged (insert a P) heap"
    if "hdr' = (if a \<in> P then hdr\<lparr>h_finalizable := True\<rparr> else hdr)" for hdr'
    using assms(1) that by (auto simp: set_hdr_def flagged_def fun_eq_iff)
  then show ?thesis
    using assms by (simp add: set_finalizable_def is_finalizable_flagged) (simp add: flagged_def)
qed

lemma set_finalizable_fold:
  assumes "\<And>a. a \<in> set l \<Longrightarrow> cells heap a \<noteq> None \<and> is_finalizable heap ms a \<noteq> None"
  shows "\<exists>k'. mfold (set_finalizable ms) l (flagged P heap, k)
      = Some (flagged (P \<union> {a \<in> set l. is_finalizable heap ms a = Some True}) heap, k')
    \<and> (k' = 0 \<longleftrightarrow> k = 0 \<and> (\<forall>a \<in> set l. is_finalizable heap ms a \<noteq> Some True))"
  using assms
proof (induction l arbitrary: P k)
  case (Cons a l)
  obtain hdr fin where a: "cells heap a = Some hdr" "is_finalizable heap ms a = Some fin"
    using Cons.prems [of a] by auto
  let ?P = "if fin then insert a P else P" and ?k = "if fin then k + 1 else k"
  obtain k' where "mfold (set_finalizable ms) l (flagged ?P heap, ?k)
      = Some (flagged (?P \<union> {a \<in> set l. is_finalizable heap ms a = Some True}) heap, k')"
    "k' = 0 \<longleftrightarrow> ?k = 0 \<and> (\<forall>a \<in> set l. is_finalizable heap ms a \<noteq> Some True)"
    using Cons.IH [of ?P ?k] Cons.prems by auto
  moreover have "?P \<union> {a \<in> set l. is_finalizable heap ms a = Some True}
      = P \<union> {b \<in> set (a # l). is_finalizable heap ms b = Some True}"
    using a(2) by auto
  ultimately show ?case using set_finalizable_step [OF a] a(2) by (cases fin) auto
qed auto

definition finalizable :: "duk_heap \<Rightarrow> haddr set \<Rightarrow> haddr set" where
  "finalizable heap R = {a \<in> set (heap_allocated heap). is_finalizable heap
     \<lparr>ms_reachable = R, ms_temproot = {}, ms_reclimit_reached = False\<rparr> a = Some True}"

lemma mark_finalizable_spec:
  assumes "closed heap C" "ms_reachable ms \<subseteq> C" "finalizable heap (ms_reachable ms) \<subseteq> C"
    and "\<And>a. a \<in> set (heap_allocated heap) \<Longrightarrow> (\<exists>hdr. cells heap a = Some hdr \<and> \<not> h_finalizable hdr) \<and> is_finalizable heap ms a \<noteq> None"
  shows "\<exists>ms'. duk__mark_finalizable n heap ms = Some (flagged (finalizable heap (ms_reachable ms)) heap, ms')
    \<and> marks heap C ms ms' \<and> finalizable heap (ms_reachable ms) \<subseteq> ms_reachable ms'"
proof -
  let ?Q = "finalizable heap (ms_reachable ms)" and ?l = "heap_allocated heap"
  have Q: "?Q = {a \<in> set ?l. is_finalizable heap ms a = Some True}"
    by (simp add: finalizable_def is_finalizable_def)
  obtain k where k: "mfold (set_finalizable ms) ?l (heap, 0) = Some (flagged ?Q heap, k)" "k = 0 \<longleftrightarrow> ?Q = {}"
    using set_finalizable_fold [of ?l heap ms "{}" 0] assms(4) unfolding Q flagged_empty by fastforce
  have "\<exists>m'. mfold (mark_if_finalizable n (flagged ?Q heap)) ?l ms = Some m' \<and> marks heap C ms m' \<and> ?Q \<subseteq> ms_reachable m'"
  proof -
    have f: "mfold (mark_if_finalizable n (flagged ?Q heap)) ks m
        = mfold (duk__mark_heaphdr (flagged ?Q heap) n) (filter (\<lambda>a. a \<in> ?Q) ks) m" if "set ks \<subseteq> set ?l" for ks m
      using that
    proof (induction ks arbitrary: m)
      case (Cons a ks)
      then obtain hdr where a: "cells heap a = Some hdr" "\<not> h_finalizable hdr" using assms(4) [of a] by auto
      have "mark_if_finalizable n (flagged ?Q heap) a m
          = (if a \<in> ?Q then duk__mark_heaphdr (flagged ?Q heap) n a m else Some m)"
        using a by (simp add: mark_if_finalizable_def flagged_def)
      then show ?case using Cons by (auto split: Option.bind_split)
    qed simp
    have c: "closed (flagged ?Q heap) C" using assms(1) by (simp add: marking_bodies(4) [OF flagged_bodies])
    have "\<exists>m'. mfold (duk__mark_heaphdr (flagged ?Q heap) n) (filter (\<lambda>a. a \<in> ?Q) ?l) ms = Some m'
        \<and> marks (flagged ?Q heap) C ms m' \<and> set (filter (\<lambda>a. a \<in> ?Q) ?l) \<subseteq> ms_reachable m'"
    proof (rule mfold_marks)
      fix k and m :: ms_state
      assume "k \<in> set (filter (\<lambda>a. a \<in> ?Q) ?l)" "ms_reachable m \<subseteq> C"
      then show "\<exists>m'. duk__mark_heaphdr (flagged ?Q heap) n k m = Some m' \<and> marks (flagged ?Q heap) C m m' \<and> k \<in> ms_reachable m'"
        using mark_heaphdr_spec [OF c, of k m n] assms(3) by auto
    qed (rule assms(2))
    then obtain m' where "mfold (duk__mark_heaphdr (flagged ?Q heap) n) (filter (\<lambda>a. a \<in> ?Q) ?l) ms = Some m'"
      "marks (flagged ?Q heap) C ms m'" "set (filter (\<lambda>a. a \<in> ?Q) ?l) \<subseteq> ms_reachable m'" by blast
    moreover have "?Q \<subseteq> set (filter (\<lambda>a. a \<in> ?Q) ?l)" unfolding Q by auto
    ultimately show ?thesis using f [of ?l ms] by (simp add: marks_def marking_bodies(1) [OF flagged_bodies])
  qed
  moreover have al: "heap_allocated (flagged ?Q heap) = ?l" by (simp add: flagged_def)
  ultimately show ?thesis
    using k marks_refl [OF assms(2)] by (cases "k = 0") (auto simp: duk__mark_finalizable_def al)
qed

subsection \<open>Releasing the references of garbage\<close>

text \<open>While \<open>ms_running\<close> is set, a release lowers the counts and does nothing else.\<close>

definition lower :: "edge list \<Rightarrow> duk_heap \<Rightarrow> duk_heap" where
  "lower es heap = heap\<lparr>cells := \<lambda>a. map_option (\<lambda>hdr. hdr\<lparr>h_refcount := h_refcount hdr
     - of_nat (count_list (map snd es) a)\<rparr>) (cells heap a)\<rparr>"

lemma lower_Nil: "lower [] heap = heap"
  by (simp add: lower_def option.map_ident)

lemma lower_append: "lower fs (lower es heap) = lower (es @ fs) heap"
  by (simp add: lower_def option.map_comp comp_def diff_diff_add)

lemma lower_fields [simp]:
  "ms_running (lower es heap) = ms_running heap" "heap_allocated (lower es heap) = heap_allocated heap"
  "finalize_list (lower es heap) = finalize_list heap" "dom (cells (lower es heap)) = dom (cells heap)"
  by (auto simp: lower_def)

lemma lower_bodies: "map_option h_body (cells (lower es heap) a) = map_option h_body (cells heap a)"
  by (cases "cells heap a") (simp_all add: lower_def)

definition lowers :: "heap_op \<Rightarrow> edge list \<Rightarrow> bool" where
  "lowers f es \<longleftrightarrow> (\<forall>heap. ms_running heap \<and> (\<forall>e \<in> set es. snd e \<in> dom (cells heap)) \<longrightarrow> f heap = Some (lower es heap))"

named_theorems lowering "operations that release references while mark-and-sweep runs"

lemma lowers_Some [lowering]: "lowers Some []"
  by (simp add: lowers_def lower_Nil)

lemma lowers_bind [lowering]:
  assumes "lowers f es" "lowers g fs"
  shows "lowers (\<lambda>heap. f heap \<bind> g) (es @ fs)"
  using assms by (auto simp: lowers_def lower_append)

lemma lowers_mfold [lowering]:
  assumes "\<And>x. lowers (f x) (e x)"
  shows "lowers (mfold f xs) (concat (map e xs))"
proof (induction xs)
  case Nil
  then show ?case using lowers_Some by (simp add: mfold_Nil)
next
  case (Cons x xs)
  have "mfold f (x # xs) = (\<lambda>s. f x s \<bind> mfold f xs)" by (simp add: fun_eq_iff)
  then show ?case using lowers_bind [OF assms Cons.IH] by simp
qed

lemma lowers_cong: "lowers f es \<Longrightarrow> f = g \<Longrightarrow> es = fs \<Longrightarrow> lowers g fs"
  by simp

lemma lowers_decref:
  assumes "\<And>h heap. ms_running heap \<Longrightarrow> h \<in> dom (cells heap) \<Longrightarrow> rz h heap = Some heap"
  shows "lowers (heaphdr_decref_raw rz a) [(t, a)]"
  unfolding lowers_def
proof (intro allI impI)
  fix heap :: duk_heap
  assume h: "ms_running heap \<and> (\<forall>e \<in> set [(t, a)]. snd e \<in> dom (cells heap))"
  then obtain hdr where hdr: "cells heap a = Some hdr" by auto
  let ?h = "set_hdr a (hdr\<lparr>h_refcount := h_refcount hdr - 1\<rparr>) heap"
  have "(\<lambda>b. map_option (\<lambda>hdr. hdr\<lparr>h_refcount := h_refcount hdr - of_nat (if a = b then 1 else 0)\<rparr>) (cells heap b))
      = (cells heap)(a \<mapsto> hdr\<lparr>h_refcount := h_refcount hdr - 1\<rparr>)"
    using hdr by (auto simp: fun_eq_iff option.map_ident)
  moreover have "count_list (map snd [(t, a)]) b = (if a = b then 1 else 0)" for b by simp
  ultimately have "lower [(t, a)] heap = ?h" unfolding lower_def by (simp only: set_hdr_def)
  moreover have "rz a ?h = Some ?h" using h by (intro assms) simp_all
  ultimately show "heaphdr_decref_raw rz a heap = Some (lower [(t, a)] heap)"
    using hdr by (cases "h_refcount hdr = 1") (simp_all add: heaphdr_decref_raw_def Let_def)
qed

lemma lowers_refzero [lowering]:
  "lowers (heaphdr_decref_raw duk_hstring_refzero a) [(t, a)]"
  "lowers (heaphdr_decref_raw duk_hbuffer_refzero a) [(t, a)]"
  "lowers (heaphdr_decref_raw (duk_hobject_refzero FP PF skip) a) [(t, a)]"
  "lowers (heaphdr_decref_raw (duk_heaphdr_refzero FP PF skip) a) [(t, a)]"
  by (rule lowers_decref; auto simp: duk_hstring_refzero_def duk_hbuffer_refzero_def duk_hobject_refzero_def
      duk_heaphdr_refzero_def)+

lemma lowers_allownull [lowering]:
  assumes "\<And>a. lowers (f a) [(t, a)]"
  shows "lowers (allownull f x) (opt_edges t x)"
proof (cases x)
  case None
  then have "allownull f x = Some" by (simp add: fun_eq_iff)
  then show ?thesis using None lowers_Some by simp
next
  case (Some a)
  then have "allownull f x = f a" by (simp add: fun_eq_iff)
  then show ?thesis using Some assms by simp
qed

lemma lowers_tval [lowering]: "lowers (tval_decref FP PF skip tv) (tval_edges tv)"
proof -
  have *: "tval_decref FP PF skip tv = (case tval_heaphdr tv of
       None \<Rightarrow> Some | Some h \<Rightarrow> heaphdr_decref_raw (duk_heaphdr_refzero FP PF skip) h)"
    by (auto simp: tval_decref_def fun_eq_iff split: option.split)
  show ?thesis unfolding * by (cases tv) (auto intro: lowering)
qed

lemma lowers_opt [lowering]:
  "lowers (allownull (heaphdr_decref_raw (duk_hobject_refzero FP PF skip)) x) (opt_edges t x)"
  "lowers (allownull (heaphdr_decref_raw duk_hbuffer_refzero) x) (opt_edges t x)"
  "lowers (allownull (heaphdr_decref_raw (duk_heaphdr_refzero FP PF skip)) x) (opt_edges t x)"
  by (intro lowers_allownull lowers_refzero)+

lemma lowers_entry [lowering]: "lowers (decref_entry FP PF e) (entry_edges e)"
proof (cases e rule: entry_edges.cases)
  case (1 v)
  show ?thesis by (rule lowers_cong [OF lowers_Some]) (simp_all add: 1 decref_entry_def fun_eq_iff)
next
  case (2 key tv)
  show ?thesis
    by (rule lowers_cong [OF lowers_bind [OF lowers_refzero(1) [of key DUK_HTYPE_STRING] lowers_tval [of FP PF True tv]]])
      (simp_all add: 2 decref_entry_def fun_eq_iff)
next
  case (3 key g s)
  show ?thesis
    by (rule lowers_cong [OF lowers_bind [OF lowers_refzero(1) [of key DUK_HTYPE_STRING]
          lowers_bind [OF lowers_opt(1) [of FP PF True g DUK_HTYPE_OBJECT] lowers_opt(1) [of FP PF True s DUK_HTYPE_OBJECT]]]])
      (simp_all add: 3 decref_entry_def fun_eq_iff)
qed

lemma lowers_activation [lowering]: "lowers (decref_activation FP PF act) (act_edges act)"
  unfolding decref_activation_def act_edges_def by (intro lowering)

lemma lowers_objs: "lowers (mfold (heaphdr_decref_raw (duk_hobject_refzero FP PF True)) funcs)
    (map (Pair DUK_HTYPE_OBJECT) funcs)"
proof -
  have "concat (map (\<lambda>a. [(DUK_HTYPE_OBJECT, a)]) funcs) = map (Pair DUK_HTYPE_OBJECT) funcs"
    by (induction funcs) simp_all
  moreover have "lowers (mfold (heaphdr_decref_raw (duk_hobject_refzero FP PF True)) funcs)
      (concat (map (\<lambda>a. [(DUK_HTYPE_OBJECT, a)]) funcs))"
    by (intro lowers_mfold lowers_refzero)
  ultimately show ?thesis by (simp only:)
qed

lemma lowers_ext [lowering]: "lowers (decref_ext FP PF ext) (ext_edges ext)"
proof (cases ext)
  case Ext_fastrefs
  show ?thesis by (rule lowers_cong [OF lowers_Some]) (simp_all add: Ext_fastrefs decref_ext_def fun_eq_iff)
next
  case (Ext_compfunc cs funcs lexenv varenv data)
  have d: "lowers (\<lambda>heap. if data \<noteq> None then mfold (tval_decref FP PF True) cs heap
        \<bind> mfold (heaphdr_decref_raw (duk_hobject_refzero FP PF True)) funcs else Some heap)
     (if data = None then [] else concat (map tval_edges cs) @ map (Pair DUK_HTYPE_OBJECT) funcs)"
    using lowers_bind [OF lowers_mfold [OF lowers_tval] lowers_objs] lowers_Some by (cases data) simp_all
  show ?thesis
    by (rule lowers_cong [OF lowers_bind [OF d lowers_bind [OF
          lowers_opt(3) [of FP PF False lexenv DUK_HTYPE_OBJECT] lowers_bind [OF
          lowers_opt(3) [of FP PF False varenv DUK_HTYPE_OBJECT]
          lowers_opt(3) [of FP PF False data DUK_HTYPE_BUFFER]]]]])
      (simp_all add: Ext_compfunc decref_ext_def Let_def fun_eq_iff)
next
  case (Ext_decenv thr varmap)
  then show ?thesis unfolding decref_ext_def Let_def by simp (intro lowering)
next
  case (Ext_objenv target)
  then show ?thesis unfolding decref_ext_def Let_def by simp (intro lowering)
next
  case (Ext_bufobj buf bprop)
  then show ?thesis unfolding decref_ext_def Let_def by simp (intro lowering)
next
  case (Ext_boundfunc target this args)
  then show ?thesis unfolding decref_ext_def Let_def by simp (intro lowering)
next
  case (Ext_proxy target handler)
  show ?thesis
    by (rule lowers_cong [OF lowers_bind [OF lowers_refzero(3) [of FP PF True target DUK_HTYPE_OBJECT]
          lowers_refzero(3) [of FP PF True handler DUK_HTYPE_OBJECT]]])
      (simp_all add: Ext_proxy decref_ext_def Let_def fun_eq_iff)
next
  case (Ext_thread valstack callstack builtins resumer)
  then show ?thesis unfolding decref_ext_def Let_def by simp (intro lowering)
qed

lemma lowers_hobject:
  assumes "ms_running heap" "cells heap a = Some hdr" "\<And>e. e \<in> set (hdr_edges hdr) \<Longrightarrow> snd e \<in> dom (cells heap)"
  shows "heaphdr_refcount_finalize_norz FP PF a heap = Some (lower (hdr_edges hdr) heap)"
proof (cases "h_body hdr")
  case (Hobject obj)
  have "lowers (\<lambda>heap. do {
         heap \<leftarrow> mfold (decref_entry FP PF) (rev (o_entries obj)) heap;
         heap \<leftarrow> mfold (tval_decref FP PF True) (rev (o_array obj)) heap;
         heap \<leftarrow> allownull (heaphdr_decref_raw (duk_hobject_refzero FP PF True)) (o_prototype obj) heap;
         decref_ext FP PF (o_ext obj) heap }) (obj_edges obj)"
    unfolding obj_edges_def by (intro lowering)
  then show ?thesis
    using assms Hobject
    by (simp add: heaphdr_refcount_finalize_norz_def hobject_refcount_finalize_norz_def hdr_edges_def lowers_def)
next
  case Hstring
  then show ?thesis using assms(2) by (simp add: heaphdr_refcount_finalize_norz_def hdr_edges_def lower_Nil)
next
  case Hbuffer
  then show ?thesis using assms(2) by (simp add: heaphdr_refcount_finalize_norz_def hdr_edges_def lower_Nil)
qed

definition garbage_edges :: "duk_heap \<Rightarrow> haddr set \<Rightarrow> haddr list \<Rightarrow> edge list" where
  "garbage_edges heap R l = concat (map (\<lambda>a. hdr_edges (the (cells heap a))) (filter (\<lambda>a. a \<notin> R) l))"

lemma finalize_refcounts_spec:
  assumes "ms_running heap" "set (heap_allocated heap) \<subseteq> dom (cells heap)" "\<And>x. kids heap x \<subseteq> dom (cells heap)"
  shows "duk__finalize_refcounts ms heap
    = Some (lower (garbage_edges heap (ms_reachable ms) (heap_allocated heap)) heap)"
proof -
  let ?f = "\<lambda>a. if a \<notin> ms_reachable ms then heaphdr_refcount_finalize_norz Some Some a else Some"
  have "mfold ?f l (lower es heap) = Some (lower (es @ garbage_edges heap (ms_reachable ms) l) heap)"
    if "set l \<subseteq> dom (cells heap)" for l es
    using that
  proof (induction l arbitrary: es)
    case (Cons a l)
    obtain hdr where hdr: "cells heap a = Some hdr" using Cons.prems by auto
    have "snd e \<in> dom (cells heap)" if "e \<in> set (hdr_edges hdr)" for e
      using assms(3) [of a] hdr that by (auto simp: kids_def)
    moreover obtain hdr' where hdr': "cells (lower es heap) a = Some hdr'" "hdr_edges hdr' = hdr_edges hdr"
      using hdr by (simp add: lower_def hdr_edges_def)
    ultimately have "heaphdr_refcount_finalize_norz Some Some a (lower es heap) = Some (lower (es @ hdr_edges hdr) heap)"
      using lowers_hobject [OF _ hdr'(1)] assms(1) by (simp add: lower_append)
    then show ?case
      using Cons.IH [of es] Cons.IH [of "es @ hdr_edges hdr"] Cons.prems hdr by (simp add: garbage_edges_def)
  qed (simp add: garbage_edges_def)
  from this [of "heap_allocated heap" "[]"] assms(2) show ?thesis
    by (simp add: duk__finalize_refcounts_def lower_Nil)
qed

subsection \<open>The sweep\<close>

definition swept_hdr :: "bool \<Rightarrow> duk_heaphdr \<Rightarrow> duk_heaphdr" where
  "swept_hdr postpone hdr = (if h_finalizable hdr then hdr\<lparr>h_refcount := h_refcount hdr + 1\<rparr>
     else if h_finalized hdr \<and> \<not> postpone then hdr\<lparr>h_finalized := False\<rparr> else hdr)"

definition waiting :: "duk_heap \<Rightarrow> haddr \<Rightarrow> bool" where
  "waiting heap a \<longleftrightarrow> (case cells heap a of None \<Rightarrow> False | Some hdr \<Rightarrow> h_finalizable hdr)"

definition swept_cells :: "bool \<Rightarrow> haddr set \<Rightarrow> haddr list \<Rightarrow> duk_heap \<Rightarrow> haddr \<Rightarrow> duk_heaphdr option" where
  "swept_cells postpone R l heap a = (if a \<notin> set l then cells heap a
     else if a \<in> R then map_option (swept_hdr postpone) (cells heap a) else None)"

definition swept :: "bool \<Rightarrow> haddr set \<Rightarrow> haddr list \<Rightarrow> duk_heap \<Rightarrow> duk_heap" where
  "swept postpone R l heap = heap\<lparr>cells := swept_cells postpone R l heap,
     heap_allocated := heap_allocated heap @ filter (\<lambda>a. a \<in> R \<and> \<not> waiting heap a) l,
     finalize_list := rev (filter (\<lambda>a. a \<in> R \<and> waiting heap a) l) @ finalize_list heap\<rparr>"

lemma swept_Cons:
  assumes "distinct (a # l)" "cells heap a = Some hdr"
  shows "swept postpone R (a # l) heap = swept postpone R l
    (if a \<in> R then
       (if h_finalizable hdr
        then (set_hdr a (swept_hdr postpone hdr) heap)\<lparr>finalize_list := a # finalize_list heap\<rparr>
        else (set_hdr a (swept_hdr postpone hdr) heap)\<lparr>heap_allocated := heap_allocated heap @ [a]\<rparr>)
     else free_hdr a heap)"
    (is "_ = swept _ _ _ ?h")
proof -
  have b: "cells ?h b = cells heap b" if "b \<noteq> a" for b using that by auto
  have c: "swept_cells postpone R (a # l) heap = swept_cells postpone R l ?h"
    using assms by (auto simp: swept_cells_def fun_eq_iff)
  have w: "waiting ?h b = waiting heap b" if "b \<in> set l" for b
    using that assms(1) b [of b] unfolding waiting_def by (metis distinct.simps(2))
  then have f: "filter (\<lambda>a. a \<in> R \<and> waiting heap a) l = filter (\<lambda>a. a \<in> R \<and> waiting ?h a) l"
    "filter (\<lambda>a. a \<in> R \<and> \<not> waiting heap a) l = filter (\<lambda>a. a \<in> R \<and> \<not> waiting ?h a) l"
    by (auto intro!: filter_cong)
  have wa: "waiting heap a = h_finalizable hdr" using assms(2) by (simp add: waiting_def)
  show ?thesis
    unfolding swept_def c [symmetric] f [symmetric] using wa by (auto simp: set_hdr_def free_hdr_def)
qed

lemma swept_cong: "(\<And>a. a \<in> set l \<Longrightarrow> a \<in> R \<longleftrightarrow> a \<in> R') \<Longrightarrow> swept postpone R l heap = swept postpone R' l heap"
proof -
  assume r: "\<And>a. a \<in> set l \<Longrightarrow> a \<in> R \<longleftrightarrow> a \<in> R'"
  then have "filter (\<lambda>a. a \<in> R \<and> P a) l = filter (\<lambda>a. a \<in> R' \<and> P a) l" for P by (auto intro: filter_cong)
  moreover have "swept_cells postpone R l heap = swept_cells postpone R' l heap"
    using r by (auto simp: swept_cells_def fun_eq_iff)
  ultimately show ?thesis by (simp add: swept_def)
qed

lemma sweep_fold:
  assumes "distinct l" "set l \<subseteq> dom (cells heap)"
  shows "\<exists>k'. mfold (sweep_one postpone) l (heap, ms, k) = Some (swept postpone (ms_reachable ms) l heap,
    ms\<lparr>ms_reachable := ms_reachable ms - set l, ms_temproot := ms_temproot ms - (set l - ms_reachable ms)\<rparr>, k')"
  using assms
proof (induction l arbitrary: heap ms k)
  case Nil
  have "swept_cells postpone (ms_reachable ms) [] heap = cells heap" by (simp add: swept_cells_def fun_eq_iff)
  then show ?case by (simp add: swept_def)
next
  case (Cons a l)
  obtain hdr where a: "cells heap a = Some hdr" using Cons.prems(2) by auto
  define h1 where "h1 = (if a \<in> ms_reachable ms then
       (if h_finalizable hdr
        then (set_hdr a (swept_hdr postpone hdr) heap)\<lparr>finalize_list := a # finalize_list heap\<rparr>
        else (set_hdr a (swept_hdr postpone hdr) heap)\<lparr>heap_allocated := heap_allocated heap @ [a]\<rparr>)
     else free_hdr a heap)"
  define m1 where "m1 = (if a \<in> ms_reachable ms then ms\<lparr>ms_reachable := ms_reachable ms - {a}\<rparr>
     else ms\<lparr>ms_temproot := ms_temproot ms - {a}\<rparr>)"
  have step: "\<exists>k1. sweep_one postpone a (heap, ms, k) = Some (h1, m1, k1)"
    using a by (cases "a \<in> ms_reachable ms")
      (auto simp: sweep_one_def h1_def m1_def swept_hdr_def Let_def split: if_splits)
  have "set l \<subseteq> dom (cells h1)" using Cons.prems by (auto simp: h1_def)
  then obtain k' where IH: "mfold (sweep_one postpone) l (h1, m1, k1) = Some (swept postpone (ms_reachable m1) l h1,
    m1\<lparr>ms_reachable := ms_reachable m1 - set l, ms_temproot := ms_temproot m1 - (set l - ms_reachable m1)\<rparr>, k' k1)" for k1
    using Cons.IH [of h1 m1] Cons.prems(1) by (metis distinct.simps(2))
  have "swept postpone (ms_reachable m1) l h1 = swept postpone (ms_reachable ms) l h1"
    using Cons.prems(1) by (intro swept_cong) (auto simp: m1_def)
  also have "\<dots> = swept postpone (ms_reachable ms) (a # l) heap"
    unfolding h1_def by (rule swept_Cons [OF Cons.prems(1) a, symmetric])
  finally have h: "swept postpone (ms_reachable m1) l h1 = swept postpone (ms_reachable ms) (a # l) heap" .
  have r: "ms_reachable m1 - set l = ms_reachable ms - set (a # l)"
    "ms_temproot m1 - (set l - ms_reachable m1) = ms_temproot ms - (set (a # l) - ms_reachable ms)"
    using Cons.prems(1) by (auto simp: m1_def)
  have "m1\<lparr>ms_reachable := R, ms_temproot := T\<rparr> = ms\<lparr>ms_reachable := R, ms_temproot := T\<rparr>" for R T
    by (simp add: m1_def)
  then show ?case using step IH [unfolded r h] by auto
qed

definition swept_strings :: "haddr set \<Rightarrow> haddr set \<Rightarrow> duk_heap \<Rightarrow> duk_heap" where
  "swept_strings S R heap = heap\<lparr>cells := \<lambda>a. if a \<in> S - R then None else cells heap a,
     strtable := filter (\<lambda>a. a \<notin> S - R) (strtable heap),
     strcache := map (\<lambda>c. if c \<in> Some ` (S - R) then None else c) (strcache heap)\<rparr>"

lemma sweep_string_fold:
  assumes "distinct l" "set l \<subseteq> dom (cells heap)" "distinct (strtable heap)"
  shows "\<exists>k'. mfold sweep_string l (heap, ms, k) = Some (swept_strings (set l) (ms_reachable ms) heap,
    ms\<lparr>ms_reachable := ms_reachable ms - set l, ms_temproot := ms_temproot ms - (set l - ms_reachable ms)\<rparr>, k')"
  using assms
proof (induction l arbitrary: heap ms k)
  case Nil
  then show ?case by (simp add: swept_strings_def)
next
  case (Cons a l)
  obtain hdr where a: "cells heap a = Some hdr" using Cons.prems(2) by auto
  let ?R = "ms_reachable ms"
  have remove: "remove1 a (strtable heap) = filter (\<lambda>b. b \<noteq> a) (strtable heap)"
    using Cons.prems(3) by (simp add: distinct_remove1_removeAll removeAll_filter_not_eq) (auto intro: filter_cong)
  show ?case
  proof (cases "a \<in> ?R")
    case True
    let ?m = "ms\<lparr>ms_reachable := ?R - {a}\<rparr>"
    have "set l - (?R - {a}) = set (a # l) - ?R" using True Cons.prems(1) by auto
    moreover have "?R - {a} - set l = ?R - set (a # l)" by auto
    ultimately show ?thesis
      using Cons.IH [of heap ?m "k + 1"] Cons.prems a True by (simp add: sweep_string_def swept_strings_def)
  next
    case False
    let ?h = "free_hdr a ((duk_heap_strcache_string_remove a heap)\<lparr>strtable := remove1 a (strtable heap)\<rparr>)"
    let ?m = "ms\<lparr>ms_temproot := ms_temproot ms - {a}\<rparr>"
    have step: "sweep_string a (heap, ms, k) = Some (?h, ?m, k)"
      using a False by (simp add: sweep_string_def refcount_refzero_hstring_def Let_def duk_heap_strcache_string_remove_def)
    have d: "distinct l" "set l \<subseteq> dom (cells ?h)" "distinct (strtable ?h)"
      using Cons.prems by (auto simp: duk_heap_strcache_string_remove_def)
    obtain k' where "mfold sweep_string l (?h, ?m, k) = Some (swept_strings (set l) (ms_reachable ?m) ?h,
       ?m\<lparr>ms_reachable := ms_reachable ?m - set l, ms_temproot := ms_temproot ?m - (set l - ms_reachable ?m)\<rparr>, k')"
      using Cons.IH [OF d, of ?m k] by blast
    moreover have "swept_strings (set l) ?R ?h = swept_strings (set (a # l)) ?R heap"
    proof (rule duk_heap.equality)
      show "cells (swept_strings (set l) ?R ?h) = cells (swept_strings (set (a # l)) ?R heap)"
        using False by (auto simp: swept_strings_def duk_heap_strcache_string_remove_def fun_eq_iff)
      show "strtable (swept_strings (set l) ?R ?h) = strtable (swept_strings (set (a # l)) ?R heap)"
        using False by (auto simp: swept_strings_def remove intro!: filter_cong)
    qed (use False in \<open>auto simp: swept_strings_def duk_heap_strcache_string_remove_def\<close>)
    moreover have "?R - set l = ?R - set (a # l)" "ms_temproot ms - {a} - (set l - ?R) = ms_temproot ms - (set (a # l) - ?R)"
      using False by auto
    ultimately show ?thesis using step by simp
  qed
qed

subsection \<open>The whole collection\<close>

definition pinned_edges :: "haddr set \<Rightarrow> edge multiset" where
  "pinned_edges P = image_mset (Pair DUK_HTYPE_STRING) (mset_set P)"

definition obj_list :: "haddr list \<Rightarrow> edge list" where
  "obj_list = map (Pair DUK_HTYPE_OBJECT)"

text \<open>
  The state in which a collection may start: exact counts, where the references from outside are the
  roots and the pinned literals \<open>P\<close>, which are counted but are no roots; clear flags, but for
  strings that were temporary roots of an earlier collection; no count near its maximum.
\<close>

definition gc_ready :: "duk_roots \<Rightarrow> haddr set \<Rightarrow> duk_heap \<Rightarrow> ms_state \<Rightarrow> bool" where
  "gc_ready roots P heap ms \<longleftrightarrow> heap_ok (mset (root_edges roots) + pinned_edges P) heap
   \<and> P \<subseteq> {x. is_string heap x} \<and> (\<forall>a \<in> set (heap_allocated heap). \<not> waiting heap a)
   \<and> ms_reachable ms = {} \<and> ms_temproot ms \<subseteq> {x. is_string heap x} \<and> \<not> ms_reclimit_reached ms
   \<and> room (mset (root_edges roots) + pinned_edges P) heap"

lemma heap_ok_cells:
  assumes "heap_ok ext heap"
  shows "finite (dom (cells heap))" "lists_cover heap" "\<And>x. kids heap x \<subseteq> dom (cells heap)"
    "\<And>e. e \<in># ext \<Longrightarrow> snd e \<in> dom (cells heap)" "distinct (heap_allocated heap)" "distinct (strtable heap)"
    "set (strtable heap) = {x. is_string heap x}" "set (finalize_list heap) \<inter> set (heap_allocated heap) = {}"
    "set (finalize_list heap) \<subseteq> cells_of {DUK_HTYPE_OBJECT} heap"
proof -
  have inv: "heap_inv {} ext heap" "refzero_list heap = []" using assms by (simp_all add: heap_ok_def)
  note i = heap_inv_dest [OF inv(1)]
  show fin: "finite (dom (cells heap))" by (rule i(1))
  have "cells_of {DUK_HTYPE_OBJECT, DUK_HTYPE_BUFFER} heap = {x \<in> dom (cells heap). \<not> is_string heap x}"
    unfolding cells_of_def is_string_def by (auto, (case_tac "h_body y"; simp)+)
  then show "lists_cover heap" using i(4) inv(2) by (simp add: heap_lists_def lists_cover_def)
  have t: "snd e \<in> dom (cells heap)" if "e \<in># own heap {} + ext" for e
    using i(3) that unfolding heap_typed_def typed_edge_def by blast
  then show "\<And>e. e \<in># ext \<Longrightarrow> snd e \<in> dom (cells heap)" by simp
  show "kids heap x \<subseteq> dom (cells heap)" for x
  proof
    fix y
    assume "y \<in> kids heap x"
    then obtain hdr e where "cells heap x = Some hdr" "e \<in> set (hdr_edges hdr)" "y = snd e"
      by (auto simp: kids_def split: option.splits)
    then show "y \<in> dom (cells heap)" using t [of e] own_memberI [OF fin, of x hdr "{}" e] by simp
  qed
  show "distinct (heap_allocated heap)" "distinct (strtable heap)" using i(4) by (simp_all add: heap_lists_def)
  have "cells_of {DUK_HTYPE_STRING} heap = {x. is_string heap x}"
    unfolding cells_of_def is_string_def by (auto, (case_tac "h_body hdr"; simp)+)
  then show "set (strtable heap) = {x. is_string heap x}" using i(4) by (simp add: heap_lists_def)
  show "set (finalize_list heap) \<inter> set (heap_allocated heap) = {}" using i(4) by (auto simp: heap_lists_def)
  show "set (finalize_list heap) \<subseteq> cells_of {DUK_HTYPE_OBJECT} heap" using i(4) by (simp add: heap_lists_def)
qed

lemma mark_inv_mono: "mark_inv heap C L ms \<Longrightarrow> C \<subseteq> C' \<Longrightarrow> mark_inv heap C' L ms"
  unfolding mark_inv_def by blast

lemma is_finalizable_some:
  assumes "heap_ok ext heap" "a \<in> dom (cells heap)"
  shows "is_finalizable heap ms a \<noteq> None"
proof -
  obtain hdr where a: "cells heap a = Some hdr" using assms(2) by auto
  show ?thesis
  proof (cases "h_body hdr")
    case (Hobject obj)
    then show ?thesis
      using has_finalizer_fast_some [of "{}" ext heap a hdr obj] a assms(1) by (auto simp: is_finalizable_def heap_ok_def)
  qed (simp_all add: is_finalizable_def a)
qed

text \<open>Both marking phases: afterwards exactly the cells of \<open>C2\<close> are reachable.\<close>

lemma mark_phases:
  assumes "heap_ok ext heap" "set (root_edges roots) \<subseteq> set_mset ext" "\<forall>a \<in> set (heap_allocated heap). \<not> waiting heap a"
    and "ms_reachable ms = {}" "ms_temproot ms \<subseteq> {x. is_string heap x}" "n > 0" "card (dom (cells heap)) + 1 < fuel"
    and "C1 = reach heap (root_edges roots)" "Q = finalizable heap C1"
    and "C2 = reach heap (root_edges roots @ obj_list (finalize_list heap) @ obj_list (filter (\<lambda>a. a \<in> Q) (heap_allocated heap)))"
  obtains ms1 ms2 ms3 ms4 ms5 where "duk__mark_roots_heap n roots heap ms = Some ms1"
    and "duk__mark_temproots_by_heap_scan n fuel heap ms1 = Some ms2"
    and "duk__mark_finalizable n heap ms2 = Some (flagged Q heap, ms3)"
    and "duk__mark_finalize_list n (flagged Q heap) ms3 = Some ms4"
    and "duk__mark_temproots_by_heap_scan n fuel (flagged Q heap) ms4 = Some ms5"
    and "ms_reachable ms5 = C2" "ms_temproot ms5 \<subseteq> {x. is_string heap x}" "\<not> ms_reclimit_reached ms5"
    and "closed heap C2" "C1 \<subseteq> C2" "Q \<subseteq> C2"
proof -
  note ok = heap_ok_cells [OF assms(1)]
  let ?roots = "root_edges roots" and ?h1 = "flagged Q heap"
  let ?es = "?roots @ obj_list (finalize_list heap) @ obj_list (filter (\<lambda>a. a \<in> Q) (heap_allocated heap))"
  have lists: "set (heap_allocated heap) \<union> set (finalize_list heap) \<subseteq> dom (cells heap)"
    using ok(2) by (auto simp: lists_cover_def)
  have roots: "\<And>e. e \<in> set ?roots \<Longrightarrow> snd e \<in> dom (cells heap)" using ok(4) assms(2) by blast
  have c1: "closed heap C1" unfolding assms(8) by (rule reach_closed [OF roots ok(3)])
  have c2: "closed heap C2" unfolding assms(10)
    by (rule reach_closed [OF _ ok(3)]) (use roots lists in \<open>auto simp: obj_list_def\<close>)
  have sub: "C1 \<subseteq> C2" unfolding assms(8,10) by (rule reach_mono) simp
  have fin: "finite C1" "finite C2" "card C1 + 1 < fuel" "card C2 + 1 < fuel"
    using c1 c2 ok(1) card_mono [OF ok(1)] assms(7) finite_subset [OF _ ok(1)]
    unfolding closed_def by (blast, blast, (meson le_less_trans add_le_mono1)+)
  have Q: "Q \<subseteq> set (heap_allocated heap)" unfolding assms(9) by (auto simp: finalizable_def)
  have t2: "snd ` set ?es \<subseteq> C2" using reach_roots [of _ ?es heap] unfolding assms(10) by auto
  have q2: "Q \<subseteq> C2" "set (finalize_list heap) \<subseteq> C2" using t2 Q by (auto simp: obj_list_def image_Un image_image)
  \<comment> \<open>the roots\<close>
  have m0: "mark_inv heap C1 {} ms" using assms(4,5) by (auto simp: mark_inv_def)
  have r1: "snd ` set ?roots \<subseteq> C1" using reach_roots unfolding assms(8) by blast
  have "\<exists>ms1. mfold (duk__mark_heaphdr heap n) (map snd ?roots) ms = Some ms1 \<and> marks heap C1 ms ms1
      \<and> set (map snd ?roots) \<subseteq> ms_reachable ms1"
  proof (rule mfold_marks)
    fix k and m :: ms_state
    assume "k \<in> set (map snd ?roots)" "ms_reachable m \<subseteq> C1"
    then show "\<exists>m'. duk__mark_heaphdr heap n k m = Some m' \<and> marks heap C1 m m' \<and> k \<in> ms_reachable m'"
      using mark_heaphdr_spec [OF c1, of k m n] r1 by auto
  qed (simp add: assms(4))
  then obtain ms1 where ms1: "duk__mark_roots_heap n roots heap ms = Some ms1" "marks heap C1 ms ms1"
    "snd ` set ?roots \<subseteq> ms_reachable ms1" unfolding mark_roots_walk by auto
  have "\<exists>ms2. duk__mark_temproots_by_heap_scan n fuel heap ms1 = Some ms2 \<and> mark_inv heap C1 {} ms2
    \<and> ms_reachable ms2 = C1 \<and> ms_temproot ms2 \<subseteq> {x. is_string heap x} \<and> \<not> ms_reclimit_reached ms2"
    by (rule marking_complete [OF c1 mark_inv_marks [OF m0 ms1(2)] assms(6) ok(2) fin(1,3) ms1(3)])
      (unfold assms(8), rule reach_least)
  then obtain ms2 where ms2: "duk__mark_temproots_by_heap_scan n fuel heap ms1 = Some ms2" "mark_inv heap C1 {} ms2"
    "ms_reachable ms2 = C1" by blast
  \<comment> \<open>finalizable objects and those that wait\<close>
  have al: "(\<exists>hdr. cells heap a = Some hdr \<and> \<not> h_finalizable hdr) \<and> is_finalizable heap ms2 a \<noteq> None"
    if "a \<in> set (heap_allocated heap)" for a
    using that assms(3) lists is_finalizable_some [OF assms(1)] by (fastforce simp: waiting_def split: option.splits)
  obtain ms3 where ms3: "duk__mark_finalizable n heap ms2 = Some (?h1, ms3)" "marks heap C2 ms2 ms3" "Q \<subseteq> ms_reachable ms3"
    using mark_finalizable_spec [OF c2, of ms2 n] al sub q2(1) unfolding ms2(3) assms(9) [symmetric] by blast
  note b = marking_bodies [of ?h1 heap, OF flagged_bodies]
  have c2': "closed ?h1 C2" using c2 by (simp add: b(4))
  have "ms_reachable ms3 \<subseteq> C2" using ms3(2) by (simp add: marks_def)
  then have "\<exists>ms4. mfold (duk__mark_heaphdr ?h1 n) (finalize_list heap) ms3 = Some ms4 \<and> marks ?h1 C2 ms3 ms4
      \<and> set (finalize_list heap) \<subseteq> ms_reachable ms4"
  proof (intro mfold_marks)
    fix k and m :: ms_state
    assume "k \<in> set (finalize_list heap)" "ms_reachable m \<subseteq> C2"
    then show "\<exists>m'. duk__mark_heaphdr ?h1 n k m = Some m' \<and> marks ?h1 C2 m m' \<and> k \<in> ms_reachable m'"
      using mark_heaphdr_spec [OF c2', of k m n] q2(2) by auto
  qed
  then obtain ms4 where ms4: "duk__mark_finalize_list n ?h1 ms3 = Some ms4" "marks ?h1 C2 ms3 ms4"
    "set (finalize_list heap) \<subseteq> ms_reachable ms4"
    by (auto simp: duk__mark_finalize_list_def flagged_def)
  have "mark_inv heap C2 {} ms3" by (rule mark_inv_marks [OF mark_inv_mono [OF ms2(2) sub] ms3(2)])
  then have m3: "mark_inv ?h1 C2 {} ms3" by (simp add: b(5))
  have m4: "mark_inv ?h1 C2 {} ms4" by (rule mark_inv_marks [OF m3 ms4(2)])
  have grow: "C1 \<subseteq> ms_reachable ms4" "Q \<subseteq> ms_reachable ms4"
  proof -
    have "C1 \<subseteq> ms_reachable ms3" "ms_reachable ms3 \<subseteq> ms_reachable ms4"
      using ms3(2) ms4(2) ms2(3) by (simp_all only: marks_def)
    then show "C1 \<subseteq> ms_reachable ms4" "Q \<subseteq> ms_reachable ms4" using ms3(3) by blast+
  qed
  have "snd ` set ?es = snd ` set ?roots \<union> set (finalize_list heap) \<union> (Q \<inter> set (heap_allocated heap))"
    by (auto simp: obj_list_def image_Un image_image)
  then have s4: "snd ` set ?es \<subseteq> ms_reachable ms4" using r1 grow ms4(3) by blast
  have cover: "lists_cover ?h1" using ok(2) unfolding lists_cover_def b by (simp add: flagged_def)
  have "\<exists>ms5. duk__mark_temproots_by_heap_scan n fuel ?h1 ms4 = Some ms5 \<and> mark_inv ?h1 C2 {} ms5
    \<and> ms_reachable ms5 = C2 \<and> ms_temproot ms5 \<subseteq> {x. is_string ?h1 x} \<and> \<not> ms_reclimit_reached ms5"
    by (rule marking_complete [OF c2' m4 assms(6) cover fin(2,4) s4])
      (unfold assms(10) b, rule reach_least)
  then obtain ms5 where ms5: "duk__mark_temproots_by_heap_scan n fuel ?h1 ms4 = Some ms5" "ms_reachable ms5 = C2"
    "ms_temproot ms5 \<subseteq> {x. is_string ?h1 x}" "\<not> ms_reclimit_reached ms5" by blast
  have "ms_temproot ms5 \<subseteq> {x. is_string heap x}" using ms5(3) by (simp add: b(2))
  then show thesis by (rule that [OF ms1(1) ms2(1) ms3(1) ms4(1) ms5(1,2) _ ms5(4) c2 sub q2(1)])
qed

lemma waiting_flagged:
  assumes "\<forall>a \<in> set (heap_allocated heap). \<not> waiting heap a" "a \<in> set (heap_allocated heap)" "a \<in> dom (cells heap)"
  shows "waiting (lower es (flagged Q heap)) a \<longleftrightarrow> a \<in> Q"
  using assms by (cases "a \<in> Q") (auto simp: waiting_def lower_def flagged_def)

definition collected :: "bool \<Rightarrow> edge list \<Rightarrow> haddr set \<Rightarrow> haddr set \<Rightarrow> duk_heap \<Rightarrow> duk_heap" where
  "collected postpone es Q C heap = heap\<lparr>cells := \<lambda>a. if a \<in> C then map_option (\<lambda>hdr.
        let hdr = hdr\<lparr>h_refcount := h_refcount hdr - of_nat (count_list (map snd es) a)\<rparr>
        in if a \<in> Q then hdr\<lparr>h_refcount := h_refcount hdr + 1, h_finalizable := True\<rparr>
           else if a \<in> set (heap_allocated heap) \<and> h_finalized hdr \<and> \<not> postpone then hdr\<lparr>h_finalized := False\<rparr>
           else hdr) (cells heap a) else None,
     heap_allocated := filter (\<lambda>a. a \<in> C - Q) (heap_allocated heap),
     finalize_list := rev (filter (\<lambda>a. a \<in> Q) (heap_allocated heap)) @ finalize_list heap,
     strtable := filter (\<lambda>a. a \<in> C) (strtable heap),
     strcache := map (\<lambda>c. if c \<in> Some ` (set (strtable heap) - C) then None else c) (strcache heap)\<rparr>"

lemma sweep_collected:
  assumes "heap_ok ext heap" "\<forall>a \<in> set (heap_allocated heap). \<not> waiting heap a"
    and "Q \<subseteq> set (heap_allocated heap)" "Q \<subseteq> C" "set (finalize_list heap) \<subseteq> C" "C \<subseteq> dom (cells heap)"
  shows "swept_strings (set (strtable heap)) (C - set (heap_allocated heap))
      (swept postpone C (heap_allocated heap) ((lower es (flagged Q heap))\<lparr>heap_allocated := []\<rparr>))
    = collected postpone es Q C heap"
    (is "swept_strings ?S ?R (swept _ _ ?al ?h) = _")
proof -
  note ok = heap_ok_cells [OF assms(1)]
  have lists: "\<And>a. a \<in> set ?al \<Longrightarrow> a \<in> dom (cells heap)" "\<And>a. a \<in> ?S \<Longrightarrow> a \<notin> set ?al"
    "\<And>a. a \<in> dom (cells heap) \<Longrightarrow> a \<notin> set ?al \<Longrightarrow> a \<in> ?S \<or> a \<in> set (finalize_list heap)"
    "\<And>a. a \<in> ?S \<Longrightarrow> a \<notin> set (finalize_list heap)"
    using ok(2,7) unfolding lists_cover_def by blast+
  have w: "waiting ?h a \<longleftrightarrow> a \<in> Q" if "a \<in> set ?al" for a
    using waiting_flagged [OF assms(2) that lists(1) [OF that], of es Q] by (simp add: waiting_def)
  have hdrs: "cells (lower es (flagged Q heap)) a = map_option (\<lambda>hdr. (if a \<in> Q then hdr\<lparr>h_finalizable := True\<rparr> else hdr)
      \<lparr>h_refcount := h_refcount hdr - of_nat (count_list (map snd es) a)\<rparr>) (cells heap a)" for a
    by (auto simp: lower_def flagged_def option.map_comp comp_def intro!: option.map_cong)
  have inS: "a \<in> ?S - ?R \<longleftrightarrow> a \<in> ?S - C" for a using lists(2) by blast
  have cell: "cells (swept_strings ?S ?R (swept postpone C ?al ?h)) a = cells (collected postpone es Q C heap) a" for a
  proof (cases "cells heap a")
    case None
    then show ?thesis by (simp add: swept_strings_def swept_def swept_cells_def hdrs collected_def)
  next
    case (Some hdr)
    consider "a \<in> set ?al" | "a \<notin> set ?al" "a \<in> ?S" | "a \<notin> set ?al" "a \<notin> ?S" "a \<in> set (finalize_list heap)"
      using lists(3) [of a] Some by blast
    then show ?thesis
    proof cases
      case 1
      then have "\<not> waiting heap a" using assms(2) by blast
      then have "h_finalizable hdr = False" using Some by (simp add: waiting_def)
      moreover have "a \<notin> ?S" using 1 lists(2) by blast
      ultimately show ?thesis
        using 1 Some assms(4)
        by (cases "a \<in> Q") (auto simp: swept_strings_def swept_def swept_cells_def swept_hdr_def hdrs collected_def)
    next
      case 2
      then have "a \<notin> Q" using assms(3) by blast
      then show ?thesis using 2 Some by (simp add: swept_strings_def swept_def swept_cells_def hdrs collected_def)
    next
      case 3
      then have "a \<notin> Q" "a \<in> C" using assms(3,5) by blast+
      then show ?thesis using 3 Some by (simp add: swept_strings_def swept_def swept_cells_def hdrs collected_def)
    qed
  qed
  have f: "filter (\<lambda>a. a \<in> C \<and> \<not> waiting ?h a) ?al = filter (\<lambda>a. a \<in> C - Q) ?al"
    "filter (\<lambda>a. a \<in> C \<and> waiting ?h a) ?al = filter (\<lambda>a. a \<in> Q) ?al"
    using w assms(4) by (auto intro!: filter_cong)
  have s: "filter (\<lambda>a. a \<notin> ?S - ?R) (strtable heap) = filter (\<lambda>a. a \<in> C) (strtable heap)"
    unfolding inS by (rule filter_cong) auto
  have R: "?S - ?R = ?S - C" using inS by blast
  show ?thesis
  proof (rule duk_heap.equality)
    show "cells (swept_strings ?S ?R (swept postpone C ?al ?h)) = cells (collected postpone es Q C heap)"
      using cell by blast
    show "strtable (swept_strings ?S ?R (swept postpone C ?al ?h)) = strtable (collected postpone es Q C heap)"
      using s by (simp add: swept_strings_def swept_def collected_def lower_def flagged_def)
    show "strcache (swept_strings ?S ?R (swept postpone C ?al ?h)) = strcache (collected postpone es Q C heap)"
      unfolding swept_strings_def R by (simp add: swept_def collected_def lower_def flagged_def)
    show "heap_allocated (swept_strings ?S ?R (swept postpone C ?al ?h)) = heap_allocated (collected postpone es Q C heap)"
      "finalize_list (swept_strings ?S ?R (swept postpone C ?al ?h)) = finalize_list (collected postpone es Q C heap)"
      using f by (simp_all add: swept_strings_def swept_def collected_def) (simp add: lower_def flagged_def)
  qed (simp_all add: swept_strings_def swept_def collected_def lower_def flagged_def)
qed

subsection \<open>Exact counts after the sweep\<close>

lemma collected_cell:
  assumes "C \<subseteq> dom (cells heap)"
  shows "dom (cells (collected postpone es Q C heap)) = C"
    and "a \<in> C \<Longrightarrow> map_option h_body (cells (collected postpone es Q C heap) a) = map_option h_body (cells heap a)"
proof -
  show "dom (cells (collected postpone es Q C heap)) = C"
    using assms by (auto simp: collected_def split: if_splits)
  show "a \<in> C \<Longrightarrow> map_option h_body (cells (collected postpone es Q C heap) a) = map_option h_body (cells heap a)"
    by (cases "cells heap a") (simp_all add: collected_def Let_def)
qed

lemma collected_string:
  assumes "C \<subseteq> dom (cells heap)" "x \<in> C"
  shows "is_string (collected postpone es Q C heap) x = is_string heap x"
  unfolding is_string_bodies collected_cell(2) [OF assms] ..

lemma collected_unfinalized: "a \<in> C \<Longrightarrow> a \<in> unfinalized heap \<Longrightarrow> a \<in> unfinalized (collected postpone es Q C heap)"
  unfolding unfinalized_def by (cases "cells heap a") (simp_all add: collected_def Let_def)

lemma hdr_edges_bodies: "map_option h_body x = map_option h_body y \<Longrightarrow> x \<noteq> None \<Longrightarrow> hdr_edges (the x) = hdr_edges (the y)"
  by (cases x; cases y) (simp_all add: hdr_edges_def)

lemma own_collected:
  assumes "heap_ok ext heap" "C \<subseteq> dom (cells heap)" "set (finalize_list heap) \<subseteq> C"
  shows "own heap {} = own (collected postpone es Q C heap) {} + mset (garbage_edges heap C (heap_allocated heap))"
proof -
  note ok = heap_ok_cells [OF assms(1)]
  let ?e = "\<lambda>x. mset (hdr_edges (the (cells heap x)))" and ?al = "heap_allocated heap"
  have "own (collected postpone es Q C heap) {} = (\<Sum>x \<in> C. ?e x)"
    unfolding own_def collected_cell(1) [OF assms(2)] Diff_empty
  proof (rule sum.cong)
    fix x
    assume x: "x \<in> C"
    have "cells (collected postpone es Q C heap) x \<noteq> None" using x collected_cell(1) [OF assms(2)] by blast
    then show "mset (hdr_edges (the (cells (collected postpone es Q C heap) x))) = ?e x"
      using hdr_edges_bodies [OF collected_cell(2) [OF assms(2) x]] by simp
  qed simp
  moreover have "(\<Sum>x \<in> dom (cells heap) - C. ?e x) = (\<Sum>x \<in> set ?al - C. ?e x)"
  proof (rule sum.mono_neutral_right)
    show "\<forall>x \<in> dom (cells heap) - C - (set ?al - C). ?e x = {#}"
    proof
      fix x
      assume "x \<in> dom (cells heap) - C - (set ?al - C)"
      then have "is_string heap x" using ok(2) assms(3) unfolding lists_cover_def by blast
      then show "?e x = {#}" by (auto simp: is_string_def hdr_edges_def)
    qed
  qed (use ok(1,2) in \<open>auto simp: lists_cover_def\<close>)
  moreover have "(\<Sum>x \<in> set l. ?e x) = mset (concat (map (\<lambda>a. hdr_edges (the (cells heap a))) l))" if "distinct l" for l
    using that by (induction l) simp_all
  from this [of "filter (\<lambda>a. a \<notin> C) ?al"]
  have "(\<Sum>x \<in> set ?al - C. ?e x) = mset (garbage_edges heap C ?al)"
    using ok(5) by (simp add: garbage_edges_def set_diff_eq)
  ultimately show ?thesis
    using sum.subset_diff [OF assms(2) ok(1), of ?e] by (simp add: own_def union_commute)
qed

lemma heap_ok_collected:
  assumes "heap_ok (ext + gone) heap" "closed heap C" "set (finalize_list heap) \<subseteq> C" "Q \<subseteq> set (heap_allocated heap)"
    and "Q \<subseteq> C" "Q \<subseteq> cells_of {DUK_HTYPE_OBJECT} heap" "\<And>e. e \<in># ext \<Longrightarrow> snd e \<in> C" "\<And>e. e \<in># gone \<Longrightarrow> snd e \<notin> C"
    and "\<And>a hdr. cells heap a = Some hdr \<Longrightarrow> unat (h_refcount hdr) < 2 ^ 32 - 1"
    and "es = garbage_edges heap C (heap_allocated heap)"
  shows "heap_ok ext (collected postpone es Q C heap)"
    (is "heap_ok ext ?h")
proof -
  note ok = heap_ok_cells [OF assms(1)]
  have inv: "heap_inv {} (ext + gone) heap" "refzero_list heap = []" using assms(1) by (simp_all add: heap_ok_def)
  note i = heap_inv_dest [OF inv(1)]
  have C: "C \<subseteq> dom (cells heap)" using assms(2) by (simp add: closed_def)
  note cell = collected_cell [OF C, where postpone = postpone and es = es and Q = Q]
  have own: "own heap {} = own ?h {} + mset es" unfolding assms(10) by (rule own_collected [OF assms(1) C assms(3)])
  have refs: "refs_to heap {} (ext + gone) a = refs_to ?h {} ext a + count_list (map snd es) a" if "a \<in> C" for a
  proof -
    have "a \<notin># image_mset snd gone" using assms(8) that by auto
    then have "count (image_mset snd gone) a = 0" by (simp add: count_eq_zero_iff)
    then show ?thesis by (simp add: refs_to_def own) (simp flip: count_mset)
  qed
  have fin: "finite (dom (cells ?h))" unfolding cell(1) using C ok(1) finite_subset by blast
  have al: "set (heap_allocated ?h) = set (heap_allocated heap) \<inter> C - Q"
    "set (finalize_list ?h) = Q \<union> set (finalize_list heap)" "set (strtable ?h) = set (strtable heap) \<inter> C"
    using assms(4) by (auto simp: collected_def)
  have counts: "heap_counts ?h {} ext"
    unfolding heap_counts_def
  proof (intro allI impI)
    fix a hdr'
    assume a: "cells ?h a = Some hdr'"
    then have aC: "a \<in> C" using cell(1) by blast
    then obtain hdr where hdr: "cells heap a = Some hdr" using C by blast
    let ?g = "count_list (map snd es) a" and ?f = "if a \<in> set (finalize_list heap) then 1 else 0 :: nat"
    have rc: "unat (h_refcount hdr) = refs_to ?h {} ext a + ?g + ?f"
      using i(2) hdr refs [OF aC] by (simp add: heap_counts_def)
    have small: "unat (h_refcount hdr) < 2 ^ 32 - 1" by (rule assms(9) [OF hdr])
    have "?g < 2 ^ 32" using rc small by linarith
    then have "unat (of_nat ?g :: u32) = ?g" by (simp add: unat_of_nat)
    moreover have "(of_nat ?g :: u32) \<le> h_refcount hdr"
      using rc calculation by (simp add: word_le_nat_alt)
    ultimately have sub: "unat (h_refcount hdr - of_nat ?g) = refs_to ?h {} ext a + ?f"
      using rc by (simp add: unat_sub)
    show "unat (h_refcount hdr') = refs_to ?h {} ext a + (if a \<in> set (finalize_list ?h) then 1 else 0)"
    proof (cases "a \<in> Q")
      case True
      then have nf: "a \<notin> set (finalize_list heap)" using assms(4) ok(8) by blast
      have "unat (h_refcount hdr - of_nat ?g + 1) = unat (h_refcount hdr - of_nat ?g) + 1"
        using sub rc small by (intro unat_add_lem [THEN iffD1, THEN trans]) simp_all
      then show ?thesis
        using a aC hdr True sub nf unfolding al by (auto simp: collected_def Let_def)
    next
      case False
      then have "h_refcount hdr' = h_refcount hdr - of_nat ?g"
        using a aC hdr by (auto simp: collected_def Let_def split: if_splits)
      then show ?thesis using sub False unfolding al by simp
    qed
  qed
  have typed: "heap_typed ?h {} ext"
    unfolding heap_typed_def
  proof
    fix e
    assume e: "e \<in># own ?h {} + ext"
    have "snd e \<in> C"
    proof (cases "e \<in># ext")
      case False
      then have "e \<in># own ?h {}" using e by simp
      then obtain x where x: "x \<in> dom (cells ?h)" "e \<in> set (hdr_edges (the (cells ?h x)))"
        unfolding own_def using fin by (auto simp: set_mset_sum)
      have xC: "x \<in> C" using x(1) cell(1) by blast
      have "cells ?h x \<noteq> None" using x(1) by blast
      then have "e \<in> set (hdr_edges (the (cells heap x)))" using x(2) hdr_edges_bodies [OF cell(2) [OF xC]] by simp
      then have "snd e \<in> kids heap x" using C xC by (auto simp: kids_def)
      then show ?thesis using assms(2) xC unfolding closed_def by blast
    qed (rule assms(7))
    moreover have "typed_edge heap e" using i(3) e own unfolding heap_typed_def by auto
    ultimately show "typed_edge ?h e"
      using cell(2) [of "snd e"] unfolding typed_edge_def
      by (cases "cells heap (snd e)"; cases "cells ?h (snd e)") simp_all
  qed
  have sub: "cells_of T ?h = cells_of T heap \<inter> C" for T
  proof -
    have "a \<in> cells_of T ?h \<longleftrightarrow> a \<in> cells_of T heap" if "a \<in> C" for a
      using cell(2) [OF that] unfolding cells_of_def by (cases "cells heap a"; cases "cells ?h a") simp_all
    moreover have "cells_of T ?h \<subseteq> C" using cell(1) by (auto simp: cells_of_def)
    ultimately show ?thesis by blast
  qed
  have "heap_lists ?h {}"
    unfolding heap_lists_def sub al
  proof (intro conjI)
    have "distinct (heap_allocated heap @ finalize_list heap)" using i(4) by (auto simp: heap_lists_def)
    then show "distinct (heap_allocated ?h @ finalize_list ?h @ refzero_list ?h)"
      using inv(2) assms(4) by (auto simp: collected_def)
    show "set (heap_allocated heap) \<inter> C - Q \<union> (Q \<union> set (finalize_list heap)) \<union> set (refzero_list ?h) \<union> {}
        = cells_of {DUK_HTYPE_OBJECT, DUK_HTYPE_BUFFER} heap \<inter> C"
      using i(4) inv(2) assms(3-5) by (auto simp: heap_lists_def collected_def)
    show "Q \<union> set (finalize_list heap) \<union> set (refzero_list ?h) \<union> {} \<subseteq> cells_of {DUK_HTYPE_OBJECT} heap \<inter> C"
      using ok(9) inv(2) assms(3,5,6) by (auto simp: collected_def)
    show "\<forall>a. Some a \<in> set (strcache ?h) \<longrightarrow> a \<in> cells_of {DUK_HTYPE_STRING} heap \<inter> C"
      using i(4) by (fastforce simp: heap_lists_def collected_def split: if_splits)
  qed (use i(4) in \<open>auto simp: heap_lists_def collected_def\<close>)
  then show ?thesis using fin counts typed inv(2) by (simp add: heap_ok_def heap_inv_def collected_def)
qed

lemma room_counts:
  assumes "heap_ok ext heap" "room ext heap" "cells heap a = Some hdr"
  shows "unat (h_refcount hdr) < 2 ^ 32 - 1"
proof -
  have "unat (h_refcount hdr) = refs_to heap {} ext a + (if a \<in> set (finalize_list heap) then 1 else 0)"
    using assms(1,3) by (simp add: heap_ok_def heap_inv_def heap_counts_def)
  then have "unat (h_refcount hdr) \<le> refs_to heap {} ext a + 1" by simp
  moreover have "refs_to heap {} ext a + 1 < 2 ^ 32 - 1" using assms(2) unfolding room_def by blast
  ultimately show ?thesis by (rule le_less_trans)
qed

lemma garbage_edges_flagged: "garbage_edges (flagged Q heap) R l = garbage_edges heap R l"
proof -
  have "hdr_edges (the (cells (flagged Q heap) a)) = hdr_edges (the (cells heap a))" for a
    by (cases "cells heap a") (simp_all add: flagged_def hdr_edges_def)
  then show ?thesis by (simp add: garbage_edges_def)
qed

lemma collect_spec:
  assumes "gc_ready roots P heap ms" "ms_running heap" "n > 0" "card (dom (cells heap)) + 1 < fuel"
    and "C1 = reach heap (root_edges roots)" "Q = finalizable heap C1"
    and "C2 = reach heap (root_edges roots @ obj_list (finalize_list heap) @ obj_list (filter (\<lambda>a. a \<in> Q) (heap_allocated heap)))"
    and "heap' = collected postpone (garbage_edges heap C2 (heap_allocated heap)) Q C2 heap"
  shows "\<exists>ms' k. ms_collect n fuel roots postpone heap ms = Some (heap', ms', k) \<and> ms_reachable ms' = {}
    \<and> ms_temproot ms' \<subseteq> {x. is_string heap' x} \<and> \<not> ms_reclimit_reached ms'"
    and "closed heap C2" "Q \<subseteq> C2" "C1 \<subseteq> C2"
proof -
  have ready: "heap_ok (mset (root_edges roots) + pinned_edges P) heap" "\<forall>a \<in> set (heap_allocated heap). \<not> waiting heap a"
    "ms_reachable ms = {}" "ms_temproot ms \<subseteq> {x. is_string heap x}"
    using assms(1) by (simp_all add: gc_ready_def)
  note ok = heap_ok_cells [OF ready(1)]
  let ?h1 = "flagged Q heap" and ?al = "heap_allocated heap" and ?S = "strtable heap"
  let ?es = "garbage_edges heap C2 ?al"
  obtain ms1 ms2 ms3 ms4 ms5 where ms: "duk__mark_roots_heap n roots heap ms = Some ms1"
    "duk__mark_temproots_by_heap_scan n fuel heap ms1 = Some ms2"
    "duk__mark_finalizable n heap ms2 = Some (?h1, ms3)"
    "duk__mark_finalize_list n ?h1 ms3 = Some ms4"
    "duk__mark_temproots_by_heap_scan n fuel ?h1 ms4 = Some ms5"
    "ms_reachable ms5 = C2" "ms_temproot ms5 \<subseteq> {x. is_string heap x}" "\<not> ms_reclimit_reached ms5"
    "closed heap C2" "C1 \<subseteq> C2" "Q \<subseteq> C2"
    by (rule mark_phases [OF ready(1) _ ready(2-4) assms(3-7)]) simp_all
  show "closed heap C2" "Q \<subseteq> C2" "C1 \<subseteq> C2" by fact+
  have C: "C2 \<subseteq> dom (cells heap)" using ms(9) by (simp add: closed_def)
  have al: "set ?al \<subseteq> dom (cells heap)" using ok(2) by (auto simp: lists_cover_def)
  have b: "kids ?h1 = kids heap" "dom (cells ?h1) = dom (cells heap)" using marking_bodies [OF flagged_bodies] by simp_all
  have h1: "ms_running ?h1" "heap_allocated ?h1 = ?al" using assms(2) by (simp_all add: flagged_def)
  have low: "duk__finalize_refcounts ms5 ?h1 = Some (lower ?es ?h1)"
    using finalize_refcounts_spec [of ?h1 ms5] h1 al ok(3) by (simp add: b ms(6) garbage_edges_flagged)
  let ?h2 = "(lower ?es ?h1)\<lparr>heap_allocated := []\<rparr>"
  have "set ?al \<subseteq> dom (cells ?h2)" using al by (simp add: b)
  then obtain k1 where sweep: "duk__sweep_heap postpone (lower ?es ?h1) ms5 = Some (swept postpone C2 ?al ?h2,
      ms5\<lparr>ms_reachable := C2 - set ?al, ms_temproot := ms_temproot ms5 - (set ?al - C2)\<rparr>, k1)"
    using sweep_fold [OF ok(5), of ?h2 postpone ms5 0] by (auto simp: duk__sweep_heap_def h1 ms(6))
  let ?m6 = "ms5\<lparr>ms_reachable := C2 - set ?al, ms_temproot := ms_temproot ms5 - (set ?al - C2)\<rparr>"
  let ?h3 = "swept postpone C2 ?al ?h2"
  have S: "strtable ?h3 = ?S" by (simp add: swept_def lower_def flagged_def)
  have disj: "set ?S \<inter> set ?al = {}" using ok(2,7) unfolding lists_cover_def by blast
  have "set ?S \<subseteq> dom (cells ?h3)"
  proof
    fix a
    assume a: "a \<in> set ?S"
    then have "a \<notin> set ?al" "a \<in> dom (cells heap)" using ok(7) disj by (auto simp: is_string_def)
    then have "cells (lower ?es ?h1) a \<noteq> None" "cells ?h3 a = cells (lower ?es ?h1) a"
      by (auto simp: lower_def flagged_def swept_def swept_cells_def)
    then show "a \<in> dom (cells ?h3)" by (simp add: domIff)
  qed
  then obtain k2 where strings: "duk__sweep_stringtable ?h3 ?m6 = Some (swept_strings (set ?S) (ms_reachable ?m6) ?h3,
      ?m6\<lparr>ms_reachable := ms_reachable ?m6 - set ?S, ms_temproot := ms_temproot ?m6 - (set ?S - ms_reachable ?m6)\<rparr>, k2)"
    using sweep_string_fold [OF ok(6), of ?h3 ?m6 0] ok(6) unfolding duk__sweep_stringtable_def S by blast
  have Q: "Q \<subseteq> set ?al" "set (finalize_list heap) \<subseteq> C2"
    using reach_roots [of _ "root_edges roots @ obj_list (finalize_list heap) @ obj_list (filter (\<lambda>a. a \<in> Q) ?al)" heap]
    unfolding assms(6,7) by (force simp: finalizable_def obj_list_def)+
  have h': "swept_strings (set ?S) (C2 - set ?al) ?h3 = heap'"
    unfolding assms(8) by (rule sweep_collected [OF ready(1,2) Q(1) ms(11) Q(2) C])
  let ?m7 = "?m6\<lparr>ms_reachable := ms_reachable ?m6 - set ?S, ms_temproot := ms_temproot ?m6 - (set ?S - ms_reachable ?m6)\<rparr>"
  have "ms_collect n fuel roots postpone heap ms
      = Some (heap', duk__clear_finalize_list_flags heap' ?m7, ms_trigger k1 k2)"
    using ms(1-5) low sweep strings by (simp add: ms_collect_def h')
  moreover have "ms_reachable (duk__clear_finalize_list_flags heap' ?m7) = {}"
  proof -
    have "set (finalize_list heap) \<subseteq> set (finalize_list heap')" unfolding assms(8) by (simp add: collected_def)
    moreover have "C2 - set ?al - set ?S \<subseteq> set (finalize_list heap)"
      using C ok(2,7) unfolding lists_cover_def by blast
    ultimately show ?thesis by (auto simp: duk__clear_finalize_list_flags_def)
  qed
  moreover have "ms_temproot (duk__clear_finalize_list_flags heap' ?m7) \<subseteq> {x. is_string heap' x}"
  proof
    fix x
    assume "x \<in> ms_temproot (duk__clear_finalize_list_flags heap' ?m7)"
    then have x: "x \<in> ms_temproot ms5" "x \<in> set ?S \<longrightarrow> x \<in> C2" by (auto simp: duk__clear_finalize_list_flags_def)
    then have "is_string heap x" "x \<in> C2" using ms(7) ok(7) by blast+
    then show "x \<in> {x. is_string heap' x}"
      unfolding assms(8) mem_Collect_eq by (simp add: collected_string [OF C])
  qed
  moreover have "\<not> ms_reclimit_reached (duk__clear_finalize_list_flags heap' ?m7)"
    using ms(8) by (simp add: duk__clear_finalize_list_flags_def)
  ultimately show "\<exists>ms' k. ms_collect n fuel roots postpone heap ms = Some (heap', ms', k) \<and> ms_reachable ms' = {}
    \<and> ms_temproot ms' \<subseteq> {x. is_string heap' x} \<and> \<not> ms_reclimit_reached ms'" by blast
qed

lemma finalizable_iff:
  assumes "heap_ok ext heap"
  shows "a \<in> finalizable heap R \<longleftrightarrow> a \<in> set (heap_allocated heap) \<and> a \<notin> R \<and>
    (\<exists>hdr obj. cells heap a = Some hdr \<and> h_body hdr = Hobject obj \<and> \<not> h_finalized hdr
      \<and> has_finalizer_fast DUK_HOBJECT_PROTOTYPE_CHAIN_SANITY heap a = Some True)"
proof (cases "cells heap a")
  case (Some hdr)
  then show ?thesis by (cases "h_body hdr") (auto simp: finalizable_def is_finalizable_def)
qed (simp add: finalizable_def is_finalizable_def)

lemma pinned_split:
  assumes "finite P"
  shows "pinned_edges P = pinned_edges (P \<inter> C) + pinned_edges (P - C)"
proof -
  have "mset_set P = mset_set (P \<inter> C) + mset_set (P - C)"
    using assms by (subst mset_set_Union [symmetric]) (auto intro!: arg_cong [where f = mset_set])
  then show ?thesis by (simp add: pinned_edges_def)
qed

text \<open>After the sweep the heap is ready for the next collection, and holds what was reachable.\<close>

lemma collected_ready:
  assumes "gc_ready roots P heap ms" "C1 = reach heap (root_edges roots)" "Q = finalizable heap C1"
    and "C2 = reach heap (root_edges roots @ obj_list (finalize_list heap) @ obj_list (filter (\<lambda>a. a \<in> Q) (heap_allocated heap)))"
    and "heap' = collected postpone (garbage_edges heap C2 (heap_allocated heap)) Q C2 heap" "closed heap C2" "Q \<subseteq> C2"
    and "ms_reachable ms' = {}" "ms_temproot ms' \<subseteq> {x. is_string heap' x}" "\<not> ms_reclimit_reached ms'"
  shows "gc_ready roots (P \<inter> dom (cells heap')) heap' ms'" "dom (cells heap') = C2"
    and "set (finalize_list heap') = set (finalize_list heap) \<union> Q"
proof -
  let ?al = "heap_allocated heap" and ?roots = "root_edges roots"
  let ?es = "?roots @ obj_list (finalize_list heap) @ obj_list (filter (\<lambda>a. a \<in> Q) ?al)"
  have ready: "heap_ok (mset ?roots + pinned_edges P) heap" "P \<subseteq> {x. is_string heap x}"
    "\<forall>a \<in> set ?al. \<not> waiting heap a" "room (mset ?roots + pinned_edges P) heap"
    using assms(1) by (simp_all add: gc_ready_def)
  note ok = heap_ok_cells [OF ready(1)]
  have C: "C2 \<subseteq> dom (cells heap)" using assms(6) by (simp add: closed_def)
  show d: "dom (cells heap') = C2" unfolding assms(5) by (rule collected_cell(1) [OF C])
  have Q: "Q \<subseteq> set ?al" "Q \<subseteq> cells_of {DUK_HTYPE_OBJECT} heap"
    using finalizable_iff [OF ready(1)] unfolding assms(3) by (auto simp: cells_of_def)
  show fl: "set (finalize_list heap') = set (finalize_list heap) \<union> Q"
    unfolding assms(5) using Q(1) by (auto simp: collected_def)
  have t: "\<And>e. e \<in> set ?es \<Longrightarrow> snd e \<in> C2" unfolding assms(4) by (rule reach_roots)
  have fC: "set (finalize_list heap) \<subseteq> C2" using t by (force simp: obj_list_def)
  have "P \<subseteq> dom (cells heap)" using ready(2) by (auto simp: is_string_def)
  then have P: "finite P" using ok(1) finite_subset by blast
  have ext: "mset ?roots + pinned_edges P = (mset ?roots + pinned_edges (P \<inter> C2)) + pinned_edges (P - C2)"
    using pinned_split [OF P, of C2] by (simp add: add.assoc)
  have in_pinned: "e \<in># pinned_edges A \<longleftrightarrow> fst e = DUK_HTYPE_STRING \<and> snd e \<in> A" if "finite A" for A e
    using that by (cases e) (auto simp: pinned_edges_def)
  have h: "heap_ok (mset ?roots + pinned_edges (P \<inter> C2)) heap'"
    unfolding assms(5)
  proof (rule heap_ok_collected [OF _ assms(6) fC Q(1) assms(7) Q(2)])
    show "heap_ok (mset ?roots + pinned_edges (P \<inter> C2) + pinned_edges (P - C2)) heap" using ready(1) ext by simp
    show "\<And>e. e \<in># mset ?roots + pinned_edges (P \<inter> C2) \<Longrightarrow> snd e \<in> C2" using t P by (auto simp: in_pinned)
    show "\<And>e. e \<in># pinned_edges (P - C2) \<Longrightarrow> snd e \<notin> C2" using P by (simp add: in_pinned)
  qed (use room_counts [OF ready(1,4)] in simp_all)
  have "refs_to heap' {} (mset ?roots + pinned_edges (P \<inter> C2)) a \<le> refs_to heap {} (mset ?roots + pinned_edges P) a" for a
    unfolding refs_to_def own_collected [OF ready(1) C fC, where postpone = postpone and Q = Q
        and es = "garbage_edges heap C2 ?al", folded assms(5)] ext by simp
  then have r: "room (mset ?roots + pinned_edges (P \<inter> C2)) heap'"
    using ready(4) unfolding room_def by (meson add_le_mono1 le_less_trans)
  have "\<not> waiting heap' a" if "a \<in> set (heap_allocated heap')" for a
  proof -
    have a: "a \<in> set ?al" "a \<in> C2" "a \<notin> Q" using that unfolding assms(5) by (simp_all add: collected_def)
    then have "\<not> waiting heap a" using ready(3) by blast
    then show ?thesis using a unfolding assms(5)
      by (cases "cells heap a") (auto simp: waiting_def collected_def Let_def)
  qed
  moreover have "P \<inter> C2 \<subseteq> {x. is_string heap' x}"
  proof
    fix x
    assume x: "x \<in> P \<inter> C2"
    then have "is_string heap x" using ready(2) by blast
    then show "x \<in> {x. is_string heap' x}" using x unfolding assms(5) by (simp add: collected_string [OF C])
  qed
  ultimately show "gc_ready roots (P \<inter> dom (cells heap')) heap' ms'"
    using h r assms(8-10) by (simp add: gc_ready_def d)
qed

lemma running_bodies [simp]:
  "reach (heap\<lparr>ms_running := b\<rparr>) es = reach heap es" "finalizable (heap\<lparr>ms_running := b\<rparr>) R = finalizable heap R"
  "heap_ok ext (heap\<lparr>ms_running := b\<rparr>) = heap_ok ext heap" "room ext (heap\<lparr>ms_running := b\<rparr>) = room ext heap"
  "gc_ready roots P (heap\<lparr>ms_running := b\<rparr>) ms = gc_ready roots P heap ms"
proof -
  let ?h = "heap\<lparr>ms_running := b\<rparr>"
  have c: "cells ?h = cells heap" by simp
  show r: "reach ?h es = reach heap es" for es by (rule reach_bodies) simp
  have "own ?h {} = own heap {}" by (simp add: own_def)
  then have refs: "refs_to ?h {} ext a = refs_to heap {} ext a" for ext a by (simp add: refs_to_def)
  show ok: "heap_ok ext ?h = heap_ok ext heap" for ext
    by (simp add: heap_ok_def heap_inv_def heap_defs refs own_def cells_of_def typed_edge_def)
  show rm: "room ext ?h = room ext heap" for ext by (simp add: room_def refs)
  have "is_finalizable ?h ms a = is_finalizable heap ms a" for ms a
    unfolding is_finalizable_def has_finalizer_fast_cells [OF c] by simp
  then show "finalizable ?h R = finalizable heap R" by (simp add: finalizable_def)
  show "gc_ready roots P ?h ms = gc_ready roots P heap ms"
    by (simp add: gc_ready_def ok rm waiting_def is_string_def)
qed

lemma mark_and_sweep_spec:
  assumes "gc_ready roots P (gc_heap gc) (gc_ms gc)" "ms_prevent_count gc = 0"
    and "n > 0" "card (dom (cells (gc_heap gc))) + 1 < fuel"
  shows "\<exists>heap' ms' k. duk_heap_mark_and_sweep n fuel PF roots postpone gc
      = map_option (\<lambda>h. \<lparr>gc_heap = h, gc_ms = ms', ms_prevent_count = 0, ms_trigger_counter = k\<rparr>) (PF heap')
    \<and> dom (cells heap') = reach (gc_heap gc) (root_edges roots @ obj_list (finalize_list heap'))
    \<and> (\<forall>x \<in> dom (cells heap'). map_option h_body (cells heap' x) = map_option h_body (cells (gc_heap gc) x))
    \<and> set (finalize_list heap') = set (finalize_list (gc_heap gc))
        \<union> finalizable (gc_heap gc) (reach (gc_heap gc) (root_edges roots))
    \<and> gc_ready roots (P \<inter> dom (cells heap')) heap' ms' \<and> \<not> ms_running heap'
    \<and> pf_prevent_count heap' = pf_prevent_count (gc_heap gc)
    \<and> (set (finalize_list (gc_heap gc)) \<subseteq> unfinalized (gc_heap gc) \<longrightarrow> set (finalize_list heap') \<subseteq> unfinalized heap')"
proof -
  let ?heap = "(gc_heap gc)\<lparr>ms_running := True\<rparr>" and ?p = "postpone \<or> finalize_list (gc_heap gc) \<noteq> []"
  let ?C1 = "reach ?heap (root_edges roots)"
  let ?Q = "finalizable ?heap ?C1"
  let ?es = "root_edges roots @ obj_list (finalize_list ?heap) @ obj_list (filter (\<lambda>a. a \<in> ?Q) (heap_allocated ?heap))"
  define h' where "h' = collected ?p (garbage_edges ?heap (reach ?heap ?es) (heap_allocated ?heap)) ?Q (reach ?heap ?es) ?heap"
  have ready: "gc_ready roots P ?heap (gc_ms gc)" using assms(1) by simp
  note c = collect_spec [OF ready _ assms(3) _ refl refl refl h'_def, of fuel]
  obtain ms' k where m: "ms_collect n fuel roots ?p ?heap (gc_ms gc) = Some (h', ms', k)" "ms_reachable ms' = {}"
    "ms_temproot ms' \<subseteq> {x. is_string h' x}" "\<not> ms_reclimit_reached ms'"
    using c(1) assms(4) by auto
  have cl: "closed ?heap (reach ?heap ?es)" "?Q \<subseteq> reach ?heap ?es" using c(2,3) assms(4) by simp_all
  note r = collected_ready [OF ready refl refl refl h'_def cl m(2-4)]
  let ?h = "h'\<lparr>ms_running := False\<rparr>"
  have fl: "set (finalize_list ?h) = set (finalize_list (gc_heap gc)) \<union> ?Q" using r(3) by simp
  have "set ?es = set (root_edges roots @ obj_list (finalize_list ?h))"
    unfolding obj_list_def set_append set_map fl using c(3) by (auto simp: finalizable_def)
  then have es: "reach ?heap ?es = reach ?heap (root_edges roots @ obj_list (finalize_list ?h))"
    by (intro subset_antisym reach_mono) simp_all
  have body: "map_option h_body (cells ?h x) = map_option h_body (cells (gc_heap gc) x)" if "x \<in> dom (cells ?h)" for x
    using that r(2) collected_cell(2) [of "reach ?heap ?es" ?heap x] cl(1) by (simp add: h'_def closed_def)
  have pf: "pf_prevent_count ?h = pf_prevent_count (gc_heap gc)" by (simp add: h'_def collected_def)
  have uf: "set (finalize_list ?h) \<subseteq> unfinalized ?h" if "set (finalize_list (gc_heap gc)) \<subseteq> unfinalized (gc_heap gc)"
  proof
    fix a
    assume a: "a \<in> set (finalize_list ?h)"
    have C: "reach ?heap ?es \<subseteq> dom (cells ?heap)" using cl(1) by (simp add: closed_def)
    have "a \<in> set (finalize_list ?heap) \<or> a \<in> ?Q" using a fl by simp
    then have "a \<in> reach ?heap ?es"
    proof
      assume "a \<in> set (finalize_list ?heap)"
      then have "(DUK_HTYPE_OBJECT, a) \<in> set ?es" by (simp add: obj_list_def)
      from reach_roots [OF this, of ?heap] show ?thesis by simp
    qed (rule subsetD [OF cl(2)])
    moreover have "heap_ok (mset (root_edges roots) + pinned_edges P) ?heap" using ready by (simp add: gc_ready_def)
    then have "a \<in> unfinalized (gc_heap gc)"
      using a fl that finalizable_iff [of _ ?heap a ?C1] by (auto simp: unfinalized_def)
    then have "a \<in> unfinalized ?heap" by (simp add: unfinalized_def)
    ultimately have "a \<in> unfinalized h'" unfolding h'_def by (rule collected_unfinalized)
    then show "a \<in> unfinalized ?h" by (simp add: unfinalized_def)
  qed
  have run: "duk_heap_mark_and_sweep n fuel PF roots postpone gc
      = map_option (\<lambda>h. \<lparr>gc_heap = h, gc_ms = ms', ms_prevent_count = 0, ms_trigger_counter = k\<rparr>) (PF ?h)"
    using assms(2) m(1) by (cases "PF ?h") (simp_all add: duk_heap_mark_and_sweep_def Let_def)
  have "dom (cells ?h) = reach (gc_heap gc) (root_edges roots @ obj_list (finalize_list ?h))"
    using r(2) es by simp
  moreover have "gc_ready roots (P \<inter> dom (cells ?h)) ?h ms'" using r(1) by simp
  ultimately show ?thesis
    using run body fl pf uf by (intro exI [of _ ?h] exI [of _ ms'] exI [of _ k]) simp
qed

subsection \<open>Properties\<close>

text \<open>
  C2: One collection.  On a heap with exact counts, and with any positive recursion limit,
  mark-and-sweep ends without touching a freed cell.  Before the finalizers are run it has kept exactly
  the cells that the program can reach from the roots or that a waiting finalizer may still need, has
  freed everything else, reference cycles included, and has not changed what the survivors contain.
  The unreachable objects with a finalizer that has not run wait on \<open>finalize_list\<close>.  All
  reference counts are exact again and the flags are clear, so that the next collection may follow.
\<close>

theorem mark_and_sweep_collects:
  assumes "gc_ready roots P (gc_heap gc) (gc_ms gc)" "ms_prevent_count gc = 0"
    and "n > 0" "card (dom (cells (gc_heap gc))) + 1 < fuel"
  shows "\<exists>heap' ms' k. duk_heap_mark_and_sweep n fuel PF roots postpone gc
      = map_option (\<lambda>h. \<lparr>gc_heap = h, gc_ms = ms', ms_prevent_count = 0, ms_trigger_counter = k\<rparr>) (PF heap')
    \<and> dom (cells heap') = reach (gc_heap gc) (root_edges roots @ obj_list (finalize_list heap'))
    \<and> (\<forall>x \<in> dom (cells heap'). map_option h_body (cells heap' x) = map_option h_body (cells (gc_heap gc) x))
    \<and> set (finalize_list heap') = set (finalize_list (gc_heap gc))
        \<union> finalizable (gc_heap gc) (reach (gc_heap gc) (root_edges roots))
    \<and> gc_ready roots (P \<inter> dom (cells heap')) heap' ms' \<and> \<not> ms_running heap'"
  using mark_and_sweep_spec [OF assms, of PF postpone] by blast


definition gc_example :: duk_heap where
  "gc_example = \<lparr>cells = [9 \<mapsto> cell 1 (plain_object [(Some 3, Prop_value (Tv_object 2))] None), 2 \<mapsto> cell 1 (plain_object [] (Some 4)),
     3 \<mapsto> cell 1 Hstring, 4 \<mapsto> cell 1 (plain_object [] None), 5 \<mapsto> cell 1 (plain_object [] (Some 6)),
     6 \<mapsto> cell 1 (plain_object [(Some 7, Prop_value (Tv_object 5))] None), 7 \<mapsto> cell 2 Hstring,
     8 \<mapsto> cell 0 (Hobject \<lparr>o_entries = [], o_array = [], o_prototype = None, o_have_finalizer = True, o_ext = Ext_fastrefs\<rparr>)],
     heap_allocated = [8, 6, 5, 4, 2, 9], finalize_list = [], refzero_list = [], strtable = [3, 7],
     strcache = [Some 7], ms_running = False, pf_prevent_count = 0, pf_skip_finalizers = False\<rparr>"

lemmas gc_example_defs = gc_example_def cell_def plain_object_def

definition gc_roots :: duk_roots where
  "gc_roots = \<lparr>heap_thread = None, heap_object = Some 9, heap_strs = [], lj_value1 = Tv_undefined, lj_value2 = Tv_unused\<rparr>"

definition gc_start :: gc_state where
  "gc_start = \<lparr>gc_heap = gc_example, gc_ms = \<lparr>ms_reachable = {}, ms_temproot = {}, ms_reclimit_reached = False\<rparr>,
     ms_prevent_count = 0, ms_trigger_counter = 0\<rparr>"

lemma gc_example_own: "own gc_example {} = {#(DUK_HTYPE_STRING, 3), (DUK_HTYPE_OBJECT, 2), (DUK_HTYPE_OBJECT, 4),
    (DUK_HTYPE_OBJECT, 6), (DUK_HTYPE_STRING, 7), (DUK_HTYPE_OBJECT, 5)#}"
  by (simp add: own_def gc_example_defs hdr_edges_def obj_edges_def)

lemma gc_example_ready: "gc_ready gc_roots {7} gc_example (gc_ms gc_start)"
proof -
  have r: "root_edges gc_roots = [(DUK_HTYPE_OBJECT, 9)]" by (simp add: root_edges_def gc_roots_def)
  have p: "pinned_edges {7} = {#(DUK_HTYPE_STRING, 7)#}" by (simp add: pinned_edges_def)
  have "heap_ok {#(DUK_HTYPE_OBJECT, 9), (DUK_HTYPE_STRING, 7)#} gc_example"
    unfolding heap_ok_def heap_inv_def heap_defs refs_to_def gc_example_own
    by (auto simp: gc_example_defs cells_of_def typed_edge_def split: if_splits)
  moreover have "room {#(DUK_HTYPE_OBJECT, 9), (DUK_HTYPE_STRING, 7)#} gc_example"
    unfolding room_def refs_to_def gc_example_own by simp
  moreover have "\<forall>a \<in> set (heap_allocated gc_example). \<not> waiting gc_example a" "is_string gc_example 7"
    by (simp_all add: waiting_def is_string_def gc_example_defs)
  ultimately show ?thesis unfolding gc_ready_def r p by (simp add: gc_start_def add_mset_commute)
qed

lemma gc_example_kids: "kids gc_example x = (if x = 9 then {3, 2} else if x = 2 then {4} else if x = 5 then {6}
    else if x = 6 then {7, 5} else {})"
  by (auto simp: kids_def gc_example_defs hdr_edges_def obj_edges_def)

lemma gc_example_reach:
  assumes "set es = insert (DUK_HTYPE_OBJECT, 9) (Pair DUK_HTYPE_OBJECT ` A)" "A \<subseteq> {8}"
  shows "reach gc_example es = {9, 2, 3, 4} \<union> A"
proof (rule subset_antisym)
  show "reach gc_example es \<subseteq> {9, 2, 3, 4} \<union> A"
    by (rule reach_least) (use assms in \<open>auto simp: gc_example_kids split: if_splits\<close>)
  have "snd e \<in> reach gc_example es" if "e \<in> insert (DUK_HTYPE_OBJECT, 9) (Pair DUK_HTYPE_OBJECT ` A)" for e
    using reach_roots [of e es gc_example] that assms(1) by blast
  then have "snd (DUK_HTYPE_OBJECT, x) \<in> reach gc_example es" if "x \<in> insert 9 A" for x using that by blast
  then have r: "9 \<in> reach gc_example es" "A \<subseteq> reach gc_example es" by auto
  then have "{3, 2} \<subseteq> reach gc_example es" using reach_kids [of 9 gc_example es] by (simp add: gc_example_kids)
  moreover from this have "{4} \<subseteq> reach gc_example es" using reach_kids [of 2 gc_example es] by (simp add: gc_example_kids)
  ultimately show "{9, 2, 3, 4} \<union> A \<subseteq> reach gc_example es" using r by blast
qed

lemma gc_example_finalizable: "finalizable gc_example {9, 2, 3, 4} = {8}"
proof -
  have "has_finalizer_fast n gc_example 8 = Some True" "has_finalizer_fast n gc_example 6 = Some False" for n
    by (subst has_finalizer_fast.simps; simp add: gc_example_defs)+
  moreover have "cells gc_example 5 = Some (cell 1 (plain_object [] (Some 6)))" by (simp add: gc_example_def)
  then have "has_finalizer_fast n gc_example 5 = Some False" for n
    using calculation(2) by (subst has_finalizer_fast.simps) (simp add: cell_def plain_object_def)
  ultimately have f: "has_finalizer_fast n gc_example a = Some (a = 8)" if "a \<in> {8, 6, 5}" for n a using that by auto
  have fin: "is_finalizable gc_example \<lparr>ms_reachable = {9, 2, 3, 4}, ms_temproot = {}, ms_reclimit_reached = False\<rparr> a
      = Some (a = 8)" if a: "a \<in> {8, 6, 5, 4, 2, 9}" for a
  proof -
    have "\<exists>hdr. cells gc_example a = Some hdr \<and> htype (h_body hdr) = DUK_HTYPE_OBJECT \<and> \<not> h_finalized hdr"
      using a by (auto simp: gc_example_defs)
    moreover have "a \<in> {8, 6, 5} \<or> a \<in> {9, 2, 3, 4} \<and> a \<noteq> 8" using a by auto
    ultimately show ?thesis by (auto simp: is_finalizable_def f)
  qed
  have al: "set (heap_allocated gc_example) = {8, 6, 5, 4, 2, 9}" by (simp add: gc_example_def)
  show ?thesis
  proof (rule set_eqI)
    fix a
    show "a \<in> finalizable gc_example {9, 2, 3, 4} \<longleftrightarrow> a \<in> {8}"
    proof (cases "a \<in> {8, 6, 5, 4, 2, 9}")
      case True
      then show ?thesis unfolding finalizable_def al mem_Collect_eq fin [OF True] by simp
    next
      case False
      then show ?thesis unfolding finalizable_def al mem_Collect_eq by blast
    qed
  qed
qed

text \<open>With a recursion limit of one, the cycle of 5 and 6 and the pinned string go, 8 waits for its finalizer.\<close>

theorem mark_and_sweep_collects_witness:
  "\<exists>gc'. duk_heap_mark_and_sweep 1 10 Some gc_roots False gc_start = Some gc'
    \<and> dom (cells (gc_heap gc')) = {9, 2, 3, 4, 8} \<and> set (finalize_list (gc_heap gc')) = {8}"
proof -
  have roots: "root_edges gc_roots = [(DUK_HTYPE_OBJECT, 9)]" by (simp add: root_edges_def gc_roots_def)
  have h: "gc_heap gc_start = gc_example" "finalize_list gc_example = []" "ms_prevent_count gc_start = 0"
    "dom (cells gc_example) = {9, 2, 3, 4, 5, 6, 7, 8}"
    by (auto simp: gc_start_def gc_example_defs)
  have q: "finalizable gc_example (reach gc_example (root_edges gc_roots)) = {8}"
    using gc_example_reach [of "root_edges gc_roots" "{}"] by (simp add: roots gc_example_finalizable)
  have "gc_ready gc_roots {7} (gc_heap gc_start) (gc_ms gc_start)" "card (dom (cells (gc_heap gc_start))) + 1 < 10"
    using gc_example_ready by (simp_all add: h)
  from mark_and_sweep_collects [OF this(1) h(3) _ this(2), of 1 Some False]
  obtain heap' ms' k where r: "duk_heap_mark_and_sweep 1 10 Some gc_roots False gc_start
      = Some \<lparr>gc_heap = heap', gc_ms = ms', ms_prevent_count = 0, ms_trigger_counter = k\<rparr>"
    "dom (cells heap') = reach gc_example (root_edges gc_roots @ obj_list (finalize_list heap'))"
    "set (finalize_list heap') = {8}"
    unfolding h q by auto
  have "dom (cells heap') = {9, 2, 3, 4, 8}"
    unfolding r(2) using gc_example_reach [of "root_edges gc_roots @ obj_list (finalize_list heap')" "{8}"] r(3)
    by (auto simp: roots obj_list_def)
  then show ?thesis using r(1,3) by simp
qed

text \<open>
  C6: A collection with finalizers always returns.  If the JavaScript finalizers return and only drop
  references, a mark-and-sweep and the run of all waiting finalizers after it end; then no object
  waits, the counts are exact, and no cell is left but those that the program or an object that waited
  for its finalizer could reach.
\<close>

theorem collection_completes:
  assumes "gc_ready roots P (gc_heap gc) (gc_ms gc)" "ms_prevent_count gc = 0"
    and "n > 0" "card (dom (cells (gc_heap gc))) + 1 < fuel"
    and "gentle_finalizer call" "pf_prevent_count (gc_heap gc) = 0"
    and "set (finalize_list (gc_heap gc)) \<subseteq> unfinalized (gc_heap gc)"
    and "card (dom (cells (gc_heap gc))) \<le> N" "card (dom (cells (gc_heap gc))) < m"
  shows "\<exists>gc' P'. duk_heap_mark_and_sweep n fuel (duk_heap_process_finalize_list call N m 2) roots postpone gc = Some gc'
    \<and> heap_ok (mset (root_edges roots) + pinned_edges P') (gc_heap gc') \<and> P' \<subseteq> P
    \<and> finalize_list (gc_heap gc') = [] \<and> ms_prevent_count gc' = 0 \<and> ms_reachable (gc_ms gc') = {}
    \<and> dom (cells (gc_heap gc')) \<subseteq> reach (gc_heap gc) (root_edges roots
        @ obj_list (finalize_list (gc_heap gc)) @ obj_list (filter
            (\<lambda>a. a \<in> finalizable (gc_heap gc) (reach (gc_heap gc) (root_edges roots))) (heap_allocated (gc_heap gc))))"
proof -
  let ?heap = "gc_heap gc" and ?PF = "duk_heap_process_finalize_list call N m 2"
  let ?all = "root_edges roots @ obj_list (finalize_list ?heap)
    @ obj_list (filter (\<lambda>a. a \<in> finalizable ?heap (reach ?heap (root_edges roots))) (heap_allocated ?heap))"
  obtain h1 ms' k where h1: "duk_heap_mark_and_sweep n fuel ?PF roots postpone gc
      = map_option (\<lambda>h. \<lparr>gc_heap = h, gc_ms = ms', ms_prevent_count = 0, ms_trigger_counter = k\<rparr>) (?PF h1)"
    "dom (cells h1) = reach ?heap (root_edges roots @ obj_list (finalize_list h1))"
    "set (finalize_list h1) = set (finalize_list ?heap) \<union> finalizable ?heap (reach ?heap (root_edges roots))"
    "gc_ready roots (P \<inter> dom (cells h1)) h1 ms'" "\<not> ms_running h1" "pf_prevent_count h1 = 0"
    "set (finalize_list h1) \<subseteq> unfinalized h1"
    using mark_and_sweep_spec [OF assms(1-4), of ?PF postpone] assms(6,7) by metis
  let ?ext = "mset (root_edges roots) + pinned_edges (P \<inter> dom (cells h1))"
  have ok: "heap_ok ?ext h1" "room ?ext h1" using h1(4) by (simp_all add: gc_ready_def)
  have ready: "heap_ok (mset (root_edges roots) + pinned_edges P) ?heap" using assms(1) by (simp add: gc_ready_def)
  note cells = heap_ok_cells [OF ready]
  have "closed ?heap (reach ?heap (root_edges roots @ obj_list (finalize_list h1)))"
  proof (rule reach_closed [OF _ cells(3)])
    fix e
    assume "e \<in> set (root_edges roots @ obj_list (finalize_list h1))"
    moreover have "set (finalize_list h1) \<subseteq> dom (cells ?heap)"
      using h1(3) cells(2) unfolding lists_cover_def finalizable_def by blast
    ultimately show "snd e \<in> dom (cells ?heap)" using cells(4) [of e] by (auto simp: obj_list_def)
  qed
  then have "dom (cells h1) \<subseteq> dom (cells ?heap)" unfolding h1(2) by (simp add: closed_def)
  then have c: "card (dom (cells h1)) \<le> card (dom (cells ?heap))" by (rule card_mono [OF cells(1)])
  obtain h2 where h2: "?PF h1 = Some h2" "heap_ok ?ext h2" "finalize_list h2 = []" "dom (cells h2) \<subseteq> dom (cells h1)"
    using process_completes [OF ok(1) h1(5,6) assms(5) h1(7) ok(2), of N m 0] c assms(8,9) by (auto simp: numeral_2_eq_2)
  have "set (root_edges roots @ obj_list (finalize_list h1)) \<subseteq> set ?all"
    unfolding obj_list_def set_append set_map h1(3) by (auto simp: finalizable_def)
  then have "dom (cells h2) \<subseteq> reach ?heap ?all" using h2(4) reach_mono unfolding h1(2) by blast
  moreover have "ms_reachable ms' = {}" using h1(4) by (simp add: gc_ready_def)
  ultimately show ?thesis using h1(1) h2(1-3) by auto
qed

theorem collection_completes_witness:
  "\<exists>gc'. duk_heap_mark_and_sweep 1 10 (duk_heap_process_finalize_list idle_finalizer 8 9 2) gc_roots False gc_start = Some gc'
    \<and> finalize_list (gc_heap gc') = []"
proof -
  have h: "gc_heap gc_start = gc_example" "finalize_list gc_example = []" "ms_prevent_count gc_start = 0"
    "pf_prevent_count gc_example = 0" "dom (cells gc_example) = {9, 2, 3, 4, 5, 6, 7, 8}"
    by (auto simp: gc_start_def gc_example_defs)
  have "gc_ready gc_roots {7} (gc_heap gc_start) (gc_ms gc_start)" "card (dom (cells (gc_heap gc_start))) + 1 < 10"
    "card (dom (cells (gc_heap gc_start))) \<le> 8" "card (dom (cells (gc_heap gc_start))) < 9"
    "set (finalize_list (gc_heap gc_start)) \<subseteq> unfinalized (gc_heap gc_start)" "pf_prevent_count (gc_heap gc_start) = 0"
    using gc_example_ready by (simp_all add: h)
  from collection_completes [OF this(1) h(3) _ this(2) idle_finalizer_gentle this(6,5,3,4), of 1 False]
  show ?thesis by auto
qed

end
