(* ===== verification/Shellarg.thy ===== *)
theory Shellarg
  imports Prelude "HOL-Library.Sublist"
begin

text \<open>
  Quoting of program arguments (\<open>child_process::escape\<close> of
  \<^verbatim>\<open>src/duktape/mod/mod.sys.exec.hh\<close>, script function \<open>sys.escapeshellarg\<close>), in its
  POSIX and its Windows variant, against the rules of the programs that read the result: the quoting
  rules of the POSIX shell (XCU 2.2) and the argument rules of the Microsoft C runtime.
\<close>

abbreviation backslash :: char where "backslash \<equiv> CHR 0x5C"
abbreviation squote :: char where "squote \<equiv> CHR 0x27"
abbreviation dquote :: char where "dquote \<equiv> CHR 0x22"

subsection \<open>The code\<close>

definition escape_posix :: "string \<Rightarrow> string" where
  "escape_posix arg =
    fold (\<lambda>e esc. (if e = backslash \<or> e = squote then esc @ [backslash] else esc) @ [e]) arg [squote] @ [squote]"

text \<open>\<open>nbacksl\<close> counts the backslashes since the last other character.\<close>

fun escape_win_loop :: "nat \<Rightarrow> string \<Rightarrow> string" where
  "escape_win_loop nbacksl [] = replicate (nbacksl * 2) backslash"
| "escape_win_loop nbacksl (c # arg) =
    (if c = backslash then escape_win_loop (nbacksl + 1) arg
     else if c = dquote then replicate (nbacksl * 2 + 1) backslash @ c # escape_win_loop 0 arg
     else replicate nbacksl backslash @ c # escape_win_loop 0 arg)"

definition escape_win :: "string \<Rightarrow> string" where
  "escape_win arg =
    (if arg = [] then [dquote, dquote]
     else if list_all (\<lambda>c. c \<notin> {CHR '' '', CHR 0x09, CHR 0x0A, CHR 0x0B, dquote}) arg then arg
     else [dquote] @ escape_win_loop 0 arg @ [dquote])"

text \<open>The command line after the program name, as \<open>run\<close> builds it on Windows.\<close>

definition win_arguments :: "bool \<Rightarrow> string list \<Rightarrow> string" where
  "win_arguments no_argument_escaping arguments =
    fold (\<lambda>e argv. argv @ '' '' @ (if no_argument_escaping then e else escape_win e)) arguments []"

subsection \<open>The readers\<close>

text \<open>
  A word of the POSIX shell up to the first unquoted character that ends it or starts another kind of
  quoting or expansion; \<open>None\<close> when a quote is not closed.
\<close>

definition sh_special :: "char \<Rightarrow> bool" where
  "sh_special c \<longleftrightarrow> c \<in> set ('' |&;<>()$`'' @ [dquote, CHR 0x09, CHR 0x0A])"

fun sh_word :: "bool \<Rightarrow> string \<Rightarrow> (string \<times> string) option" where
  "sh_word True [] = None"
| "sh_word True (c # cs) = (if c = squote then sh_word False cs else map_option (apfst (Cons c)) (sh_word True cs))"
| "sh_word False [] = Some ([], [])"
| "sh_word False (c # cs) =
    (if c = squote then sh_word True cs
     else if c = backslash then
       (case cs of
          [] \<Rightarrow> Some ([c], [])
        | d # ds \<Rightarrow> if d = CHR 0x0A then sh_word False ds else map_option (apfst (Cons d)) (sh_word False ds))
     else if sh_special c then Some ([], c # cs)
     else map_option (apfst (Cons c)) (sh_word False cs))"

text \<open>
  The Microsoft rules: \<open>2n\<close> backslashes before a quote are \<open>n\<close> backslashes and the quote
  opens or closes a quoted part, \<open>2n + 1\<close> are \<open>n\<close> backslashes and a literal quote, other
  backslashes are literal.
\<close>

fun win_arg :: "bool \<Rightarrow> nat \<Rightarrow> string \<Rightarrow> string \<times> string" where
  "win_arg quoted n [] = (replicate n backslash, [])"
| "win_arg quoted n (c # cs) =
    (if c = backslash then win_arg quoted (n + 1) cs
     else if c = dquote then
       (if even n then apfst (append (replicate (n div 2) backslash)) (win_arg (\<not> quoted) 0 cs)
        else apfst (append (replicate (n div 2) backslash @ [c])) (win_arg quoted 0 cs))
     else if \<not> quoted \<and> (c = CHR '' '' \<or> c = CHR 0x09) then (replicate n backslash, c # cs)
     else apfst (append (replicate n backslash @ [c])) (win_arg quoted 0 cs))"

lemma win_arg_length: "length (snd (win_arg quoted n cs)) \<le> length cs"
  by (induction quoted n cs rule: win_arg.induct) (auto simp: le_SucI)

lemma win_arg_advances:
  "c \<noteq> CHR '' '' \<Longrightarrow> c \<noteq> CHR 0x09 \<Longrightarrow> length (snd (win_arg False 0 (c # cs))) \<le> length cs"
  using win_arg_length [of False 1 cs] win_arg_length [of True 0 cs] win_arg_length [of False 0 cs] by auto

function win_args :: "string \<Rightarrow> string list" where
  "win_args [] = []"
| "win_args (c # cs) =
    (if c = CHR '' '' \<or> c = CHR 0x09 then win_args cs
     else (let (arg, rest) = win_arg False 0 (c # cs) in arg # win_args rest))"
  by pat_completeness auto
termination
proof (relation "measure length", goal_cases)
  case (3 c cs x arg rest)
  then have "rest = snd (win_arg False 0 (c # cs))" by (metis snd_conv)
  then show ?case using win_arg_advances [of c cs] 3(1) by simp
qed simp_all

declare win_args.simps(2) [simp del]

subsection \<open>The Windows variant\<close>

lemma fold_append: "fold (\<lambda>e acc. acc @ f e) xs acc = acc @ concat (map f xs)"
  by (induction xs arbitrary: acc) simp_all

lemma win_arg_backslashes: "win_arg quoted n (replicate k backslash @ cs) = win_arg quoted (n + k) cs"
  by (induction k arbitrary: n) simp_all

lemma apfst_append: "apfst (append xs) (apfst (append ys) p) = apfst (append (xs @ ys)) p"
  by (cases p) simp

lemma win_loop:
  "win_arg True 0 (escape_win_loop m arg @ dquote # rest)
    = apfst (append (replicate m backslash @ arg)) (win_arg False 0 rest)"
proof (induction m arg rule: escape_win_loop.induct)
  case (1 m)
  then show ?case by (simp add: win_arg_backslashes)
next
  case (2 m c arg)
  note ih = 2
  consider "c = backslash" | "c = dquote" | "c \<noteq> backslash" "c \<noteq> dquote" by blast
  then show ?case
  proof cases
    case 1
    then show ?thesis using ih(1) by (simp add: replicate_append_same)
  next
    case 2
    then show ?thesis using ih(2) by (simp add: win_arg_backslashes apfst_append)
  next
    case 3
    then show ?thesis using ih(3) by (simp add: win_arg_backslashes apfst_append)
  qed
qed

lemma win_plain:
  assumes "list_all (\<lambda>c. c \<notin> {CHR '' '', CHR 0x09, CHR 0x0A, CHR 0x0B, dquote}) arg"
    and "rest = [] \<or> (\<exists>r. rest = CHR '' '' # r)"
  shows "win_arg False n (arg @ rest) = (replicate n backslash @ arg, rest)"
  using assms(1)
proof (induction arg arbitrary: n)
  case Nil
  then show ?case using assms(2) by auto
next
  case (Cons c arg)
  then show ?case using Cons.IH [of "n + 1"] Cons.IH [of 0] by (auto simp: replicate_append_same [symmetric])
qed

lemma win_escaped:
  assumes "rest = [] \<or> (\<exists>r. rest = CHR '' '' # r)"
  shows "win_arg False 0 (escape_win arg @ rest) = (arg, rest)"
proof -
  have r: "win_arg False 0 rest = ([], rest)" using assms by auto
  show ?thesis using win_plain [OF _ assms, of arg 0] win_loop [of 0 arg rest] r by (auto simp: escape_win_def)
qed

lemma escape_win_head: "escape_win arg = c # cs \<Longrightarrow> c \<noteq> CHR '' '' \<and> c \<noteq> CHR 0x09" "escape_win arg \<noteq> []"
  by (cases arg; auto simp: escape_win_def split: if_splits)+

lemma win_args_join: "win_args (concat (map (\<lambda>e. CHR '' '' # escape_win e) args)) = args"
proof (induction args)
  case (Cons arg args)
  let ?rest = "concat (map (\<lambda>e. CHR '' '' # escape_win e) args)"
  have "?rest = [] \<or> (\<exists>r. ?rest = CHR '' '' # r)" by (cases args) simp_all
  then have w: "win_arg False 0 (escape_win arg @ ?rest) = (arg, ?rest)" by (rule win_escaped)
  obtain c cs where e: "escape_win arg = c # cs" using escape_win_head(2) by (cases "escape_win arg") auto
  have "win_args (escape_win arg @ ?rest) = arg # win_args ?rest"
    using escape_win_head(1) [OF e] w unfolding e by (simp add: win_args.simps(2))
  then show ?case using Cons by (simp add: win_args.simps(2))
qed simp

subsection \<open>The POSIX variant\<close>

abbreviation plain_char :: "char \<Rightarrow> bool" where
  "plain_char c \<equiv> c \<noteq> squote \<and> c \<noteq> backslash"

lemma escape_posix_eq:
  "escape_posix arg = [squote] @ concat (map (\<lambda>e. if plain_char e then [e] else [backslash, e]) arg) @ [squote]"
proof -
  have "(\<lambda>e esc. (if e = backslash \<or> e = squote then esc @ [backslash] else esc) @ [e])
    = (\<lambda>e esc. esc @ (if plain_char e then [e] else [backslash, e]))" by (auto simp: fun_eq_iff)
  then show ?thesis unfolding escape_posix_def by (simp only: fold_append append_assoc)
qed

lemma sh_quoted:
  "squote \<notin> set arg \<Longrightarrow> sh_word True (arg @ squote # rest) = map_option (apfst (append arg)) (sh_word False rest)"
  by (cases "sh_word False rest") (induction arg; force)+

lemma plain_quoted: "list_all plain_char arg \<Longrightarrow> concat (map (\<lambda>e. if plain_char e then [e] else [backslash, e]) arg) = arg"
  by (induction arg) auto

lemma escape_posix_plain:
  assumes "list_all plain_char arg"
  shows "sh_word False (escape_posix arg @ rest) = map_option (apfst (append arg)) (sh_word False rest)"
proof -
  have "squote \<notin> set arg" using assms by (auto simp: list_all_iff)
  then show ?thesis using sh_quoted by (simp add: escape_posix_eq plain_quoted [OF assms])
qed

lemma sh_prefix:
  assumes "squote \<notin> set xs" "sh_word True (xs @ rest) = Some (w, r)"
  shows "\<exists>w'. w = xs @ w'"
  using assms
proof (induction xs arbitrary: w)
  case (Cons c xs)
  then show ?case by (auto simp: apfst_def map_prod_def)
qed simp

lemma leading_run: "\<exists>k tl. c # post = replicate (Suc k) c @ tl \<and> (tl = [] \<or> hd tl \<noteq> c)"
proof (induction post)
  case Nil
  show ?case by (intro exI [of _ 0] exI [of _ "[]"]) simp
next
  case (Cons d post)
  show ?case
  proof (cases "d = c")
    case True
    obtain k tl where "c # post = replicate (Suc k) c @ tl" "tl = [] \<or> hd tl \<noteq> c" using Cons by blast
    then show ?thesis using True by (intro exI [of _ "Suc k"] exI [of _ tl]) simp
  next
    case False
    then show ?thesis by (intro exI [of _ 0] exI [of _ "d # post"]) simp
  qed
qed

lemma escape_posix_changes:
  assumes "\<not> list_all plain_char arg" "sh_word False (escape_posix arg) = Some (w, r)"
  shows "w \<noteq> arg"
proof
  assume w: "w = arg"
  let ?esc = "\<lambda>xs. concat (map (\<lambda>e. if plain_char e then [e] else [backslash, e]) xs)"
  obtain pre c post where arg: "arg = pre @ c # post" "list_all plain_char pre" "\<not> plain_char c"
    using assms(1) split_list_first_prop [of arg "\<lambda>c. \<not> plain_char c"] by (auto simp: list_all_iff)
  have pre: "squote \<notin> set pre" using arg(2) by (auto simp: list_all_iff)
  have word: "sh_word True (pre @ ?esc (c # post) @ [squote]) = Some (w, r)"
    using assms(2) by (simp add: escape_posix_eq arg(1) plain_quoted [OF arg(2)])
  show False
  proof (cases "c = squote")
    case True
    then have "sh_word True ((pre @ [backslash]) @ squote # ?esc post @ [squote]) = Some (w, r)" using word by simp
    moreover have "squote \<notin> set (pre @ [backslash])" using pre by simp
    ultimately obtain w' where "w = (pre @ [backslash]) @ w'" using sh_prefix by blast
    then show False using w arg(1) True by simp
  next
    case False
    then have c: "c = backslash" using arg(3) by blast
    obtain k tl where split: "c # post = replicate (Suc k) backslash @ tl" and tl: "tl = [] \<or> hd tl \<noteq> backslash"
      using leading_run [of c post] c by blast
    have run: "?esc (replicate j backslash) = replicate (2 * j) backslash" for j by (induction j) simp_all
    have "?esc (c # post) = replicate (2 * Suc k) backslash @ ?esc tl"
      unfolding split by (simp only: map_append concat_append run)
    then have "sh_word True ((pre @ replicate (2 * Suc k) backslash) @ ?esc tl @ [squote]) = Some (w, r)"
      using word by (simp only: append_assoc)
    moreover have "squote \<notin> set (pre @ replicate (2 * Suc k) backslash)" using pre by simp
    ultimately obtain w' where "w = (pre @ replicate (2 * Suc k) backslash) @ w'" using sh_prefix by blast
    then have "pre @ replicate (Suc k) backslash @ (replicate (Suc k) backslash @ w') = pre @ replicate (Suc k) backslash @ tl"
      using w arg(1) split by (simp only: append_assoc mult_2 replicate_add)
    then have "replicate (Suc k) backslash @ w' = tl" by (simp only: same_append_eq)
    then show False using tl by auto
  qed
qed

subsection \<open>Properties\<close>

text \<open>
  C12: Arguments on Windows.  The C runtime of the started program splits the command line that
  \<open>run\<close> builds into exactly the arguments of the script, for any characters in them.
\<close>

theorem windows_arguments_roundtrip: "win_args (win_arguments False arguments) = arguments"
proof -
  have "win_arguments False arguments = concat (map (\<lambda>e. CHR '' '' # escape_win e) arguments)"
    unfolding win_arguments_def by (simp add: fold_append)
  then show ?thesis using win_args_join by simp
qed

text \<open>
  C40: \<open>sys.escapeshellarg\<close> on POSIX systems.  The shell reads the quoted text back as the argument
  exactly when the argument holds no quote and no backslash: the code puts backslashes before both, but
  a shell takes no escapes within single quotes.  A quote in the argument even ends the quoting, so
  that the text after it is read as commands.
\<close>

theorem escapeshellarg_posix:
  "(sh_word False (escape_posix arg) = Some (arg, []) \<longleftrightarrow> list_all plain_char arg)
    \<and> (list_all plain_char cmd \<longrightarrow> sh_word False (escape_posix ([squote] @ '' ; '' @ cmd @ '' #''))
        = Some ([backslash], '' ; '' @ cmd @ '' #'' @ [squote]))"
proof (intro conjI impI)
  show "sh_word False (escape_posix arg) = Some (arg, []) \<longleftrightarrow> list_all plain_char arg"
    using escape_posix_plain [of arg "[]"] escape_posix_changes [of arg arg "[]"] by auto
  show "sh_word False (escape_posix ([squote] @ '' ; '' @ cmd @ '' #''))
    = Some ([backslash], '' ; '' @ cmd @ '' #'' @ [squote])" if "list_all plain_char cmd"
    using plain_quoted [OF that] by (simp add: escape_posix_eq sh_special_def)
qed

theorem escapeshellarg_posix_witness:
  "sh_word False (escape_posix ''a b'') = Some (''a b'', []) \<and>
   sh_word False (escape_posix ([squote] @ '' ; '' @ ''reboot'' @ '' #'')) = Some ([backslash], '' ; '' @ ''reboot'' @ '' #'' @ [squote])"
proof -
  have "list_all plain_char ''a b''" "list_all plain_char ''reboot''" by simp_all
  then show ?thesis using escapeshellarg_posix [of "''a b''" "''reboot''"] by blast
qed

end
