(* ===== verification/Sysexec.thy ===== *)
theory Sysexec
  imports Shellarg
begin

text \<open>
  Child processes (\<^verbatim>\<open>src/duktape/mod/mod.sys.exec.hh\<close>, POSIX branch): the environment
  handed to the child, the state machine of \<open>child_process::update\<close>, the loop of
  \<open>sys.exec\<close> and the line callbacks of its output.  What the operating system answers in one
  update is the record \<open>os_answers\<close>; what it documents of pipes and processes is the step relation
  \<open>exec_step\<close>.
\<close>

subsection \<open>The environment\<close>

text \<open>Pairs of names and values; \<open>None\<close> is the null pointer that ends the array.\<close>

fun env_pairs :: "string list \<Rightarrow> string list" where
  "env_pairs (k # v # environment) = (k @ ''='' @ v) # env_pairs environment"
| "env_pairs _ = []"

definition build_envv :: "bool \<Rightarrow> string list \<Rightarrow> string option list" where
  "build_envv dont_inherit environment =
    (if \<not> dont_inherit then map Some environment @ [None, None]
     else if environment \<noteq> [] then
       (let environment = (if odd (length environment) then environment @ [[]] else environment)
        in map Some (env_pairs environment) @ [None])
     else [None])"

text \<open>The \<open>setenv\<close> calls of the child.\<close>

function setenv_calls :: "string option list \<Rightarrow> nat \<Rightarrow> (string \<times> string) list" where
  "setenv_calls envv i =
    (if i < length envv - 2 then
       (case (envv ! i, envv ! (i + 1)) of
          (Some k, Some v) \<Rightarrow> (k, v) # setenv_calls envv (i + 2)
        | _ \<Rightarrow> [])
     else [])"
  by pat_completeness auto
termination by (relation "measure (\<lambda>(envv, i). length envv - i)") auto

declare setenv_calls.simps [simp del]

subsection \<open>Output callbacks\<close>

datatype cb_result = Cb_string string | Cb_bool bool | Cb_other

text \<open>The script's callback maps a line and its own state to a result and a new state.\<close>

type_synonym 's line_callback = "string \<Rightarrow> 's \<Rightarrow> cb_result \<times> 's"

abbreviation newline :: char where "newline \<equiv> CHR 0x0A"
abbreviation creturn :: char where "creturn \<equiv> CHR 0x0D"

primrec find_newline :: "string \<Rightarrow> nat option" where
  "find_newline [] = None"
| "find_newline (c # buf) = (if c = newline then Some 0 else map_option Suc (find_newline buf))"

definition strip_eol :: "string \<Rightarrow> string" where
  "strip_eol chunk = rev (dropWhile (\<lambda>c. c = newline \<or> c = creturn) (rev chunk))"

definition call_line :: "'s line_callback \<Rightarrow> string \<Rightarrow> string \<times> 's \<Rightarrow> string \<times> 's" where
  "call_line call chunk = (\<lambda>(out, s).
     let chunk = strip_eol chunk;
         (r, s) = call chunk s
     in (case r of
           Cb_string text \<Rightarrow> out @ text
         | Cb_bool b \<Rightarrow> if b then out @ chunk else out
         | Cb_other \<Rightarrow> out, s))"

text \<open>The loop over the lines of the buffer; \<open>len\<close> is the size of the data that came in.\<close>

function read_lines :: "'s line_callback \<Rightarrow> nat \<Rightarrow> string \<Rightarrow> string \<times> 's \<Rightarrow> string \<times> string \<times> 's" where
  "read_lines call len buf st =
    (let p = find_newline buf in
     if p = None \<and> len > 0 then (buf, st)
     else if p = None \<or> the p \<ge> length buf - 1 then ([], call_line call buf st)
     else
       (let chunk = take (the p + 1) buf;
            buf' = (if length chunk \<le> 1 then [] else drop (the p + 1) buf);
            st = call_line call chunk st
        in if buf' \<noteq> [] then read_lines call len buf' st else (buf', st)))"
  by pat_completeness auto
termination by (relation "measure (\<lambda>(call, len, buf, st). length buf)") (auto simp: Let_def split: if_splits)

declare read_lines.simps [simp del]

definition read_callback :: "'s line_callback \<Rightarrow> string \<Rightarrow> string \<times> string \<times> 's \<Rightarrow> string \<times> string \<times> 's" where
  "read_callback call data = (\<lambda>(buf, st). read_lines call (length data) (buf @ data) st)"

text \<open>\<open>sys.exec\<close> feeds the pieces it reads, and flushes the buffer at the end.\<close>

definition feed_callback :: "'s line_callback \<Rightarrow> string list \<Rightarrow> 's \<Rightarrow> string \<times> 's" where
  "feed_callback call pieces s =
    (let (buf, st) = fold (read_callback call) pieces ([], [], s)
     in if buf \<noteq> [] then snd (read_callback call [] (buf, st)) else st)"

subsection \<open>The process\<close>

record child_process =
  timeout_ms :: int
  was_timeout :: bool
  process_terminated :: bool
  raw_exit_code :: int
  no_pipe_auto_closing :: bool
  proc_pid :: bool
  proc_ifd :: bool
  proc_ofd :: bool
  proc_efd :: bool
  stdin_data :: string
  stdout_data :: string
  stderr_data :: string

datatype signal_name = SIGINT | SIGQUIT | SIGKILL

text \<open>
  Results of \<open>write\<close>, of a loop of \<open>read\<close>s (the data and how the loop ended), and of
  \<open>waitpid\<close>: \<open>Again\<close> stands for \<open>EAGAIN\<close> and \<open>EINTR\<close>.
\<close>

datatype write_result = Wrote nat | Write_again | Write_error
datatype read_end = Read_eof | Read_again | Read_error
datatype wait_result = Wait_running | Wait_exited int | Wait_no_child | Wait_error

record os_answers =
  dt :: int
  os_write :: write_result
  poll_failed :: bool
  out_revents :: bool
  err_revents :: bool
  out_read :: "string list \<times> read_end"
  err_read :: "string list \<times> read_end"
  os_wait :: wait_result

definition force_kill_after_additional_ms :: int where
  "force_kill_after_additional_ms = 2500"

definition update_timeout :: "os_answers \<Rightarrow> child_process \<Rightarrow> child_process \<times> signal_name list" where
  "update_timeout os p =
    (if timeout_ms p > 1 \<and> proc_pid p \<and> dt os > timeout_ms p then
       (if \<not> was_timeout p then (p\<lparr>was_timeout := True\<rparr>, [SIGINT, SIGQUIT])
        else if dt os > timeout_ms p + force_kill_after_additional_ms then (p, [SIGKILL])
        else (p, []))
     else (p, []))"

definition update_stdin :: "os_answers \<Rightarrow> child_process \<Rightarrow> child_process" where
  "update_stdin os p =
    (if proc_ifd p then
       (let len = length (stdin_data p);
            p = (if len = 0 then (if \<not> no_pipe_auto_closing p then p\<lparr>proc_ifd := False\<rparr> else p)
                 else (case os_write os of
                     Write_again \<Rightarrow> p
                   | Write_error \<Rightarrow> p\<lparr>stdin_data := []\<rparr>
                   | Wrote r \<Rightarrow> if r = 0 \<or> r = len then p\<lparr>stdin_data := []\<rparr>
                                else p\<lparr>stdin_data := drop r (stdin_data p)\<rparr>))
        in if stdin_data p = [] \<and> \<not> no_pipe_auto_closing p then p\<lparr>proc_ifd := False\<rparr> else p)
     else p)"

text \<open>One of the two output pipes: whether it stays open, and the data.\<close>

definition read_pipe :: "bool \<Rightarrow> bool \<Rightarrow> string list \<times> read_end \<Rightarrow> bool \<times> string \<Rightarrow> bool \<times> string" where
  "read_pipe revents failed reads = (\<lambda>(fd, data).
     if fd \<and> (revents \<or> failed) then (snd reads = Read_again, data @ concat (fst reads)) else (fd, data))"

definition update_output :: "os_answers \<Rightarrow> child_process \<Rightarrow> child_process" where
  "update_output os p =
    (let polled = \<not> process_terminated p;
         failed = (\<not> polled \<or> poll_failed os);
         (ofd, out) = read_pipe (polled \<and> \<not> failed \<and> out_revents os) failed (out_read os) (proc_ofd p, stdout_data p);
         (efd, err) = read_pipe (polled \<and> \<not> failed \<and> err_revents os) failed (err_read os) (proc_efd p, stderr_data p)
     in p\<lparr>proc_ofd := ofd, proc_efd := efd, stdout_data := out, stderr_data := err\<rparr>)"

definition update_wait :: "os_answers \<Rightarrow> child_process \<Rightarrow> child_process" where
  "update_wait os p =
    (if \<not> proc_pid p then p\<lparr>process_terminated := True\<rparr>
     else (case os_wait os of
         Wait_exited status \<Rightarrow> p\<lparr>raw_exit_code := status, proc_pid := False\<rparr>
       | Wait_no_child \<Rightarrow> p\<lparr>raw_exit_code := 0, proc_pid := False\<rparr>
       | _ \<Rightarrow> p))"

definition update :: "os_answers \<Rightarrow> child_process \<Rightarrow> child_process \<times> signal_name list" where
  "update os p = (let (p, signals) = update_timeout os p
     in (update_wait os (update_output os (update_stdin os p)), signals))"

definition running :: "child_process \<Rightarrow> bool" where
  "running p = (\<not> process_terminated p)"

definition exit_code :: "child_process \<Rightarrow> int" where
  "exit_code p = (if was_timeout p then - 1 else raw_exit_code p)"

subsection \<open>The operating system\<close>

text \<open>
  A run of \<open>sys.exec\<close>: the child, what it has written to its output pipes, what is still
  pending there, and what the loop has collected.
\<close>

record exec_state =
  proc :: child_process
  child_alive :: bool
  child_status :: int
  out_pending :: string
  err_pending :: string
  out_written :: string
  err_written :: string
  out_collected :: string
  err_collected :: string

text \<open>
  The answers for one pipe during an update in which the child writes \<open>extra\<close> and may exit: data
  is read in order; \<open>poll\<close> reports a pipe whose writer is gone, and there the reads yield all
  that is left and then the end of file; reads fail for no other reason than missing data.
\<close>

definition pipe_answers :: "bool \<Rightarrow> bool \<Rightarrow> bool \<Rightarrow> bool \<Rightarrow> bool \<Rightarrow> string list \<times> read_end \<Rightarrow>
    string \<Rightarrow> string \<Rightarrow> string \<Rightarrow> bool" where
  "pipe_answers fd alive alive' revents failed reads pending extra pending' \<longleftrightarrow>
     (alive \<or> extra = [])
   \<and> (fd \<and> \<not> alive \<and> \<not> failed \<longrightarrow> revents)
   \<and> (if fd \<and> (revents \<or> failed)
      then pending @ extra = concat (fst reads) @ pending' \<and> snd reads \<noteq> Read_error
        \<and> (snd reads = Read_eof \<longrightarrow> \<not> alive' \<and> pending' = []) \<and> (\<not> alive \<longrightarrow> snd reads = Read_eof)
      else pending' = pending @ extra)"

definition wait_answers :: "bool \<Rightarrow> bool \<Rightarrow> int \<Rightarrow> wait_result \<Rightarrow> bool" where
  "wait_answers alive alive' status r \<longleftrightarrow>
    (r = Wait_running \<and> alive \<or> r = Wait_exited status \<and> \<not> alive')"

definition collect :: "exec_state \<Rightarrow> exec_state" where
  "collect s = s\<lparr>out_collected := out_collected s @ stdout_data (proc s),
     err_collected := err_collected s @ stderr_data (proc s),
     proc := (proc s)\<lparr>stdout_data := [], stderr_data := []\<rparr>\<rparr>"

inductive exec_step :: "exec_state \<Rightarrow> exec_state \<Rightarrow> bool" where
  exec_update: "running (proc s) \<Longrightarrow> child_alive s \<or> \<not> alive' \<Longrightarrow>
    pipe_answers (proc_ofd (proc s)) (child_alive s) alive' (out_revents os \<and> \<not> poll_failed os) (poll_failed os) (out_read os)
      (out_pending s) out_extra out_pending' \<Longrightarrow>
    pipe_answers (proc_efd (proc s)) (child_alive s) alive' (err_revents os \<and> \<not> poll_failed os) (poll_failed os) (err_read os)
      (err_pending s) err_extra err_pending' \<Longrightarrow>
    (proc_pid (proc s) \<Longrightarrow> wait_answers (child_alive s) alive' (child_status s) (os_wait os)) \<Longrightarrow>
    exec_step s (collect (s\<lparr>proc := fst (update os (proc s)), child_alive := alive',
      out_pending := out_pending', err_pending := err_pending',
      out_written := out_written s @ out_extra, err_written := err_written s @ err_extra\<rparr>))"

inductive_cases exec_stepE: "exec_step s s'"

definition exec_start :: "exec_state \<Rightarrow> bool" where
  "exec_start s \<longleftrightarrow> child_alive s \<and> proc_pid (proc s) \<and> \<not> process_terminated (proc s) \<and> \<not> was_timeout (proc s)
   \<and> stdout_data (proc s) = [] \<and> stderr_data (proc s) = []
   \<and> out_pending s = [] \<and> out_written s = [] \<and> out_collected s = []
   \<and> err_pending s = [] \<and> err_written s = [] \<and> err_collected s = []"

subsection \<open>Nothing is lost\<close>

definition pipe_inv :: "bool \<Rightarrow> bool \<Rightarrow> string \<Rightarrow> string \<Rightarrow> string \<Rightarrow> bool" where
  "pipe_inv fd alive pending written collected \<longleftrightarrow>
     written = collected @ pending \<and> (\<not> fd \<longrightarrow> \<not> alive \<and> pending = [])"

lemma update_parts:
  "proc_pid (update_stdin os p) = proc_pid p" "process_terminated (update_stdin os p) = process_terminated p"
  "proc_ofd (update_stdin os p) = proc_ofd p" "proc_efd (update_stdin os p) = proc_efd p"
  "stdout_data (update_stdin os p) = stdout_data p" "stderr_data (update_stdin os p) = stderr_data p"
  "raw_exit_code (update_stdin os p) = raw_exit_code p" "was_timeout (update_stdin os p) = was_timeout p"
  "proc_pid (fst (update_timeout os p)) = proc_pid p" "process_terminated (fst (update_timeout os p)) = process_terminated p"
  "proc_ofd (fst (update_timeout os p)) = proc_ofd p" "proc_efd (fst (update_timeout os p)) = proc_efd p"
  "stdout_data (fst (update_timeout os p)) = stdout_data p" "stderr_data (fst (update_timeout os p)) = stderr_data p"
  "raw_exit_code (fst (update_timeout os p)) = raw_exit_code p"
  "proc_pid (update_output os p) = proc_pid p" "process_terminated (update_output os p) = process_terminated p"
  "raw_exit_code (update_output os p) = raw_exit_code p" "was_timeout (update_output os p) = was_timeout p"
  "proc_ofd (update_wait os p) = proc_ofd p" "proc_efd (update_wait os p) = proc_efd p"
  "stdout_data (update_wait os p) = stdout_data p" "stderr_data (update_wait os p) = stderr_data p"
  "was_timeout (update_wait os p) = was_timeout p"
  by (auto simp: update_stdin_def update_timeout_def update_output_def update_wait_def Let_def
      split: write_result.split wait_result.split prod.split)

lemma update_pipes:
  assumes "running p"
  shows "(proc_ofd (fst (update os p)), stdout_data (fst (update os p)))
      = read_pipe (out_revents os \<and> \<not> poll_failed os) (poll_failed os) (out_read os) (proc_ofd p, stdout_data p)"
    and "(proc_efd (fst (update os p)), stderr_data (fst (update os p)))
      = read_pipe (err_revents os \<and> \<not> poll_failed os) (poll_failed os) (err_read os) (proc_efd p, stderr_data p)"
  using assms
  by (simp_all add: update_def split_beta update_parts running_def)
    (simp_all add: update_output_def update_parts split_beta Let_def conj_commute)

lemma update_status:
  "proc_pid (fst (update os p)) \<longleftrightarrow> proc_pid p \<and> (os_wait os = Wait_running \<or> os_wait os = Wait_error)"
  "process_terminated (fst (update os p)) \<longleftrightarrow> process_terminated p \<or> \<not> proc_pid p"
  "proc_pid p \<Longrightarrow> os_wait os = Wait_exited status \<Longrightarrow> raw_exit_code (fst (update os p)) = status"
  "\<not> proc_pid p \<Longrightarrow> raw_exit_code (fst (update os p)) = raw_exit_code p"
  "was_timeout (fst (update os p)) \<longleftrightarrow> was_timeout p \<or> timeout_ms p > 1 \<and> proc_pid p \<and> dt os > timeout_ms p"
  by (simp_all add: update_def split_beta update_parts)
    (auto simp: update_wait_def update_parts update_timeout_def split: wait_result.split)

lemma pipe_step:
  assumes "pipe_inv fd alive pending written collected"
    and "pipe_answers fd alive alive' revents failed reads pending extra pending'" "alive \<or> \<not> alive'"
  shows "pipe_inv (fst (read_pipe revents failed reads (fd, []))) alive' pending' (written @ extra)
      (collected @ snd (read_pipe revents failed reads (fd, [])))"
    and "\<not> alive \<Longrightarrow> pending' = []"
proof -
  have "snd reads = Read_again \<or> snd reads = Read_eof \<or> snd reads = Read_error" by (cases "snd reads") simp_all
  then show "pipe_inv (fst (read_pipe revents failed reads (fd, []))) alive' pending' (written @ extra)
      (collected @ snd (read_pipe revents failed reads (fd, [])))"
    using assms unfolding pipe_inv_def pipe_answers_def read_pipe_def by (cases "fd \<and> (revents \<or> failed)") auto
  show "\<not> alive \<Longrightarrow> pending' = []"
    using assms(1,2) unfolding pipe_inv_def pipe_answers_def by (cases "fd \<and> (revents \<or> failed)") auto
qed

definition exec_inv :: "bool \<Rightarrow> bool \<Rightarrow> exec_state \<Rightarrow> bool" where
  "exec_inv out err s \<longleftrightarrow> stdout_data (proc s) = [] \<and> stderr_data (proc s) = []
   \<and> (out \<longrightarrow> pipe_inv (proc_ofd (proc s)) (child_alive s) (out_pending s) (out_written s) (out_collected s))
   \<and> (err \<longrightarrow> pipe_inv (proc_efd (proc s)) (child_alive s) (err_pending s) (err_written s) (err_collected s))
   \<and> (\<not> proc_pid (proc s) \<longrightarrow> \<not> child_alive s \<and> raw_exit_code (proc s) = child_status s)
   \<and> (process_terminated (proc s) \<longrightarrow> \<not> proc_pid (proc s)
      \<and> (out \<longrightarrow> out_pending s = []) \<and> (err \<longrightarrow> err_pending s = []))"

lemma exec_inv_step:
  assumes inv: "exec_inv out err s" and step: "exec_step s s'"
  shows "exec_inv out err s'"
  using step
proof cases
  case (exec_update alive' os oe op ee ep)
  let ?p = "proc s" and ?p' = "fst (update os (proc s))"
  have i: "stdout_data ?p = []" "stderr_data ?p = []"
    "out \<Longrightarrow> pipe_inv (proc_ofd ?p) (child_alive s) (out_pending s) (out_written s) (out_collected s)"
    "err \<Longrightarrow> pipe_inv (proc_efd ?p) (child_alive s) (err_pending s) (err_written s) (err_collected s)"
    "\<not> proc_pid ?p \<Longrightarrow> \<not> child_alive s \<and> raw_exit_code ?p = child_status s"
    using inv by (simp_all add: exec_inv_def)
  have rd: "proc_ofd ?p' = fst (read_pipe (out_revents os \<and> \<not> poll_failed os) (poll_failed os) (out_read os) (proc_ofd ?p, []))"
    "stdout_data ?p' = snd (read_pipe (out_revents os \<and> \<not> poll_failed os) (poll_failed os) (out_read os) (proc_ofd ?p, []))"
    "proc_efd ?p' = fst (read_pipe (err_revents os \<and> \<not> poll_failed os) (poll_failed os) (err_read os) (proc_efd ?p, []))"
    "stderr_data ?p' = snd (read_pipe (err_revents os \<and> \<not> poll_failed os) (poll_failed os) (err_read os) (proc_efd ?p, []))"
    using update_pipes [OF exec_update(2), of os, unfolded i, symmetric] by simp_all
  have o: "out \<Longrightarrow> pipe_inv (proc_ofd ?p') alive' op (out_written s @ oe) (out_collected s @ stdout_data ?p')"
    "out \<Longrightarrow> \<not> child_alive s \<Longrightarrow> op = []"
    unfolding rd using pipe_step [OF i(3) exec_update(4,3)] by blast+
  have e: "err \<Longrightarrow> pipe_inv (proc_efd ?p') alive' ep (err_written s @ ee) (err_collected s @ stderr_data ?p')"
    "err \<Longrightarrow> \<not> child_alive s \<Longrightarrow> ep = []"
    unfolding rd using pipe_step [OF i(4) exec_update(5,3)] by blast+
  have w: "\<not> proc_pid ?p' \<Longrightarrow> \<not> alive' \<and> raw_exit_code ?p' = child_status s"
  proof (cases "proc_pid ?p")
    case True
    assume "\<not> proc_pid ?p'"
    then show ?thesis using True exec_update(6) update_status(1,3) by (auto simp: wait_answers_def)
  next
    case False
    then show ?thesis using i(5) exec_update(3) update_status(4) by simp
  qed
  have t: "process_terminated ?p' \<Longrightarrow> \<not> proc_pid ?p' \<and> (out \<longrightarrow> op = []) \<and> (err \<longrightarrow> ep = [])"
    using exec_update(2) update_status(1,2) i(5) o(2) e(2) by (auto simp: running_def)
  show ?thesis unfolding exec_update(1) using o(1) e(1) w t by (simp add: exec_inv_def collect_def)
qed

lemma exec_inv_reachable:
  assumes "exec_step\<^sup>*\<^sup>* s s'" "exec_inv out err s"
  shows "exec_inv out err s'"
  using assms by (induction rule: rtranclp_induct) (auto intro: exec_inv_step)

lemma exec_start_inv: "exec_start s \<Longrightarrow> exec_inv (proc_ofd (proc s)) (proc_efd (proc s)) s"
  by (auto simp: exec_start_def exec_inv_def pipe_inv_def)

lemma exec_status: "exec_step\<^sup>*\<^sup>* s s' \<Longrightarrow> child_status s' = child_status s"
  by (induction rule: rtranclp_induct) (auto simp: collect_def elim!: exec_stepE)

lemma exec_dead:
  assumes "exec_step s s'" "\<not> child_alive s"
  shows "\<not> child_alive s'" "\<not> proc_pid (proc s')" "\<not> proc_pid (proc s) \<Longrightarrow> process_terminated (proc s')"
proof -
  from assms(1) have "\<not> child_alive s' \<and> \<not> proc_pid (proc s') \<and> (\<not> proc_pid (proc s) \<longrightarrow> process_terminated (proc s'))"
  proof cases
    case (exec_update alive' os oe op ee ep)
    then show ?thesis using assms(2) update_status(1,2) [of os "proc s"] by (auto simp: collect_def wait_answers_def)
  qed
  then show "\<not> child_alive s'" "\<not> proc_pid (proc s')" "\<not> proc_pid (proc s) \<Longrightarrow> process_terminated (proc s')" by blast+
qed

subsection \<open>Lines\<close>

text \<open>The complete lines of a text, and what follows the last newline; \<open>acc\<close> is an unfinished line.\<close>

fun complete_lines :: "string \<Rightarrow> string \<Rightarrow> string list" where
  "complete_lines acc [] = []"
| "complete_lines acc (c # cs) = (if c = newline then (acc @ [c]) # complete_lines [] cs else complete_lines (acc @ [c]) cs)"

fun last_line :: "string \<Rightarrow> string \<Rightarrow> string" where
  "last_line acc [] = acc"
| "last_line acc (c # cs) = (if c = newline then last_line [] cs else last_line (acc @ [c]) cs)"

definition text_lines :: "string \<Rightarrow> string list" where
  "text_lines txt = complete_lines [] txt @ (if last_line [] txt = [] then [] else [last_line [] txt])"

lemma complete_lines_append: "complete_lines acc (xs @ ys) = complete_lines acc xs @ complete_lines (last_line acc xs) ys"
  by (induction acc xs rule: complete_lines.induct) auto

lemma last_line_append: "last_line acc (xs @ ys) = last_line (last_line acc xs) ys"
  by (induction acc xs rule: last_line.induct) auto

lemma lines_plain: "newline \<notin> set xs \<Longrightarrow> complete_lines acc xs = [] \<and> last_line acc xs = acc @ xs"
  by (induction xs arbitrary: acc) auto

lemma last_line_plain: "newline \<notin> set acc \<Longrightarrow> newline \<notin> set (last_line acc xs)"
  by (induction acc xs rule: last_line.induct) auto

lemma find_newline_None: "find_newline buf = None \<longleftrightarrow> newline \<notin> set buf"
  by (induction buf) auto

lemma find_newline_Some:
  "find_newline buf = Some p \<Longrightarrow> newline \<notin> set (take p buf) \<and> buf = take p buf @ newline # drop (Suc p) buf \<and> p < length buf"
proof (induction buf arbitrary: p)
  case (Cons c buf)
  then show ?case by (cases p) (auto split: if_splits)
qed simp

text \<open>No line of the text but possibly the last one is empty.\<close>

definition no_empty_line :: "string \<Rightarrow> bool" where
  "no_empty_line txt \<longleftrightarrow> [newline] \<notin> set (complete_lines [] txt)"

definition call_lines :: "'s line_callback \<Rightarrow> string list \<Rightarrow> string \<times> 's \<Rightarrow> string \<times> 's" where
  "call_lines call ls st = fold (call_line call) ls st"

lemma read_lines_spec:
  assumes "no_empty_line buf" "0 < len"
  shows "read_lines call len buf st = (last_line [] buf, call_lines call (complete_lines [] buf) st)"
  using assms(1)
proof (induction "length buf" arbitrary: buf st rule: less_induct)
  case less
  show ?case
  proof (cases "find_newline buf")
    case None
    then have "newline \<notin> set buf" by (simp add: find_newline_None)
    then show ?thesis using None assms(2) lines_plain [of buf "[]"]
      by (simp add: read_lines.simps [of call len buf st] call_lines_def)
  next
    case (Some p)
    let ?line = "take (Suc p) buf" and ?rest = "drop (Suc p) buf"
    have p: "newline \<notin> set (take p buf)" "buf = take p buf @ newline # ?rest" "p < length buf"
      using find_newline_Some [OF Some] by simp_all
    have line: "?line = take p buf @ [newline]" using p(2,3) by (metis append_eq_conv_conj append.assoc append_Cons append_Nil length_append_singleton length_take min.absorb2 nat_less_le)
    have c: "complete_lines [] buf = ?line # complete_lines [] ?rest" "last_line [] buf = last_line [] ?rest"
      using lines_plain [OF p(1), of "[]"] unfolding line
      by (subst p(2), simp add: complete_lines_append last_line_append)+
    have "p \<noteq> 0"
      using less.prems p(2,3) line unfolding no_empty_line_def c(1) by auto
    show ?thesis
    proof (cases "length buf - 1 \<le> p")
      case True
      then have "?rest = []" "?line = buf" using p(3) by simp_all
      then show ?thesis using Some True c by (simp add: read_lines.simps [of call len buf st] call_lines_def)
    next
      case False
      then have r: "?rest \<noteq> []" "length ?rest < length buf" by simp_all
      have "no_empty_line ?rest" using less.prems unfolding no_empty_line_def c(1) by simp
      then have "read_lines call len ?rest (call_line call ?line st)
        = (last_line [] ?rest, call_lines call (complete_lines [] ?rest) (call_line call ?line st))"
        by (rule less.hyps [OF r(2)])
      moreover have "read_lines call len buf st = read_lines call len ?rest (call_line call ?line st)"
        using Some False \<open>p \<noteq> 0\<close> r(1) p(3) by (subst read_lines.simps) (simp add: Let_def)
      ultimately show ?thesis by (simp add: c call_lines_def)
    qed
  qed
qed

lemma no_empty_line_append:
  "no_empty_line (xs @ ys) \<Longrightarrow> no_empty_line xs \<and> no_empty_line (last_line [] xs @ ys)"
  using lines_plain [OF last_line_plain [of "[]" xs], of "[]"]
  by (simp add: no_empty_line_def complete_lines_append)

lemma feed_pieces:
  assumes "no_empty_line (concat pieces)" "list_all (\<lambda>piece. piece \<noteq> []) pieces"
  shows "fold (read_callback call) pieces ([], [], s)
    = (last_line [] (concat pieces), call_lines call (complete_lines [] (concat pieces)) ([], s))"
  using assms
proof (induction pieces rule: rev_induct)
  case Nil
  then show ?case by (simp add: call_lines_def)
next
  case (snoc piece pieces)
  let ?txt = "concat pieces"
  have n: "no_empty_line ?txt" "no_empty_line (last_line [] ?txt @ piece)" "piece \<noteq> []"
    using no_empty_line_append [of ?txt piece] snoc.prems by simp_all
  have l: "complete_lines [] (last_line [] ?txt @ piece) = complete_lines (last_line [] ?txt) piece"
    "last_line [] (last_line [] ?txt @ piece) = last_line (last_line [] ?txt) piece"
    using lines_plain [OF last_line_plain [of "[]" ?txt], of "[]"] by (simp_all add: complete_lines_append last_line_append)
  have "fold (read_callback call) pieces ([], [], s) = (last_line [] ?txt, call_lines call (complete_lines [] ?txt) ([], s))"
    using snoc n(1) by simp
  then have "fold (read_callback call) (pieces @ [piece]) ([], [], s)
    = read_lines call (length piece) (last_line [] ?txt @ piece) (call_lines call (complete_lines [] ?txt) ([], s))"
    by (simp add: read_callback_def)
  also have "\<dots> = (last_line [] (last_line [] ?txt @ piece),
      call_lines call (complete_lines [] (last_line [] ?txt @ piece)) (call_lines call (complete_lines [] ?txt) ([], s)))"
    using n(3) by (intro read_lines_spec [OF n(2)]) simp
  also have "\<dots> = (last_line [] (?txt @ piece), call_lines call (complete_lines [] (?txt @ piece)) ([], s))"
    unfolding l by (simp add: complete_lines_append last_line_append call_lines_def)
  finally show ?case by simp
qed

subsection \<open>Properties\<close>


definition sample_state :: exec_state where
  "sample_state = \<lparr>proc = \<lparr>timeout_ms = -1, was_timeout = False, process_terminated = False, raw_exit_code = -1,
     no_pipe_auto_closing = False, proc_pid = True, proc_ifd = False, proc_ofd = True, proc_efd = False,
     stdin_data = [], stdout_data = [], stderr_data = []\<rparr>, child_alive = True, child_status = 3,
     out_pending = [], err_pending = [], out_written = [], err_written = [], out_collected = [], err_collected = []\<rparr>"

definition sample_answers :: "bool \<Rightarrow> wait_result \<Rightarrow> os_answers" where
  "sample_answers ready r = \<lparr>dt = 10, os_write = Wrote 0, poll_failed = False, out_revents = ready, err_revents = False,
     out_read = ([''hi''], Read_eof), err_read = ([], Read_again), os_wait = r\<rparr>"


text \<open>
  C39: Line callbacks.  However the output of the child is cut into pieces, the callback of
  \<open>sys.exec\<close> gets its lines one by one and in order, the unfinished last one included, provided
  that no line is empty.  An empty line at the start of the buffer that more text follows is
  different: the code clears the buffer after it and the text is lost.
\<close>

theorem line_callbacks:
  "(no_empty_line (concat pieces) \<and> list_all (\<lambda>piece. piece \<noteq> []) pieces \<longrightarrow>
      feed_callback call pieces s = call_lines call (text_lines (concat pieces)) ([], s))
    \<and> (txt \<noteq> [] \<longrightarrow> feed_callback call [newline # txt] s = call_line call [newline] ([], s))"
proof (intro conjI impI)
  assume a: "no_empty_line (concat pieces) \<and> list_all (\<lambda>piece. piece \<noteq> []) pieces"
  let ?last = "last_line [] (concat pieces)"
  have f: "fold (read_callback call) pieces ([], [], s) = (?last, call_lines call (complete_lines [] (concat pieces)) ([], s))"
    using a by (intro feed_pieces) simp_all
  have "find_newline ?last = None" using last_line_plain [of "[]"] by (simp add: find_newline_None)
  then have "snd (read_callback call [] (?last, st)) = call_line call ?last st" for st
    by (simp add: read_callback_def read_lines.simps [of call 0])
  then show "feed_callback call pieces s = call_lines call (text_lines (concat pieces)) ([], s)"
    using f by (simp add: feed_callback_def text_lines_def call_lines_def)
next
  assume "txt \<noteq> []"
  then show "feed_callback call [newline # txt] s = call_line call [newline] ([], s)"
    by (simp add: feed_callback_def read_callback_def read_lines.simps [of call "Suc (length txt)"] Let_def)
qed

definition record_lines :: "string list line_callback" where
  "record_lines line log = (Cb_other, log @ [line])"

theorem line_callbacks_witness:
  "snd (feed_callback record_lines [''a'' @ [newline] @ ''b'', ''c'' @ [creturn, newline] @ ''d''] []) = [''a'', ''bc'', ''d'']
    \<and> snd (feed_callback record_lines [newline # ''lost'' @ [newline]] []) = [[]]"
proof -
  let ?pieces = "[''a'' @ [newline] @ ''b'', ''c'' @ [creturn, newline] @ ''d'']"
  have "no_empty_line (concat ?pieces)" "list_all (\<lambda>piece. piece \<noteq> []) ?pieces" by (simp_all add: no_empty_line_def)
  then have "feed_callback record_lines ?pieces [] = call_lines record_lines (text_lines (concat ?pieces)) ([], [])"
    using line_callbacks [of ?pieces record_lines "[]"] by blast
  moreover have "feed_callback record_lines [newline # ''lost'' @ [newline]] [] = call_line record_lines [newline] ([], [])"
    using line_callbacks [of ?pieces record_lines "[]" "''lost'' @ [newline]"] by simp
  ultimately show ?thesis
    by (simp add: call_lines_def text_lines_def call_line_def record_lines_def strip_eol_def)
qed

end
