(* ===== verification/Appattach.thy ===== *)
theory Appattach
  imports Prelude "HOL-Library.Sublist"
begin

unbundle bit_operations_syntax

text \<open>
  Data attached to the program file
  (\<^verbatim>\<open>src/duktape/mod/ext/app_attachment/app_attachment.hh\<close>): the patch tool replaces the
  boundary placeholder of a compiled program by a random key that also tells the file offset, appends
  the reversed key and then the data; the running program finds its own attachment with the help of
  its patched boundary marker, and writes copies of itself with another attachment.

  Files are lists of bytes.  The operating system enters with the own file of the program, and with
  its \<open>boundary_marker\<close>, which is the part of that file that the patch tool wrote.
\<close>

type_synonym bytes = "u8 list"

definition boundary_marker :: bytes where
  "boundary_marker = [0x41, 0x54, 0x54, 0x41, 0x43, 0x48, 0x4d, 0x45, 0x4e, 0x54, 0x5f, 0x42, 0x4f, 0x55, 0x4e, 0x44,
     0x41, 0x52, 0x59] @ replicate 237 0x5f"

subsection \<open>The data stream\<close>

text \<open>\<open>serialize\<close> and \<open>unserialize\<close>, with the index and the mask \<open>xo\<close> of their loop.\<close>

fun serialize_loop :: "bytes \<Rightarrow> nat \<Rightarrow> u8 \<Rightarrow> bytes \<Rightarrow> bytes" where
  "serialize_loop boundary_mark i xo [] = []"
| "serialize_loop boundary_mark i xo (d # in_data) =
    (let xo = push_bit 8 xo OR boundary_mark ! (i AND 255)
     in (d XOR xo) # serialize_loop boundary_mark (i + 1) xo in_data)"

definition serialize :: "bytes \<Rightarrow> bytes \<Rightarrow> bytes" where
  "serialize in_data boundary_mark = serialize_loop boundary_mark 0 0 in_data"

definition unserialize :: "bytes \<Rightarrow> bytes \<Rightarrow> bytes" where
  "unserialize boundary_mark in_data = serialize_loop boundary_mark 0 0 in_data"

subsection \<open>The patch tool\<close>

text \<open>\<open>std::search\<close> and \<open>std::to_string\<close>.\<close>

fun search :: "bytes \<Rightarrow> bytes \<Rightarrow> nat option" where
  "search [] key = (if key = [] then Some 0 else None)"
| "search (x # xs) key = (if prefix key (x # xs) then Some 0 else map_option Suc (search xs key))"

fun to_string :: "nat \<Rightarrow> bytes" where
  "to_string n = (if n < 10 then [of_nat (48 + n)] else to_string (n div 10) @ [of_nat (48 + n mod 10)])"

declare to_string.simps [simp del]

definition align_fill :: "bytes \<Rightarrow> bytes" where
  "align_fill contents = contents @ replicate ((4096 - length contents mod 4096) mod 4096) 0"

text \<open>The random characters of each try are the parameter \<open>db\<close>.\<close>

definition patch_key_try :: "bytes \<Rightarrow> bytes \<Rightarrow> bytes" where
  "patch_key_try contents rnd =
    (let ofs = [0x5b, 0x3c] @ to_string (length contents) @ [0x3e, 0x5d]
     in ofs @ drop (length ofs) (rev rnd))"

fun make_patch_key :: "(nat \<Rightarrow> bytes) \<Rightarrow> bytes \<Rightarrow> nat \<Rightarrow> bytes option" where
  "make_patch_key db contents 0 = None"
| "make_patch_key db contents (Suc retries) =
    (if retries = 0 then None
     else (let patch_key = patch_key_try contents (db retries)
           in if search contents patch_key = None \<and> rev patch_key \<noteq> patch_key then Some patch_key
              else make_patch_key db contents retries))"

definition patch_application :: "(nat \<Rightarrow> bytes) \<Rightarrow> bytes \<Rightarrow> bytes \<Rightarrow> bytes option" where
  "patch_application db contents attachment_contents =
    (let contents = align_fill contents in
     case search contents boundary_marker of
       None \<Rightarrow> None
     | Some pos \<Rightarrow> (case make_patch_key db contents 10 of
           None \<Rightarrow> None
         | Some patch_key \<Rightarrow>
             Some (take pos contents @ patch_key @ drop (pos + length patch_key) contents
               @ rev patch_key @ (if attachment_contents = [] then [] else serialize attachment_contents patch_key))))"

subsection \<open>The running program\<close>

definition isdigit :: "u8 \<Rightarrow> bool" where
  "isdigit c \<longleftrightarrow> 0x30 \<le> c \<and> c \<le> 0x39"

definition atol :: "bytes \<Rightarrow> nat" where
  "atol s = foldl (\<lambda>n c. n * 10 + unat (c - 0x30)) 0 s"

text \<open>The offset in the marker; \<open>None\<close> when the program was not patched.\<close>

definition marker_offset :: "bytes \<Rightarrow> nat option" where
  "marker_offset key =
    (if key ! 0 \<noteq> 0x5b \<or> key ! 1 \<noteq> 0x3c then None
     else (case dropWhile isdigit (drop 2 key) of
         c # d # _ \<Rightarrow> if c = 0x3e \<and> d = 0x5d then Some (atol (takeWhile isdigit (drop 2 key))) else None
       | _ \<Rightarrow> None))"

function read_rest :: "nat \<Rightarrow> bytes \<Rightarrow> bytes \<Rightarrow> bytes" where
  "read_rest max_size f dat =
    (let buf = take 4096 f in
     if buf = [] then dat
     else (let dat = dat @ buf in if length dat \<ge> max_size then dat else read_rest max_size (drop 4096 f) dat))"
  by pat_completeness auto
termination by (relation "measure (\<lambda>(_, f, _). length f)") (auto simp: Let_def)

declare read_rest.simps [simp del]

definition read_executable_attachment :: "bytes \<Rightarrow> bytes \<Rightarrow> nat \<Rightarrow> bytes \<times> nat" where
  "read_executable_attachment marker app max_size = (case marker_offset marker of
       None \<Rightarrow> ([], 0)
     | Some offset \<Rightarrow>
         (let f = drop offset app; buf = take 4096 f in
          if length buf < 256 \<or> take 256 buf \<noteq> rev marker then (unserialize marker [], 0)
          else (let dat = read_rest max_size (drop 4096 f) (drop 256 buf);
                    dat = (if length dat > max_size then take max_size dat else dat)
                in (unserialize marker dat, offset + 256))))"

text \<open>
  The default of \<open>max_size\<close> is \<open>size_t(-1)\<close>.  A write gives an error code, or the size of the new file
  as an \<open>int\<close>, and the new file; the streams accept what is written to them.
\<close>

definition write_executable_attachment :: "bytes \<Rightarrow> bytes \<Rightarrow> bool \<Rightarrow> bytes \<Rightarrow> int \<times> bytes option" where
  "write_executable_attachment marker app output_exists dat =
    (let exec_size = snd (read_executable_attachment marker app (2 ^ 64 - 1)) in
     if exec_size = 0 then (- 1, None)
     else if output_exists then (- 2, None)
     else (let os = take exec_size app @ serialize dat marker
           in (sint (of_nat (length os) :: 32 word), Some os)))"

subsection \<open>Lemmas\<close>

lemma serialize_loop_inverse: "serialize_loop key i xo (serialize_loop key i xo dat) = dat"
  by (induction key i xo dat rule: serialize_loop.induct) (simp_all add: Let_def xor.assoc)

lemma unserialize_serialize: "unserialize key (serialize dat key) = dat"
  by (simp add: unserialize_def serialize_def serialize_loop_inverse)

lemma length_serialize: "length (serialize dat key) = length dat"
proof -
  have "length (serialize_loop key i xo dat) = length dat" for i xo
    by (induction key i xo dat rule: serialize_loop.induct) (simp_all add: Let_def)
  then show ?thesis by (simp add: serialize_def)
qed

lemma search_Some:
  "search xs key = Some p \<Longrightarrow> prefix key (drop p xs) \<and> p \<le> length xs"
proof (induction xs key arbitrary: p rule: search.induct)
  case (2 x xs key)
  then show ?case by (cases p) (auto split: if_splits)
qed (auto split: if_splits)

lemma to_string_digits: "c \<in> set (to_string n) \<Longrightarrow> isdigit c"
proof (induction n rule: to_string.induct)
  case (1 n)
  have d: "isdigit (of_nat (48 + m))" if "m < 10" for m
  proof -
    have "m \<in> {0, 1, 2, 3, 4, 5, 6, 7, 8, 9}" using that by auto
    then show ?thesis by (auto simp: isdigit_def)
  qed
  show ?case using 1 d [of n] d [of "n mod 10"] by (subst (asm) to_string.simps) (auto split: if_splits)
qed

lemma atol_to_string: "atol (to_string n) = n"
proof (induction n rule: to_string.induct)
  case (1 n)
  have d: "unat (of_nat (48 + m) - 0x30 :: u8) = m" if "m < 10" for m
  proof -
    have "(of_nat (48 + m) - 0x30 :: u8) = of_nat m" by simp
    then show ?thesis using that by (simp add: unat_of_nat)
  qed
  show ?case
  proof (cases "n < 10")
    case True
    then show ?thesis using d [of n] by (subst to_string.simps) (simp add: atol_def)
  next
    case False
    then have "atol (to_string (n div 10)) = n div 10" by (rule 1)
    then show ?thesis using False d [of "n mod 10"] by (subst to_string.simps) (simp add: atol_def)
  qed
qed

lemma to_string_length: "n < 10 ^ k \<Longrightarrow> k > 0 \<Longrightarrow> length (to_string n) \<le> k"
proof (induction k arbitrary: n)
  case (Suc k)
  show ?case
  proof (cases "n < 10")
    case True
    then show ?thesis by (subst to_string.simps) simp
  next
    case False
    then have "k > 0" using Suc.prems by (cases k) simp_all
    moreover have "n div 10 < 10 ^ k" using Suc.prems(1) by (simp add: less_mult_imp_div_less)
    ultimately show ?thesis using Suc.IH [of "n div 10"] False by (subst to_string.simps) simp
  qed
qed simp

lemma align_fill_length: "length (align_fill contents) < length contents + 4096"
  by (simp add: align_fill_def)

lemma patch_key_offset:
  assumes "length contents < 2 ^ 64" "length rnd = 256"
  shows "length (patch_key_try contents rnd) = 256" "marker_offset (patch_key_try contents rnd) = Some (length contents)"
proof -
  let ?n = "to_string (length contents)"
  have "length ?n \<le> 20" using assms(1) by (intro to_string_length) simp_all
  then show "length (patch_key_try contents rnd) = 256" using assms(2) by (simp add: patch_key_try_def)
  obtain r where k: "patch_key_try contents rnd = 0x5b # 0x3c # ?n @ 0x3e # 0x5d # r"
    by (simp add: patch_key_try_def)
  have t: "takeWhile isdigit (?n @ 0x3e # 0x5d # r) = ?n" "dropWhile isdigit (?n @ 0x3e # 0x5d # r) = 0x3e # 0x5d # r"
    using to_string_digits by (auto simp: takeWhile_append2 dropWhile_append2 isdigit_def)
  show "marker_offset (patch_key_try contents rnd) = Some (length contents)"
    unfolding k marker_offset_def using t by (simp add: atol_to_string)
qed

lemma make_patch_key:
  "make_patch_key db contents n = Some key \<Longrightarrow> \<exists>r. key = patch_key_try contents (db r)"
  by (induction n) (auto simp: Let_def split: if_splits)

lemma read_rest_all: "length (dat @ f) \<le> max_size \<Longrightarrow> read_rest max_size f dat = dat @ f"
proof (induction max_size f dat rule: read_rest.induct)
  case (1 max_size f dat)
  show ?case
  proof (cases "take 4096 f = [] \<or> length (dat @ take 4096 f) \<ge> max_size")
    case True
    then show ?thesis using 1(2) by (subst read_rest.simps) (auto simp: Let_def)
  next
    case False
    then show ?thesis using 1 by (subst read_rest.simps) (simp add: Let_def)
  qed
qed

text \<open>Any file that has the reversed key at its offset, with serialized data behind it.\<close>

lemma read_attached:
  assumes "marker_offset key = Some (length exe)" "length key = 256" "length dat < 2 ^ 64"
  shows "read_executable_attachment key (exe @ rev key @ serialize dat key) (2 ^ 64 - 1) = (dat, length exe + 256)"
proof -
  let ?s = "serialize dat key"
  have "take 256 (take 4096 (rev key @ ?s)) = rev key" "drop 256 (take 4096 (rev key @ ?s)) = take 3840 ?s"
    "drop 4096 (rev key @ ?s) = drop 3840 ?s"
    using assms(2) by (simp_all add: take_take drop_take)
  moreover have "read_rest (2 ^ 64 - 1) (drop 3840 ?s) (take 3840 ?s) = ?s"
    using assms(3) by (subst read_rest_all) (simp_all add: length_serialize)
  ultimately show ?thesis
    using assms by (simp add: read_executable_attachment_def length_serialize unserialize_serialize Let_def)
qed

lemma marker_unpatched: "marker_offset boundary_marker = None"
  by (simp add: marker_offset_def boundary_marker_def)

subsection \<open>Properties\<close>

text \<open>
  C8: Attachments round trip.  When the patch tool succeeds, the program whose boundary marker is the
  patched place of its own file reads exactly the data that was attached; a copy that it writes with
  other data carries the same marker and reads that data, and so on.  A program that was not patched
  reads nothing and refuses to write a copy.
\<close>

theorem attachment_roundtrip:
  assumes "patch_application db contents att = Some app" "\<And>r. length (db r) = 256"
    and "length contents < 2 ^ 63" "length att < 2 ^ 63"
  shows "(\<exists>key pos n. search (align_fill contents) boundary_marker = Some pos \<and> take 256 (drop pos app) = key
      \<and> read_executable_attachment key app (2 ^ 64 - 1) = (att, n)
      \<and> (\<forall>dat. length dat < 2 ^ 63 \<longrightarrow> (\<exists>app'. write_executable_attachment key app False dat = (sint (of_nat (length app') :: 32 word), Some app')
          \<and> take 256 (drop pos app') = key \<and> read_executable_attachment key app' (2 ^ 64 - 1) = (dat, n))))
    \<and> read_executable_attachment boundary_marker contents k = ([], 0)
    \<and> write_executable_attachment boundary_marker contents e att = (- 1, None)"
proof -
  let ?c = "align_fill contents"
  obtain pos key where p: "search ?c boundary_marker = Some pos" "make_patch_key db ?c 10 = Some key"
    "app = take pos ?c @ key @ drop (pos + length key) ?c @ rev key @ serialize att key"
    using assms(1) by (auto simp: patch_application_def Let_def serialize_def split: option.splits if_splits)
  obtain r where r: "key = patch_key_try ?c (db r)" using make_patch_key [OF p(2)] by blast
  have "length ?c < 2 ^ 64" using align_fill_length [of contents] assms(3) by simp
  then have k: "length key = 256" "marker_offset key = Some (length ?c)"
    using patch_key_offset [of ?c "db r"] assms(2) by (simp_all add: r)
  have "prefix boundary_marker (drop pos ?c)" "pos \<le> length ?c" using search_Some [OF p(1)] by simp_all
  then have room: "pos + 256 \<le> length ?c" using prefix_length_le by (fastforce simp: boundary_marker_def)
  define exe where "exe = take pos ?c @ key @ drop (pos + 256) ?c"
  have exe: "length exe = length ?c" "take 256 (drop pos (exe @ xs)) = key" for xs
    unfolding exe_def using room k(1) by (simp_all add: min_def)
  have read: "read_executable_attachment key (exe @ rev key @ serialize dat key) (2 ^ 64 - 1) = (dat, length ?c + 256)"
    if "length dat < 2 ^ 63" for dat
    using read_attached [of key exe dat] k that by (simp add: exe(1))
  have app: "app = exe @ rev key @ serialize att key" using p(3) k(1) by (simp add: exe_def)
  have len: "take (length ?c + 256) app = exe @ rev key"
    unfolding app using exe(1) k(1) by simp
  have wr: "write_executable_attachment key app False dat = (sint (of_nat (length (exe @ rev key @ serialize dat key)) :: 32 word),
      Some (exe @ rev key @ serialize dat key))" for dat
    unfolding write_executable_attachment_def using read [OF assms(4), folded app] len by (simp add: Let_def)
  have "\<exists>app'. write_executable_attachment key app False dat = (sint (of_nat (length app') :: 32 word), Some app') \<and> take 256 (drop pos app') = key
      \<and> read_executable_attachment key app' (2 ^ 64 - 1) = (dat, length ?c + 256)" if "length dat < 2 ^ 63" for dat
    using wr [of dat] exe(2) read [OF that] by blast
  moreover have "take 256 (drop pos app) = key" unfolding app by (rule exe(2))
  moreover have "read_executable_attachment key app (2 ^ 64 - 1) = (att, length ?c + 256)"
    unfolding app by (rule read [OF assms(4)])
  moreover have "read_executable_attachment boundary_marker contents m = ([], 0)" for m
    by (simp add: read_executable_attachment_def marker_unpatched)
  moreover from this have "write_executable_attachment boundary_marker contents e att = (- 1, None)"
    by (simp add: write_executable_attachment_def)
  ultimately show ?thesis using p(1) by blast
qed

lemma search_absent: "key \<noteq> [] \<Longrightarrow> hd key \<notin> set xs \<Longrightarrow> search xs key = None"
  by (induction xs) (auto simp: prefix_Cons)

theorem attachment_roundtrip_witness:
  "\<exists>app key n. patch_application (\<lambda>_. replicate 256 0x21) boundary_marker [1, 2, 3] = Some app
    \<and> read_executable_attachment key app (2 ^ 64 - 1) = ([1, 2, 3], n)"
proof -
  let ?db = "\<lambda>_ :: nat. replicate 256 (0x21 :: u8)" and ?c = "align_fill boundary_marker"
  have c: "?c = boundary_marker @ replicate 3840 0" by (simp add: align_fill_def boundary_marker_def)
  have "set ?c = {0x41, 0x54, 0x43, 0x48, 0x4d, 0x45, 0x4e, 0x5f, 0x42, 0x4f, 0x55, 0x44, 0x52, 0x59, 0}"
    unfolding c by (auto simp: boundary_marker_def)
  moreover define K where "K = patch_key_try ?c (?db 9)"
  have k: "hd K = 0x5b" "K \<noteq> []" unfolding K_def by (simp_all add: patch_key_try_def)
  ultimately have s: "search ?c K = None" by (intro search_absent) simp_all
  have l: "length ?c = 4096" unfolding c by (simp add: boundary_marker_def)
  then have "length (to_string (length ?c)) \<le> 4" using to_string_length [of 4096 4] by simp
  then have "hd (rev K) = 0x21" unfolding K_def by (simp add: patch_key_try_def hd_rev)
  then have "rev K \<noteq> K" using k(1) by auto
  then have "make_patch_key ?db ?c (Suc 9) = Some K"
    using s by (subst make_patch_key.simps(2)) (simp add: K_def [symmetric])
  then have "make_patch_key ?db ?c 10 = Some K" by simp
  moreover have "search ?c boundary_marker = Some 0" unfolding c by (simp add: boundary_marker_def)
  ultimately obtain app where "patch_application ?db boundary_marker [1, 2, 3] = Some app"
    by (simp add: patch_application_def Let_def)
  moreover have "length boundary_marker < 2 ^ 63" by (simp add: boundary_marker_def)
  ultimately have "\<exists>key n. read_executable_attachment key app (2 ^ 64 - 1) = ([1, 2, 3], n)"
    using attachment_roundtrip [of ?db boundary_marker "[1, 2, 3]" app] by simp blast
  then show ?thesis using \<open>patch_application ?db boundary_marker [1, 2, 3] = Some app\<close> by blast
qed

end
