(* ===== verification/Strcompare.thy ===== *)
theory Strcompare
  imports Unicode
begin

text \<open>
  Comparison of strings (\<^verbatim>\<open>duk_js_ops.c\<close> part of \<^verbatim>\<open>duktape.c\<close>): strings are compared as the bytes of
  their extended UTF-8 form, and the comment in the source says why that is the comparison of the
  code points.
\<close>

subsection \<open>The code\<close>

text \<open>The sign of \<open>memcmp\<close> on two blocks of the same length.\<close>

fun memcmp :: "u8 list \<Rightarrow> u8 list \<Rightarrow> int" where
  "memcmp (x # xs) (y # ys) = (if x < y then - 1 else if y < x then 1 else memcmp xs ys)"
| "memcmp _ _ = 0"

definition duk_js_data_compare :: "u8 list \<Rightarrow> u8 list \<Rightarrow> int" where
  "duk_js_data_compare buf1 buf2 =
    (let prefix_len = (if length buf1 \<le> length buf2 then length buf1 else length buf2);
         rc = memcmp (take prefix_len buf1) (take prefix_len buf2)
     in if rc < 0 then - 1 else if rc > 0 then 1
        else if length buf1 < length buf2 then - 1
        else if length buf1 > length buf2 then 1
        else 0)"

definition duk_js_string_compare :: "u8 list \<Rightarrow> u8 list \<Rightarrow> int" where
  "duk_js_string_compare h1 h2 = duk_js_data_compare h1 h2"

subsection \<open>Byte order\<close>

lemma memcmp_take:
  "memcmp (take (min (length xs) (length ys)) xs) (take (min (length xs) (length ys)) ys) = memcmp xs ys"
  by (induction xs ys rule: memcmp.induct) auto

lemma data_compare_rec:
  "duk_js_data_compare (x # xs) (y # ys) = (if x < y then - 1 else if y < x then 1 else duk_js_data_compare xs ys)"
  "duk_js_data_compare [] (y # ys) = - 1" "duk_js_data_compare (x # xs) [] = 1" "duk_js_data_compare [] [] = 0"
  by (auto simp: duk_js_data_compare_def Let_def)

lemma data_compare_lexord: "duk_js_data_compare xs ys \<ge> 0 \<longleftrightarrow> lexordp_eq ys xs"
proof (induction xs arbitrary: ys)
  case Nil
  then show ?case by (cases ys) (simp_all add: data_compare_rec)
next
  case (Cons x xs)
  then show ?case by (cases ys) (auto simp: data_compare_rec)
qed

subsection \<open>Code point order\<close>

text \<open>Two byte sequences that differ at a place, where the first has the smaller byte.\<close>

definition splits_below :: "u8 list \<Rightarrow> u8 list \<Rightarrow> bool" where
  "splits_below a b \<longleftrightarrow> (\<exists>p x y r s. a = p @ x # r \<and> b = p @ y # s \<and> x < y)"

lemma splits_below_append: "splits_below a b \<Longrightarrow> splits_below (a @ u) (b @ v)"
  by (fastforce simp: splits_below_def)

lemma splits_below_last: "x < y \<Longrightarrow> splits_below (p @ [x]) (p @ [y])"
  by (fastforce simp: splits_below_def)

lemma splits_below_compare:
  assumes "splits_below a b"
  shows "duk_js_data_compare a b = - 1" "duk_js_data_compare b a = 1"
proof -
  have "duk_js_data_compare (p @ x # r) (p @ y # s) = - 1 \<and> duk_js_data_compare (p @ y # s) (p @ x # r) = 1"
    if "x < y" for p x y r s
    using that by (induction p) (auto simp: data_compare_rec)
  then show "duk_js_data_compare a b = - 1" "duk_js_data_compare b a = 1"
    using assms by (auto simp: splits_below_def)
qed

lemma data_compare_common: "duk_js_data_compare (p @ a) (p @ b) = duk_js_data_compare a b"
  by (induction p) (simp_all add: data_compare_rec)

text \<open>Encodings of the same length.\<close>

lemma fill_splits:
  "unat x < unat y \<Longrightarrow> unat y div 64 ^ n + unat m < 256 \<Longrightarrow>
    splits_below (xutf8_fill n x m []) (xutf8_fill n y m [])"
proof (induction n arbitrary: x y)
  case 0
  then have "unat (m + ucast x) < unat (m + ucast y)"
    using first_byte [of x 0 m] first_byte [of y 0 m] by simp
  then have "m + ucast x < m + ucast y" by (simp add: word_less_nat_alt)
  then show ?case using splits_below_last [of "m + ucast x" "m + ucast y" "[]"] by simp
next
  case (Suc n)
  have d: "unat (drop_bit 6 z) = unat z div 64" for z :: u32
    by (simp add: word_nat)
  show ?case
  proof (cases "unat x div 64 < unat y div 64")
    case True
    moreover have "unat (drop_bit 6 y) div 64 ^ n + unat m < 256"
      using Suc.prems(2) by (simp add: d div_mult2_eq [symmetric])
    ultimately show ?thesis
      unfolding xutf8_fill_Suc using Suc.IH [of "drop_bit 6 x" "drop_bit 6 y"] by (intro splits_below_append) (simp add: d)
  next
    case False
    then have eq: "unat x div 64 = unat y div 64"
      using div_le_mono [of "unat x" "unat y" 64] Suc.prems(1) by linarith
    then have "drop_bit 6 x = drop_bit 6 y" by (simp add: word_unat_eq_iff d)
    moreover have "unat x mod 64 < unat y mod 64"
      using eq Suc.prems(1) div_mult_mod_eq [of "unat x" 64] div_mult_mod_eq [of "unat y" 64] by linarith
    moreover have u: "unat (ucast (0x80 + (z AND 0x3f)) :: u8) = 128 + unat z mod 64" for z :: u32
    proof -
      have "128 + unat z mod 64 < 256" using mod_less_divisor [of 64 "unat z"] by linarith
      then show ?thesis by (simp add: word_nat)
    qed
    ultimately have "(ucast (0x80 + (x AND 0x3f)) :: u8) < ucast (0x80 + (y AND 0x3f))"
      by (simp only: word_less_nat_alt)
    then show ?thesis
      unfolding xutf8_fill_Suc \<open>drop_bit 6 x = drop_bit 6 y\<close> by (rule splits_below_last)
  qed
qed

lemma xutf8_bytes_fill:
  assumes "n = duk_unicode_get_xutf8_length x - 1"
  shows "xutf8_bytes x = xutf8_fill n x (duk_unicode_xutf8_markers ! n) []"
  by (simp add: xutf8_bytes_def duk_unicode_encode_xutf8_def Let_def assms)

lemma xutf8_bytes_nonempty: "xutf8_bytes x \<noteq> []"
  by (metis xutf8_bytes_fill length_xutf8_fill length_0_conv add_is_0 nat.distinct(1))

lemma xutf8_bytes_order:
  assumes "x < y"
  shows "splits_below (xutf8_bytes x) (xutf8_bytes y)"
proof -
  define i where "i = duk_unicode_get_xutf8_length x - 1"
  define j where "j = duk_unicode_get_xutf8_length y - 1"
  define mi where "mi = duk_unicode_xutf8_markers ! i"
  define mj where "mj = duk_unicode_xutf8_markers ! j"
  have xy: "unat x < unat y" using assms by (simp add: word_less_nat_alt)
  have cls: "xutf8_class i (unat mi) (unat x div 64 ^ i)" "xutf8_class j (unat mj) (unat y div 64 ^ j)"
    using xutf8_class_of [of x] xutf8_class_of [of y] by (simp_all only: i_def j_def mi_def mj_def)
  have fb: "unat y div 64 ^ j + unat mj < 256" "unat x div 64 ^ i + unat mi < 256"
    using cls by (auto simp: xutf8_class_def)
  have e: "xutf8_bytes x = xutf8_fill i x mi []" "xutf8_bytes y = xutf8_fill j y mj []"
    unfolding mi_def mj_def by (rule xutf8_bytes_fill, simp add: i_def j_def)+
  have "i \<le> j" unfolding i_def j_def duk_unicode_get_xutf8_length_def using assms by auto
  then consider "i = j" | "i < j" by linarith
  then show ?thesis
  proof cases
    case 1
    then have "mi = mj" by (simp add: mi_def mj_def)
    then show ?thesis using fill_splits [OF xy, of j mj] fb(1) 1 by (simp add: e)
  next
    case 2
    have "xutf8_bytes x ! 0 < xutf8_bytes y ! 0"
      unfolding e hd_xutf8_fill word_less_nat_alt
      using first_byte [of x i mi] first_byte [of y j mj] fb cls 2 by (auto simp: xutf8_class_def add.commute)
    then show ?thesis
      by (cases "xutf8_bytes x"; cases "xutf8_bytes y")
        (simp_all add: xutf8_bytes_nonempty splits_below_def, metis append_Nil)
  qed
qed

text \<open>
  C18: String order.  The comparison of two strings by their bytes is the comparison of their code
  points, one by one, the shorter of two strings with the same start being the smaller one.
\<close>

theorem string_compare_code_points:
  "duk_js_string_compare (concat (map xutf8_bytes xs)) (concat (map xutf8_bytes ys))
    = (if ord_class.lexordp xs ys then - 1 else if ord_class.lexordp ys xs then 1 else 0)
   \<and> (xs = ys \<or> ord_class.lexordp xs ys \<or> ord_class.lexordp ys xs)"
proof -
  have "duk_js_data_compare (concat (map xutf8_bytes xs)) (concat (map xutf8_bytes ys))
    = (if ord_class.lexordp xs ys then - 1 else if ord_class.lexordp ys xs then 1 else 0)"
  proof (induction xs arbitrary: ys)
    case Nil
    show ?case
    proof (cases ys)
      case (Cons y ys')
      then show ?thesis using xutf8_bytes_nonempty [of y] by (cases "xutf8_bytes y") (simp_all add: data_compare_rec)
    qed (simp add: data_compare_rec)
  next
    case (Cons x xs)
    show ?case
    proof (cases ys)
      case Nil
      then show ?thesis using xutf8_bytes_nonempty [of x] by (cases "xutf8_bytes x") (simp_all add: data_compare_rec)
    next
      case y: (Cons y ys')
      consider "x < y" | "x = y" | "y < x" by force
      then show ?thesis
      proof cases
        case 2
        then show ?thesis using Cons.IH [of ys'] by (simp add: y data_compare_common)
      qed (simp_all add: y splits_below_compare splits_below_append xutf8_bytes_order)
    qed
  qed
  then show ?thesis unfolding duk_js_string_compare_def using lexordp_linear [of xs ys] by auto
qed

end
