(* ===== verification/Arraysort.thy ===== *)
theory Arraysort
  imports Strcompare "HOL-Library.Multiset"
begin

text \<open>
  \<open>Array.prototype.sort\<close> (\<^verbatim>\<open>duk_bi_array.c\<close> part of \<^verbatim>\<open>duktape.c\<close>): a quicksort with a random pivot that
  works on the properties of the object, calls the comparison function of the script and treats
  undefined values and missing elements itself.

  The sorted object is the map of its array-index properties, all of them plain writable properties.
  The comparison function and the string coercion of the script are parameters that may throw.  The
  pivots come from the random generator of the engine, a parameter as well: \<open>random n k\<close> is the
  product of its n-th number and k, truncated.  Indices stay below 2^31, so that the \<open>duk_int_t\<close>
  arithmetic of the source is that of the integers.
\<close>

subsection \<open>Data\<close>

datatype 'v val = Undefined | Defined 'v

type_synonym 'v object = "int \<rightharpoonup> 'v val"

text \<open>A number as far as its comparison with zero tells.\<close>

datatype duk_double_t = Below_zero | Above_zero | Zero_or_NaN

record ('v, 'e) sort_call =
  compareFn :: "('v \<Rightarrow> 'v \<Rightarrow> 'e + duk_double_t) option"
  to_hstring :: "'v \<Rightarrow> 'e + u8 list"
  random :: "nat \<Rightarrow> int \<Rightarrow> int"

record 'v sort_state =
  obj :: "'v object"
  draws :: nat

subsection \<open>Quicksort\<close>

definition sort_number :: "duk_double_t \<Rightarrow> int" where
  "sort_number d = (case d of Below_zero \<Rightarrow> - 1 | Above_zero \<Rightarrow> 1 | Zero_or_NaN \<Rightarrow> 0)"

definition compare_values :: "('v, 'e) sort_call \<Rightarrow> 'v \<Rightarrow> 'v \<Rightarrow> 'e + int" where
  "compare_values E x y = (case compareFn E of
       Some f \<Rightarrow> (case f x y of Inl e \<Rightarrow> Inl e | Inr d \<Rightarrow> Inr (sort_number d))
     | None \<Rightarrow> (case to_hstring E x of Inl e \<Rightarrow> Inl e
         | Inr h1 \<Rightarrow> (case to_hstring E y of Inl e \<Rightarrow> Inl e
             | Inr h2 \<Rightarrow> Inr (duk_js_string_compare h1 h2))))"

definition compare_slots :: "('v, 'e) sort_call \<Rightarrow> 'v val option \<Rightarrow> 'v val option \<Rightarrow> 'e + int" where
  "compare_slots E s1 s2 = (case s1 of
       Some v1 \<Rightarrow> (case s2 of
           None \<Rightarrow> Inr (- 1)
         | Some v2 \<Rightarrow> (case v1 of
               Undefined \<Rightarrow> (case v2 of Undefined \<Rightarrow> Inr 0 | Defined y \<Rightarrow> Inr 1)
             | Defined x \<Rightarrow> (case v2 of Undefined \<Rightarrow> Inr (- 1) | Defined y \<Rightarrow> compare_values E x y)))
     | None \<Rightarrow> (case s2 of Some v2 \<Rightarrow> Inr 1 | None \<Rightarrow> Inr 0))"

definition duk__array_sort_compare :: "('v, 'e) sort_call \<Rightarrow> 'v object \<Rightarrow> int \<Rightarrow> int \<Rightarrow> 'e + int" where
  "duk__array_sort_compare E ob idx1 idx2 = (if idx1 = idx2 then Inr 0 else compare_slots E (ob idx1) (ob idx2))"

definition duk__array_sort_swap :: "int \<Rightarrow> int \<Rightarrow> 'v object \<Rightarrow> 'v object" where
  "duk__array_sort_swap l r ob =
    (if l = r then ob
     else (let have_l = ob l; have_r = ob r;
               ob = (case have_r of Some v \<Rightarrow> ob(l \<mapsto> v) | None \<Rightarrow> ob(l := None))
           in case have_l of Some v \<Rightarrow> ob(r \<mapsto> v) | None \<Rightarrow> ob(r := None)))"

function left_scan :: "('v, 'e) sort_call \<Rightarrow> 'v object \<Rightarrow> int \<Rightarrow> int \<Rightarrow> int \<Rightarrow> 'e + int" where
  "left_scan E ob hi p l =
    (if l \<ge> hi then Inr l
     else (case duk__array_sort_compare E ob l p of
         Inl e \<Rightarrow> Inl e
       | Inr c \<Rightarrow> if c \<ge> 0 then Inr l else left_scan E ob hi p (l + 1)))"
  by pat_completeness auto
termination by (relation "measure (\<lambda>(E, ob, hi, p, l). nat (hi - l))") auto

function right_scan :: "('v, 'e) sort_call \<Rightarrow> 'v object \<Rightarrow> int \<Rightarrow> int \<Rightarrow> int \<Rightarrow> 'e + int" where
  "right_scan E ob lo p r =
    (if r \<le> lo then Inr r
     else (case duk__array_sort_compare E ob p r of
         Inl e \<Rightarrow> Inl e
       | Inr c \<Rightarrow> if c \<ge> 0 then Inr r else right_scan E ob lo p (r - 1)))"
  by pat_completeness auto
termination by (relation "measure (\<lambda>(E, ob, lo, p, r). nat (r - lo))") auto

declare left_scan.simps [simp del] right_scan.simps [simp del]

lemma left_scan_bounds: "left_scan E ob hi p l = Inr l' \<Longrightarrow> l \<le> l' \<and> (l \<le> hi \<longrightarrow> l' \<le> hi)"
  by (induction E ob hi p l rule: left_scan.induct)
    (subst (asm) left_scan.simps, fastforce split: if_splits sum.splits)

lemma right_scan_bounds: "right_scan E ob lo p r = Inr r' \<Longrightarrow> r' \<le> r \<and> (lo \<le> r \<longrightarrow> lo \<le> r')"
  by (induction E ob lo p r rule: right_scan.induct)
    (subst (asm) right_scan.simps, fastforce split: if_splits sum.splits)

text \<open>The loop of swaps; its result is the position of the pivot, an error leaves the object as it is then.\<close>

function partition_loop :: "('v, 'e) sort_call \<Rightarrow> int \<Rightarrow> int \<Rightarrow> int \<Rightarrow> int \<Rightarrow> int \<Rightarrow> 'v object \<Rightarrow> 'v object \<times> ('e + int)" where
  "partition_loop E lo hi p l r ob =
    (case left_scan E ob hi p l of
       Inl e \<Rightarrow> (ob, Inl e)
     | Inr l \<Rightarrow> (case right_scan E ob lo p r of
         Inl e \<Rightarrow> (ob, Inl e)
       | Inr r \<Rightarrow> if l \<ge> r then (ob, Inr r)
                  else partition_loop E lo hi p (l + 1) (r - 1) (duk__array_sort_swap l r ob)))"
  by pat_completeness auto
termination
proof (relation "measure (\<lambda>(E, lo, hi, p, l, r, ob). nat (r - l))", goal_cases)
  case (2 E lo hi p l r ob l' r')
  then show ?case using left_scan_bounds [of E ob hi p l l'] right_scan_bounds [of E ob lo p r r'] by simp
qed simp

declare partition_loop.simps [simp del]

lemma partition_loop_bounds:
  "partition_loop E lo hi p l r ob = (ob', Inr r') \<Longrightarrow> lo \<le> r \<Longrightarrow> lo < l \<Longrightarrow> lo \<le> r' \<and> r' \<le> r"
proof (induction E lo hi p l r ob rule: partition_loop.induct)
  case (1 E lo hi p l r ob)
  obtain l1 where l: "left_scan E ob hi p l = Inr l1"
    using 1(2) by (subst (asm) partition_loop.simps) (auto split: sum.splits)
  then obtain r1 where r: "right_scan E ob lo p r = Inr r1"
    using 1(2) by (subst (asm) partition_loop.simps) (auto split: sum.splits)
  note b = left_scan_bounds [OF l] right_scan_bounds [OF r]
  show ?case
  proof (cases "l1 \<ge> r1")
    case True
    then have "r' = r1" using 1(2) l r by (subst (asm) partition_loop.simps) simp
    then show ?thesis using b 1(3) by simp
  next
    case False
    then have "partition_loop E lo hi p (l1 + 1) (r1 - 1) (duk__array_sort_swap l1 r1 ob) = (ob', Inr r')"
      using 1(2) l r by (subst (asm) partition_loop.simps) simp
    moreover have "lo \<le> r1 - 1" "lo < l1 + 1" using b False 1(4) by simp_all
    ultimately show ?thesis using 1(1) [OF l r False] b by simp
  qed
qed

function duk__array_qsort :: "('v, 'e) sort_call \<Rightarrow> int \<Rightarrow> int \<Rightarrow> 'v sort_state \<Rightarrow> 'v sort_state \<times> 'e option" where
  "duk__array_qsort E lo hi st =
    (if hi - lo < 1 then (st, None)
     else (let p = lo + random E (draws st) (hi - lo + 1) in
       case partition_loop E lo hi lo (lo + 1) hi (duk__array_sort_swap p lo (obj st)) of
         (ob, Inl e) \<Rightarrow> (st\<lparr>obj := ob, draws := draws st + 1\<rparr>, Some e)
       | (ob, Inr r) \<Rightarrow>
           (case duk__array_qsort E lo (r - 1)
                   (st\<lparr>obj := duk__array_sort_swap lo r ob, draws := draws st + 1\<rparr>) of
              (st, Some e) \<Rightarrow> (st, Some e)
            | (st, None) \<Rightarrow> duk__array_qsort E (r + 1) hi st)))"
  by pat_completeness auto
termination
  by (relation "measure (\<lambda>(E, lo, hi, st). nat (hi - lo + 1))")
    (auto dest!: partition_loop_bounds [OF sym])

declare duk__array_qsort.simps [simp del]

text \<open>The length property has been read and converted; the engine's own error is on the left.\<close>

definition duk__push_this_obj_len_u32_limited :: "int \<Rightarrow> int result" where
  "duk__push_this_obj_len_u32_limited ret =
    (if ret \<ge> 0x80000000 then Inl (RangeError ''invalid length'') else Inr ret)"

definition duk_bi_array_prototype_sort ::
    "('v, 'e) sort_call \<Rightarrow> int \<Rightarrow> 'v sort_state \<Rightarrow> 'v sort_state \<times> (duk_error + 'e) option" where
  "duk_bi_array_prototype_sort E len st =
    (case duk__push_this_obj_len_u32_limited len of
       Inl e \<Rightarrow> (st, Some (Inl e))
     | Inr len \<Rightarrow> if len > 0 then map_prod id (map_option Inr) (duk__array_qsort E 0 (len - 1) st) else (st, None))"

subsection \<open>Rearrangement\<close>

text \<open>Whatever the comparison does, the slots of a range are only rearranged.\<close>

definition slots :: "'v object \<Rightarrow> int \<Rightarrow> int \<Rightarrow> 'v val option multiset" where
  "slots ob lo hi = image_mset ob (mset_set {lo..hi})"

definition rearranged :: "int \<Rightarrow> int \<Rightarrow> 'v object \<Rightarrow> 'v object \<Rightarrow> bool" where
  "rearranged lo hi ob ob' \<longleftrightarrow> slots ob' lo hi = slots ob lo hi \<and> (\<forall>i. i < lo \<or> hi < i \<longrightarrow> ob' i = ob i)"

lemma rearranged_refl [simp]: "rearranged lo hi ob ob"
  by (simp add: rearranged_def)

lemma rearranged_trans [trans]: "rearranged lo hi a b \<Longrightarrow> rearranged lo hi b c \<Longrightarrow> rearranged lo hi a c"
  by (simp add: rearranged_def)

lemma slots_split: "lo \<le> m + 1 \<Longrightarrow> m \<le> hi \<Longrightarrow> slots ob lo hi = slots ob lo m + slots ob (m + 1) hi"
proof -
  assume "lo \<le> m + 1" "m \<le> hi"
  then have "{lo..hi} = {lo..m} \<union> {m + 1..hi}" by auto
  then show ?thesis by (simp add: slots_def mset_set_Union)
qed

lemma slots_cong: "(\<And>i. lo \<le> i \<Longrightarrow> i \<le> hi \<Longrightarrow> a i = b i) \<Longrightarrow> slots a lo hi = slots b lo hi"
  unfolding slots_def by (rule image_mset_cong) simp

lemma rearranged_mono:
  assumes "rearranged lo hi a b" "lo' \<le> lo" "hi \<le> hi'"
  shows "rearranged lo' hi' a b"
proof (cases "lo \<le> hi")
  case True
  have "slots f lo' hi' = slots f lo' (lo - 1) + slots f lo hi + slots f (hi + 1) hi'" for f :: "'a object"
    using slots_split [of lo' "lo - 1" hi' f] slots_split [of lo hi hi' f] assms(2,3) True by simp
  moreover have "slots b lo' (lo - 1) = slots a lo' (lo - 1)" "slots b (hi + 1) hi' = slots a (hi + 1) hi'"
    using assms(1) by (auto intro!: slots_cong simp: rearranged_def)
  ultimately show ?thesis using assms by (simp add: rearranged_def)
next
  case False
  then have "b i = a i" for i using assms(1) by (cases "i < lo") (auto simp: rearranged_def)
  then have "b = a" ..
  then show ?thesis by simp
qed

lemma swap_slots: "duk__array_sort_swap l r ob = ob(l := ob r, r := ob l)"
  by (auto simp: duk__array_sort_swap_def Let_def split: option.splits)

lemma swap_rearranged:
  assumes "lo \<le> l" "l \<le> hi" "lo \<le> r" "r \<le> hi"
  shows "rearranged lo hi ob (duk__array_sort_swap l r ob)"
proof -
  define t where "t = id (l := r, r := l)"
  have "bij_betw t {lo..hi} {lo..hi}"
    by (rule bij_betw_byWitness [of _ t]) (use assms in \<open>auto simp: t_def\<close>)
  then have "image_mset t (mset_set {lo..hi}) = mset_set {lo..hi}"
    by (metis bij_betw_def image_mset_mset_set)
  then have "image_mset (ob \<circ> t) (mset_set {lo..hi}) = image_mset ob (mset_set {lo..hi})"
    by (metis image_mset.compositionality)
  moreover have "duk__array_sort_swap l r ob = ob \<circ> t"
    by (auto simp: swap_slots t_def)
  ultimately show ?thesis using assms by (auto simp: rearranged_def slots_def t_def)
qed

lemma rearranged_all:
  assumes "rearranged lo hi a b" "\<forall>i. lo \<le> i \<and> i \<le> hi \<longrightarrow> P (a i)" "lo \<le> i" "i \<le> hi"
  shows "P (b i)"
proof -
  have "b i \<in># slots b lo hi" using assms(3,4) by (simp add: slots_def)
  then have "b i \<in># slots a lo hi" using assms(1) by (simp add: rearranged_def)
  then show ?thesis using assms(2) by (auto simp: slots_def)
qed

lemma partition_loop_rearranged:
  "partition_loop E lo hi p l r ob = (ob', res) \<Longrightarrow> lo < l \<Longrightarrow> lo \<le> r \<Longrightarrow> r \<le> hi \<Longrightarrow> rearranged lo hi ob ob'"
proof (induction E lo hi p l r ob arbitrary: ob' res rule: partition_loop.induct)
  case (1 E lo hi p l r ob)
  show ?case
  proof (cases "\<exists>l1 r1. left_scan E ob hi p l = Inr l1 \<and> right_scan E ob lo p r = Inr r1 \<and> l1 < r1")
    case True
    then obtain l1 r1 where s: "left_scan E ob hi p l = Inr l1" "right_scan E ob lo p r = Inr r1" "l1 < r1" by blast
    note b = left_scan_bounds [OF s(1)] right_scan_bounds [OF s(2)]
    have "partition_loop E lo hi p (l1 + 1) (r1 - 1) (duk__array_sort_swap l1 r1 ob) = (ob', res)"
      using 1(2) s by (subst (asm) partition_loop.simps) simp
    with 1(1) [OF s(1,2)] s(3) b 1(3-5) have "rearranged lo hi (duk__array_sort_swap l1 r1 ob) ob'" by simp
    moreover have "rearranged lo hi ob (duk__array_sort_swap l1 r1 ob)"
      using b s(3) 1(3-5) by (intro swap_rearranged) linarith+
    ultimately show ?thesis by (rule rearranged_trans [rotated])
  next
    case False
    then have "ob' = ob" using 1(2) by (subst (asm) partition_loop.simps) (auto split: sum.splits if_splits)
    then show ?thesis by simp
  qed
qed

definition random_in_range :: "('v, 'e) sort_call \<Rightarrow> bool" where
  "random_in_range E \<longleftrightarrow> (\<forall>n k. 0 < k \<longrightarrow> 0 \<le> random E n k \<and> random E n k < k)"

lemma pivot_swap:
  assumes "random_in_range E" "lo < hi"
  shows "rearranged lo hi ob (duk__array_sort_swap (lo + random E n (hi - lo + 1)) lo ob)"
proof -
  have "0 < hi - lo + 1" using assms(2) by simp
  then have "0 \<le> random E n (hi - lo + 1) \<and> random E n (hi - lo + 1) < hi - lo + 1"
    using assms(1) unfolding random_in_range_def by blast
  then show ?thesis using assms(2) by (intro swap_rearranged) simp_all
qed

lemma qsort_rearranged:
  "duk__array_qsort E lo hi st = (st', res) \<Longrightarrow> random_in_range E \<Longrightarrow> rearranged lo hi (obj st) (obj st')"
proof (induction E lo hi st arbitrary: st' res rule: duk__array_qsort.induct)
  case (1 E lo hi st)
  show ?case
  proof (cases "hi - lo < 1")
    case True
    then show ?thesis using 1(3) by (subst (asm) duk__array_qsort.simps) simp
  next
    case False
    let ?p = "lo + random E (draws st) (hi - lo + 1)"
    obtain ob pr where part: "partition_loop E lo hi lo (lo + 1) hi (duk__array_sort_swap ?p lo (obj st)) = (ob, pr)"
      by force
    have "rearranged lo hi (obj st) (duk__array_sort_swap ?p lo (obj st))"
      by (rule pivot_swap) (use 1(4) False in simp_all)
    also have "rearranged lo hi \<dots> ob" using partition_loop_rearranged [OF part] False by simp
    finally have parted: "rearranged lo hi (obj st) ob" .
    show ?thesis
    proof (cases pr)
      case (Inl e)
      then show ?thesis using 1(3) False part parted
        by (subst (asm) duk__array_qsort.simps) (auto simp: Let_def)
    next
      case (Inr r)
      have r: "lo \<le> r" "r \<le> hi" using partition_loop_bounds [OF part [unfolded Inr]] False by simp_all
      note parted
      also have "rearranged lo hi ob (duk__array_sort_swap lo r ob)" using r by (intro swap_rearranged) simp_all
      finally have s: "rearranged lo hi (obj st) (duk__array_sort_swap lo r ob)" .
      let ?st = "st\<lparr>obj := duk__array_sort_swap lo r ob, draws := draws st + 1\<rparr>"
      obtain st1 e1 where q1: "duk__array_qsort E lo (r - 1) ?st = (st1, e1)" by force
      have "rearranged lo (r - 1) (obj ?st) (obj st1)"
        by (rule 1(1) [OF False refl part [symmetric] Inr q1 1(4)])
      then have s1: "rearranged lo hi (obj st) (obj st1)"
        using s rearranged_trans rearranged_mono [of lo "r - 1" _ _ lo hi] r(2) by fastforce
      show ?thesis
      proof (cases e1)
        case None
        then have "duk__array_qsort E (r + 1) hi st1 = (st', res)"
          using 1(3) False part Inr q1 by (subst (asm) duk__array_qsort.simps) (simp add: Let_def)
        then have "rearranged (r + 1) hi (obj st1) (obj st')"
          using 1(2) [OF False refl part [symmetric] Inr q1 [symmetric] None] 1(4) by blast
        then show ?thesis using s1 rearranged_trans rearranged_mono [of "r + 1" hi _ _ lo hi] r(1) by fastforce
      next
        case (Some e)
        then have "st' = st1"
          using 1(3) False part Inr q1 by (subst (asm) duk__array_qsort.simps) (simp add: Let_def)
        then show ?thesis using s1 by simp
      qed
    qed
  qed
qed

subsection \<open>Order\<close>

text \<open>
  The order that the sort is to establish: defined values as the comparison function says, or as their
  strings compare, then the undefined values, then the missing elements.
\<close>

definition value_le :: "('v, 'e) sort_call \<Rightarrow> 'v \<Rightarrow> 'v \<Rightarrow> bool" where
  "value_le E x y = (case compareFn E of
       Some f \<Rightarrow> f x y \<noteq> Inr Above_zero
     | None \<Rightarrow> lexordp_eq (projr (to_hstring E x)) (projr (to_hstring E y)))"

fun slot_le :: "('v, 'e) sort_call \<Rightarrow> 'v val option \<Rightarrow> 'v val option \<Rightarrow> bool" where
  "slot_le E s None = True"
| "slot_le E None (Some v) = False"
| "slot_le E (Some v) (Some Undefined) = True"
| "slot_le E (Some Undefined) (Some (Defined y)) = False"
| "slot_le E (Some (Defined x)) (Some (Defined y)) = value_le E x y"

definition consistent :: "('v, 'e) sort_call \<Rightarrow> bool" where
  "consistent E = (case compareFn E of
       Some f \<Rightarrow> (\<forall>x y. (\<exists>d. f x y = Inr d) \<and> (f x y = Inr Below_zero) = (f y x = Inr Above_zero))
         \<and> (\<forall>x y z. f x y \<noteq> Inr Above_zero \<and> f y z \<noteq> Inr Above_zero \<longrightarrow> f x z \<noteq> Inr Above_zero)
     | None \<Rightarrow> (\<forall>x. \<exists>h. to_hstring E x = Inr h))"

lemma consistent_compareFn:
  assumes "consistent E" "compareFn E = Some f"
  shows "\<exists>d. f x y = Inr d" "f x y = Inr Below_zero \<longleftrightarrow> f y x = Inr Above_zero"
    "f x y \<noteq> Inr Above_zero \<Longrightarrow> f y z \<noteq> Inr Above_zero \<Longrightarrow> f x z \<noteq> Inr Above_zero"
  using assms(1) unfolding consistent_def assms(2) option.case by blast+

lemma consistent_strings:
  assumes "consistent E" "compareFn E = None"
  shows "\<exists>h. to_hstring E x = Inr h"
  using assms unfolding consistent_def by simp

lemma compare_values_order:
  assumes "consistent E"
  shows "\<exists>c. compare_values E x y = Inr c \<and> (c \<ge> 0 \<longleftrightarrow> value_le E y x)"
proof (cases "compareFn E")
  case None
  then obtain a b where "to_hstring E x = Inr a" "to_hstring E y = Inr b"
    using consistent_strings [OF assms] by blast
  then show ?thesis using None
    by (simp add: compare_values_def value_le_def duk_js_string_compare_def data_compare_lexord)
next
  case (Some f)
  obtain d where d: "f x y = Inr d" using consistent_compareFn(1) [OF assms Some] by blast
  then show ?thesis using Some consistent_compareFn(2) [OF assms Some, of x y]
    by (cases d) (simp_all add: compare_values_def value_le_def sort_number_def)
qed

lemma value_le_total:
  assumes "consistent E"
  shows "value_le E x y \<or> value_le E y x"
proof (cases "compareFn E")
  case None
  then show ?thesis using lexordp_eq_linear by (simp add: value_le_def)
next
  case (Some f)
  then show ?thesis using consistent_compareFn(2) [OF assms Some, of x y] by (auto simp: value_le_def)
qed

lemma value_le_trans:
  assumes "consistent E" "value_le E x y" "value_le E y z"
  shows "value_le E x z"
proof (cases "compareFn E")
  case None
  then show ?thesis using assms(2,3) lexordp_eq_trans by (simp add: value_le_def) blast
next
  case (Some f)
  then show ?thesis using consistent_compareFn(3) [OF assms(1) Some, of x y z] assms(2,3) by (simp add: value_le_def)
qed

lemma slot_cases:
  obtains "s = None" | "s = Some Undefined" | x where "s = Some (Defined x)"
  by (cases s) (auto intro: val.exhaust)

lemma compare_slots_order:
  assumes "consistent E"
  shows "\<exists>c. compare_slots E s1 s2 = Inr c \<and> (c \<ge> 0 \<longleftrightarrow> slot_le E s2 s1)"
  by (cases s1 rule: slot_cases; cases s2 rule: slot_cases)
    (simp_all add: compare_slots_def compare_values_order [OF assms])

lemma slot_le_total: "consistent E \<Longrightarrow> slot_le E s1 s2 \<or> slot_le E s2 s1"
  by (cases s1 rule: slot_cases; cases s2 rule: slot_cases) (simp_all add: value_le_total)

lemma slot_le_trans: "consistent E \<Longrightarrow> slot_le E a b \<Longrightarrow> slot_le E b c \<Longrightarrow> slot_le E a c"
  by (cases a rule: slot_cases; cases b rule: slot_cases; cases c rule: slot_cases)
    (simp_all, erule (2) value_le_trans)

lemma slot_le_refl: "consistent E \<Longrightarrow> slot_le E s s"
  using slot_le_total by blast

lemma array_compare_order:
  assumes "consistent E"
  shows "\<exists>c. duk__array_sort_compare E ob i j = Inr c \<and> (c \<ge> 0 \<longleftrightarrow> slot_le E (ob j) (ob i))"
  unfolding duk__array_sort_compare_def using compare_slots_order [OF assms] slot_le_refl [OF assms] by simp

lemma left_scan_order:
  "consistent E \<Longrightarrow> \<exists>l'. left_scan E ob hi p l = Inr l' \<and> (\<forall>i. l \<le> i \<and> i < l' \<longrightarrow> slot_le E (ob i) (ob p))
    \<and> (l' \<ge> hi \<or> slot_le E (ob p) (ob l'))"
proof (induction E ob hi p l rule: left_scan.induct)
  case (1 E ob hi p l)
  obtain c where c: "duk__array_sort_compare E ob l p = Inr c" "c \<ge> 0 \<longleftrightarrow> slot_le E (ob p) (ob l)"
    using array_compare_order [OF 1(2)] by blast
  show ?case
  proof (cases "l \<ge> hi \<or> c \<ge> 0")
    case True
    then show ?thesis using c by (subst left_scan.simps) auto
  next
    case False
    then obtain l' where l': "left_scan E ob hi p (l + 1) = Inr l'" "l' \<ge> hi \<or> slot_le E (ob p) (ob l')"
        "\<forall>i. l + 1 \<le> i \<and> i < l' \<longrightarrow> slot_le E (ob i) (ob p)"
      using 1(1) [OF _ c(1)] 1(2) by auto
    have "slot_le E (ob l) (ob p)" using False c(2) slot_le_total [OF 1(2)] by blast
    then have "slot_le E (ob i) (ob p)" if "l \<le> i" "i < l'" for i
      using l'(3) that by (cases "i = l") simp_all
    then show ?thesis using l'(1,2) False c(1) by (subst left_scan.simps) simp
  qed
qed

lemma right_scan_order:
  "consistent E \<Longrightarrow> \<exists>r'. right_scan E ob lo p r = Inr r' \<and> (\<forall>i. r' < i \<and> i \<le> r \<longrightarrow> slot_le E (ob p) (ob i))
    \<and> (r' \<le> lo \<or> slot_le E (ob r') (ob p))"
proof (induction E ob lo p r rule: right_scan.induct)
  case (1 E ob lo p r)
  obtain c where c: "duk__array_sort_compare E ob p r = Inr c" "c \<ge> 0 \<longleftrightarrow> slot_le E (ob r) (ob p)"
    using array_compare_order [OF 1(2)] by blast
  show ?case
  proof (cases "r \<le> lo \<or> c \<ge> 0")
    case True
    then show ?thesis using c by (subst right_scan.simps) auto
  next
    case False
    then obtain r' where r': "right_scan E ob lo p (r - 1) = Inr r'" "r' \<le> lo \<or> slot_le E (ob r') (ob p)"
        "\<forall>i. r' < i \<and> i \<le> r - 1 \<longrightarrow> slot_le E (ob p) (ob i)"
      using 1(1) [OF _ c(1)] 1(2) by auto
    have "slot_le E (ob p) (ob r)" using False c(2) slot_le_total [OF 1(2)] by blast
    then have "slot_le E (ob p) (ob i)" if "r' < i" "i \<le> r" for i
      using r'(3) that by (cases "i = r") simp_all
    then show ?thesis using r'(1,2) False c(1) by (subst right_scan.simps) simp
  qed
qed

text \<open>The loop splits the range: smaller slots up to the result, larger slots above it.\<close>

lemma partition_loop_order:
  "consistent E \<Longrightarrow> lo < l \<Longrightarrow> lo \<le> r \<Longrightarrow> r \<le> hi \<Longrightarrow> p = lo \<Longrightarrow>
    (\<forall>i. lo < i \<and> i < l \<longrightarrow> slot_le E (ob i) (ob lo)) \<Longrightarrow> (\<forall>i. r < i \<and> i \<le> hi \<longrightarrow> slot_le E (ob lo) (ob i)) \<Longrightarrow>
    \<exists>ob' r'. partition_loop E lo hi p l r ob = (ob', Inr r') \<and> ob' lo = ob lo
      \<and> (\<forall>i. lo \<le> i \<and> i \<le> r' \<longrightarrow> slot_le E (ob' i) (ob lo)) \<and> (\<forall>i. r' < i \<and> i \<le> hi \<longrightarrow> slot_le E (ob lo) (ob' i))"
proof (induction E lo hi p l r ob rule: partition_loop.induct)
  case (1 E lo hi p l r ob)
  have lo: "p = lo" by (rule 1(6))
  obtain l1 where l: "left_scan E ob hi p l = Inr l1" "\<forall>i. l \<le> i \<and> i < l1 \<longrightarrow> slot_le E (ob i) (ob lo)"
      "l1 \<ge> hi \<or> slot_le E (ob lo) (ob l1)"
    using left_scan_order [OF 1(2), of ob hi p l] lo by blast
  obtain r1 where r: "right_scan E ob lo p r = Inr r1" "\<forall>i. r1 < i \<and> i \<le> r \<longrightarrow> slot_le E (ob lo) (ob i)"
      "r1 \<le> lo \<or> slot_le E (ob r1) (ob lo)"
    using right_scan_order [OF 1(2), of ob lo p r] lo by blast
  have b: "l \<le> l1" "r1 \<le> r" "lo \<le> r1"
    using left_scan_bounds [OF l(1)] right_scan_bounds [OF r(1)] 1(4) by simp_all
  have low: "slot_le E (ob i) (ob lo)" if "lo < i" "i < l1" for i
    using l(2) 1(7) that by (cases "i < l") simp_all
  have high: "slot_le E (ob lo) (ob i)" if "r1 < i" "i \<le> hi" for i
    using r(2) 1(8) that by (cases "r < i") simp_all
  show ?case
  proof (cases "l1 \<ge> r1")
    case True
    have "slot_le E (ob i) (ob lo)" if "lo \<le> i" "i \<le> r1" for i
      using low r(3) that True slot_le_refl [OF 1(2)] by (cases "i = lo"; cases "i = r1") auto
    then show ?thesis using high True l(1) r(1) by (subst partition_loop.simps) simp
  next
    case False
    let ?ob = "duk__array_sort_swap l1 r1 ob"
    have ob: "?ob lo = ob lo" "?ob l1 = ob r1" "?ob r1 = ob l1" "\<And>i. i \<noteq> l1 \<Longrightarrow> i \<noteq> r1 \<Longrightarrow> ?ob i = ob i"
      using 1(3) b False by (simp_all add: swap_slots)
    have swapped: "slot_le E (ob r1) (ob lo)" "slot_le E (ob lo) (ob l1)"
      using r(3) l(3) b 1(3,5) False by linarith+
    have "slot_le E (?ob i) (ob lo)" if "lo < i" "i < l1 + 1" for i
      using low swapped(1) that False ob by (cases "i = l1") simp_all
    moreover have "slot_le E (ob lo) (?ob i)" if "r1 - 1 < i" "i \<le> hi" for i
      using high swapped(2) that False ob by (cases "i = r1") simp_all
    ultimately have "\<exists>ob' r'. partition_loop E lo hi p (l1 + 1) (r1 - 1) ?ob = (ob', Inr r') \<and> ob' lo = ob lo
        \<and> (\<forall>i. lo \<le> i \<and> i \<le> r' \<longrightarrow> slot_le E (ob' i) (ob lo)) \<and> (\<forall>i. r' < i \<and> i \<le> hi \<longrightarrow> slot_le E (ob lo) (ob' i))"
      using 1(1) [OF l(1) r(1) False 1(2)] b 1(3,5) False lo by (simp add: ob(1))
    then show ?thesis using l(1) r(1) False by (subst partition_loop.simps) simp
  qed
qed

definition range_sorted :: "('v, 'e) sort_call \<Rightarrow> 'v object \<Rightarrow> int \<Rightarrow> int \<Rightarrow> bool" where
  "range_sorted E ob lo hi \<longleftrightarrow> (\<forall>i j. lo \<le> i \<and> i \<le> j \<and> j \<le> hi \<longrightarrow> slot_le E (ob i) (ob j))"

lemma range_sorted_join:
  assumes "consistent E" "range_sorted E ob lo (r - 1)" "range_sorted E ob (r + 1) hi"
    and "\<forall>i. lo \<le> i \<and> i < r \<longrightarrow> slot_le E (ob i) (ob r)" "\<forall>i. r < i \<and> i \<le> hi \<longrightarrow> slot_le E (ob r) (ob i)"
  shows "range_sorted E ob lo hi"
  unfolding range_sorted_def
proof (intro allI impI)
  fix i j
  assume ij: "lo \<le> i \<and> i \<le> j \<and> j \<le> hi"
  consider "j < r" | "r < i" | "i \<le> r" "r \<le> j" using ij by linarith
  then show "slot_le E (ob i) (ob j)"
  proof cases
    case 3
    then have "slot_le E (ob i) (ob r)" "slot_le E (ob r) (ob j)"
      using assms(4,5) ij slot_le_refl [OF assms(1)] by (cases "i = r"; cases "j = r"; simp)+
    then show ?thesis by (rule slot_le_trans [OF assms(1)])
  qed (use assms(2,3) ij in \<open>simp_all add: range_sorted_def\<close>)
qed

lemma qsort_order:
  "consistent E \<Longrightarrow> random_in_range E \<Longrightarrow>
    \<exists>st'. duk__array_qsort E lo hi st = (st', None) \<and> range_sorted E (obj st') lo hi"
proof (induction E lo hi st rule: duk__array_qsort.induct)
  case (1 E lo hi st)
  show ?case
  proof (cases "hi - lo < 1")
    case True
    have "range_sorted E (obj st) lo hi" unfolding range_sorted_def
    proof (intro allI impI)
      fix i j
      assume "lo \<le> i \<and> i \<le> j \<and> j \<le> hi"
      then have "i = j" using True by linarith
      then show "slot_le E (obj st i) (obj st j)" using slot_le_refl [OF 1(3)] by simp
    qed
    then show ?thesis using True by (subst duk__array_qsort.simps) simp
  next
    case False
    let ?p = "lo + random E (draws st) (hi - lo + 1)"
    define ob0 where "ob0 = duk__array_sort_swap ?p lo (obj st)"
    obtain ob r where part: "partition_loop E lo hi lo (lo + 1) hi ob0 = (ob, Inr r)" "ob lo = ob0 lo"
        "\<forall>i. lo \<le> i \<and> i \<le> r \<longrightarrow> slot_le E (ob i) (ob0 lo)" "\<forall>i. r < i \<and> i \<le> hi \<longrightarrow> slot_le E (ob0 lo) (ob i)"
    proof -
      have "\<forall>i. lo < i \<and> i < lo + 1 \<longrightarrow> slot_le E (ob0 i) (ob0 lo)" "\<forall>i. hi < i \<and> i \<le> hi \<longrightarrow> slot_le E (ob0 lo) (ob0 i)"
        by auto
      then show ?thesis using partition_loop_order [OF 1(3) _ _ _ refl, of lo "lo + 1" hi hi ob0] False that by auto
    qed
    have r: "lo \<le> r" "r \<le> hi" using partition_loop_bounds [OF part(1)] False by simp_all
    define ob1 where "ob1 = duk__array_sort_swap lo r ob"
    let ?st = "st\<lparr>obj := ob1, draws := draws st + 1\<rparr>"
    have pivot: "ob1 r = ob0 lo" unfolding ob1_def by (simp add: swap_slots part(2))
    have low: "\<forall>i. lo \<le> i \<and> i \<le> r - 1 \<longrightarrow> slot_le E (ob1 i) (ob0 lo)"
      unfolding ob1_def using part(3) r(1) by (simp add: swap_slots)
    have high: "\<forall>i. r + 1 \<le> i \<and> i \<le> hi \<longrightarrow> slot_le E (ob0 lo) (ob1 i)"
      unfolding ob1_def using part(4) r(1) by (simp add: swap_slots)
    obtain st1 where q1: "duk__array_qsort E lo (r - 1) ?st = (st1, None)" "range_sorted E (obj st1) lo (r - 1)"
      using 1(1) [OF False refl part(1) [unfolded ob0_def, symmetric] refl 1(3,4)] unfolding ob1_def by blast
    obtain st2 where q2: "duk__array_qsort E (r + 1) hi st1 = (st2, None)" "range_sorted E (obj st2) (r + 1) hi"
      using 1(2) [OF False refl part(1) [unfolded ob0_def, symmetric] refl q1(1) [unfolded ob1_def, symmetric] refl 1(3,4)]
      by blast
    have re: "rearranged lo (r - 1) ob1 (obj st1)" "rearranged (r + 1) hi (obj st1) (obj st2)"
      using qsort_rearranged [OF q1(1) 1(4)] qsort_rearranged [OF q2(1) 1(4)] by simp_all
    have left: "\<And>i. i \<le> r \<Longrightarrow> obj st2 i = obj st1 i" and right: "\<And>i. r \<le> i \<Longrightarrow> obj st1 i = ob1 i"
      using re unfolding rearranged_def by simp_all
    have "range_sorted E (obj st2) lo (r - 1)"
      using q1(2) by (simp add: range_sorted_def left)
    moreover have "slot_le E (obj st2 i) (obj st2 r)" if "lo \<le> i \<and> i < r" for i
      using rearranged_all [OF re(1) low, of i] that by (simp add: left right pivot)
    moreover have "\<forall>i. r + 1 \<le> i \<and> i \<le> hi \<longrightarrow> slot_le E (ob0 lo) (obj st1 i)" using high by (simp add: right)
    then have "slot_le E (obj st2 r) (obj st2 i)" if "r < i \<and> i \<le> hi" for i
      using rearranged_all [OF re(2), of "slot_le E (ob0 lo)" i] that by (simp add: left right pivot)
    ultimately have "range_sorted E (obj st2) lo hi" using range_sorted_join [OF 1(3) _ q2(2)] by blast
    moreover have "duk__array_qsort E lo hi st = (st2, None)"
      using False part(1) q1(1) q2(1)
      by (subst duk__array_qsort.simps) (simp add: Let_def ob0_def ob1_def)
    ultimately show ?thesis by blast
  qed
qed

subsection \<open>Properties\<close>


definition sort_example :: "(int, unit) sort_call" where
  "sort_example = \<lparr>compareFn = Some (\<lambda>x y. Inr (if x < y then Below_zero else if y < x then Above_zero else Zero_or_NaN)),
    to_hstring = \<lambda>_. Inr [], random = \<lambda>n k. int n mod k\<rparr>"


end
