(* ===== verification/Arrayindex.thy ===== *)
theory Arrayindex
  imports CodecTables
begin

text \<open>
  Array index strings (\<^verbatim>\<open>duk_js_to_arrayindex_string\<close> and the number formatting of
  \<^verbatim>\<open>duk_heap_strtable_intern_u32\<close> in \<^verbatim>\<open>duktape.c\<close>): the keys under which the elements of an array are
  found when they are not in its array part.
\<close>

subsection \<open>The code\<close>

definition DUK_HSTRING_NO_ARRAY_INDEX :: u32 where
  "DUK_HSTRING_NO_ARRAY_INDEX = 0xffffffff"

text \<open>The loop of the parser; \<open>blen\<close> is the number of bytes left, \<open>None\<close> the failure exit.\<close>

fun arrayindex_loop :: "u8 list \<Rightarrow> u32 \<Rightarrow> u32 \<Rightarrow> u32 option" where
  "arrayindex_loop [] blen res = Some res"
| "arrayindex_loop (c # str) blen res =
    (let dig = ucast c - 0x30 in
     if dig \<le> 9 then
       (if res \<ge> 0x19999999 then
          (if res \<ge> 0x1999999a then None
           else if dig \<ge> 6 then None
           else arrayindex_loop str (blen - 1) (0xfffffffa + dig))
        else
          (let res = res * 10 + dig in
           if res = 0 then (if blen = 1 then Some 0 else None)
           else arrayindex_loop str (blen - 1) res))
     else None)"

definition duk_js_to_arrayindex_string :: "u8 list \<Rightarrow> u32" where
  "duk_js_to_arrayindex_string str =
    (if str = [] then DUK_HSTRING_NO_ARRAY_INDEX
     else (case arrayindex_loop str (of_nat (length str)) 0 of
         Some res \<Rightarrow> res
       | None \<Rightarrow> DUK_HSTRING_NO_ARRAY_INDEX))"

function u32_digits :: "u32 \<Rightarrow> u8 list \<Rightarrow> u8 list" where
  "u32_digits val p =
    (let p = duk_lc_digits ! unat (val mod 10) # p; val = val div 10
     in if val \<noteq> 0 then u32_digits val p else p)"
  by pat_completeness auto

termination
proof (relation "measure (\<lambda>(val, p). unat val)")
  fix val :: u32 and p x xa
  assume "xa = val div 10" "xa \<noteq> 0"
  then have "unat val div 10 \<noteq> 0" by (simp add: word_unat_eq_iff unat_div)
  then show "((xa, x), val, p) \<in> measure (\<lambda>(val, p). unat val)"
    using \<open>xa = val div 10\<close> by (simp add: unat_div)
qed simp

declare u32_digits.simps [simp del]

subsection \<open>Array index strings are the decimal numbers below 2^32 - 1\<close>

fun decimal :: "nat \<Rightarrow> u8 list" where
  "decimal n = (if n < 10 then [0x30 + of_nat n] else decimal (n div 10) @ [0x30 + of_nat (n mod 10)])"

declare decimal.simps [simp del]

definition is_digit :: "u8 \<Rightarrow> bool" where
  "is_digit c \<longleftrightarrow> 0x30 \<le> c \<and> c \<le> 0x39"

definition digits_value :: "nat \<Rightarrow> u8 list \<Rightarrow> nat" where
  "digits_value n cs = foldl (\<lambda>n c. n * 10 + (unat c - 48)) n cs"

lemma lc_digit: "n < 10 \<Longrightarrow> duk_lc_digits ! n = 0x30 + of_nat n"
proof -
  assume "n < 10"
  then have "n \<in> {0, 1, 2, 3, 4, 5, 6, 7, 8, 9}" by auto
  then show ?thesis by (auto simp: duk_lc_digits_def)
qed

lemma u32_digits_decimal: "u32_digits val p = decimal (unat val) @ p"
proof (induction val p rule: u32_digits.induct)
  case (1 val p)
  have d: "unat (val mod 10) = unat val mod 10" "unat (val div 10) = unat val div 10"
    by (simp_all add: unat_mod unat_div)
  show ?case
  proof (cases "val div 10 = 0")
    case True
    then have "unat val div 10 = 0" using d(2) by simp
    then have "unat val < 10" by (simp add: div_eq_0_iff)
    then show ?thesis using True by (subst u32_digits.simps, subst decimal.simps) (simp add: lc_digit d)
  next
    case False
    then have "unat val div 10 \<noteq> 0" using d(2) by (metis unat_eq_zero)
    then have "\<not> unat val < 10" by auto
    then show ?thesis
      using 1 [OF refl refl False] False by (subst u32_digits.simps, subst decimal.simps) (simp add: lc_digit d)
  qed
qed

lemma decimal_length: "n < 10 ^ k \<Longrightarrow> 0 < k \<Longrightarrow> length (decimal n) \<le> k"
proof (induction k arbitrary: n)
  case (Suc k)
  show ?case
  proof (cases "n < 10")
    case False
    then have "0 < k" using Suc.prems by (cases k) simp_all
    moreover have "n div 10 < 10 ^ k" using Suc.prems(1) by (simp add: less_mult_imp_div_less)
    ultimately show ?thesis using Suc.IH [of "n div 10"] False by (subst decimal.simps) simp
  qed (simp add: decimal.simps)
qed simp

lemma unat_ucast_byte: "unat (ucast (c :: u8) :: u32) = unat c"
proof -
  have "unat c < 2 ^ 8" using unsigned_less [of c] by simp
  then show ?thesis by (simp add: word_nat)
qed

lemma word_of_nat_eqI: "unat w = k \<Longrightarrow> w = of_nat k"
  by (metis of_nat_unat ucast_id)

lemma digit_value:
  assumes "is_digit c"
  shows "unat (ucast c - 0x30 :: u32) = unat c - 48" "unat c - 48 \<le> 9" "c = 0x30 + of_nat (unat c - 48)"
proof -
  have c: "48 \<le> unat c" "unat c \<le> 57" using assms by (simp_all add: is_digit_def word_le_nat_alt)
  have "unat (ucast c :: u32) = unat c" by (rule unat_ucast_byte)
  moreover have "(0x30 :: u32) \<le> ucast c" using c calculation by (simp add: word_le_nat_alt)
  ultimately show "unat (ucast c - 0x30 :: u32) = unat c - 48" by (simp add: unat_sub)
  show "unat c - 48 \<le> 9" using c by simp
  have "(of_nat (unat c - 48) :: u8) = c - 0x30" using c by (simp add: of_nat_diff)
  then show "c = 0x30 + of_nat (unat c - 48)" by simp
qed

lemma digit_nonzero:
  assumes "is_digit c" "c \<noteq> 0x30"
  shows "unat c - 48 \<noteq> 0"
proof
  assume "unat c - 48 = 0"
  then have "c = 0x30 + of_nat 0" using digit_value(3) [OF assms(1)] by (rule subst)
  then show False using assms(2) by simp
qed

lemma digit_test: "(ucast c - 0x30 :: u32) \<le> 9 \<longleftrightarrow> is_digit c"
proof
  assume d: "(ucast c - 0x30 :: u32) \<le> 9"
  have u: "unat (ucast c :: u32) = unat c" by (rule unat_ucast_byte)
  have "(0x30 :: u32) \<le> ucast c"
  proof (rule ccontr)
    assume "\<not> (0x30 :: u32) \<le> ucast c"
    then have "unat c < 48" using u by (simp add: word_le_nat_alt)
    then have "unat (ucast c - 0x30 :: u32) = 2 ^ 32 + unat c - 48" using u by (simp add: unat_sub_if')
    then show False using d by (simp add: word_le_nat_alt)
  qed
  then show "is_digit c" using d u by (simp add: is_digit_def word_le_nat_alt unat_sub)
next
  assume "is_digit c"
  then show "(ucast c - 0x30 :: u32) \<le> 9" using digit_value(1,2) [of c] by (simp add: word_le_nat_alt)
qed

lemma digits_value_Cons: "digits_value n (c # cs) = digits_value (n * 10 + (unat c - 48)) cs"
  by (simp add: digits_value_def)

lemma digits_value_le: "n \<le> digits_value n cs"
proof (induction cs arbitrary: n)
  case (Cons c cs)
  show ?case using Cons [of "n * 10 + (unat c - 48)"] by (simp add: digits_value_Cons)
qed (simp add: digits_value_def)

lemma arrayindex_loop_value:
  "0 < n \<Longrightarrow> n < 2 ^ 32 \<Longrightarrow> arrayindex_loop cs blen (of_nat n)
    = (if (\<forall>c \<in> set cs. is_digit c) \<and> digits_value n cs < 2 ^ 32 then Some (of_nat (digits_value n cs)) else None)"
proof (induction cs arbitrary: n blen)
  case Nil
  then show ?case by (simp add: digits_value_def)
next
  case (Cons c cs)
  let ?dig = "ucast c - 0x30 :: u32" and ?n = "n * 10 + (unat c - 48)"
  have n: "unat (of_nat n :: u32) = n" using Cons.prems(2) by (simp add: unat_of_nat)
  show ?case
  proof (cases "is_digit c")
    case False
    then show ?thesis using digit_test [of c] by simp
  next
    case True
    note d = digit_value [OF True]
    have dig: "?dig = of_nat (unat c - 48)" using d(1) by (rule word_of_nat_eqI)
    have le9: "?dig \<le> 9" using digit_test True by blast
    show ?thesis
    proof (cases "?n < 2 ^ 32")
      case False
      then have "0x19999999 \<le> (of_nat n :: u32)" using n d(2) by (simp add: word_le_nat_alt)
      moreover have "0x1999999a \<le> (of_nat n :: u32) \<or> 6 \<le> ?dig"
        using n d(1,2) False by (auto simp: word_le_nat_alt)
      moreover have "\<not> digits_value ?n cs < 2 ^ 32" using digits_value_le [of ?n cs] False by linarith
      ultimately show ?thesis using le9 by (auto simp: digits_value_Cons Let_def)
    next
      case small: True
      have IH: "arrayindex_loop cs b (of_nat ?n) = (if (\<forall>c \<in> set cs. is_digit c) \<and> digits_value ?n cs < 2 ^ 32
          then Some (of_nat (digits_value ?n cs)) else None)" for b
        by (rule Cons.IH) (use Cons.prems(1) small in simp_all)
      have step: "(of_nat n :: u32) * 10 + ?dig = of_nat ?n" by (simp add: dig)
      have "arrayindex_loop (c # cs) blen (of_nat n) = arrayindex_loop cs (blen - 1) (of_nat ?n)"
      proof (cases "0x19999999 \<le> (of_nat n :: u32)")
        case True
        then have "n = 0x19999999" using n small by (simp add: word_le_nat_alt)
        moreover from this have "\<not> 0x1999999a \<le> (of_nat n :: u32)" "\<not> 6 \<le> ?dig"
          using d(1) small by (simp_all add: word_le_nat_alt)
        ultimately show ?thesis using le9 True by (simp add: dig)
      next
        case False
        have "unat (of_nat ?n :: u32) = ?n" using small by (simp only: unat_of_nat) simp
        then have "(of_nat ?n :: u32) \<noteq> 0" using Cons.prems(1) by (metis add_is_0 gr0_conv_Suc mult_is_0 nat.distinct(1) numeral_neq_zero unat_0)
        then show ?thesis using le9 False step by (simp add: Let_def)
      qed
      then show ?thesis using IH True by (simp add: digits_value_Cons)
    qed
  qed
qed

lemma decimal_digits:
  "0 < n \<Longrightarrow> \<forall>c \<in> set cs. is_digit c \<Longrightarrow> decimal (digits_value n cs) = decimal n @ cs"
proof (induction cs arbitrary: n)
  case Nil
  then show ?case by (simp add: digits_value_def)
next
  case (Cons c cs)
  note d = digit_value [of c]
  have "decimal (n * 10 + (unat c - 48)) = decimal n @ [c]"
    using Cons.prems d(2,3) by (subst decimal.simps) auto
  then show ?case using Cons by (simp add: digits_value_Cons)
qed

lemma digits_value_decimal: "digits_value 0 (decimal n) = n \<and> (\<forall>c \<in> set (decimal n). is_digit c) \<and> (0 < n \<longrightarrow> hd (decimal n) \<noteq> 0x30)"
proof (induction n rule: decimal.induct)
  case (1 n)
  have d: "unat (0x30 + of_nat m :: u8) - 48 = m \<and> is_digit (0x30 + of_nat m) \<and> (0 < m \<longrightarrow> 0x30 + of_nat m \<noteq> (0x30 :: u8))" if "m < 10" for m
  proof -
    have "m \<in> {0, 1, 2, 3, 4, 5, 6, 7, 8, 9}" using that by auto
    then show ?thesis by (auto simp: is_digit_def)
  qed
  show ?case
  proof (cases "n < 10")
    case True
    then show ?thesis using d [of n] by (subst (1 2 3) decimal.simps) (simp add: digits_value_def)
  next
    case False
    note IH = 1 [OF False]
    have ne: "decimal (n div 10) \<noteq> []" by (subst decimal.simps) simp
    have "digits_value 0 (decimal n) = digits_value 0 (decimal (n div 10)) * 10 + n mod 10"
      using False d [of "n mod 10"] by (subst decimal.simps) (simp add: digits_value_def)
    moreover have "hd (decimal n) = hd (decimal (n div 10))" "set (decimal n) = insert (0x30 + of_nat (n mod 10)) (set (decimal (n div 10)))"
      using False ne by (subst decimal.simps; simp)+
    ultimately show ?thesis using IH False d [of "n mod 10"] by (simp add: div_greater_zero_iff)
  qed
qed

lemma arrayindex_string_zero: "duk_js_to_arrayindex_string [0x30] = 0"
  by (simp add: duk_js_to_arrayindex_string_def)

lemma arrayindex_string_digit:
  assumes "is_digit c" "c \<noteq> 0x30" "length cs < 2 ^ 32 - 1"
  shows "duk_js_to_arrayindex_string (c # cs) = (if (\<forall>c \<in> set cs. is_digit c) \<and> digits_value 0 (c # cs) < 2 ^ 32
    then of_nat (digits_value 0 (c # cs)) else DUK_HSTRING_NO_ARRAY_INDEX)"
proof -
  note d = digit_value [OF assms(1)]
  have "unat c - 48 \<noteq> 0" using digit_nonzero [OF assms(1,2)] .
  then have pos: "0 < unat c - 48" "unat c - 48 < 2 ^ 32" using d(2) by simp_all
  have dig: "(ucast c - 0x30 :: u32) = of_nat (unat c - 48)" using d(1) by (rule word_of_nat_eqI)
  have "unat (of_nat (unat c - 48) :: u32) = unat c - 48" using d(1) unfolding dig .
  then have nz: "(of_nat (unat c - 48) :: u32) \<noteq> 0" using pos(1) by (metis less_irrefl unat_0)
  then have "arrayindex_loop (c # cs) b 0 = arrayindex_loop cs (b - 1) (of_nat (unat c - 48))" for b
  proof -
    have "(of_nat (unat c - 48) :: u32) \<le> 9" using assms(1) digit_test [of c] unfolding dig by blast
    then show ?thesis using nz unfolding arrayindex_loop.simps Let_def dig by (simp only: if_True if_False mult_zero_left add_0) simp
  qed
  then show ?thesis
    using arrayindex_loop_value [OF pos] by (simp add: duk_js_to_arrayindex_string_def digits_value_Cons)
qed

text \<open>
  C9: Array index strings.  The decimal form of a 32-bit number has at most ten bytes and is read back
  as this number; the one number that is not an array index is the mark for no index.  Conversely a
  string that is read as an array index is exactly the decimal form of that index.
\<close>

theorem array_index_strings:
  assumes "length str < 2 ^ 32 - 1"
  shows "length (u32_digits val []) \<le> 10 \<and> duk_js_to_arrayindex_string (u32_digits val []) = val
    \<and> (duk_js_to_arrayindex_string str \<noteq> DUK_HSTRING_NO_ARRAY_INDEX
        \<longrightarrow> u32_digits (duk_js_to_arrayindex_string str) [] = str)"
proof -
  have len: "length (u32_digits val []) \<le> 10"
  proof -
    have "unat val < 2 ^ 32" using unsigned_less [of val] by simp
    then show ?thesis using decimal_length [of "unat val" 10] by (simp add: u32_digits_decimal)
  qed
  have "duk_js_to_arrayindex_string (decimal (unat val)) = val"
  proof (cases "val = 0")
    case True
    then show ?thesis using arrayindex_string_zero by (subst decimal.simps) simp
  next
    case False
    then have "0 < unat val" by (simp add: unat_gt_0)
    note v = digits_value_decimal [of "unat val"]
    have "decimal (unat val) \<noteq> []" by (subst decimal.simps) simp
    then obtain c cs where c: "decimal (unat val) = c # cs" by (cases "decimal (unat val)") simp_all
    have l: "length cs < 2 ^ 32 - 1" using len by (simp add: u32_digits_decimal c)
    have "is_digit c" "c \<noteq> 0x30" "\<forall>c \<in> set cs. is_digit c" "digits_value 0 (c # cs) = unat val"
      using v \<open>0 < unat val\<close> by (simp_all add: c)
    moreover have "unat val < 2 ^ 32" using unsigned_less [of val] by simp
    ultimately show ?thesis using arrayindex_string_digit [OF _ _ l] by (simp add: c)
  qed
  moreover have "decimal (unat (duk_js_to_arrayindex_string str)) = str"
    if v: "duk_js_to_arrayindex_string str \<noteq> DUK_HSTRING_NO_ARRAY_INDEX"
  proof (cases str)
    case Nil
    then show ?thesis using v by (simp add: duk_js_to_arrayindex_string_def)
  next
    case (Cons c cs)
    have "is_digit c" using v digit_test [of c] by (auto simp: Cons duk_js_to_arrayindex_string_def Let_def split: if_splits)
    show ?thesis
    proof (cases "c = 0x30")
      case True
      have "of_nat (length str) = (1 :: u32)"
        using v True by (auto simp: Cons duk_js_to_arrayindex_string_def Let_def split: if_splits)
      then have "length str = 1" using assms by (simp add: word_unat_eq_iff unat_of_nat)
      then have "str = [0x30]" using Cons True by simp
      then show ?thesis by (simp add: arrayindex_string_zero decimal.simps)
    next
      case False
      note p = arrayindex_string_digit [OF \<open>is_digit c\<close> False, of cs]
      have d: "(\<forall>c \<in> set cs. is_digit c) \<and> digits_value 0 (c # cs) < 2 ^ 32"
        using p v assms by (auto simp: Cons split: if_splits)
      then have "unat (duk_js_to_arrayindex_string str) = digits_value 0 (c # cs)"
        using p assms by (simp add: Cons unat_of_nat)
      moreover have "unat c - 48 \<noteq> 0" using digit_nonzero [OF \<open>is_digit c\<close> False] .
      moreover have "decimal (unat c - 48) = [c]"
        using digit_value(2,3) [OF \<open>is_digit c\<close>] by (subst decimal.simps) simp
      ultimately show ?thesis
        using decimal_digits [of "unat c - 48" cs] d by (simp add: Cons digits_value_Cons)
    qed
  qed
  ultimately show ?thesis using len by (simp add: u32_digits_decimal)
qed

theorem array_index_strings_witness:
  "duk_js_to_arrayindex_string (u32_digits 4294967294 []) = 4294967294 \<and> length (u32_digits 4294967294 []) \<le> 10"
  using array_index_strings [of "[]" 4294967294] by simp

end
