(* ===== verification/Strtable.thy ===== *)
theory Strtable
  imports Arrayindex "HOL-Library.Monad_Syntax" "HOL-Library.Multiset"
begin

text \<open>
  The string table (\<^verbatim>\<open>duk_heap_stringtable.c\<close> part of \<^verbatim>\<open>duktape.c\<close>): a hash table with chains that
  holds every string of the heap, so that equal strings are one object and are compared by their
  pointers.

  The strings are records in a memory; a chain is linked through the strings themselves, and growing,
  shrinking and removal work on these links.  The memory is a partial map, a freed string is removed
  from it, and an access to a freed string is \<open>None\<close>.  A result \<open>None\<close> of a function is such an
  access, or a loop that does not end.

  An allocation may run garbage collections, and these work on the table, too.  They enter as the
  events of the allocation: a collection frees the strings that it did not reach; an emergency
  collection then compacts objects, which may intern array indices as keys, and checks the table size.
  The address of a new string is the parameter \<open>malloc\<close>, a function of the memory.
\<close>

unbundle bit_operations_syntax

type_synonym str_ptr = nat

record duk_hstring =
  h_next :: "str_ptr option"
  h_hash :: u32
  str_data :: "u8 list"
  arridx :: u32
  has_arridx :: bool
  has_ascii :: bool
  has_symbol :: bool
  has_hidden :: bool
  has_pinned_literal :: bool

type_synonym str_memory = "str_ptr \<rightharpoonup> duk_hstring"

record string_table =
  str_mem :: str_memory
  strtable :: "str_ptr option list"
  st_size :: u32
  st_mask :: u32
  st_count :: u32
  st_resizing :: bool
  hash_seed :: u32
  pf_prevent_count :: u32
  litcache :: "(u64 \<times> str_ptr) list"

subsection \<open>Hashing and allocation of strings\<close>

function hashstring_loop :: "u8 list \<Rightarrow> nat \<Rightarrow> nat \<Rightarrow> u32 \<Rightarrow> u32" where
  "hashstring_loop str step off hash =
    (if step > 0 \<and> off \<ge> step then hashstring_loop str step (off - step) (hash * 33 + ucast (str ! (off - 1)))
     else hash)"
  by pat_completeness auto
termination by (relation "measure (\<lambda>(str, step, off, hash). off)") auto

declare hashstring_loop.simps [simp del]

definition duk_heap_hashstring :: "u32 \<Rightarrow> u8 list \<Rightarrow> u32" where
  "duk_heap_hashstring seed str =
    (let len = length str; step = drop_bit 5 len + 1
     in hashstring_loop str step len (seed XOR of_nat len))"

definition duk__strtable_alloc_hstring :: "u8 list \<Rightarrow> u32 \<Rightarrow> duk_hstring" where
  "duk__strtable_alloc_hstring str strhash =
    (let idx = duk_js_to_arrayindex_string str;
         is_idx = (idx \<noteq> DUK_HSTRING_NO_ARRAY_INDEX);
         data0 = (if str = [] then 0 else str ! 0);
         special = (\<not> is_idx \<and> data0 \<ge> 0x80)
     in \<lparr>h_next = None, h_hash = strhash, str_data = str, arridx = idx, has_arridx = is_idx, has_ascii = is_idx,
         has_symbol = (special \<and> (data0 \<le> 0x81 \<or> data0 = 0x82 \<or> data0 = 0xff)),
         has_hidden = (special \<and> \<not> data0 \<le> 0x81 \<and> (data0 = 0x82 \<or> data0 = 0xff)),
         has_pinned_literal = False\<rparr>)"

subsection \<open>Growing and shrinking\<close>

text \<open>One bucket is split by the new hash bit, within its chain.\<close>

partial_function (option) rehash_bucket ::
    "u32 \<Rightarrow> str_memory \<Rightarrow> str_ptr option \<Rightarrow> str_ptr option \<Rightarrow> str_ptr option \<Rightarrow> str_ptr option
      \<Rightarrow> (str_memory \<times> str_ptr option \<times> str_ptr option) option" where
  "rehash_bucket new_bit m h prev new_root new_root_high =
    (case h of
       None \<Rightarrow> Some (m, new_root, new_root_high)
     | Some a \<Rightarrow> do {
         s \<leftarrow> m a;
         (if h_hash s AND new_bit \<noteq> 0 then do {
            (m, new_root) \<leftarrow> (case prev of
                Some p \<Rightarrow> do { q \<leftarrow> m p; Some (m(p \<mapsto> q\<lparr>h_next := h_next s\<rparr>), new_root) }
              | None \<Rightarrow> Some (m, h_next s));
            rehash_bucket new_bit (m(a \<mapsto> s\<lparr>h_next := new_root_high\<rparr>)) (h_next s) prev new_root (Some a)
          }
          else rehash_bucket new_bit m (h_next s) (Some a) new_root new_root_high)
       })"

fun grow_buckets :: "u32 \<Rightarrow> str_memory \<Rightarrow> str_ptr option list \<Rightarrow> (str_memory \<times> str_ptr option list \<times> str_ptr option list) option" where
  "grow_buckets new_bit m [] = Some (m, [], [])"
| "grow_buckets new_bit m (b # bs) = do {
     (m, r, rh) \<leftarrow> rehash_bucket new_bit m b None b None;
     (m, rs, rhs) \<leftarrow> grow_buckets new_bit m bs;
     Some (m, r # rs, rh # rhs) }"

text \<open>The events of the reallocation come first: the effect \<open>gc\<close> on the table.\<close>

definition duk__strtable_grow_inplace ::
    "(string_table \<Rightarrow> string_table option) \<Rightarrow> bool \<Rightarrow> string_table \<Rightarrow> string_table option" where
  "duk__strtable_grow_inplace gc ok T = do {
     let new_st_size = push_bit 1 (st_size T);
     T \<leftarrow> gc T;
     (if \<not> ok then Some T
      else do {
        (m, lo, hi) \<leftarrow> grow_buckets (st_size T) (str_mem T) (strtable T);
        Some (T\<lparr>str_mem := m, strtable := lo @ hi, st_size := new_st_size, st_mask := new_st_size - 1\<rparr>) }) }"

text \<open>Two buckets become one: the second chain is linked to the end of the first one.\<close>

partial_function (option) link_end :: "str_memory \<Rightarrow> str_ptr \<Rightarrow> str_ptr option \<Rightarrow> str_memory option" where
  "link_end m h other = do {
     s \<leftarrow> m h;
     (case h_next s of
        Some n \<Rightarrow> link_end m n other
      | None \<Rightarrow> Some (m(h \<mapsto> s\<lparr>h_next := other\<rparr>))) }"

fun shrink_buckets :: "str_memory \<Rightarrow> str_ptr option list \<Rightarrow> str_ptr option list \<Rightarrow> (str_memory \<times> str_ptr option list) option" where
  "shrink_buckets m (b # bs) (other # os) = do {
     (m, root) \<leftarrow> (case b of
         None \<Rightarrow> Some (m, other)
       | Some h \<Rightarrow> do { m \<leftarrow> link_end m h other; Some (m, Some h) });
     (m, roots) \<leftarrow> shrink_buckets m bs os;
     Some (m, root # roots) }"
| "shrink_buckets m _ _ = Some (m, [])"

definition duk__strtable_shrink_inplace ::
    "(string_table \<Rightarrow> string_table option) \<Rightarrow> string_table \<Rightarrow> string_table option" where
  "duk__strtable_shrink_inplace gc T = do {
     let new_st_size = drop_bit 1 (st_size T);
     let n = unat new_st_size;
     (m, roots) \<leftarrow> shrink_buckets (str_mem T) (take n (strtable T)) (drop n (strtable T));
     gc (T\<lparr>str_mem := m, strtable := roots, st_size := new_st_size, st_mask := new_st_size - 1\<rparr>) }"

definition DUK_USE_STRTAB_GROW_LIMIT :: u32 where "DUK_USE_STRTAB_GROW_LIMIT = 17"
definition DUK_USE_STRTAB_MAXSIZE :: u32 where "DUK_USE_STRTAB_MAXSIZE = 268435456"
definition DUK_USE_STRTAB_MINSIZE :: u32 where "DUK_USE_STRTAB_MINSIZE = 1024"
definition DUK_USE_STRTAB_RESIZE_CHECK_MASK :: u32 where "DUK_USE_STRTAB_RESIZE_CHECK_MASK = 255"
definition DUK_USE_STRTAB_SHRINK_LIMIT :: u32 where "DUK_USE_STRTAB_SHRINK_LIMIT = 6"

definition duk__strtable_resize_check ::
    "(string_table \<Rightarrow> string_table option) \<Rightarrow> bool \<Rightarrow> string_table \<Rightarrow> string_table option" where
  "duk__strtable_resize_check gc ok T =
    (if st_resizing T then Some T
     else do {
       let T = T\<lparr>st_resizing := True\<rparr>;
       let load_factor = st_count T div drop_bit 4 (st_size T);
       T \<leftarrow> (if load_factor \<ge> DUK_USE_STRTAB_GROW_LIMIT then
                (if st_size T \<ge> DUK_USE_STRTAB_MAXSIZE then Some T else duk__strtable_grow_inplace gc ok T)
             else if load_factor \<le> DUK_USE_STRTAB_SHRINK_LIMIT then
                (if st_size T \<le> DUK_USE_STRTAB_MINSIZE then Some T else duk__strtable_shrink_inplace gc T)
             else Some T);
       Some (T\<lparr>st_resizing := False\<rparr>) })"

subsection \<open>Interning\<close>

text \<open>What an allocator call does: the effect of its collections on the table, and its success.\<close>

record alloc_calls =
  realloc_gc :: "string_table \<Rightarrow> string_table option"
  realloc_ok :: bool
  alloc_gc :: "string_table \<Rightarrow> string_table option"
  alloc_ok :: bool

definition duk__strtable_do_intern ::
    "(str_memory \<Rightarrow> str_ptr) \<Rightarrow> alloc_calls \<Rightarrow> string_table \<Rightarrow> u8 list \<Rightarrow> u32 \<Rightarrow> (string_table \<times> str_ptr option) option" where
  "duk__strtable_do_intern malloc A T str strhash = do {
     let T = T\<lparr>pf_prevent_count := pf_prevent_count T + 1\<rparr>;
     T \<leftarrow> (if st_count T AND DUK_USE_STRTAB_RESIZE_CHECK_MASK = 0
           then duk__strtable_resize_check (realloc_gc A) (realloc_ok A) T else Some T);
     T \<leftarrow> alloc_gc A T;
     let T = T\<lparr>pf_prevent_count := pf_prevent_count T - 1\<rparr>;
     (if \<not> alloc_ok A then Some (T, None)
      else do {
        let res = malloc (str_mem T);
        let slot = unat (strhash AND st_mask T);
        let s = (duk__strtable_alloc_hstring str strhash)\<lparr>h_next := strtable T ! slot\<rparr>;
        Some (T\<lparr>str_mem := (str_mem T)(res \<mapsto> s), strtable := (strtable T)[slot := Some res],
            st_count := st_count T + 1\<rparr>, Some res) }) }"

partial_function (option) find_string :: "str_memory \<Rightarrow> str_ptr option \<Rightarrow> u8 list \<Rightarrow> u32 \<Rightarrow> str_ptr option option" where
  "find_string m h str strhash =
    (case h of
       None \<Rightarrow> Some None
     | Some a \<Rightarrow> do {
         s \<leftarrow> m a;
         (if h_hash s = strhash \<and> length (str_data s) = length str \<and> str_data s = str then Some (Some a)
          else find_string m (h_next s) str strhash) })"

definition duk_heap_strtable_intern ::
    "(str_memory \<Rightarrow> str_ptr) \<Rightarrow> alloc_calls \<Rightarrow> string_table \<Rightarrow> u8 list \<Rightarrow> (string_table \<times> str_ptr option) option" where
  "duk_heap_strtable_intern malloc A T str = do {
     let strhash = duk_heap_hashstring (hash_seed T) str;
     h \<leftarrow> find_string (str_mem T) (strtable T ! unat (strhash AND st_mask T)) str strhash;
     (case h of
        Some h \<Rightarrow> Some (T, Some h)
      | None \<Rightarrow> duk__strtable_do_intern malloc A T str strhash) }"

definition duk_heap_strtable_intern_u32 ::
    "(str_memory \<Rightarrow> str_ptr) \<Rightarrow> alloc_calls \<Rightarrow> string_table \<Rightarrow> u32 \<Rightarrow> (string_table \<times> str_ptr option) option" where
  "duk_heap_strtable_intern_u32 malloc A T val = duk_heap_strtable_intern malloc A T (u32_digits val [])"

definition duk_heap_strtable_intern_checked ::
    "(str_memory \<Rightarrow> str_ptr) \<Rightarrow> alloc_calls \<Rightarrow> string_table \<Rightarrow> u8 list \<Rightarrow> (string_table \<times> str_ptr result) option" where
  "duk_heap_strtable_intern_checked malloc A T str = do {
     (T, res) \<leftarrow> duk_heap_strtable_intern malloc A T str;
     Some (T, case res of None \<Rightarrow> Inl AllocFailed | Some h \<Rightarrow> Inr h) }"

definition duk_heap_strtable_intern_u32_checked ::
    "(str_memory \<Rightarrow> str_ptr) \<Rightarrow> alloc_calls \<Rightarrow> string_table \<Rightarrow> u32 \<Rightarrow> (string_table \<times> str_ptr result) option" where
  "duk_heap_strtable_intern_u32_checked malloc A T val = do {
     (T, res) \<leftarrow> duk_heap_strtable_intern_u32 malloc A T val;
     Some (T, case res of None \<Rightarrow> Inl AllocFailed | Some h \<Rightarrow> Inr h) }"

definition DUK_USE_LITCACHE_SIZE :: u64 where "DUK_USE_LITCACHE_SIZE = 256"

definition duk__strtable_litcache_key :: "u64 \<Rightarrow> u32 \<Rightarrow> u32" where
  "duk__strtable_litcache_key str blen =
    ucast ((ucast blen XOR str) AND (DUK_USE_LITCACHE_SIZE - 1))"

text \<open>The bytes of a literal are those that the program has at its address.\<close>

definition duk_heap_strtable_intern_literal_checked ::
    "(str_memory \<Rightarrow> str_ptr) \<Rightarrow> alloc_calls \<Rightarrow> (u64 \<Rightarrow> u8 list) \<Rightarrow> string_table \<Rightarrow> u64 \<Rightarrow> (string_table \<times> str_ptr result) option" where
  "duk_heap_strtable_intern_literal_checked malloc A literal T addr = do {
     let key = unat (duk__strtable_litcache_key addr (of_nat (length (literal addr))));
     let ent = litcache T ! key;
     (if fst ent = addr then Some (T, Inr (snd ent))
      else do {
        (T, r) \<leftarrow> duk_heap_strtable_intern_checked malloc A T (literal addr);
        (case r of
           Inl e \<Rightarrow> Some (T, Inl e)
         | Inr h \<Rightarrow> do {
             let T = T\<lparr>litcache := (litcache T)[key := (addr, h)]\<rparr>;
             s \<leftarrow> str_mem T h;
             (if \<not> has_pinned_literal s
              then Some (T\<lparr>str_mem := (str_mem T)(h \<mapsto> s\<lparr>has_pinned_literal := True\<rparr>)\<rparr>, Inr h)
              else Some (T, Inr h)) }) }) }"

subsection \<open>Removal\<close>

partial_function (option) find_prev :: "str_memory \<Rightarrow> str_ptr option \<Rightarrow> str_ptr option \<Rightarrow> str_ptr \<Rightarrow> str_ptr option option" where
  "find_prev m other prev h =
    (if other = Some h then Some prev
     else do {
       a \<leftarrow> other;
       s \<leftarrow> m a;
       find_prev m (h_next s) other h })"

definition duk_heap_strtable_unlink :: "string_table \<Rightarrow> str_ptr \<Rightarrow> string_table option" where
  "duk_heap_strtable_unlink T h = do {
     let T = T\<lparr>st_count := st_count T - 1\<rparr>;
     s \<leftarrow> str_mem T h;
     let slot = unat (h_hash s AND st_mask T);
     prev \<leftarrow> find_prev (str_mem T) (strtable T ! slot) None h;
     (case prev of
        Some p \<Rightarrow> do {
          q \<leftarrow> str_mem T p;
          Some (T\<lparr>str_mem := (str_mem T)(p \<mapsto> q\<lparr>h_next := h_next s\<rparr>)\<rparr>) }
      | None \<Rightarrow> Some (T\<lparr>strtable := (strtable T)[slot := h_next s]\<rparr>)) }"

definition duk_heap_strtable_unlink_prev :: "string_table \<Rightarrow> str_ptr \<Rightarrow> str_ptr option \<Rightarrow> string_table option" where
  "duk_heap_strtable_unlink_prev T h prev = do {
     let T = T\<lparr>st_count := st_count T - 1\<rparr>;
     s \<leftarrow> str_mem T h;
     (case prev of
        Some p \<Rightarrow> do {
          q \<leftarrow> str_mem T p;
          Some (T\<lparr>str_mem := (str_mem T)(p \<mapsto> q\<lparr>h_next := h_next s\<rparr>)\<rparr>) }
      | None \<Rightarrow> Some (T\<lparr>strtable := (strtable T)[unat (h_hash s AND st_mask T) := h_next s]\<rparr>)) }"

definition duk_free_hstring :: "string_table \<Rightarrow> str_ptr \<Rightarrow> string_table" where
  "duk_free_hstring T h = T\<lparr>str_mem := (str_mem T)(h := None)\<rparr>"

definition duk__hstring_refzero_helper :: "string_table \<Rightarrow> str_ptr \<Rightarrow> string_table option" where
  "duk__hstring_refzero_helper T h = do {
     T \<leftarrow> duk_heap_strtable_unlink T h;
     Some (duk_free_hstring T h) }"

subsection \<open>Collections\<close>

partial_function (option) sweep_chain :: "(str_ptr \<Rightarrow> bool) \<Rightarrow> string_table \<Rightarrow> str_ptr option \<Rightarrow> str_ptr option \<Rightarrow> string_table option" where
  "sweep_chain reachable T h prev =
    (case h of
       None \<Rightarrow> Some T
     | Some a \<Rightarrow> do {
         s \<leftarrow> str_mem T a;
         (if reachable a then sweep_chain reachable T (h_next s) (Some a)
          else do {
            T \<leftarrow> duk_heap_strtable_unlink_prev T a prev;
            sweep_chain reachable (duk_free_hstring T a) (h_next s) prev }) })"

fun sweep_strings :: "(str_ptr \<Rightarrow> bool) \<Rightarrow> nat \<Rightarrow> string_table \<Rightarrow> string_table option" where
  "sweep_strings reachable 0 T = Some T"
| "sweep_strings reachable (Suc n) T = do {
     T \<leftarrow> sweep_strings reachable n T;
     sweep_chain reachable T (strtable T ! n) None }"

definition duk__wipe_litcache :: "string_table \<Rightarrow> string_table" where
  "duk__wipe_litcache T = T\<lparr>litcache := map (\<lambda>(addr, h). (0, h)) (litcache T)\<rparr>"

definition duk_heap_strtable_force_resize ::
    "(string_table \<Rightarrow> string_table option) \<Rightarrow> bool \<Rightarrow> string_table \<Rightarrow> string_table option" where
  "duk_heap_strtable_force_resize gc ok T = duk__strtable_resize_check gc ok T"

text \<open>
  What a mark-and-sweep does to the table.  No collection runs inside another one, so the allocator
  calls of these steps are without events.
\<close>

datatype table_event =
    Collect "str_ptr \<Rightarrow> bool"
  | Compact_key u32 bool bool
  | Resize bool

definition quiet :: "bool \<Rightarrow> bool \<Rightarrow> alloc_calls" where
  "quiet rok ok = \<lparr>realloc_gc = Some, realloc_ok = rok, alloc_gc = Some, alloc_ok = ok\<rparr>"

fun gc_event :: "(str_memory \<Rightarrow> str_ptr) \<Rightarrow> table_event \<Rightarrow> string_table \<Rightarrow> string_table option" where
  "gc_event malloc (Collect reachable) T = sweep_strings reachable (unat (st_size T)) (duk__wipe_litcache T)"
| "gc_event malloc (Compact_key val rok ok) T =
    map_option fst (duk_heap_strtable_intern_u32_checked malloc (quiet rok ok) T val)"
| "gc_event malloc (Resize ok) T = duk_heap_strtable_force_resize Some ok T"

fun gc_events :: "(str_memory \<Rightarrow> str_ptr) \<Rightarrow> table_event list \<Rightarrow> string_table \<Rightarrow> string_table option" where
  "gc_events malloc [] T = Some T"
| "gc_events malloc (ev # evs) T = do { T \<leftarrow> gc_event malloc ev T; gc_events malloc evs T }"

subsection \<open>Operations on a table\<close>

text \<open>The events of the two allocator calls of an interning operation, and their success.\<close>

record intern_calls =
  realloc_events :: "table_event list"
  realloc_succeeds :: bool
  alloc_events :: "table_event list"
  alloc_succeeds :: bool

definition calls :: "(str_memory \<Rightarrow> str_ptr) \<Rightarrow> intern_calls \<Rightarrow> alloc_calls" where
  "calls malloc c = \<lparr>realloc_gc = gc_events malloc (realloc_events c), realloc_ok = realloc_succeeds c,
     alloc_gc = gc_events malloc (alloc_events c), alloc_ok = alloc_succeeds c\<rparr>"

datatype table_op =
    Intern "u8 list" intern_calls
  | Intern_u32 u32 intern_calls
  | Intern_literal u64 intern_calls
  | Free_string str_ptr
  | Gc "table_event list"

fun table_step :: "(str_memory \<Rightarrow> str_ptr) \<Rightarrow> (u64 \<Rightarrow> u8 list) \<Rightarrow> table_op \<Rightarrow> string_table \<Rightarrow> string_table option" where
  "table_step malloc literal (Intern str c) T = map_option fst (duk_heap_strtable_intern_checked malloc (calls malloc c) T str)"
| "table_step malloc literal (Intern_u32 val c) T = map_option fst (duk_heap_strtable_intern_u32_checked malloc (calls malloc c) T val)"
| "table_step malloc literal (Intern_literal addr c) T
    = map_option fst (duk_heap_strtable_intern_literal_checked malloc (calls malloc c) literal T addr)"
| "table_step malloc literal (Free_string h) T = duk__hstring_refzero_helper T h"
| "table_step malloc literal (Gc evs) T = gc_events malloc evs T"

definition strtable_init :: "u32 \<Rightarrow> string_table" where
  "strtable_init seed = \<lparr>str_mem = Map.empty, strtable = replicate (unat DUK_USE_STRTAB_MINSIZE) None,
     st_size = DUK_USE_STRTAB_MINSIZE, st_mask = DUK_USE_STRTAB_MINSIZE - 1, st_count = 0, st_resizing = False,
     hash_seed = seed, pf_prevent_count = 0, litcache = replicate (unat DUK_USE_LITCACHE_SIZE) (0, 0)\<rparr>"

subsection \<open>Chains\<close>

fun chain :: "str_memory \<Rightarrow> str_ptr option \<Rightarrow> str_ptr list \<Rightarrow> bool" where
  "chain m p [] \<longleftrightarrow> p = None"
| "chain m p (a # as) \<longleftrightarrow> p = Some a \<and> (\<exists>s. m a = Some s \<and> chain m (h_next s) as)"

lemma chain_cong: "(\<And>a. a \<in> set as \<Longrightarrow> m' a = m a) \<Longrightarrow> chain m' p as = chain m p as"
  by (induction as arbitrary: p) auto

lemma chain_other [simp]: "a \<notin> set as \<Longrightarrow> chain (m(a := v)) p as = chain m p as"
  by (rule chain_cong) auto

lemma chain_None [simp]: "chain m None as \<longleftrightarrow> as = []"
  by (cases as) simp_all

lemma chain_head: "chain m p as \<Longrightarrow> p = (if as = [] then None else Some (hd as))"
  by (cases as) auto

lemma chain_at: "chain m p (xs @ a # ys) \<Longrightarrow> \<exists>s. m a = Some s \<and> chain m (h_next s) ys"
  by (induction xs arbitrary: p) auto

lemma chain_redirect:
  "chain m p (xs @ a # ys) \<Longrightarrow> m a = Some t \<Longrightarrow> chain m q zs \<Longrightarrow> a \<notin> set xs \<Longrightarrow> a \<notin> set zs \<Longrightarrow>
    chain (m(a \<mapsto> t\<lparr>h_next := q\<rparr>)) p (xs @ a # zs)"
  by (induction xs arbitrary: p) auto

lemma chain_mem: "chain m p as \<Longrightarrow> a \<in> set as \<Longrightarrow> \<exists>s. m a = Some s"
  by (induction as arbitrary: p) auto

text \<open>The strings without their links.\<close>

definition content :: "str_memory \<Rightarrow> str_memory" where
  "content m a = map_option (\<lambda>s. s\<lparr>h_next := None\<rparr>) (m a)"

definition hash_of :: "str_memory \<Rightarrow> str_ptr \<Rightarrow> u32" where
  "hash_of m a = (case m a of Some s \<Rightarrow> h_hash s | None \<Rightarrow> 0)"

lemma content_relink [simp]: "m a = Some t \<Longrightarrow> content (m(a \<mapsto> t\<lparr>h_next := q\<rparr>)) = content m"
  by (rule ext) (simp add: content_def)

lemma content_hash: "content m' = content m \<Longrightarrow> hash_of m' = hash_of m"
proof
  fix a
  assume "content m' = content m"
  then have "content m' a = content m a" by simp
  then show "hash_of m' a = hash_of m a"
    by (cases "m a"; cases "m' a") (simp_all add: content_def hash_of_def, metis duk_hstring.select_convs(2) duk_hstring.surjective duk_hstring.update_convs(1))
qed

text \<open>Splitting a bucket: the strings up to \<open>prev\<close> stay, the ones seen with the new bit wait in reverse order.\<close>

lemma rehash_bucket_chain:
  "chain m new_root (low @ as) \<Longrightarrow> chain m high hs \<Longrightarrow> h = (if as = [] then None else Some (hd as)) \<Longrightarrow>
    prev = (if low = [] then None else Some (last low)) \<Longrightarrow> distinct (low @ as @ hs) \<Longrightarrow>
    \<exists>m' r rh. rehash_bucket new_bit m h prev new_root high = Some (m', r, rh)
      \<and> chain m' r (low @ filter (\<lambda>a. hash_of m a AND new_bit = 0) as)
      \<and> chain m' rh (rev (filter (\<lambda>a. hash_of m a AND new_bit \<noteq> 0) as) @ hs)
      \<and> content m' = content m \<and> (\<forall>a. a \<notin> set (low @ as @ hs) \<longrightarrow> m' a = m a)"
proof (induction as arbitrary: m low hs h prev new_root high)
  case Nil
  then show ?case by (subst rehash_bucket.simps) auto
next
  case (Cons a as)
  obtain s where s: "m a = Some s" "chain m (h_next s) as" using chain_at [OF Cons.prems(1)] by blast
  have h: "h = Some a" using Cons.prems(3) by simp
  have hash: "hash_of m a = h_hash s" using s(1) by (simp add: hash_of_def)
  have nxt: "h_next s = (if as = [] then None else Some (hd as))" using chain_head [OF s(2)] .
  show ?case
  proof (cases "h_hash s AND new_bit = 0")
    case True
    have "\<exists>m' r rh. rehash_bucket new_bit m (h_next s) (Some a) new_root high = Some (m', r, rh)
      \<and> chain m' r ((low @ [a]) @ filter (\<lambda>a. hash_of m a AND new_bit = 0) as)
      \<and> chain m' rh (rev (filter (\<lambda>a. hash_of m a AND new_bit \<noteq> 0) as) @ hs)
      \<and> content m' = content m \<and> (\<forall>x. x \<notin> set ((low @ [a]) @ as @ hs) \<longrightarrow> m' x = m x)"
      by (rule Cons.IH) (use Cons.prems nxt in \<open>simp_all\<close>)
    then show ?thesis using True s(1) h hash by (subst rehash_bucket.simps) simp
  next
    case False
    define root' where "root' = (if low = [] then h_next s else new_root)"
    define m1 where "m1 = (if low = [] then m else m(last low \<mapsto> (the (m (last low)))\<lparr>h_next := h_next s\<rparr>))"
    define m2 where "m2 = m1(a \<mapsto> s\<lparr>h_next := high\<rparr>)"
    have low: "low \<noteq> [] \<Longrightarrow> \<exists>q. m (last low) = Some q" "low \<noteq> [] \<Longrightarrow> last low \<noteq> a"
      "low \<noteq> [] \<Longrightarrow> last low \<in> set low"
      using chain_mem [OF Cons.prems(1)] Cons.prems(5) by (auto dest: last_in_set)
    have step: "rehash_bucket new_bit m h prev new_root high = rehash_bucket new_bit m2 (h_next s) prev root' (Some a)"
      using False s(1) h Cons.prems(4) low(1) by (subst rehash_bucket.simps) (auto simp: m2_def m1_def root'_def)
    have c1: "content m1 = content m" using low(1) by (cases "low = []") (auto simp: m1_def)
    moreover have s1: "m1 a = Some s" using s(1) low(2) by (auto simp: m1_def)
    ultimately have c2: "content m2 = content m" by (simp add: m2_def)
    have "chain m1 root' (low @ as)"
    proof (cases "low = []")
      case True
      then show ?thesis using s(2) by (simp add: m1_def root'_def)
    next
      case False
      then obtain xs l where xs: "low = xs @ [l]" by (metis append_butlast_last_id)
      obtain q where "m l = Some q" using low(1) False xs by auto
      then show ?thesis
        using chain_redirect [of m new_root xs l "a # as" q "h_next s" as] Cons.prems(1,5) s(2) False
        by (simp add: xs m1_def root'_def)
    qed
    then have root: "chain m2 root' (low @ as)" using Cons.prems(5) by (simp add: m2_def)
    have "chain m1 high hs"
    proof (cases "low = []")
      case False
      then have "last low \<notin> set hs" using Cons.prems(5) low(3) by (simp add: disjoint_iff)
      then show ?thesis using Cons.prems(2) by (simp add: m1_def)
    qed (simp add: m1_def Cons.prems(2))
    then have high: "chain m2 (Some a) (a # hs)" using Cons.prems(5) by (simp add: m2_def)
    have "\<exists>m' r rh. rehash_bucket new_bit m2 (h_next s) prev root' (Some a) = Some (m', r, rh)
      \<and> chain m' r (low @ filter (\<lambda>a. hash_of m2 a AND new_bit = 0) as)
      \<and> chain m' rh (rev (filter (\<lambda>a. hash_of m2 a AND new_bit \<noteq> 0) as) @ (a # hs))
      \<and> content m' = content m2 \<and> (\<forall>x. x \<notin> set (low @ as @ (a # hs)) \<longrightarrow> m' x = m2 x)"
      by (rule Cons.IH [OF root high nxt Cons.prems(4)]) (use Cons.prems(5) in auto)
    moreover have "m2 x = m x" if "x \<notin> set (low @ as @ (a # hs))" for x
      using that low(3) by (auto simp: m2_def m1_def)
    ultimately show ?thesis using step False c2 content_hash [OF c2] hash by auto
  qed
qed

text \<open>All buckets of a table; \<open>css\<close> are the chains.\<close>

abbreviation chains :: "str_memory \<Rightarrow> str_ptr option list \<Rightarrow> str_ptr list list \<Rightarrow> bool" where
  "chains m \<equiv> list_all2 (chain m)"

lemma chains_cong: "(\<And>a. a \<in> set (concat css) \<Longrightarrow> m' a = m a) \<Longrightarrow> chains m' bs css = chains m bs css"
proof -
  assume eq: "\<And>a. a \<in> set (concat css) \<Longrightarrow> m' a = m a"
  have "chain m' p cs = chain m p cs" if "cs \<in> set css" for p cs
    using that eq by (intro chain_cong) auto
  then show ?thesis by (metis (no_types, lifting) list_all2_mono list_all2_conv_all_nth nth_mem)
qed

lemma grow_buckets_chains:
  "chains m bs css \<Longrightarrow> distinct (concat css) \<Longrightarrow>
    \<exists>m' lo hi. grow_buckets new_bit m bs = Some (m', lo, hi)
      \<and> chains m' lo (map (filter (\<lambda>a. hash_of m a AND new_bit = 0)) css)
      \<and> chains m' hi (map (\<lambda>cs. rev (filter (\<lambda>a. hash_of m a AND new_bit \<noteq> 0) cs)) css)
      \<and> content m' = content m \<and> (\<forall>a. a \<notin> set (concat css) \<longrightarrow> m' a = m a)"
proof (induction css arbitrary: m bs)
  case (Cons cs css)
  then obtain b bs' where bs: "bs = b # bs'" "chain m b cs" "chains m bs' css" by (auto simp: list_all2_Cons2)
  have d: "distinct cs" "distinct (concat css)" "set cs \<inter> set (concat css) = {}" using Cons.prems(2) by auto
  obtain m1 r rh where r: "rehash_bucket new_bit m b None b None = Some (m1, r, rh)"
      "chain m1 r (filter (\<lambda>a. hash_of m a AND new_bit = 0) cs)"
      "chain m1 rh (rev (filter (\<lambda>a. hash_of m a AND new_bit \<noteq> 0) cs))"
      "content m1 = content m" "\<forall>a. a \<notin> set cs \<longrightarrow> m1 a = m a"
    using rehash_bucket_chain [of m b "[]" cs None "[]" b None new_bit] bs(2) chain_head [OF bs(2)] d(1) by auto
  have "chains m1 bs' css" using bs(3) r(5) d(3) chains_cong [of css m1 m] by blast
  then obtain m2 lo hi where g: "grow_buckets new_bit m1 bs' = Some (m2, lo, hi)"
      "chains m2 lo (map (filter (\<lambda>a. hash_of m a AND new_bit = 0)) css)"
      "chains m2 hi (map (\<lambda>cs. rev (filter (\<lambda>a. hash_of m a AND new_bit \<noteq> 0) cs)) css)"
      "content m2 = content m1" "\<forall>a. a \<notin> set (concat css) \<longrightarrow> m2 a = m1 a"
    using Cons.IH [of m1 bs'] d(2) content_hash [OF r(4)] by auto
  have "\<And>a. a \<in> set cs \<Longrightarrow> m2 a = m1 a" using g(5) d(3) by blast
  then have "chain m2 r (filter (\<lambda>a. hash_of m a AND new_bit = 0) cs)"
    "chain m2 rh (rev (filter (\<lambda>a. hash_of m a AND new_bit \<noteq> 0) cs))"
    using r(2,3) chain_cong [of "filter (\<lambda>a. hash_of m a AND new_bit = 0) cs" m2 m1 r]
      chain_cong [of "rev (filter (\<lambda>a. hash_of m a AND new_bit \<noteq> 0) cs)" m2 m1 rh] by auto
  moreover have "\<forall>a. a \<notin> set (concat (cs # css)) \<longrightarrow> m2 a = m a" using g(5) r(5) by simp
  ultimately show ?case using r g by (simp add: bs(1))
qed simp

lemma link_end_chain:
  "chain m (Some h) as \<Longrightarrow> chain m other os \<Longrightarrow> distinct (as @ os) \<Longrightarrow>
    \<exists>m'. link_end m h other = Some m' \<and> chain m' (Some h) (as @ os) \<and> content m' = content m
      \<and> (\<forall>a. a \<notin> set as \<longrightarrow> m' a = m a)"
proof (induction as arbitrary: h)
  case (Cons a as)
  then obtain s where s: "h = a" "m a = Some s" "chain m (h_next s) as" by auto
  show ?case
  proof (cases as)
    case Nil
    then have "link_end m h other = Some (m(h \<mapsto> s\<lparr>h_next := other\<rparr>))"
      using s by (subst link_end.simps) simp
    then show ?thesis using s Nil Cons.prems(2,3) by simp
  next
    case n: (Cons n as')
    then have nxt: "h_next s = Some n" using s(3) by simp
    obtain m' where m': "link_end m n other = Some m'" "chain m' (Some n) (as @ os)" "content m' = content m"
        "\<forall>x. x \<notin> set as \<longrightarrow> m' x = m x"
      using Cons.IH [of n] s(3) nxt Cons.prems(2,3) by auto
    have "m' a = Some s" using m'(4) s(2) Cons.prems(3) by simp
    then show ?thesis using m' s nxt by (subst link_end.simps) simp
  qed
qed simp

lemma shrink_buckets_chains:
  "chains m bs css \<Longrightarrow> chains m os oss \<Longrightarrow> length css = length oss \<Longrightarrow> distinct (concat css @ concat oss) \<Longrightarrow>
    \<exists>m' roots. shrink_buckets m bs os = Some (m', roots) \<and> chains m' roots (map2 (@) css oss)
      \<and> content m' = content m \<and> (\<forall>a. a \<notin> set (concat css) \<longrightarrow> m' a = m a)"
proof (induction css arbitrary: m bs os oss)
  case (Cons cs css)
  obtain b bs' where bs: "bs = b # bs'" "chain m b cs" "chains m bs' css"
    using Cons.prems(1) by (auto simp: list_all2_Cons2)
  obtain ocs oss' where oss: "oss = ocs # oss'" using Cons.prems(3) by (cases oss) auto
  obtain ob os' where os: "os = ob # os'" "chain m ob ocs" "chains m os' oss'"
    using Cons.prems(2) by (auto simp: oss list_all2_Cons2)
  have d: "distinct (cs @ ocs)" "distinct (concat css @ concat oss')"
    "(set cs \<union> set ocs) \<inter> (set (concat css) \<union> set (concat oss')) = {}"
    using Cons.prems(4) by (auto simp: oss)
  have "\<exists>m1 r. (case b of None \<Rightarrow> Some (m, ob)
      | Some h \<Rightarrow> Option.bind (link_end m h ob) (\<lambda>m. Some (m, Some h))) = Some (m1, r)
      \<and> chain m1 r (cs @ ocs) \<and> content m1 = content m \<and> (\<forall>a. a \<notin> set cs \<longrightarrow> m1 a = m a)"
  proof (cases b)
    case None
    then show ?thesis using bs(2) os(2) by simp
  next
    case (Some h)
    then show ?thesis using link_end_chain [of m h cs ob ocs] bs(2) os(2) d(1) by auto
  qed
  then obtain m1 r where r: "(case b of None \<Rightarrow> Some (m, ob)
      | Some h \<Rightarrow> Option.bind (link_end m h ob) (\<lambda>m. Some (m, Some h))) = Some (m1, r)"
      "chain m1 r (cs @ ocs)" "content m1 = content m" "\<forall>a. a \<notin> set cs \<longrightarrow> m1 a = m a"
    by blast
  have "chains m1 bs' css" "chains m1 os' oss'"
    using bs(3) os(3) r(4) d(3) chains_cong [of css m1 m] chains_cong [of oss' m1 m] by blast+
  then obtain m2 roots where g: "shrink_buckets m1 bs' os' = Some (m2, roots)" "chains m2 roots (map2 (@) css oss')"
      "content m2 = content m1" "\<forall>a. a \<notin> set (concat css) \<longrightarrow> m2 a = m1 a"
    using Cons.IH [of m1 bs' os' oss'] Cons.prems(3) d(2) by (auto simp: oss)
  have "chain m2 r (cs @ ocs)"
    using r(2) g(4) d(3) chain_cong [of "cs @ ocs" m2 m1 r] by auto
  moreover have "\<forall>a. a \<notin> set (concat (cs # css)) \<longrightarrow> m2 a = m a" using g(4) r(4) by simp
  ultimately show ?case using r g by (simp add: bs(1) os(1) oss)
qed simp

lemma find_string_chain:
  "chain m h as \<Longrightarrow> find_string m h str strhash
    = Some (List.find (\<lambda>a. \<exists>s. m a = Some s \<and> h_hash s = strhash \<and> str_data s = str) as)"
proof (induction as arbitrary: h)
  case Nil
  then show ?case by (subst find_string.simps) simp
next
  case (Cons a as)
  then show ?case by (subst find_string.simps) auto
qed

lemma find_prev_chain:
  "chain m other (as @ h # bs) \<Longrightarrow> h \<notin> set as \<Longrightarrow>
    find_prev m other prev h = Some (if as = [] then prev else Some (last as))"
proof (induction as arbitrary: other prev)
  case Nil
  then show ?case by (subst find_prev.simps) simp
next
  case (Cons a as)
  then obtain s where s: "other = Some a" "m a = Some s" "chain m (h_next s) (as @ h # bs)" by auto
  have "find_prev m other prev h = find_prev m (h_next s) (Some a) h"
    using s(1,2) Cons.prems(2) by (subst find_prev.simps) simp
  then show ?case using Cons.IH [OF s(3)] Cons.prems(2) by simp
qed

subsection \<open>The invariant of the table\<close>

definition buckets_ok :: "string_table \<Rightarrow> str_ptr list list \<Rightarrow> bool" where
  "buckets_ok T css \<longleftrightarrow> (\<exists>k. 10 \<le> k \<and> k \<le> 28 \<and> st_size T = 2 ^ k) \<and> st_mask T = st_size T - 1
    \<and> length css = unat (st_size T) \<and> chains (str_mem T) (strtable T) css
    \<and> distinct (concat css) \<and> dom (str_mem T) = set (concat css)
    \<and> (\<forall>i < length css. \<forall>a \<in> set (css ! i). unat (hash_of (str_mem T) a) mod length css = i)
    \<and> st_count T = of_nat (length (concat css))"

lemma buckets_okD:
  assumes "buckets_ok T css"
  shows "chains (str_mem T) (strtable T) css" "distinct (concat css)" "dom (str_mem T) = set (concat css)"
    "length css = unat (st_size T)" "length (strtable T) = length css" "0 < length css"
    "\<And>i a. i < length css \<Longrightarrow> a \<in> set (css ! i) \<Longrightarrow> unat (hash_of (str_mem T) a) mod length css = i"
    "st_count T = of_nat (length (concat css))"
proof -
  show "0 < length css" using assms by (auto simp: buckets_ok_def unat_gt_0)
  show "length (strtable T) = length css" using assms list_all2_lengthD unfolding buckets_ok_def by blast
qed (use assms in \<open>auto simp: buckets_ok_def\<close>)

lemma unat_power_size:
  assumes "k \<le> 28"
  shows "unat (2 ^ k :: u32) = 2 ^ k"
proof -
  have "(2 :: nat) ^ k < 2 ^ 32" using assms by (intro power_strict_increasing) simp_all
  moreover have "(2 ^ k :: u32) = of_nat (2 ^ k)" by simp
  ultimately show ?thesis by (simp only: unat_of_nat) simp
qed

lemma bucket_index:
  assumes "buckets_ok T css"
  shows "unat (h AND st_mask T) = unat h mod length css"
proof -
  obtain k where k: "k \<le> 28" "st_size T = 2 ^ k" "st_mask T = st_size T - 1" "length css = unat (st_size T)"
    using assms by (auto simp: buckets_ok_def)
  have "st_mask T = mask k" by (simp add: k(2,3) mask_eq_exp_minus_1)
  then show ?thesis using unat_power_size [OF k(1)] by (simp add: k(2,4) unat_and_mask)
qed

lemma concat_update:
  assumes "i < length css" "distinct (concat css)" "distinct cs'" "set cs' \<inter> (set (concat css) - set (css ! i)) = {}"
  shows "distinct (concat (css[i := cs']))" "set (concat (css[i := cs'])) = (set (concat css) - set (css ! i)) \<union> set cs'"
    "length (concat (css[i := cs'])) + length (css ! i) = length (concat css) + length cs'"
proof -
  have c: "css = take i css @ css ! i # drop (Suc i) css" "css[i := cs'] = take i css @ cs' # drop (Suc i) css"
    using assms(1) by (simp_all add: id_take_nth_drop upd_conv_take_nth_drop)
  define A B where "A = concat (take i css)" and "B = concat (drop (Suc i) css)"
  have "concat (take i css @ css ! i # drop (Suc i) css) = A @ css ! i @ B" by (simp add: A_def B_def)
  then have eq: "concat css = A @ css ! i @ B" "concat (css[i := cs']) = A @ cs' @ B"
    by (simp_all only: c(1) [symmetric]) (simp add: c(2) A_def B_def)
  show "distinct (concat (css[i := cs']))" "set (concat (css[i := cs'])) = (set (concat css) - set (css ! i)) \<union> set cs'"
    "length (concat (css[i := cs'])) + length (css ! i) = length (concat css) + length cs'"
    using assms(2-4) unfolding eq by (auto simp: disjoint_iff)
qed

lemma chains_disjoint:
  assumes "distinct (concat css)" "i < length css" "j < length css" "i \<noteq> j"
  shows "set (css ! i) \<inter> set (css ! j) = {}"
proof -
  have "set (css ! i) \<inter> set (css ! j) = {}" if "distinct (concat css)" "i < j" "j < length css" for i j css
    using that
  proof (induction css arbitrary: i j)
    case (Cons cs css)
    obtain j' where j: "j = Suc j'" using Cons.prems(2) by (cases j) auto
    have "css ! j' \<in> set css" using Cons.prems(3) j by simp
    moreover have d: "distinct (concat css)" "set cs \<inter> set (concat css) = {}" using Cons.prems(1) by simp_all
    ultimately have "set cs \<inter> set (css ! j') = {}" by auto
    moreover have "set (css ! i') \<inter> set (css ! j') = {}" if "i = Suc i'" for i'
      using Cons.IH [OF d(1)] Cons.prems(2,3) j that by simp
    ultimately show ?case by (cases i) (simp_all add: j)
  qed simp
  then show ?thesis using assms by (metis linorder_neqE_nat Int_commute)
qed

lemma relink_bucket:
  assumes ok: "buckets_ok T css" "i < length css"
    and cs': "chain m' p cs'" "distinct cs'" "set cs' \<inter> (set (concat css) - set (css ! i)) = {}"
    and m': "\<And>a. a \<notin> set (css ! i) \<union> set cs' \<Longrightarrow> m' a = str_mem T a"
      "dom m' = (dom (str_mem T) - set (css ! i)) \<union> set cs'"
      "\<And>a. a \<in> set cs' \<Longrightarrow> unat (hash_of m' a) mod length css = i"
    and T': "T' = T\<lparr>str_mem := m', strtable := (strtable T)[i := p], st_count := of_nat (length (concat (css[i := cs'])))\<rparr>"
  shows "buckets_ok T' (css[i := cs'])"
proof -
  note T = buckets_okD [OF ok(1)]
  note c = concat_update [OF ok(2) T(2) cs'(2,3)]
  have other: "m' a = str_mem T a" if "j < length css" "j \<noteq> i" "a \<in> set (css ! j)" for j a
  proof -
    have "a \<in> set (concat css)" using nth_mem [OF that(1)] that(3) by auto
    moreover have "a \<notin> set (css ! i)" using chains_disjoint [OF T(2) that(1) ok(2) that(2)] that(3) by auto
    ultimately show ?thesis using m'(1) cs'(3) by blast
  qed
  have "chain m' ((strtable T)[i := p] ! j) (css[i := cs'] ! j)" if "j < length css" for j
  proof (cases "j = i")
    case False
    then show ?thesis
      using T(1,5) that other [of j] chain_cong [of "css ! j" m' "str_mem T"]
      by (simp add: list_all2_conv_all_nth)
  qed (use ok(2) T(5) cs'(1) in simp)
  then have "chains m' ((strtable T)[i := p]) (css[i := cs'])"
    using T(5) by (simp add: list_all2_conv_all_nth)
  moreover have "unat (hash_of m' a) mod length css = j" if "j < length css" "a \<in> set (css[i := cs'] ! j)" for j a
  proof (cases "j = i")
    case False
    then show ?thesis using that T(7) [of j a] other [of j a] by (simp add: hash_of_def)
  qed (use that m'(3) in simp)
  moreover have "dom m' = set (concat (css[i := cs']))" using m'(2) c(2) T(3) by simp
  ultimately show ?thesis
    using c(1) ok(1) unfolding T' buckets_ok_def by simp
qed

text \<open>Everything but the buckets.\<close>

definition same_rest :: "string_table \<Rightarrow> string_table \<Rightarrow> bool" where
  "same_rest T T' \<longleftrightarrow> st_size T' = st_size T \<and> st_mask T' = st_mask T \<and> st_resizing T' = st_resizing T
    \<and> hash_seed T' = hash_seed T \<and> pf_prevent_count T' = pf_prevent_count T \<and> litcache T' = litcache T"

lemma chain_bucket:
  assumes "buckets_ok T css" "i < length css"
  shows "chain (str_mem T) (strtable T ! i) (css ! i)"
  using buckets_okD(1,5) [OF assms(1)] assms(2) by (simp add: list_all2_conv_all_nth)

lemma unlink_free:
  assumes ok: "buckets_ok T css" "i < length css" "css ! i = low @ a # as"
    and prev: "prev = (if low = [] then None else Some (last low))"
  shows "\<exists>T1. duk_heap_strtable_unlink_prev T a prev = Some T1
    \<and> buckets_ok (duk_free_hstring T1 a) (css[i := low @ as]) \<and> same_rest T (duk_free_hstring T1 a)
    \<and> content (str_mem (duk_free_hstring T1 a)) = (content (str_mem T))(a := None)"
proof -
  note T = buckets_okD [OF ok(1)]
  have ch: "chain (str_mem T) (strtable T ! i) (low @ a # as)" using chain_bucket [OF ok(1,2)] ok(3) by simp
  obtain s where s: "str_mem T a = Some s" "chain (str_mem T) (h_next s) as" using chain_at [OF ch] by blast
  have inb: "set (css ! i) \<subseteq> set (concat css)" using nth_mem [OF ok(2)] by auto
  have "css ! i \<in> set css" using ok(2) by simp
  then have d: "distinct (low @ a # as)" using T(2) ok(3) distinct_concat_iff by metis
  have slot: "unat (h_hash s AND st_mask T) = i"
    using bucket_index [OF ok(1)] T(7) [OF ok(2), of a] s(1) by (simp add: ok(3) hash_of_def)
  have cnt: "st_count T - 1 = of_nat (length (concat (css[i := low @ as])))"
  proof -
    have "set (low @ as) \<inter> (set (concat css) - set (css ! i)) = {}" by (auto simp: ok(3))
    then have "length (concat (css[i := low @ as])) + 1 = length (concat css)"
      using concat_update(3) [OF ok(2) T(2), of "low @ as"] d by (simp add: ok(3))
    then show ?thesis using T(8) by (metis add_diff_cancel of_nat_1 of_nat_add)
  qed
  define m1 where "m1 = (if low = [] then str_mem T else (str_mem T)(last low \<mapsto> (the (str_mem T (last low)))\<lparr>h_next := h_next s\<rparr>))"
  define p where "p = (if low = [] then h_next s else strtable T ! i)"
  have last: "low \<noteq> [] \<Longrightarrow> \<exists>q. str_mem T (last low) = Some q" "low \<noteq> [] \<Longrightarrow> last low \<noteq> a"
    "low \<noteq> [] \<Longrightarrow> last low \<in> set low"
    using chain_mem [OF ch] d by (auto dest: last_in_set)
  define T1 where "T1 = T\<lparr>str_mem := m1, strtable := (strtable T)[i := p], st_count := st_count T - 1\<rparr>"
  have un: "duk_heap_strtable_unlink_prev T a prev = Some T1"
    using s(1) slot prev last(1)
    by (auto simp: duk_heap_strtable_unlink_prev_def T1_def m1_def p_def)
  have cont1: "content m1 = content (str_mem T)" using last(1) by (cases "low = []") (auto simp: m1_def)
  have "chain m1 p (low @ as)"
  proof (cases "low = []")
    case True
    then show ?thesis using s(2) by (simp add: m1_def p_def)
  next
    case False
    then obtain xs l where xs: "low = xs @ [l]" by (metis append_butlast_last_id)
    obtain q where "str_mem T l = Some q" using last(1) False xs by auto
    then show ?thesis
      using chain_redirect [of "str_mem T" "strtable T ! i" xs l "a # as" q "h_next s" as] ch d s(2) False
      by (simp add: xs m1_def p_def)
  qed
  then have ch': "chain (m1(a := None)) p (low @ as)" using d by simp
  have "dom m1 = dom (str_mem T)" using last(1) by (cases "low = []") (auto simp: m1_def)
  then have dom: "dom (m1(a := None)) = (dom (str_mem T) - set (css ! i)) \<union> set (low @ as)"
    using T(3) inb d by (auto simp: ok(3))
  have other: "(m1(a := None)) x = str_mem T x" if "x \<notin> set (css ! i) \<union> set (low @ as)" for x
    using that last(3) by (auto simp: m1_def ok(3))
  have "hash_of (m1(a := None)) x = hash_of (str_mem T) x" if "x \<in> set (low @ as)" for x
    using that d content_hash [OF cont1] by (auto simp: hash_of_def fun_eq_iff split: option.splits)
  then have hash: "unat (hash_of (m1(a := None)) x) mod length css = i" if "x \<in> set (low @ as)" for x
    using that T(7) [OF ok(2), of x] by (auto simp: ok(3))
  have "buckets_ok (duk_free_hstring T1 a) (css[i := low @ as])"
    by (rule relink_bucket [OF ok(1,2) ch' _ _ other dom hash])
      (use d cnt in \<open>auto simp: T1_def duk_free_hstring_def ok(3)\<close>)
  moreover have "content (str_mem (duk_free_hstring T1 a)) = (content (str_mem T))(a := None)"
    using cont1 by (auto simp: duk_free_hstring_def T1_def content_def fun_eq_iff)
  ultimately show ?thesis using un by (auto simp: same_rest_def T1_def duk_free_hstring_def)
qed

lemma unlink_is_unlink_prev:
  assumes "buckets_ok T css" "i < length css" "css ! i = low @ a # as"
  shows "duk_heap_strtable_unlink T a = duk_heap_strtable_unlink_prev T a (if low = [] then None else Some (last low))"
proof -
  have ch: "chain (str_mem T) (strtable T ! i) (low @ a # as)" using chain_bucket [OF assms(1,2)] assms(3) by simp
  obtain s where s: "str_mem T a = Some s" using chain_at [OF ch] by blast
  have "css ! i \<in> set css" using assms(2) by simp
  then have "a \<notin> set low" using buckets_okD(2) [OF assms(1)] assms(3) distinct_concat_iff by (metis distinct_append distinct.simps(2) not_distinct_conv_prefix)
  note f = find_prev_chain [OF ch this]
  have slot: "unat (h_hash s AND st_mask T) = i"
    using bucket_index [OF assms(1)] buckets_okD(7) [OF assms(1,2), of a] s by (simp add: assms(3) hash_of_def)
  show ?thesis
    unfolding duk_heap_strtable_unlink_def duk_heap_strtable_unlink_prev_def by (simp add: s slot f Let_def)
qed

lemma same_rest_trans: "same_rest T T1 \<Longrightarrow> same_rest T1 T2 \<Longrightarrow> same_rest T T2"
  by (simp add: same_rest_def)

definition swept :: "(str_ptr \<Rightarrow> bool) \<Rightarrow> str_ptr set \<Rightarrow> str_memory \<Rightarrow> str_memory" where
  "swept reachable A m a = (if a \<in> A \<and> \<not> reachable a then None else m a)"

lemma sweep_chain_bucket:
  "buckets_ok T css \<Longrightarrow> i < length css \<Longrightarrow> css ! i = low @ as \<Longrightarrow> h = (if as = [] then None else Some (hd as)) \<Longrightarrow>
    prev = (if low = [] then None else Some (last low)) \<Longrightarrow>
    \<exists>T'. sweep_chain reachable T h prev = Some T' \<and> buckets_ok T' (css[i := low @ filter reachable as]) \<and> same_rest T T'
      \<and> content (str_mem T') = swept reachable (set as) (content (str_mem T))"
proof (induction as arbitrary: T css low h prev)
  case Nil
  then have "css[i := low] = css" by (metis append_Nil2 list_update_id)
  then show ?case using Nil by (subst sweep_chain.simps) (simp add: same_rest_def swept_def fun_eq_iff)
next
  case (Cons a as)
  have ch: "chain (str_mem T) (strtable T ! i) (low @ a # as)" using chain_bucket [OF Cons.prems(1,2)] Cons.prems(3) by simp
  obtain s where s: "str_mem T a = Some s" "chain (str_mem T) (h_next s) as" using chain_at [OF ch] by blast
  have nxt: "h_next s = (if as = [] then None else Some (hd as))" using chain_head [OF s(2)] .
  have "css ! i \<in> set css" using Cons.prems(2) by simp
  then have d: "distinct (low @ a # as)"
    using buckets_okD(2) [OF Cons.prems(1)] Cons.prems(3) distinct_concat_iff by metis
  show ?case
  proof (cases "reachable a")
    case True
    obtain T' where T': "sweep_chain reachable T (h_next s) (Some a) = Some T'"
        "buckets_ok T' (css[i := (low @ [a]) @ filter reachable as])" "same_rest T T'"
        "content (str_mem T') = swept reachable (set as) (content (str_mem T))"
      using Cons.IH [OF Cons.prems(1,2) _ nxt, of "low @ [a]" "Some a"] Cons.prems(3) by auto
    moreover have "swept reachable (set as) (content (str_mem T)) = swept reachable (set (a # as)) (content (str_mem T))"
      using True by (auto simp: swept_def fun_eq_iff)
    ultimately show ?thesis using True s(1) Cons.prems(4) by (subst sweep_chain.simps) simp
  next
    case False
    obtain T1 where T1: "duk_heap_strtable_unlink_prev T a prev = Some T1"
        "buckets_ok (duk_free_hstring T1 a) (css[i := low @ as])" "same_rest T (duk_free_hstring T1 a)"
        "content (str_mem (duk_free_hstring T1 a)) = (content (str_mem T))(a := None)"
      using unlink_free [OF Cons.prems(1-3,5)] by blast
    let ?T = "duk_free_hstring T1 a"
    obtain T' where T': "sweep_chain reachable ?T (h_next s) prev = Some T'"
        "buckets_ok T' ((css[i := low @ as])[i := low @ filter reachable as])" "same_rest ?T T'"
        "content (str_mem T') = swept reachable (set as) (content (str_mem ?T))"
      using Cons.IH [OF T1(2) _ _ nxt Cons.prems(5)] Cons.prems(2) by auto
    moreover have "swept reachable (set as) (content (str_mem ?T)) = swept reachable (set (a # as)) (content (str_mem T))"
      unfolding T1(4) using False d by (auto simp: swept_def fun_eq_iff)
    ultimately show ?thesis
      using False s(1) Cons.prems(4) T1(1) same_rest_trans [OF T1(3)] by (subst sweep_chain.simps) simp
  qed
qed

lemma sweep_strings_table:
  "buckets_ok T css \<Longrightarrow> n \<le> length css \<Longrightarrow>
    \<exists>T' css'. sweep_strings reachable n T = Some T' \<and> buckets_ok T' css' \<and> same_rest T T'
      \<and> length css' = length css \<and> (\<forall>j. n \<le> j \<and> j < length css \<longrightarrow> css' ! j = css ! j)
      \<and> content (str_mem T') = swept reachable (set (concat (take n css))) (content (str_mem T))"
proof (induction n)
  case 0
  then show ?case by (auto simp: same_rest_def swept_def fun_eq_iff)
next
  case (Suc n)
  then obtain T1 css1 where T1: "sweep_strings reachable n T = Some T1" "buckets_ok T1 css1" "same_rest T T1"
      "length css1 = length css" "\<forall>j. n \<le> j \<and> j < length css \<longrightarrow> css1 ! j = css ! j"
      "content (str_mem T1) = swept reachable (set (concat (take n css))) (content (str_mem T))"
    by auto
  have n: "n < length css1" "css1 ! n = css ! n" using Suc.prems(2) T1(4,5) by simp_all
  obtain T2 where T2: "sweep_chain reachable T1 (strtable T1 ! n) None = Some T2"
      "buckets_ok T2 (css1[n := filter reachable (css ! n)])" "same_rest T1 T2"
      "content (str_mem T2) = swept reachable (set (css ! n)) (content (str_mem T1))"
    using sweep_chain_bucket [OF T1(2) n(1) _ chain_head [OF chain_bucket [OF T1(2) n(1), unfolded n(2)]],
        of "[]" None reachable] n(2) by auto
  have "content (str_mem T2) = swept reachable (set (concat (take (Suc n) css))) (content (str_mem T))"
    unfolding T2(4) T1(6) using n(1) T1(4) by (auto simp: swept_def fun_eq_iff take_Suc_conv_app_nth)
  then show ?case
    using T1(1,4,5) T2(1,2) same_rest_trans [OF T1(3) T2(3)]
    by (intro exI [of _ T2] exI [of _ "css1[n := filter reachable (css ! n)]"]) simp
qed

lemma sweep_all:
  assumes "buckets_ok T css"
  shows "\<exists>T' css'. sweep_strings reachable (unat (st_size T)) T = Some T' \<and> buckets_ok T' css' \<and> same_rest T T'
      \<and> content (str_mem T') = (\<lambda>a. if reachable a then content (str_mem T) a else None)"
proof -
  note T = buckets_okD [OF assms]
  obtain T' css' where T': "sweep_strings reachable (length css) T = Some T'" "buckets_ok T' css'" "same_rest T T'"
      "content (str_mem T') = swept reachable (set (concat css)) (content (str_mem T))"
    using sweep_strings_table [OF assms, of "length css" reachable] by auto
  have "content (str_mem T) a = None" if "a \<notin> set (concat css)" for a
    using that T(3) by (auto simp: content_def)
  then have "content (str_mem T') = (\<lambda>a. if reachable a then content (str_mem T) a else None)"
    unfolding T'(4) by (auto simp: swept_def fun_eq_iff)
  then show ?thesis using T' T(4) by auto
qed

text \<open>Insertion.\<close>

lemma insert_string:
  assumes ok: "buckets_ok T css" and fresh: "str_mem T res = None" and hash: "h_hash s = strhash"
    and T': "T' = T\<lparr>str_mem := (str_mem T)(res \<mapsto> s\<lparr>h_next := strtable T ! unat (strhash AND st_mask T)\<rparr>),
      strtable := (strtable T)[unat (strhash AND st_mask T) := Some res], st_count := st_count T + 1\<rparr>"
  shows "\<exists>css'. buckets_ok T' css'"
proof -
  note T = buckets_okD [OF ok]
  define i where "i = unat (strhash AND st_mask T)"
  have i: "i < length css" "i = unat strhash mod length css"
    using bucket_index [OF ok] T(6) by (simp_all add: i_def)
  have new: "res \<notin> set (concat css)" using fresh T(3) by auto
  have inb: "set (css ! i) \<subseteq> set (concat css)" using nth_mem [OF i(1)] by auto
  have d: "distinct (css ! i)" using T(2) nth_mem [OF i(1)] distinct_concat_iff by metis
  let ?m = "(str_mem T)(res \<mapsto> s\<lparr>h_next := strtable T ! i\<rparr>)"
  have ch: "chain ?m (Some res) (res # css ! i)"
  proof -
    have "res \<notin> set (css ! i)" using new inb by blast
    then show ?thesis using chain_bucket [OF ok i(1)] by simp
  qed
  have cnt: "st_count T + 1 = of_nat (length (concat (css[i := res # css ! i])))"
  proof -
    have "length (concat (css[i := res # css ! i])) = length (concat css) + 1"
      using concat_update(3) [OF i(1) T(2), of "res # css ! i"] d new inb by auto
    then show ?thesis using T(8) by simp
  qed
  have h: "unat (hash_of ?m a) mod length css = i" if "a \<in> set (res # css ! i)" for a
    using that T(7) [OF i(1), of a] i(2) hash by (auto simp: hash_of_def)
  have "buckets_ok (T\<lparr>str_mem := ?m, strtable := (strtable T)[i := Some res],
      st_count := of_nat (length (concat (css[i := res # css ! i])))\<rparr>) (css[i := res # css ! i])"
    by (rule relink_bucket [OF ok i(1) ch _ _ _ _ h refl]) (use d new inb T(3) in auto)
  then show ?thesis unfolding T' i_def [symmetric] cnt by blast
qed

text \<open>A new table size.\<close>

lemma hash_new_bit:
  fixes h :: u32
  assumes "k \<le> 28"
  shows "unat h mod 2 ^ (k + 1) = unat h mod 2 ^ k + (if h AND 2 ^ k = 0 then 0 else 2 ^ k)"
proof -
  have "h AND 2 ^ k = (if bit h k then 2 ^ k else 0)"
    by (rule bit_eqI) (auto simp: bit_and_iff bit_exp_iff)
  moreover have "(2 ^ k :: u32) \<noteq> 0" using unat_power_size [OF assms] by (metis power_not_zero unat_0 zero_neq_numeral)
  ultimately have "(h AND 2 ^ k = 0) \<longleftrightarrow> \<not> bit h k" by simp
  moreover have "bit h k \<longleftrightarrow> odd (unat h div 2 ^ k)"
  proof -
    have "bit (unat h) k \<longleftrightarrow> odd (unat h div 2 ^ k)" by (rule bit_iff_odd)
    moreover have "bit (unat h) k \<longleftrightarrow> bit h k" by (simp add: bit_unsigned_iff)
    ultimately show ?thesis by simp
  qed
  moreover have "unat h mod 2 ^ (k + 1) = unat h mod 2 ^ k + 2 ^ k * (unat h div 2 ^ k mod 2)"
    using mod_mult2_eq [of "unat h" "2 ^ k" 2] by (simp add: mult.commute)
  ultimately show ?thesis by (auto simp: odd_iff_mod_2_eq_one)
qed

lemma mset_split_buckets:
  "mset (concat (map (filter P) css @ map (\<lambda>cs. rev (filter (\<lambda>a. \<not> P a) cs)) css)) = mset (concat css)"
proof (induction css)
  case (Cons cs css)
  have "mset (concat (map (filter P) (cs # css) @ map (\<lambda>cs. rev (filter (\<lambda>a. \<not> P a) cs)) (cs # css)))
    = (filter_mset P (mset cs) + filter_mset (\<lambda>a. \<not> P a) (mset cs))
      + mset (concat (map (filter P) css @ map (\<lambda>cs. rev (filter (\<lambda>a. \<not> P a) cs)) css))"
    by (simp add: union_ac)
  then show ?case unfolding Cons.IH by (simp add: multiset_partition [symmetric])
qed simp

lemma mset_join_buckets:
  "length css = length oss \<Longrightarrow> mset (concat (map2 (@) css oss)) = mset (concat css) + mset (concat oss)"
proof (induction css arbitrary: oss)
  case (Cons cs css)
  then show ?case by (cases oss) (simp_all add: union_ac)
qed simp

text \<open>A table with new buckets for the same strings.\<close>

lemma rebucket:
  assumes ok: "buckets_ok T css" and k: "10 \<le> k" "k \<le> 28"
    and new: "chains m bs css'" "mset (concat css') = mset (concat css)" "length css' = 2 ^ k" "content m = content (str_mem T)"
    and idx: "\<And>i a. i < 2 ^ k \<Longrightarrow> a \<in> set (css' ! i) \<Longrightarrow> unat (hash_of (str_mem T) a) mod 2 ^ k = i"
  shows "buckets_ok (T\<lparr>str_mem := m, strtable := bs, st_size := 2 ^ k, st_mask := 2 ^ k - 1\<rparr>) css'"
proof -
  note T = buckets_okD [OF ok]
  have "dom m = dom (str_mem T)"
  proof -
    have "m a = None \<longleftrightarrow> str_mem T a = None" for a
      using fun_cong [OF new(4), of a] by (simp add: content_def) (metis option.map_disc_iff)
    then show ?thesis unfolding dom_def by simp
  qed
  moreover have "distinct (concat css')" using mset_eq_imp_distinct_iff [OF new(2)] T(2) by simp
  moreover have "set (concat css') = set (concat css)" by (rule mset_eq_setD [OF new(2)])
  moreover have "length (concat css') = length (concat css)" by (rule mset_eq_length [OF new(2)])
  ultimately show ?thesis
    using T(3,8) k new(1,3) idx unat_power_size [OF k(2)] content_hash [OF new(4)]
    unfolding buckets_ok_def by auto
qed

lemma grow_table:
  assumes ok: "buckets_ok T css" and k: "st_size T = 2 ^ k" "10 \<le> k" "k < 28"
  shows "\<exists>m lo hi css'. grow_buckets (st_size T) (str_mem T) (strtable T) = Some (m, lo, hi)
    \<and> buckets_ok (T\<lparr>str_mem := m, strtable := lo @ hi, st_size := push_bit 1 (st_size T),
        st_mask := push_bit 1 (st_size T) - 1\<rparr>) css' \<and> content m = content (str_mem T)"
proof -
  note T = buckets_okD [OF ok]
  let ?h = "hash_of (str_mem T)"
  let ?lo = "map (filter (\<lambda>a. ?h a AND 2 ^ k = 0)) css"
  let ?hi = "map (\<lambda>cs. rev (filter (\<lambda>a. ?h a AND 2 ^ k \<noteq> 0) cs)) css"
  obtain m lo hi where g: "grow_buckets (st_size T) (str_mem T) (strtable T) = Some (m, lo, hi)"
      "chains m lo ?lo" "chains m hi ?hi" "content m = content (str_mem T)"
    using grow_buckets_chains [OF T(1,2), of "st_size T"] unfolding k(1) by auto
  have n: "length css = 2 ^ k" using T(4) unat_power_size [of k] k by simp
  have size: "push_bit 1 (st_size T) = 2 ^ (k + 1)" by (simp add: k(1) push_bit_eq_mult)
  have "unat (?h a) mod 2 ^ (k + 1) = i" if i: "i < 2 ^ (k + 1)" "a \<in> set ((?lo @ ?hi) ! i)" for i a
  proof (cases "i < 2 ^ k")
    case True
    then have "a \<in> set (css ! i)" "?h a AND 2 ^ k = 0" using i(2) n by (auto simp: nth_append)
    then show ?thesis using T(7) [of i a] True n hash_new_bit [of k "?h a"] k(3) by simp
  next
    case False
    then have "a \<in> set (css ! (i - 2 ^ k))" "?h a AND 2 ^ k \<noteq> 0" using i n by (auto simp: nth_append)
    then show ?thesis using T(7) [of "i - 2 ^ k" a] False i(1) n hash_new_bit [of k "?h a"] k(3) by simp
  qed
  moreover have "chains m (lo @ hi) (?lo @ ?hi)" using g(2,3) by (rule list_all2_appendI)
  moreover have "mset (concat (?lo @ ?hi)) = mset (concat css)" by (rule mset_split_buckets)
  ultimately have "buckets_ok (T\<lparr>str_mem := m, strtable := lo @ hi, st_size := 2 ^ (k + 1), st_mask := 2 ^ (k + 1) - 1\<rparr>)
      (?lo @ ?hi)"
    using g(4) k n by (intro rebucket [OF ok]) simp_all
  then show ?thesis using g(1,4) unfolding size by blast
qed

lemma shrink_table:
  assumes ok: "buckets_ok T css" and k: "st_size T = 2 ^ (k + 1)" "10 \<le> k" "k < 28"
  shows "\<exists>m bs css'. shrink_buckets (str_mem T) (take (unat (drop_bit 1 (st_size T))) (strtable T))
        (drop (unat (drop_bit 1 (st_size T))) (strtable T)) = Some (m, bs)
    \<and> buckets_ok (T\<lparr>str_mem := m, strtable := bs, st_size := drop_bit 1 (st_size T),
        st_mask := drop_bit 1 (st_size T) - 1\<rparr>) css' \<and> content m = content (str_mem T)"
proof -
  note T = buckets_okD [OF ok]
  have n: "length css = 2 ^ (k + 1)" using T(4) unat_power_size [of "k + 1"] k by simp
  have "unat (drop_bit 1 (st_size T)) = 2 ^ k"
    using unat_power_size [of "k + 1"] k by (simp add: unat_drop_bit)
  then have size: "unat (drop_bit 1 (st_size T)) = 2 ^ k" "drop_bit 1 (st_size T) = 2 ^ k"
    using unat_power_size [of k] k(3) by (simp_all add: word_unat_eq_iff)
  define A B where "A = take (2 ^ k) css" and "B = drop (2 ^ k) css"
  have AB: "css = A @ B" "length A = 2 ^ k" "length B = 2 ^ k" using n by (simp_all add: A_def B_def)
  have "chains (str_mem T) (take (2 ^ k) (strtable T)) A" "chains (str_mem T) (drop (2 ^ k) (strtable T)) B"
    unfolding A_def B_def using T(1) by (simp_all add: list_all2_takeI list_all2_dropI)
  then obtain m bs where g: "shrink_buckets (str_mem T) (take (2 ^ k) (strtable T)) (drop (2 ^ k) (strtable T)) = Some (m, bs)"
      "chains m bs (map2 (@) A B)" "content m = content (str_mem T)"
    using shrink_buckets_chains [of "str_mem T" "take (2 ^ k) (strtable T)" A "drop (2 ^ k) (strtable T)" B] AB T(2) by auto
  have "unat (hash_of (str_mem T) a) mod 2 ^ k = i" if i: "i < 2 ^ k" "a \<in> set (map2 (@) A B ! i)" for i a
  proof -
    have "a \<in> set (A ! i) \<or> a \<in> set (B ! i)" using i AB by auto
    then have "a \<in> set (css ! i) \<or> a \<in> set (css ! (2 ^ k + i))" using i(1) by (simp add: AB nth_append)
    then have "unat (hash_of (str_mem T) a) mod 2 ^ (k + 1) = i \<or> unat (hash_of (str_mem T) a) mod 2 ^ (k + 1) = 2 ^ k + i"
      using T(7) [of i a] T(7) [of "2 ^ k + i" a] i(1) n by auto
    then have "unat (hash_of (str_mem T) a) mod 2 ^ (k + 1) mod 2 ^ k = i" using i(1) by auto
    then show ?thesis by (simp add: mod_mod_cancel)
  qed
  moreover have "mset (concat (map2 (@) A B)) = mset (concat css)" using mset_join_buckets [of A B] AB by simp
  ultimately have "buckets_ok (T\<lparr>str_mem := m, strtable := bs, st_size := 2 ^ k, st_mask := 2 ^ k - 1\<rparr>) (map2 (@) A B)"
    using g(2,3) k AB by (intro rebucket [OF ok]) simp_all
  then show ?thesis using g(1,3) unfolding size(1) unfolding size(2) by blast
qed

end
