(* ===== verification/Strintern.thy ===== *)
theory Strintern
  imports Strtable
begin

text \<open>
  String interning over the bucket operations of \<open>Strtable\<close>: the invariant of the whole table (the
  stored strings, the cache of literals), the contract of every effect that a collection inside an
  allocator call has on it, the operations, and the states they reach.
\<close>

unbundle bit_operations_syntax

subsection \<open>Well-formed tables and their development\<close>

definition strings_ok :: "string_table \<Rightarrow> bool" where
  "strings_ok T \<longleftrightarrow> (\<forall>a s. str_mem T a = Some s \<longrightarrow> s\<lparr>h_next := None, has_pinned_literal := False\<rparr>
     = duk__strtable_alloc_hstring (str_data s) (duk_heap_hashstring (hash_seed T) (str_data s)))"

definition litcache_ok :: "(u64 \<Rightarrow> u8 list) \<Rightarrow> string_table \<Rightarrow> bool" where
  "litcache_ok literal T \<longleftrightarrow> length (litcache T) = 256 \<and> (\<forall>(addr, h) \<in> set (litcache T). addr \<noteq> 0 \<longrightarrow>
     (\<exists>s. str_mem T h = Some s \<and> has_pinned_literal s \<and> str_data s = literal addr))"

definition table_ok :: "(u64 \<Rightarrow> u8 list) \<Rightarrow> string_table \<Rightarrow> bool" where
  "table_ok literal T \<longleftrightarrow> (\<exists>css. buckets_ok T css) \<and> strings_ok T \<and> litcache_ok literal T"

definition unique_strings :: "string_table \<Rightarrow> bool" where
  "unique_strings T \<longleftrightarrow> (\<forall>a b s t. str_mem T a = Some s \<and> str_mem T b = Some t \<and> str_data s = str_data t \<longrightarrow> a = b)"

lemma table_ok_litcache:
  assumes "table_ok literal T" "(addr, h) \<in> set (litcache T)" "addr \<noteq> 0"
  shows "\<exists>s. str_mem T h = Some s \<and> has_pinned_literal s \<and> str_data s = literal addr"
  using assms unfolding table_ok_def litcache_ok_def by blast

text \<open>
  What may happen to the strings in steps that intern the strings of \<open>K\<close> and do not free the strings
  of \<open>R\<close>.
\<close>

definition evolves :: "u8 list set \<Rightarrow> str_ptr set \<Rightarrow> string_table \<Rightarrow> string_table \<Rightarrow> bool" where
  "evolves K R T T' \<longleftrightarrow> hash_seed T' = hash_seed T \<and> st_resizing T' = st_resizing T
    \<and> (st_resizing T \<longrightarrow> st_size T' = st_size T)
    \<and> (\<forall>a s'. str_mem T' a = Some s' \<longrightarrow> (\<exists>s. str_mem T a = Some s \<and> str_data s = str_data s') \<or> str_data s' \<in> K)
    \<and> (\<forall>a s. str_mem T a = Some s \<and> a \<in> R \<longrightarrow> (\<exists>s'. str_mem T' a = Some s' \<and> str_data s' = str_data s))"

lemma evolves_refl [simp]: "evolves K R T T"
  by (simp add: evolves_def)

lemma evolves_trans: "evolves K R T1 T2 \<Longrightarrow> evolves K R T2 T3 \<Longrightarrow> evolves K R T1 T3"
  unfolding evolves_def
proof (intro conjI allI impI; (elim conjE)?)
  fix a s'
  assume 1: "\<forall>a s'. str_mem T2 a = Some s' \<longrightarrow> (\<exists>s. str_mem T1 a = Some s \<and> str_data s = str_data s') \<or> str_data s' \<in> K"
    and 2: "\<forall>a s'. str_mem T3 a = Some s' \<longrightarrow> (\<exists>s. str_mem T2 a = Some s \<and> str_data s = str_data s') \<or> str_data s' \<in> K"
    and 3: "str_mem T3 a = Some s'"
  show "(\<exists>s. str_mem T1 a = Some s \<and> str_data s = str_data s') \<or> str_data s' \<in> K"
    using 1 2 3 by metis
next
  fix a s
  assume 1: "\<forall>a s. str_mem T1 a = Some s \<and> a \<in> R \<longrightarrow> (\<exists>s'. str_mem T2 a = Some s' \<and> str_data s' = str_data s)"
    and 2: "\<forall>a s. str_mem T2 a = Some s \<and> a \<in> R \<longrightarrow> (\<exists>s'. str_mem T3 a = Some s' \<and> str_data s' = str_data s)"
    and 3: "str_mem T1 a = Some s" "a \<in> R"
  show "\<exists>s'. str_mem T3 a = Some s' \<and> str_data s' = str_data s"
    using 1 2 3 by metis
qed simp_all

lemma evolves_mono: "evolves K R T T' \<Longrightarrow> K \<subseteq> K' \<Longrightarrow> R' \<subseteq> R \<Longrightarrow> evolves K' R' T T'"
  unfolding evolves_def by (metis (no_types, lifting) subsetD)

lemma content_Some: "content m' a = content m a \<Longrightarrow> m a = Some s \<Longrightarrow> \<exists>q. m' a = Some (s\<lparr>h_next := q\<rparr>)"
  by (cases "m' a") (auto simp: content_def, metis duk_hstring.surjective duk_hstring.update_convs(1))

lemma content_eq_data: "content m' = content m \<Longrightarrow> m a = Some s \<Longrightarrow> \<exists>s'. m' a = Some s' \<and> str_data s' = str_data s"
  using content_Some [of m' a m s] by auto

text \<open>Steps that keep the contents.\<close>

lemma same_content:
  assumes "content (str_mem T') = content (str_mem T)" "hash_seed T' = hash_seed T"
  shows "strings_ok T \<Longrightarrow> strings_ok T'"
    and "litcache T' = litcache T \<Longrightarrow> litcache_ok literal T \<Longrightarrow> litcache_ok literal T'"
    and "unique_strings T \<Longrightarrow> unique_strings T'"
    and "st_resizing T' = st_resizing T \<Longrightarrow> (st_resizing T \<longrightarrow> st_size T' = st_size T) \<Longrightarrow> evolves K R T T'"
proof -
  have bwd: "\<exists>s q. str_mem T a = Some s \<and> s' = s\<lparr>h_next := q\<rparr>" if "str_mem T' a = Some s'" for a s'
    using content_Some [of "str_mem T" a "str_mem T'" s'] fun_cong [OF assms(1), of a] that
    by (metis duk_hstring.surjective duk_hstring.update_convs(1))
  have forth: "\<exists>q. str_mem T' a = Some (s\<lparr>h_next := q\<rparr>)" if "str_mem T a = Some s" for a s
    using content_Some [of "str_mem T'" a "str_mem T" s] fun_cong [OF assms(1), of a] that by blast
  show "strings_ok T'" if ok: "strings_ok T"
    unfolding strings_ok_def
  proof (intro allI impI)
    fix a s'
    assume "str_mem T' a = Some s'"
    then obtain s q where s: "str_mem T a = Some s" "s' = s\<lparr>h_next := q\<rparr>" using bwd by blast
    then show "s'\<lparr>h_next := None, has_pinned_literal := False\<rparr>
        = duk__strtable_alloc_hstring (str_data s') (duk_heap_hashstring (hash_seed T') (str_data s'))"
      using ok assms(2) unfolding strings_ok_def by simp
  qed
  show "litcache_ok literal T'" if "litcache T' = litcache T" "litcache_ok literal T"
    using that forth unfolding litcache_ok_def by fastforce
  show "unique_strings T'" if "unique_strings T"
    using that bwd unfolding unique_strings_def by (metis duk_hstring.select_convs(3) duk_hstring.surjective duk_hstring.update_convs(1))
  show "evolves K R T T'" if "st_resizing T' = st_resizing T" "st_resizing T \<longrightarrow> st_size T' = st_size T"
    using that assms(2) bwd forth unfolding evolves_def by fastforce
qed

text \<open>The contract of an effect on the table; the collections of an allocator call have it.\<close>

definition good_effect :: "(u64 \<Rightarrow> u8 list) \<Rightarrow> u8 list set \<Rightarrow> str_ptr set \<Rightarrow> (string_table \<Rightarrow> string_table option) \<Rightarrow> bool" where
  "good_effect literal K R f \<longleftrightarrow> (\<forall>T. table_ok literal T \<longrightarrow>
     (\<exists>T'. f T = Some T' \<and> table_ok literal T' \<and> evolves K R T T' \<and> (unique_strings T \<longrightarrow> unique_strings T')))"

lemma good_effectD:
  assumes "good_effect literal K R f" "table_ok literal T"
  obtains T' where "f T = Some T'" "table_ok literal T'" "evolves K R T T'" "unique_strings T \<Longrightarrow> unique_strings T'"
  using assms unfolding good_effect_def by blast

lemma good_Some: "good_effect literal K R Some"
  by (simp add: good_effect_def)

lemma table_ok_flags: "table_ok literal (T\<lparr>st_resizing := b\<rparr>) = table_ok literal T"
    "table_ok literal (T\<lparr>pf_prevent_count := c\<rparr>) = table_ok literal T"
    "unique_strings (T\<lparr>st_resizing := b\<rparr>) = unique_strings T"
    "unique_strings (T\<lparr>pf_prevent_count := c\<rparr>) = unique_strings T"
  by (simp_all add: table_ok_def buckets_ok_def strings_ok_def litcache_ok_def unique_strings_def)

lemma grow_good:
  assumes T: "table_ok literal T" "st_resizing T" "\<not> st_size T \<ge> DUK_USE_STRTAB_MAXSIZE" and gc: "good_effect literal K R gc"
  shows "\<exists>T'. duk__strtable_grow_inplace gc ok T = Some T' \<and> table_ok literal T' \<and> st_resizing T'
    \<and> evolves K R (T\<lparr>st_resizing := False\<rparr>) (T'\<lparr>st_resizing := False\<rparr>) \<and> (unique_strings T \<longrightarrow> unique_strings T')"
proof -
  obtain T1 where T1: "gc T = Some T1" "table_ok literal T1" "evolves K R T T1" "unique_strings T \<Longrightarrow> unique_strings T1"
    using good_effectD [OF gc T(1)] by blast
  have r1: "st_resizing T1" "st_size T1 = st_size T" "hash_seed T1 = hash_seed T" using T1(3) T(2) by (simp_all add: evolves_def)
  have e1: "evolves K R (T\<lparr>st_resizing := False\<rparr>) (T1\<lparr>st_resizing := False\<rparr>)" using T1(3) by (simp add: evolves_def)
  show ?thesis
  proof (cases ok)
    case False
    then show ?thesis using T1 r1(1) e1 by (auto simp: duk__strtable_grow_inplace_def)
  next
    case True
    obtain css where css: "buckets_ok T1 css" using T1(2) by (auto simp: table_ok_def)
    obtain k where k: "10 \<le> k" "k \<le> 28" "st_size T1 = 2 ^ k" using css by (auto simp: buckets_ok_def)
    have "k \<noteq> 28" using T(3) k(3) by (auto simp: r1(2) DUK_USE_STRTAB_MAXSIZE_def)
    then obtain m lo hi css' where g: "grow_buckets (st_size T1) (str_mem T1) (strtable T1) = Some (m, lo, hi)"
        "buckets_ok (T1\<lparr>str_mem := m, strtable := lo @ hi, st_size := push_bit 1 (st_size T1),
          st_mask := push_bit 1 (st_size T1) - 1\<rparr>) css'" "content m = content (str_mem T1)"
      using grow_table [OF css k(3,1)] k(2) by auto
    define T2 where "T2 = T1\<lparr>str_mem := m, strtable := lo @ hi, st_size := push_bit 1 (st_size T1),
          st_mask := push_bit 1 (st_size T1) - 1\<rparr>"
    have c: "content (str_mem T2) = content (str_mem T1)" "hash_seed T2 = hash_seed T1" "litcache T2 = litcache T1"
      using g(3) by (simp_all add: T2_def)
    have "table_ok literal T2"
      using g(2) same_content(1,2) [OF c(1,2)] c(3) T1(2) unfolding table_ok_def T2_def [symmetric] by blast
    moreover have "evolves K R (T1\<lparr>st_resizing := False\<rparr>) (T2\<lparr>st_resizing := False\<rparr>)"
      using same_content(4) [of "T2\<lparr>st_resizing := False\<rparr>" "T1\<lparr>st_resizing := False\<rparr>"] c by simp
    then have "evolves K R (T\<lparr>st_resizing := False\<rparr>) (T2\<lparr>st_resizing := False\<rparr>)" using e1 evolves_trans by blast
    moreover have "duk__strtable_grow_inplace gc ok T = Some T2"
      using True T1(1) g(1) by (simp add: duk__strtable_grow_inplace_def T2_def r1(2) Let_def)
    moreover have "st_resizing T2" using r1(1) by (simp add: T2_def)
    ultimately show ?thesis using T1(4) same_content(3) [OF c(1,2)] by blast
  qed
qed

lemma shrink_good:
  assumes T: "table_ok literal T" "st_resizing T" "\<not> st_size T \<le> DUK_USE_STRTAB_MINSIZE" and gc: "good_effect literal K R gc"
  shows "\<exists>T'. duk__strtable_shrink_inplace gc T = Some T' \<and> table_ok literal T' \<and> st_resizing T'
    \<and> evolves K R (T\<lparr>st_resizing := False\<rparr>) (T'\<lparr>st_resizing := False\<rparr>) \<and> (unique_strings T \<longrightarrow> unique_strings T')"
proof -
  obtain css where css: "buckets_ok T css" using T(1) by (auto simp: table_ok_def)
  obtain k where k: "10 \<le> k" "k \<le> 28" "st_size T = 2 ^ k" using css by (auto simp: buckets_ok_def)
  have "k \<noteq> 10" using T(3) k(3) by (auto simp: DUK_USE_STRTAB_MINSIZE_def)
  then obtain k' where k': "k = k' + 1" "10 \<le> k'" "k' < 28" using k(1,2) by (cases k) simp_all
  obtain m bs css' where g: "shrink_buckets (str_mem T) (take (unat (drop_bit 1 (st_size T))) (strtable T))
        (drop (unat (drop_bit 1 (st_size T))) (strtable T)) = Some (m, bs)"
      "buckets_ok (T\<lparr>str_mem := m, strtable := bs, st_size := drop_bit 1 (st_size T),
        st_mask := drop_bit 1 (st_size T) - 1\<rparr>) css'" "content m = content (str_mem T)"
    using shrink_table [OF css _ k'(2,3)] k(3) k'(1) by blast
  define T1 where "T1 = T\<lparr>str_mem := m, strtable := bs, st_size := drop_bit 1 (st_size T),
        st_mask := drop_bit 1 (st_size T) - 1\<rparr>"
  have c: "content (str_mem T1) = content (str_mem T)" "hash_seed T1 = hash_seed T" "litcache T1 = litcache T"
    using g(3) by (simp_all add: T1_def)
  have ok1: "table_ok literal T1"
    using g(2) same_content(1,2) [OF c(1,2)] c(3) T(1) unfolding table_ok_def T1_def [symmetric] by blast
  obtain T2 where T2: "gc T1 = Some T2" "table_ok literal T2" "evolves K R T1 T2" "unique_strings T1 \<Longrightarrow> unique_strings T2"
    using good_effectD [OF gc ok1] by blast
  have "evolves K R (T\<lparr>st_resizing := False\<rparr>) (T1\<lparr>st_resizing := False\<rparr>)"
    using same_content(4) [of "T1\<lparr>st_resizing := False\<rparr>" "T\<lparr>st_resizing := False\<rparr>"] c by simp
  moreover have "evolves K R (T1\<lparr>st_resizing := False\<rparr>) (T2\<lparr>st_resizing := False\<rparr>)" using T2(3) by (simp add: evolves_def)
  ultimately have "evolves K R (T\<lparr>st_resizing := False\<rparr>) (T2\<lparr>st_resizing := False\<rparr>)" using evolves_trans by blast
  moreover have "st_resizing T2" using T2(3) T(2) by (simp add: evolves_def T1_def)
  moreover have "duk__strtable_shrink_inplace gc T = Some T2"
    using g(1) T2(1) by (simp add: duk__strtable_shrink_inplace_def T1_def Let_def)
  ultimately show ?thesis using T2(2,4) same_content(3) [OF c(1,2)] by blast
qed

lemma resize_check_good:
  assumes "good_effect literal K R gc"
  shows "good_effect literal K R (duk__strtable_resize_check gc ok)"
  unfolding good_effect_def
proof (intro allI impI)
  fix T
  assume T: "table_ok literal T"
  show "\<exists>T'. duk__strtable_resize_check gc ok T = Some T' \<and> table_ok literal T' \<and> evolves K R T T'
      \<and> (unique_strings T \<longrightarrow> unique_strings T')"
  proof (cases "st_resizing T")
    case True
    then show ?thesis using T by (simp add: duk__strtable_resize_check_def)
  next
    case False
    define T1 where "T1 = T\<lparr>st_resizing := True\<rparr>"
    define load where "load = st_count T1 div drop_bit 4 (st_size T1)"
    define f where "f = (if load \<ge> DUK_USE_STRTAB_GROW_LIMIT then
                (if st_size T1 \<ge> DUK_USE_STRTAB_MAXSIZE then Some T1 else duk__strtable_grow_inplace gc ok T1)
             else if load \<le> DUK_USE_STRTAB_SHRINK_LIMIT then
                (if st_size T1 \<le> DUK_USE_STRTAB_MINSIZE then Some T1 else duk__strtable_shrink_inplace gc T1)
             else Some T1)"
    have T1: "table_ok literal T1" "st_resizing T1" "T1\<lparr>st_resizing := False\<rparr> = T" "unique_strings T1 = unique_strings T"
      using T False by (simp_all add: T1_def table_ok_flags)
    have "\<exists>T2. f = Some T2 \<and> table_ok literal T2 \<and> evolves K R T (T2\<lparr>st_resizing := False\<rparr>)
      \<and> (unique_strings T \<longrightarrow> unique_strings T2)"
      using grow_good [OF T1(1,2) _ assms, of ok] shrink_good [OF T1(1,2) _ assms] T1
      unfolding f_def by (cases "load \<ge> DUK_USE_STRTAB_GROW_LIMIT"; cases "st_size T1 \<ge> DUK_USE_STRTAB_MAXSIZE";
        cases "load \<le> DUK_USE_STRTAB_SHRINK_LIMIT"; cases "st_size T1 \<le> DUK_USE_STRTAB_MINSIZE") auto
    then obtain T2 where "f = Some T2" "table_ok literal T2" "evolves K R T (T2\<lparr>st_resizing := False\<rparr>)"
        "unique_strings T \<longrightarrow> unique_strings T2" by blast
    moreover have "duk__strtable_resize_check gc ok T = Option.bind f (\<lambda>T. Some (T\<lparr>st_resizing := False\<rparr>))"
      using False by (simp add: duk__strtable_resize_check_def f_def load_def T1_def Let_def)
    ultimately show ?thesis by (simp add: table_ok_flags)
  qed
qed

subsection \<open>Interning\<close>

definition fresh_malloc :: "(str_memory \<Rightarrow> str_ptr) \<Rightarrow> bool" where
  "fresh_malloc malloc \<longleftrightarrow> (\<forall>m. finite (dom m) \<longrightarrow> m (malloc m) = None)"

definition absent :: "string_table \<Rightarrow> u8 list \<Rightarrow> bool" where
  "absent T str \<longleftrightarrow> (\<forall>a s. str_mem T a = Some s \<longrightarrow> str_data s \<noteq> str)"

lemma alloc_hstring_fields [simp]:
  "h_hash (duk__strtable_alloc_hstring str strhash) = strhash"
  "str_data (duk__strtable_alloc_hstring str strhash) = str"
  "h_next (duk__strtable_alloc_hstring str strhash) = None"
  "has_pinned_literal (duk__strtable_alloc_hstring str strhash) = False"
  by (simp_all add: duk__strtable_alloc_hstring_def Let_def)

lemma string_hash:
  assumes "strings_ok T" "str_mem T a = Some s"
  shows "h_hash s = duk_heap_hashstring (hash_seed T) (str_data s)"
proof -
  have "h_hash (s\<lparr>h_next := None, has_pinned_literal := False\<rparr>) = duk_heap_hashstring (hash_seed T) (str_data s)"
    using assms unfolding strings_ok_def by (metis alloc_hstring_fields(1))
  then show ?thesis by simp
qed

lemma find_in_table:
  assumes "table_ok literal T" "strhash = duk_heap_hashstring (hash_seed T) str"
  shows "\<exists>r. find_string (str_mem T) (strtable T ! unat (strhash AND st_mask T)) str strhash = Some r
    \<and> (case r of Some a \<Rightarrow> \<exists>s. str_mem T a = Some s \<and> str_data s = str | None \<Rightarrow> absent T str)"
proof -
  obtain css where ok: "buckets_ok T css" and sok: "strings_ok T" using assms(1) by (auto simp: table_ok_def)
  note T = buckets_okD [OF ok]
  define i where "i = unat (strhash AND st_mask T)"
  have i: "i < length css" "i = unat strhash mod length css" using bucket_index [OF ok] T(6) by (simp_all add: i_def)
  let ?P = "\<lambda>a. \<exists>s. str_mem T a = Some s \<and> h_hash s = strhash \<and> str_data s = str"
  have f: "find_string (str_mem T) (strtable T ! i) str strhash = Some (List.find ?P (css ! i))"
    by (rule find_string_chain [OF chain_bucket [OF ok i(1)]])
  show ?thesis
  proof (cases "List.find ?P (css ! i)")
    case None
    have "str_data s \<noteq> str" if s: "str_mem T a = Some s" for a s
    proof
      assume d: "str_data s = str"
      then have h: "h_hash s = strhash" using string_hash [OF sok s] assms(2) by simp
      have "a \<in> set (concat css)" using s T(3) by auto
      then obtain j where j: "j < length css" "a \<in> set (css ! j)" by (auto simp: in_set_conv_nth) (metis in_set_conv_nth)
      then have "j = i" using T(7) [OF j] s h i(2) by (simp add: hash_of_def)
      then show False using None j(2) s h d by (auto simp: find_None_iff)
    qed
    then show ?thesis using f None by (simp add: i_def absent_def)
  next
    case (Some a)
    then have "?P a" by (auto simp: find_Some_iff)
    then show ?thesis using f Some by (auto simp: i_def)
  qed
qed

lemma do_intern_ok:
  assumes T: "table_ok literal T" and M: "fresh_malloc malloc"
    and gc: "good_effect literal K R (realloc_gc A)" "good_effect literal K R (alloc_gc A)"
    and h: "strhash = duk_heap_hashstring (hash_seed T) str"
  shows "\<exists>T' r. duk__strtable_do_intern malloc A T str strhash = Some (T', r) \<and> table_ok literal T'
    \<and> (case r of None \<Rightarrow> \<not> alloc_ok A \<and> evolves K R T T'
        | Some h \<Rightarrow> alloc_ok A \<and> evolves (insert str K) R T T' \<and> (\<exists>s. str_mem T' h = Some s \<and> str_data s = str))
    \<and> (unique_strings T \<and> absent T str \<and> str \<notin> K \<longrightarrow> unique_strings T')
    \<and> (alloc_ok A \<and> (\<forall>T1 T2. table_ok literal T1 \<and> alloc_gc A T1 = Some T2 \<longrightarrow> \<not> absent T2 str) \<longrightarrow> \<not> unique_strings T')"
proof -
  let ?T = "T\<lparr>pf_prevent_count := pf_prevent_count T + 1\<rparr>"
  define f where "f = (if st_count ?T AND DUK_USE_STRTAB_RESIZE_CHECK_MASK = 0
           then duk__strtable_resize_check (realloc_gc A) (realloc_ok A) ?T else Some ?T)"
  have T0: "table_ok literal ?T" using T by (simp add: table_ok_flags)
  have "\<exists>T1. f = Some T1 \<and> table_ok literal T1 \<and> evolves K R ?T T1 \<and> (unique_strings ?T \<longrightarrow> unique_strings T1)"
  proof (cases "st_count ?T AND DUK_USE_STRTAB_RESIZE_CHECK_MASK = 0")
    case True
    then show ?thesis using resize_check_good [OF gc(1), of "realloc_ok A"] T0 unfolding good_effect_def f_def by simp
  qed (use T0 in \<open>simp add: f_def\<close>)
  then obtain T1 where T1: "f = Some T1" "table_ok literal T1" "evolves K R ?T T1" "unique_strings ?T \<Longrightarrow> unique_strings T1"
    by blast
  obtain T2 where T2: "alloc_gc A T1 = Some T2" "table_ok literal T2" "evolves K R T1 T2" "unique_strings T1 \<Longrightarrow> unique_strings T2"
    using good_effectD [OF gc(2) T1(2)] by blast
  define T3 where "T3 = T2\<lparr>pf_prevent_count := pf_prevent_count T2 - 1\<rparr>"
  have "evolves K R ?T T2" using T1(3) T2(3) by (rule evolves_trans)
  then have e3: "evolves K R T T3" by (simp add: evolves_def T3_def)
  have T3: "table_ok literal T3" "unique_strings T \<Longrightarrow> unique_strings T3"
    using T2(2,4) T1(4) by (simp_all add: T3_def table_ok_flags)
  have unfold: "duk__strtable_do_intern malloc A T str strhash = (if \<not> alloc_ok A then Some (T3, None)
      else (let res = malloc (str_mem T3); slot = unat (strhash AND st_mask T3);
                s = (duk__strtable_alloc_hstring str strhash)\<lparr>h_next := strtable T3 ! slot\<rparr>
            in Some (T3\<lparr>str_mem := (str_mem T3)(res \<mapsto> s), strtable := (strtable T3)[slot := Some res],
                 st_count := st_count T3 + 1\<rparr>, Some res)))"
    using T1(1) T2(1) by (simp add: duk__strtable_do_intern_def f_def T3_def Let_def)
  show ?thesis
  proof (cases "alloc_ok A")
    case False
    then show ?thesis using unfold e3 T3 by simp
  next
    case True
    obtain css where css: "buckets_ok T3 css" using T3(1) by (auto simp: table_ok_def)
    define res where "res = malloc (str_mem T3)"
    define s where "s = (duk__strtable_alloc_hstring str strhash)\<lparr>h_next := strtable T3 ! unat (strhash AND st_mask T3)\<rparr>"
    define T4 where "T4 = T3\<lparr>str_mem := (str_mem T3)(res \<mapsto> s),
      strtable := (strtable T3)[unat (strhash AND st_mask T3) := Some res], st_count := st_count T3 + 1\<rparr>"
    have fresh: "str_mem T3 res = None"
      using M buckets_okD(3) [OF css] by (simp add: fresh_malloc_def res_def)
    have seed: "hash_seed T3 = hash_seed T" using e3 by (simp add: evolves_def)
    have "\<exists>css'. buckets_ok T4 css'"
      by (rule insert_string [OF css fresh, of "duk__strtable_alloc_hstring str strhash" strhash]) (simp_all add: T4_def s_def)
    moreover have "strings_ok T4"
      using T3(1) fresh by (auto simp: table_ok_def strings_ok_def T4_def s_def seed h)
    moreover have "litcache_ok literal T4"
      using T3(1) fresh by (fastforce simp: table_ok_def litcache_ok_def T4_def)
    ultimately have ok4: "table_ok literal T4" by (simp add: table_ok_def)
    have e4: "evolves (insert str K) R T3 T4"
      using fresh by (auto simp: evolves_def T4_def s_def)
    have "evolves (insert str K) R T T4"
      using evolves_trans [OF evolves_mono [OF e3] e4] by blast
    moreover have "unique_strings T4" if u: "unique_strings T" "absent T str" "str \<notin> K"
    proof -
      have "absent T3 str" using u(2,3) e3 unfolding absent_def evolves_def by metis
      then show ?thesis using T3(2) [OF u(1)] by (auto simp: unique_strings_def absent_def T4_def s_def split: if_splits)
    qed
    moreover have "duk__strtable_do_intern malloc A T str strhash = Some (T4, Some res)"
      using unfold True by (simp add: T4_def res_def s_def Let_def)
    moreover have "\<exists>s. str_mem T4 res = Some s \<and> str_data s = str" by (simp add: T4_def s_def)
    moreover have "\<not> unique_strings T4" if "\<forall>T1 T2. table_ok literal T1 \<and> alloc_gc A T1 = Some T2 \<longrightarrow> \<not> absent T2 str"
    proof -
      have "\<not> absent T2 str" using that T1(2) T2(1) by blast
      then obtain a t where a: "str_mem T3 a = Some t" "str_data t = str"
        by (auto simp: absent_def T3_def)
      then have "a \<noteq> res" using fresh by auto
      then have "str_mem T4 a = Some t" "str_mem T4 res = Some s" "str_data s = str" using a by (simp_all add: T4_def s_def)
      then show ?thesis using \<open>a \<noteq> res\<close> a(2) unfolding unique_strings_def by metis
    qed
    ultimately show ?thesis using ok4 True by simp
  qed
qed

lemma intern_ok:
  assumes T: "table_ok literal T" and M: "fresh_malloc malloc"
    and gc: "good_effect literal K R (realloc_gc A)" "good_effect literal K R (alloc_gc A)"
  shows "\<exists>T' r. duk_heap_strtable_intern malloc A T str = Some (T', r) \<and> table_ok literal T'
    \<and> (case r of None \<Rightarrow> \<not> alloc_ok A \<and> evolves K R T T'
        | Some h \<Rightarrow> evolves (insert str K) R T T' \<and> (\<exists>s. str_mem T' h = Some s \<and> str_data s = str))
    \<and> (unique_strings T \<and> str \<notin> K \<longrightarrow> unique_strings T')
    \<and> (\<not> absent T str \<longrightarrow> T' = T \<and> r \<noteq> None) \<and> (absent T str \<longrightarrow> (r = None) = (\<not> alloc_ok A))
    \<and> (absent T str \<and> alloc_ok A \<and> (\<forall>T1 T2. table_ok literal T1 \<and> alloc_gc A T1 = Some T2 \<longrightarrow> \<not> absent T2 str)
        \<longrightarrow> \<not> unique_strings T')"
proof -
  define strhash where "strhash = duk_heap_hashstring (hash_seed T) str"
  obtain r where r: "find_string (str_mem T) (strtable T ! unat (strhash AND st_mask T)) str strhash = Some r"
      "case r of Some a \<Rightarrow> \<exists>s. str_mem T a = Some s \<and> str_data s = str | None \<Rightarrow> absent T str"
    using find_in_table [OF T strhash_def] by blast
  show ?thesis
  proof (cases r)
    case None
    then obtain T' r' where d: "duk__strtable_do_intern malloc A T str strhash = Some (T', r')" "table_ok literal T'"
        "case r' of None \<Rightarrow> \<not> alloc_ok A \<and> evolves K R T T'
        | Some h \<Rightarrow> alloc_ok A \<and> evolves (insert str K) R T T' \<and> (\<exists>s. str_mem T' h = Some s \<and> str_data s = str)"
        "unique_strings T \<and> absent T str \<and> str \<notin> K \<longrightarrow> unique_strings T'"
        "alloc_ok A \<and> (\<forall>T1 T2. table_ok literal T1 \<and> alloc_gc A T1 = Some T2 \<longrightarrow> \<not> absent T2 str) \<longrightarrow> \<not> unique_strings T'"
      using do_intern_ok [OF T M gc strhash_def] by blast
    have "duk_heap_strtable_intern malloc A T str = Some (T', r')"
      using r(1) None d(1) by (simp add: duk_heap_strtable_intern_def strhash_def)
    then show ?thesis using d(2-5) r(2) None by (cases r') simp_all
  next
    case (Some a)
    then have "duk_heap_strtable_intern malloc A T str = Some (T, Some a)"
      using r(1) by (simp add: duk_heap_strtable_intern_def strhash_def)
    moreover have "\<not> absent T str" using r(2) Some by (auto simp: absent_def)
    ultimately show ?thesis using r(2) Some T by simp
  qed
qed

subsection \<open>Collections and removal keep the table\<close>

fun event_keys :: "table_event \<Rightarrow> u8 list set" where
  "event_keys (Compact_key val rok ok) = {u32_digits val []}"
| "event_keys _ = {}"

fun event_survivors :: "table_event \<Rightarrow> str_ptr set" where
  "event_survivors (Collect reachable) = {a. reachable a}"
| "event_survivors _ = UNIV"

lemma good_mono:
  assumes "good_effect literal K R f" "K \<subseteq> K'" "R' \<subseteq> R"
  shows "good_effect literal K' R' f"
  using assms evolves_mono unfolding good_effect_def by metis

lemma wiped: "table_ok literal T \<Longrightarrow> table_ok literal (duk__wipe_litcache T)"
  unfolding table_ok_def
proof (elim conjE exE, intro conjI exI)
  have "buckets_ok (duk__wipe_litcache T) css = buckets_ok T css" for css
    by (simp add: buckets_ok_def duk__wipe_litcache_def)
  then show "buckets_ok T css \<Longrightarrow> buckets_ok (duk__wipe_litcache T) css" for css by simp
qed (auto simp: strings_ok_def litcache_ok_def duk__wipe_litcache_def)

text \<open>A table that has lost strings; \<open>P\<close> are the ones that stay.\<close>

lemma restricted:
  assumes T: "table_ok literal T" and T': "buckets_ok T' css'" "same_rest T T'"
    and c: "content (str_mem T') = (\<lambda>a. if P a then content (str_mem T) a else None)"
    and pinned: "\<forall>(addr, h) \<in> set (litcache T). addr \<noteq> 0 \<longrightarrow> P h"
  shows "table_ok literal T' \<and> evolves {} {a. P a} T T' \<and> (unique_strings T \<longrightarrow> unique_strings T')"
proof -
  have bwd: "\<exists>s q. str_mem T a = Some s \<and> s' = s\<lparr>h_next := q\<rparr>" if "str_mem T' a = Some s'" for a s'
  proof -
    note m = that
    have "content (str_mem T') a \<noteq> None" using m by (simp add: content_def)
    then have "content (str_mem T) a = content (str_mem T') a" using fun_cong [OF c, of a] by (simp split: if_splits)
    then obtain q where "str_mem T a = Some (s'\<lparr>h_next := q\<rparr>)" using content_Some [of "str_mem T" a "str_mem T'" s'] m by blast
    then show ?thesis by (intro exI [of _ "s'\<lparr>h_next := q\<rparr>"] exI [of _ "h_next s'"]) simp
  qed
  have fwd: "\<exists>q. str_mem T' a = Some (s\<lparr>h_next := q\<rparr>)" if "str_mem T a = Some s" "P a" for a s
    using content_Some [of "str_mem T'" a "str_mem T" s] fun_cong [OF c, of a] that by simp
  have seed: "hash_seed T' = hash_seed T" "litcache T' = litcache T" using T'(2) by (simp_all add: same_rest_def)
  have "strings_ok T'"
    unfolding strings_ok_def
  proof (intro allI impI)
    fix a s'
    assume "str_mem T' a = Some s'"
    then obtain s q where "str_mem T a = Some s" "s' = s\<lparr>h_next := q\<rparr>" using bwd by blast
    then show "s'\<lparr>h_next := None, has_pinned_literal := False\<rparr>
        = duk__strtable_alloc_hstring (str_data s') (duk_heap_hashstring (hash_seed T') (str_data s'))"
      using T seed(1) unfolding table_ok_def strings_ok_def by simp
  qed
  moreover have "litcache_ok literal T'"
  proof -
    have "\<exists>s. str_mem T' h = Some s \<and> has_pinned_literal s \<and> str_data s = literal addr"
      if entry: "(addr, h) \<in> set (litcache T)" "addr \<noteq> 0" for addr h
    proof -
      obtain s where "str_mem T h = Some s" "has_pinned_literal s" "str_data s = literal addr"
        using table_ok_litcache [OF T entry] by blast
      moreover have "P h" using pinned entry by blast
      ultimately show ?thesis using fwd [of h s] by auto
    qed
    then show ?thesis using T seed(2) unfolding table_ok_def litcache_ok_def by auto
  qed
  moreover have "evolves {} {a. P a} T T'"
    using T'(2) bwd fwd unfolding evolves_def same_rest_def by fastforce
  moreover have "unique_strings T'" if "unique_strings T"
    using that bwd unfolding unique_strings_def
    by (metis duk_hstring.select_convs(3) duk_hstring.surjective duk_hstring.update_convs(1))
  ultimately show ?thesis using T'(1) by (auto simp: table_ok_def)
qed

lemma collect_good: "good_effect literal {} {a. reachable a} (\<lambda>T. sweep_strings reachable (unat (st_size T)) (duk__wipe_litcache T))"
  unfolding good_effect_def
proof (intro allI impI)
  fix T
  assume T: "table_ok literal T"
  let ?T = "duk__wipe_litcache T"
  have w: "table_ok literal ?T" "st_size ?T = st_size T" "evolves {} {a. reachable a} T ?T" "unique_strings ?T = unique_strings T"
    using wiped [OF T] by (simp_all add: duk__wipe_litcache_def evolves_def unique_strings_def)
  obtain css where css: "buckets_ok ?T css" using w(1) by (auto simp: table_ok_def)
  obtain T' css' where T': "sweep_strings reachable (unat (st_size T)) ?T = Some T'" "buckets_ok T' css'" "same_rest ?T T'"
      "content (str_mem T') = (\<lambda>a. if reachable a then content (str_mem ?T) a else None)"
    using sweep_all [OF css, of reachable] w(2) by auto
  have "\<forall>(addr, h) \<in> set (litcache ?T). addr \<noteq> 0 \<longrightarrow> reachable h" by (auto simp: duk__wipe_litcache_def)
  note res = restricted [OF w(1) T'(2,3,4) this]
  then have "evolves {} {a. reachable a} T T'" using evolves_trans [OF w(3)] by blast
  then show "\<exists>T'. sweep_strings reachable (unat (st_size T)) ?T = Some T' \<and> table_ok literal T'
      \<and> evolves {} {a. reachable a} T T' \<and> (unique_strings T \<longrightarrow> unique_strings T')"
    using T'(1) res w(4) by blast
qed

lemma gc_event_good:
  assumes "fresh_malloc malloc"
  shows "good_effect literal (event_keys ev) (event_survivors ev) (gc_event malloc ev)"
proof (cases ev)
  case (Collect reachable)
  have "gc_event malloc ev = (\<lambda>T. sweep_strings reachable (unat (st_size T)) (duk__wipe_litcache T))"
    by (rule ext) (simp add: Collect)
  then show ?thesis using collect_good by (simp add: Collect)
next
  case (Compact_key val rok ok)
  show ?thesis unfolding good_effect_def
  proof (intro allI impI)
    fix T
    assume T: "table_ok literal T"
    have q: "good_effect literal {} UNIV (realloc_gc (quiet rok ok))" "good_effect literal {} UNIV (alloc_gc (quiet rok ok))"
      by (simp_all add: quiet_def good_Some)
    obtain T' r where i: "duk_heap_strtable_intern malloc (quiet rok ok) T (u32_digits val []) = Some (T', r)"
        "table_ok literal T'" "unique_strings T \<longrightarrow> unique_strings T'"
        "evolves {} UNIV T T' \<or> evolves {u32_digits val []} UNIV T T'"
      using intern_ok [OF T assms q, of "u32_digits val []"] by (auto split: option.splits)
    have "evolves {u32_digits val []} UNIV T T'" using i(4) evolves_mono by blast
    moreover have "gc_event malloc ev T = Some T'"
      using i(1) by (simp add: Compact_key duk_heap_strtable_intern_u32_checked_def duk_heap_strtable_intern_u32_def)
    ultimately show "\<exists>T'. gc_event malloc ev T = Some T' \<and> table_ok literal T'
        \<and> evolves (event_keys ev) (event_survivors ev) T T' \<and> (unique_strings T \<longrightarrow> unique_strings T')"
      using i(2,3) by (intro exI [of _ T']) (simp add: Compact_key)
  qed
next
  case (Resize ok)
  have "gc_event malloc ev = duk__strtable_resize_check Some ok"
    by (rule ext) (simp add: Resize duk_heap_strtable_force_resize_def)
  then show ?thesis using resize_check_good [OF good_Some] by (simp add: Resize)
qed

lemma good_comp:
  assumes "good_effect literal K R (gc_event malloc ev)" "good_effect literal K R (gc_events malloc evs)"
  shows "good_effect literal K R (gc_events malloc (ev # evs))"
  unfolding good_effect_def
proof (intro allI impI)
  fix T
  assume T: "table_ok literal T"
  obtain T1 where T1: "gc_event malloc ev T = Some T1" "table_ok literal T1" "evolves K R T T1" "unique_strings T \<Longrightarrow> unique_strings T1"
    using good_effectD [OF assms(1) T] by blast
  obtain T2 where T2: "gc_events malloc evs T1 = Some T2" "table_ok literal T2" "evolves K R T1 T2" "unique_strings T1 \<Longrightarrow> unique_strings T2"
    using good_effectD [OF assms(2) T1(2)] by blast
  show "\<exists>T'. gc_events malloc (ev # evs) T = Some T' \<and> table_ok literal T' \<and> evolves K R T T'
      \<and> (unique_strings T \<longrightarrow> unique_strings T')"
    using T1 T2 evolves_trans [OF T1(3) T2(3)] by (intro exI [of _ T2]) simp
qed

lemma gc_events_good:
  assumes "fresh_malloc malloc"
  shows "good_effect literal (\<Union>ev \<in> set evs. event_keys ev) (\<Inter>ev \<in> set evs. event_survivors ev) (gc_events malloc evs)"
proof (induction evs)
  case Nil
  have "gc_events malloc [] = Some" by (rule ext) simp
  then show ?case by (simp add: good_Some)
next
  case (Cons ev evs)
  let ?K = "\<Union>ev \<in> set (ev # evs). event_keys ev" and ?R = "\<Inter>ev \<in> set (ev # evs). event_survivors ev"
  have "good_effect literal ?K ?R (gc_event malloc ev)" "good_effect literal ?K ?R (gc_events malloc evs)"
    by (rule good_mono [OF gc_event_good [OF assms]], auto, rule good_mono [OF Cons], auto)
  then show ?case
    by (rule good_comp)
qed

lemma refzero_ok:
  assumes "table_ok literal T" "str_mem T h = Some s" "\<not> has_pinned_literal s"
  shows "\<exists>T'. duk__hstring_refzero_helper T h = Some T' \<and> table_ok literal T' \<and> evolves {} (- {h}) T T'
    \<and> (unique_strings T \<longrightarrow> unique_strings T')"
proof -
  obtain css where css: "buckets_ok T css" using assms(1) by (auto simp: table_ok_def)
  have "h \<in> set (concat css)" using buckets_okD(3) [OF css] assms(2) by auto
  then obtain cs where "cs \<in> set css" "h \<in> set cs" by auto
  then obtain i where i: "i < length css" "h \<in> set (css ! i)" by (metis in_set_conv_nth)
  then obtain low as where split: "css ! i = low @ h # as" by (meson split_list)
  obtain T1 where T1: "duk_heap_strtable_unlink T h = Some T1" "buckets_ok (duk_free_hstring T1 h) (css[i := low @ as])"
      "same_rest T (duk_free_hstring T1 h)" "content (str_mem (duk_free_hstring T1 h)) = (content (str_mem T))(h := None)"
    using unlink_free [OF css i(1) split refl] unlink_is_unlink_prev [OF css i(1) split] by auto
  have c: "content (str_mem (duk_free_hstring T1 h)) = (\<lambda>a. if a \<noteq> h then content (str_mem T) a else None)"
    unfolding T1(4) by auto
  have "\<forall>(addr, h') \<in> set (litcache T). addr \<noteq> 0 \<longrightarrow> h' \<noteq> h"
    using assms unfolding table_ok_def litcache_ok_def by force
  note res = restricted [OF assms(1) T1(2,3) c this]
  moreover have "{a. a \<noteq> h} = - {h}" by auto
  ultimately show ?thesis using T1(1) by (simp add: duk__hstring_refzero_helper_def)
qed

subsection \<open>Operations keep the table\<close>

definition calls_keys :: "intern_calls \<Rightarrow> u8 list set" where
  "calls_keys c = (\<Union>ev \<in> set (realloc_events c @ alloc_events c). event_keys ev)"

definition calls_survivors :: "intern_calls \<Rightarrow> str_ptr set" where
  "calls_survivors c = (\<Inter>ev \<in> set (realloc_events c @ alloc_events c). event_survivors ev)"

lemma calls_good:
  assumes "fresh_malloc malloc"
  shows "good_effect literal (calls_keys c) (calls_survivors c) (realloc_gc (calls malloc c))"
    "good_effect literal (calls_keys c) (calls_survivors c) (alloc_gc (calls malloc c))"
  unfolding calls_def alloc_calls.select_convs
  by (rule good_mono [OF gc_events_good [OF assms]]; auto simp: calls_keys_def calls_survivors_def)+

lemma intern_checked_ok:
  assumes T: "table_ok literal T" and M: "fresh_malloc malloc"
  shows "\<exists>T' r. duk_heap_strtable_intern_checked malloc (calls malloc c) T str = Some (T', r) \<and> table_ok literal T'
    \<and> (case r of Inl e \<Rightarrow> e = AllocFailed \<and> absent T str \<and> \<not> alloc_succeeds c
        | Inr h \<Rightarrow> (\<exists>s. str_mem T' h = Some s \<and> str_data s = str))
    \<and> evolves (insert str (calls_keys c)) (calls_survivors c) T T'
    \<and> (unique_strings T \<and> str \<notin> calls_keys c \<longrightarrow> unique_strings T')
    \<and> (\<not> absent T str \<longrightarrow> T' = T)
    \<and> (absent T str \<and> alloc_succeeds c \<and> (\<forall>T1 T2. table_ok literal T1 \<and> gc_events malloc (alloc_events c) T1 = Some T2
        \<longrightarrow> \<not> absent T2 str) \<longrightarrow> \<not> unique_strings T')"
proof -
  obtain T' r where i: "duk_heap_strtable_intern malloc (calls malloc c) T str = Some (T', r)" "table_ok literal T'"
      "case r of None \<Rightarrow> \<not> alloc_ok (calls malloc c) \<and> evolves (calls_keys c) (calls_survivors c) T T'
        | Some h \<Rightarrow> evolves (insert str (calls_keys c)) (calls_survivors c) T T' \<and> (\<exists>s. str_mem T' h = Some s \<and> str_data s = str)"
      "unique_strings T \<and> str \<notin> calls_keys c \<longrightarrow> unique_strings T'" "\<not> absent T str \<longrightarrow> T' = T \<and> r \<noteq> None"
      "absent T str \<longrightarrow> (r = None) = (\<not> alloc_ok (calls malloc c))"
      "absent T str \<and> alloc_ok (calls malloc c) \<and> (\<forall>T1 T2. table_ok literal T1 \<and> alloc_gc (calls malloc c) T1 = Some T2
        \<longrightarrow> \<not> absent T2 str) \<longrightarrow> \<not> unique_strings T'"
    using intern_ok [OF T M calls_good [OF M], of c str] by blast
  have a: "alloc_ok (calls malloc c) = alloc_succeeds c" "alloc_gc (calls malloc c) = gc_events malloc (alloc_events c)"
    by (simp_all add: calls_def)
  have e: "evolves (insert str (calls_keys c)) (calls_survivors c) T T'"
    using i(3) evolves_mono [of "calls_keys c" _ T T' "insert str (calls_keys c)"] by (cases r) auto
  define r' where "r' = (case r of None \<Rightarrow> Inl AllocFailed | Some h \<Rightarrow> Inr h)"
  have "duk_heap_strtable_intern_checked malloc (calls malloc c) T str = Some (T', r')"
    using i(1) by (simp add: duk_heap_strtable_intern_checked_def r'_def)
  moreover have "case r' of Inl e \<Rightarrow> e = AllocFailed \<and> absent T str \<and> \<not> alloc_succeeds c
        | Inr h \<Rightarrow> (\<exists>s. str_mem T' h = Some s \<and> str_data s = str)"
    using i(3,5,6) a(1) unfolding r'_def by (cases r) auto
  ultimately show ?thesis using i(2,4,5,7) e unfolding a by blast
qed

text \<open>Pinning a string changes none of the facts on the table.\<close>

lemma pin_ok:
  assumes T: "table_ok literal T" and s: "str_mem T h = Some s" "str_data s = literal addr" and addr: "addr \<noteq> 0" "k < 256"
    and T': "T' = T\<lparr>litcache := (litcache T)[k := (addr, h)], str_mem := (str_mem T)(h \<mapsto> s\<lparr>has_pinned_literal := True\<rparr>)\<rparr>"
  shows "table_ok literal T' \<and> evolves {} UNIV T T' \<and> (unique_strings T \<longrightarrow> unique_strings T')"
proof -
  obtain css where css: "buckets_ok T css" using T by (auto simp: table_ok_def)
  have ch: "chain (str_mem T') p as = chain (str_mem T) p as" for p as
    by (induction as arbitrary: p) (auto simp: T' s(1))
  have "hash_of (str_mem T') = hash_of (str_mem T)" by (rule ext) (simp add: hash_of_def T' s(1))
  moreover have "dom (str_mem T') = dom (str_mem T)" using s(1) by (auto simp: T')
  ultimately have "buckets_ok T' css = buckets_ok T css" unfolding buckets_ok_def ch by (simp add: T')
  moreover have "strings_ok T'"
    using T s(1) unfolding table_ok_def strings_ok_def T' by (auto split: if_splits)
  moreover have "litcache_ok literal T'"
  proof -
    have "\<exists>s. str_mem T' h' = Some s \<and> has_pinned_literal s \<and> str_data s = literal addr'"
      if in_new: "(addr', h') \<in> set (litcache T')" "addr' \<noteq> 0" for addr' h'
    proof (cases "h' = h")
      case True
      have "literal addr' = literal addr"
      proof (cases "(addr', h') = (addr, h)")
        case False
        then have "(addr', h') \<in> set (litcache T)" using in_new(1) set_update_subset_insert unfolding T' by fastforce
        then obtain t where "str_mem T h' = Some t" "str_data t = literal addr'"
          using table_ok_litcache [OF T _ in_new(2)] by blast
        then show ?thesis using s True by simp
      qed simp
      then show ?thesis using s True by (simp add: T')
    next
      case False
      then have "(addr', h') \<in> set (litcache T)" using in_new(1) set_update_subset_insert unfolding T' by fastforce
      then show ?thesis using table_ok_litcache [OF T _ in_new(2)] False by (simp add: T')
    qed
    moreover have "length (litcache T') = 256" using T by (simp add: table_ok_def litcache_ok_def T')
    ultimately show ?thesis unfolding litcache_ok_def by blast
  qed
  moreover have "evolves {} UNIV T T'" using s(1) by (auto simp: evolves_def T')
  moreover have "unique_strings T \<longrightarrow> unique_strings T'" using s(1) by (auto simp: unique_strings_def T' split: if_splits)
  ultimately show ?thesis using css by (auto simp: table_ok_def)
qed

lemma litcache_key_bound: "unat (duk__strtable_litcache_key addr blen) < 256"
proof -
  have "unat ((ucast blen XOR addr) AND 0xff) < 256"
    by (simp add: word_nat)
  then show ?thesis by (simp add: duk__strtable_litcache_key_def DUK_USE_LITCACHE_SIZE_def word_nat)
qed

lemma intern_literal_ok:
  assumes T: "table_ok literal T" and M: "fresh_malloc malloc" and addr: "addr \<noteq> 0"
  shows "\<exists>T' r. duk_heap_strtable_intern_literal_checked malloc (calls malloc c) literal T addr = Some (T', r) \<and> table_ok literal T'
    \<and> (case r of Inl e \<Rightarrow> e = AllocFailed | Inr h \<Rightarrow> (\<exists>s. str_mem T' h = Some s \<and> str_data s = literal addr))
    \<and> (unique_strings T \<and> literal addr \<notin> calls_keys c \<longrightarrow> unique_strings T')"
proof -
  define k where "k = unat (duk__strtable_litcache_key addr (of_nat (length (literal addr))))"
  have k: "k < 256" unfolding k_def by (rule litcache_key_bound)
  show ?thesis
  proof (cases "fst (litcache T ! k) = addr")
    case True
    have "length (litcache T) = 256" using T by (simp add: table_ok_def litcache_ok_def)
    then have "litcache T ! k \<in> set (litcache T)" using k by simp
    then have "\<exists>s. str_mem T (snd (litcache T ! k)) = Some s \<and> str_data s = literal addr"
      using table_ok_litcache [OF T, of addr "snd (litcache T ! k)"] True addr by (metis prod.collapse)
    then show ?thesis
      using True T by (simp add: duk_heap_strtable_intern_literal_checked_def k_def Let_def)
  next
    case False
    obtain T1 r where i: "duk_heap_strtable_intern_checked malloc (calls malloc c) T (literal addr) = Some (T1, r)"
        "table_ok literal T1" "case r of Inl e \<Rightarrow> e = AllocFailed \<and> absent T (literal addr) \<and> \<not> alloc_succeeds c
        | Inr h \<Rightarrow> (\<exists>s. str_mem T1 h = Some s \<and> str_data s = literal addr)"
        "unique_strings T \<and> literal addr \<notin> calls_keys c \<longrightarrow> unique_strings T1"
      using intern_checked_ok [OF T M, of c "literal addr"] by blast
    show ?thesis
    proof (cases r)
      case (Inl e)
      then show ?thesis
        using False i by (simp add: duk_heap_strtable_intern_literal_checked_def k_def Let_def)
    next
      case (Inr h)
      then obtain s where s: "str_mem T1 h = Some s" "str_data s = literal addr" using i(3) by auto
      define T2 where "T2 = T1\<lparr>litcache := (litcache T1)[k := (addr, h)], str_mem := (str_mem T1)(h \<mapsto> s\<lparr>has_pinned_literal := True\<rparr>)\<rparr>"
      note p = pin_ok [OF i(2) s addr k T2_def]
      have T2': "T1\<lparr>litcache := (litcache T1)[k := (addr, h)]\<rparr> = T2" if "has_pinned_literal s"
      proof -
        have "s\<lparr>has_pinned_literal := True\<rparr> = s" using that by simp
        then show ?thesis using s(1) by (simp add: T2_def fun_upd_idem)
      qed
      have "duk_heap_strtable_intern_literal_checked malloc (calls malloc c) literal T addr = Some (T2, Inr h)"
        using False i(1) Inr s(1) T2' by (simp add: duk_heap_strtable_intern_literal_checked_def k_def Let_def T2_def)
      moreover have "\<exists>s. str_mem T2 h = Some s \<and> str_data s = literal addr" using s by (simp add: T2_def)
      ultimately show ?thesis using p i(4) by simp
    qed
  qed
qed

lemma init_ok: "table_ok literal (strtable_init seed)" "unique_strings (strtable_init seed)"
proof -
  have "chains Map.empty (replicate 1024 None) (replicate 1024 [])"
    by (simp add: list_all2_conv_all_nth)
  moreover have "(1024 :: u32) = 2 ^ 10" by simp
  then have "\<exists>k. 10 \<le> k \<and> k \<le> 28 \<and> (1024 :: u32) = 2 ^ k" by (intro exI [of _ 10]) simp
  ultimately have "buckets_ok (strtable_init seed) (replicate 1024 [])"
    by (simp add: buckets_ok_def strtable_init_def DUK_USE_STRTAB_MINSIZE_def)
  then show "table_ok literal (strtable_init seed)"
    by (auto simp: table_ok_def strings_ok_def litcache_ok_def strtable_init_def DUK_USE_LITCACHE_SIZE_def)
qed (simp add: unique_strings_def strtable_init_def)

subsection \<open>Reachable tables\<close>

text \<open>A string is freed by reference counting only when it is not pinned; a literal has an address.\<close>

fun valid_op :: "table_op \<Rightarrow> string_table \<Rightarrow> bool" where
  "valid_op (Free_string h) T = (case str_mem T h of None \<Rightarrow> False | Some s \<Rightarrow> \<not> has_pinned_literal s)"
| "valid_op (Intern_literal addr c) T = (addr \<noteq> 0)"
| "valid_op _ T = True"

text \<open>The collections inside an interning operation do not intern the same string.\<close>

fun clean_op :: "(u64 \<Rightarrow> u8 list) \<Rightarrow> table_op \<Rightarrow> bool" where
  "clean_op literal (Intern str c) = (str \<notin> calls_keys c)"
| "clean_op literal (Intern_u32 val c) = (u32_digits val [] \<notin> calls_keys c)"
| "clean_op literal (Intern_literal addr c) = (literal addr \<notin> calls_keys c)"
| "clean_op literal _ = True"

inductive table_reachable :: "(str_memory \<Rightarrow> str_ptr) \<Rightarrow> (u64 \<Rightarrow> u8 list) \<Rightarrow> string_table \<Rightarrow> bool" for malloc literal where
  init: "table_reachable malloc literal (strtable_init seed)"
| step: "table_reachable malloc literal T \<Longrightarrow> valid_op op T \<Longrightarrow> clean_op literal op \<Longrightarrow>
    table_step malloc literal op T = Some T' \<Longrightarrow> table_reachable malloc literal T'"

lemma table_step_ok:
  assumes M: "fresh_malloc malloc" and T: "table_ok literal T" and op: "valid_op op T"
  shows "\<exists>T'. table_step malloc literal op T = Some T' \<and> table_ok literal T'
    \<and> (unique_strings T \<and> clean_op literal op \<longrightarrow> unique_strings T')"
proof (cases op)
  case (Intern str c)
  then show ?thesis using intern_checked_ok [OF T M, of c str] by auto
next
  case (Intern_u32 val c)
  have "duk_heap_strtable_intern_u32_checked malloc A T val = duk_heap_strtable_intern_checked malloc A T (u32_digits val [])" for A
    by (simp add: duk_heap_strtable_intern_u32_checked_def duk_heap_strtable_intern_checked_def duk_heap_strtable_intern_u32_def)
  then show ?thesis using intern_checked_ok [OF T M, of c "u32_digits val []"] Intern_u32 by auto
next
  case (Intern_literal addr c)
  then show ?thesis using intern_literal_ok [OF T M, of addr c] op by auto
next
  case (Free_string h)
  then obtain s where "str_mem T h = Some s" "\<not> has_pinned_literal s" using op by (auto split: option.splits)
  then show ?thesis using refzero_ok [OF T] Free_string by auto
next
  case (Gc evs)
  then show ?thesis using gc_events_good [OF M, of literal evs] T unfolding good_effect_def by auto
qed

lemma reachable_ok:
  assumes "fresh_malloc malloc"
  shows "table_reachable malloc literal T \<Longrightarrow> table_ok literal T \<and> unique_strings T"
proof (induction rule: table_reachable.induct)
  case (init seed)
  show ?case using init_ok by blast
next
  case (step T op T')
  then show ?case using table_step_ok [OF assms _ step.hyps(2), of literal] by auto
qed


definition plain_calls :: intern_calls where
  "plain_calls = \<lparr>realloc_events = [], realloc_succeeds = True, alloc_events = [], alloc_succeeds = True\<rparr>"

lemma fresh_malloc_exists: "\<exists>malloc. fresh_malloc malloc"
proof -
  have "\<exists>a. m a = None" if "finite (dom m)" for m :: str_memory
    using ex_new_if_finite [OF infinite_UNIV_nat that] by (auto simp: domIff)
  then show ?thesis by (intro exI [of _ "\<lambda>m. LEAST a. m a = None"]) (auto simp: fresh_malloc_def intro: LeastI_ex)
qed

lemma intern_first:
  assumes "fresh_malloc malloc"
  shows "\<exists>T h s. table_reachable malloc literal T \<and> str_mem T h = Some s \<and> str_data s = [0x61]"
proof -
  obtain T r where T: "duk_heap_strtable_intern_checked malloc (calls malloc plain_calls) (strtable_init 0) [0x61] = Some (T, r)"
      "case r of Inl e \<Rightarrow> e = AllocFailed \<and> absent (strtable_init 0) [0x61] \<and> \<not> alloc_succeeds plain_calls
        | Inr h \<Rightarrow> \<exists>s. str_mem T h = Some s \<and> str_data s = [0x61]"
    using intern_checked_ok [OF init_ok(1) [where seed = 0] assms, where c = plain_calls and str = "[0x61]"] by blast
  have "table_reachable malloc literal T"
    by (rule table_reachable.step [OF table_reachable.init [of malloc literal 0], of "Intern [0x61] plain_calls"])
      (use T(1) in \<open>simp_all add: calls_keys_def plain_calls_def\<close>)
  then show ?thesis using T(2) by (cases r) (auto simp: plain_calls_def)
qed


text \<open>
  C10: Interning during object compaction.  When the allocation of a new string runs an emergency
  collection and the object compaction of that collection interns the same array index as a key, the
  string is in the table twice, as two different objects.
\<close>

theorem interned_twice:
  assumes "fresh_malloc malloc" "table_reachable malloc literal T" "absent T (u32_digits val [])"
    and "c = plain_calls\<lparr>alloc_events := [Compact_key val rok True]\<rparr>"
  shows "\<exists>T' a b s t. table_step malloc literal (Intern_u32 val c) T = Some T' \<and> a \<noteq> b
    \<and> str_mem T' a = Some s \<and> str_mem T' b = Some t \<and> str_data s = str_data t"
proof -
  note T = conjunct1 [OF reachable_ok [OF assms(1,2)]]
  let ?str = "u32_digits val []"
  have "\<not> absent T2 ?str" if ok: "table_ok literal T1" and run: "gc_events malloc (alloc_events c) T1 = Some T2" for T1 T2
  proof -
    have q: "good_effect literal {} UNIV (realloc_gc (quiet rok True))" "good_effect literal {} UNIV (alloc_gc (quiet rok True))"
      by (simp_all add: quiet_def good_Some)
    obtain T3 r where i: "duk_heap_strtable_intern malloc (quiet rok True) T1 ?str = Some (T3, r)"
        "case r of None \<Rightarrow> \<not> alloc_ok (quiet rok True) \<and> evolves {} UNIV T1 T3
          | Some h \<Rightarrow> evolves (insert ?str {}) UNIV T1 T3 \<and> (\<exists>s. str_mem T3 h = Some s \<and> str_data s = ?str)"
      using intern_ok [OF ok assms(1) q, of ?str] by blast
    moreover have "T2 = T3"
      using run i(1) by (simp add: assms(4) duk_heap_strtable_intern_u32_checked_def duk_heap_strtable_intern_u32_def)
    ultimately show ?thesis using i(2) by (cases r) (auto simp: absent_def quiet_def)
  qed
  moreover have "alloc_succeeds c" by (simp add: assms(4) plain_calls_def)
  ultimately obtain T' r where i: "duk_heap_strtable_intern_checked malloc (calls malloc c) T ?str = Some (T', r)" "\<not> unique_strings T'"
    using intern_checked_ok [OF T assms(1), of c ?str] assms(3) by blast
  have "table_step malloc literal (Intern_u32 val c) T = Some T'"
    using i(1) by (auto simp: duk_heap_strtable_intern_u32_checked_def duk_heap_strtable_intern_checked_def
        duk_heap_strtable_intern_u32_def)
  then show ?thesis using i(2) unfolding unique_strings_def by blast
qed

theorem interned_twice_witness:
  "\<exists>malloc T' a b s t. table_step malloc (\<lambda>_. []) (Intern_u32 7 (plain_calls\<lparr>alloc_events := [Compact_key 7 True True]\<rparr>)) (strtable_init 0)
      = Some T' \<and> a \<noteq> b \<and> str_mem T' a = Some s \<and> str_mem T' b = Some t \<and> str_data s = str_data t"
proof -
  obtain malloc where M: "fresh_malloc malloc" using fresh_malloc_exists by blast
  have "absent (strtable_init 0) (u32_digits 7 [])" by (simp add: absent_def strtable_init_def)
  from interned_twice [OF M table_reachable.init this refl, where literal = "\<lambda>_. []" and rok = True] show ?thesis by blast
qed

end
