(* ===== verification/Spec2Isabelle.thy ===== *)
theory Spec2Isabelle
  imports Encoding Codec Bitstream Pc2line Bigint Hashmod Valresize Marksweep Sysexec Appattach Arraysort Strintern
begin

text \<open>
  Verification library for the Duktape engine of \<^verbatim>\<open>duktape/duktape.c\<close>.
\<close>

end
